(* ===== verification/Prelude.thy ===== *)
theory Prelude
  imports Main "HOL-Library.Word" "HOL-Library.Monad_Syntax"
begin

text \<open>
  Shared vocabulary of the development: bytes and little-endian integers, slices of
  fixed-size buffers, option-valued kernel operations (\<open>None\<close> is a kernel panic: a failed
  \<open>assert!\<close>, \<open>expect\<close> or slice-index check of the Rust source), alignment arithmetic,
  and the collections of rewrite rules the component theories share.
\<close>

named_theorems slice_simps \<open>reading and overwriting slices of byte buffers\<close>
named_theorems layout_simps \<open>sizes and offsets of on-disk structures\<close>
named_theorems fs_frame \<open>what a file-system operation leaves unchanged\<close>

type_synonym byte = "8 word"
type_synonym block = "byte list"
type_synonym disk = "nat \<Rightarrow> block"

section \<open>Slices of buffers\<close>

text \<open>\<open>slice off n xs\<close> is Rust's \<open>&xs[off..off + n]\<close>, and \<open>splice off ys xs\<close> is
  \<open>xs[off..off + ys.len()].copy_from_slice(ys)\<close>; both are used inside the bounds only.\<close>

definition slice :: "nat \<Rightarrow> nat \<Rightarrow> 'a list \<Rightarrow> 'a list" where
  "slice off n xs = take n (drop off xs)"

definition splice :: "nat \<Rightarrow> 'a list \<Rightarrow> 'a list \<Rightarrow> 'a list" where
  "splice off ys xs = take off xs @ ys @ drop (off + length ys) xs"

lemma length_slice [simp]: "length (slice off n xs) = min n (length xs - off)"
  by (simp add: slice_def)

lemma length_splice [simp]:
  "off + length ys \<le> length xs \<Longrightarrow> length (splice off ys xs) = length xs"
  by (simp add: splice_def)

lemma nth_slice [simp]:
  "i < n \<Longrightarrow> off + i < length xs \<Longrightarrow> slice off n xs ! i = xs ! (off + i)"
  by (simp add: slice_def)

lemma nth_splice:
  assumes "off + length ys \<le> length xs" and "i < length xs"
  shows "splice off ys xs ! i =
    (if off \<le> i \<and> i < off + length ys then ys ! (i - off) else xs ! i)"
  using assms by (auto simp: splice_def nth_append min_def)

lemma slice_splice_same [slice_simps]:
  "off + length ys \<le> length xs \<Longrightarrow> n = length ys \<Longrightarrow> slice off n (splice off ys xs) = ys"
  by (simp add: slice_def splice_def)

lemma slice_splice_other [slice_simps]:
  assumes "off + length ys \<le> length xs"
    and "o' + n \<le> off \<or> off + length ys \<le> o'" and "o' + n \<le> length xs"
  shows "slice o' n (splice off ys xs) = slice o' n xs"
proof (rule nth_equalityI)
  show "length (slice o' n (splice off ys xs)) = length (slice o' n xs)"
    using assms(1) by simp
next
  fix i assume "i < length (slice o' n (splice off ys xs))"
  then have i: "i < n" "o' + i < length xs" using assms by auto
  then show "slice o' n (splice off ys xs) ! i = slice o' n xs ! i"
    using assms by (auto simp: nth_splice)
qed

lemma slice_replicate [slice_simps]:
  "off + n \<le> m \<Longrightarrow> slice off n (replicate m x) = replicate n x"
  by (simp add: slice_def)

lemma slice_full [slice_simps]: "length xs = n \<Longrightarrow> slice 0 n xs = xs"
  by (simp add: slice_def)

lemma slice_append1 [slice_simps]:
  "off + n \<le> length xs \<Longrightarrow> slice off n (xs @ ys) = slice off n xs"
  by (simp add: slice_def)

lemma slice_append2 [slice_simps]:
  "length xs \<le> off \<Longrightarrow> slice off n (xs @ ys) = slice (off - length xs) n ys"
  by (simp add: slice_def)

lemma slice_append_exact:
  "slice (length xs) (length ys) (xs @ ys @ zs) = ys"
  by (simp add: slice_def)

section \<open>Little-endian integers\<close>

text \<open>\<open>le_bytes k n\<close> is \<open>to_le_bytes\<close> of a \<open>k\<close>-byte unsigned integer (the value is
  truncated to \<open>k\<close> bytes, as Rust's typed integers are); \<open>le_val\<close> is \<open>from_le_bytes\<close>.\<close>

primrec le_bytes :: "nat \<Rightarrow> nat \<Rightarrow> byte list" where
  "le_bytes 0 n = []"
| "le_bytes (Suc k) n = word_of_nat n # le_bytes k (n div 256)"

primrec le_val :: "byte list \<Rightarrow> nat" where
  "le_val [] = 0"
| "le_val (b # bs) = unat b + 256 * le_val bs"

lemma length_le_bytes [simp]: "length (le_bytes k n) = k"
  by (induction k arbitrary: n) auto

lemma unat_byte_of_nat: "unat (word_of_nat n :: byte) = n mod 256"
  by (simp add: unat_of_nat)

lemma le_val_le_bytes: "le_val (le_bytes k n) = n mod 256 ^ k"
proof (induction k arbitrary: n)
  case 0
  then show ?case by simp
next
  case (Suc k)
  have "n mod 256 ^ Suc k = n mod 256 + 256 * (n div 256 mod 256 ^ k)"
    by (simp add: mod_mult2_eq)
  with Suc show ?case by (simp add: unat_byte_of_nat)
qed

lemma le_roundtrip [simp]: "n < 256 ^ k \<Longrightarrow> le_val (le_bytes k n) = n"
  by (simp add: le_val_le_bytes)

lemma unat_byte_less: "unat (b :: byte) < 256"
  using unsigned_less [of b] by simp

lemma le_val_less: "le_val bs < 256 ^ length bs"
proof (induction bs)
  case Nil
  then show ?case by simp
next
  case (Cons b bs)
  then have "le_val bs \<le> 256 ^ length bs - 1" by linarith
  then have "256 * le_val bs \<le> 256 * 256 ^ length bs - 256"
    by (simp add: algebra_simps diff_mult_distrib2)
  moreover have "(256::nat) \<le> 256 * 256 ^ length bs" by simp
  ultimately show ?case using unat_byte_less [of b]
    by (simp only: le_val.simps list.size power_Suc add_0_right add_Suc_right)
qed

lemma word_eqI_unat: "unat x = unat y \<Longrightarrow> x = y"
  by (simp add: word_unat_eq_iff)

lemma le_bytes_le_val: "length bs = k \<Longrightarrow> le_bytes k (le_val bs) = bs"
proof (induction bs arbitrary: k)
  case Nil
  then show ?case by simp
next
  case (Cons b bs)
  have "word_of_nat (unat b + 256 * le_val bs) = b"
  proof (rule word_eqI_unat)
    have "unat (word_of_nat (unat b + 256 * le_val bs) :: byte) = (unat b + 256 * le_val bs) mod 256"
      by (rule unat_byte_of_nat)
    then show "unat (word_of_nat (unat b + 256 * le_val bs) :: byte) = unat b"
      using unat_byte_less [of b] by simp
  qed
  moreover have "(unat b + 256 * le_val bs) div 256 = le_val bs"
    using unat_byte_less [of b] by simp
  ultimately show ?case using Cons by auto
qed

section \<open>Searching lists by index\<close>

text \<open>\<open>find_idx\<close> is the source's \<open>for (i, x) in xs.iter().enumerate() { if P(x) { return Some(i) } }\<close>.\<close>

primrec find_idx :: "('a \<Rightarrow> bool) \<Rightarrow> 'a list \<Rightarrow> nat option" where
  "find_idx P [] = None"
| "find_idx P (x # xs) = (if P x then Some 0 else map_option Suc (find_idx P xs))"

lemma find_idx_None: "find_idx P xs = None \<longleftrightarrow> (\<forall>i < length xs. \<not> P (xs ! i))"
  by (induction xs) (auto simp: nth_Cons less_Suc_eq_0_disj split: nat.split)

lemma find_idx_Some:
  "find_idx P xs = Some i \<Longrightarrow> i < length xs \<and> P (xs ! i) \<and> (\<forall>j < i. \<not> P (xs ! j))"
proof (induction xs arbitrary: i)
  case Nil
  then show ?case by simp
next
  case (Cons x xs)
  show ?case
  proof (cases "P x")
    case False
    with Cons.prems obtain j where j: "find_idx P xs = Some j" "i = Suc j" by auto
    with Cons.IH [OF j(1)] False show ?thesis by (auto simp: nth_Cons split: nat.split)
  qed (use Cons.prems in simp)
qed

lemma find_idx_SomeD [dest]:
  "find_idx P xs = Some i \<Longrightarrow> i < length xs" "find_idx P xs = Some i \<Longrightarrow> P (xs ! i)"
  using find_idx_Some by metis+

lemma find_idx_first:
  assumes "i < length xs" and "P (xs ! i)" and "\<forall>j < i. \<not> P (xs ! j)"
  shows "find_idx P xs = Some i"
proof (cases "find_idx P xs")
  case None
  then show ?thesis using assms by (simp add: find_idx_None)
next
  case (Some j)
  then have "\<not> i < j" "\<not> j < i" using assms find_idx_Some [OF Some] by blast+
  then show ?thesis using Some by simp
qed

lemma find_idx_update:
  "P x = P (xs ! i) \<Longrightarrow> find_idx P (xs[i := x]) = find_idx P xs"
proof (induction xs arbitrary: i)
  case (Cons y ys)
  then show ?case by (cases i) auto
qed simp

end
