(* ===== verification/Layout.thy ===== *)
theory Layout
  imports Prelude
begin

text \<open>
  The on-disk structures of \<open>crates/xv6-fs-layout/src/lib.rs\<close>: constants, the superblock,
  the 128-byte inode and the 16-byte directory entry, with the byte image that Rust's
  \<open>repr(C)\<close> gives them on a little-endian machine (\<open>ptr::read_unaligned\<close> and
  \<open>slice::from_raw_parts\<close> in the kernel and in \<open>mkfs\<close>) and the round trips between the
  two. Integer fields are naturals; \<open>wf_\<close> predicates bound them by their Rust width.
\<close>

section \<open>Constants\<close>

definition BSIZE :: nat where "BSIZE = 512"
definition FSMAGIC :: nat where "FSMAGIC = 0x10203040"
definition NINODES :: nat where "NINODES = 200"
definition NDIRECT :: nat where "NDIRECT = 12"
definition NINDIRECT :: nat where "NINDIRECT = BSIZE div 4"
definition NDOUBLE_SLOT :: nat where "NDOUBLE_SLOT = NDIRECT + 1"
definition NDOUBLE_INDIRECT :: nat where "NDOUBLE_INDIRECT = NINDIRECT * NINDIRECT"
definition MAXFILE :: nat where "MAXFILE = NDIRECT + NINDIRECT + NDOUBLE_INDIRECT"
definition LOGSIZE :: nat where "LOGSIZE = 30"
definition DIRSIZ :: nat where "DIRSIZ = 14"

definition T_DIR :: nat where "T_DIR = 1"
definition T_FILE :: nat where "T_FILE = 2"
definition T_DEVICE :: nat where "T_DEVICE = 3"
definition T_SYMLINK :: nat where "T_SYMLINK = 4"
definition T_SOCK :: nat where "T_SOCK = 5"

text \<open>\<open>size_of::<DInode>()\<close> and \<open>size_of::<Dirent>()\<close>, asserted at compile time.\<close>

definition DINODE_SIZE :: nat where "DINODE_SIZE = 128"
definition DIRENT_SIZE :: nat where "DIRENT_SIZE = 16"
definition IPB :: nat where "IPB = BSIZE div DINODE_SIZE"
definition BPB :: nat where "BPB = BSIZE * 8"

lemmas const_defs [layout_simps] =
  BSIZE_def NDIRECT_def NINDIRECT_def NDOUBLE_SLOT_def NDOUBLE_INDIRECT_def MAXFILE_def
  LOGSIZE_def DIRSIZ_def DINODE_SIZE_def DIRENT_SIZE_def IPB_def BPB_def

lemmas type_defs = T_DIR_def T_FILE_def T_DEVICE_def T_SYMLINK_def T_SOCK_def

lemma BSIZE_pos [simp]: "0 < BSIZE" and IPB_pos [simp]: "0 < IPB"
  and BPB_pos [simp]: "0 < BPB" and NINDIRECT_pos [simp]: "0 < NINDIRECT"
  by (simp_all add: layout_simps)

section \<open>Reading integers out of a buffer\<close>

definition le_at :: "nat \<Rightarrow> nat \<Rightarrow> byte list \<Rightarrow> nat" where
  "le_at off n bs = le_val (slice off n bs)"

lemma le_at_less: "le_at off n bs < 256 ^ n"
proof -
  have "le_at off n bs < 256 ^ length (slice off n bs)"
    unfolding le_at_def by (rule le_val_less)
  also have "\<dots> \<le> 256 ^ n" by (rule power_increasing) simp_all
  finally show ?thesis .
qed

lemma le_at_splice_same [slice_simps]:
  "off + k \<le> length bs \<Longrightarrow> n < 256 ^ k \<Longrightarrow> le_at off k (splice off (le_bytes k n) bs) = n"
  by (simp add: le_at_def slice_simps)

lemma le_at_splice_other [slice_simps]:
  "off + length ys \<le> length bs \<Longrightarrow> o' + n \<le> off \<or> off + length ys \<le> o' \<Longrightarrow> o' + n \<le> length bs
   \<Longrightarrow> le_at o' n (splice off ys bs) = le_at o' n bs"
  by (simp add: le_at_def slice_simps)

lemma le_at_replicate0 [slice_simps]: "off + n \<le> m \<Longrightarrow> le_at off n (replicate m 0) = 0"
proof -
  have "le_val (replicate n 0) = 0" by (induction n) auto
  then show "off + n \<le> m \<Longrightarrow> ?thesis" by (simp add: le_at_def slice_simps)
qed

text \<open>Arrays of \<open>u32\<close>: the \<open>addrs\<close> and time slots of an inode, and indirect blocks.\<close>

definition le_array :: "nat \<Rightarrow> nat list \<Rightarrow> byte list" where
  "le_array k xs = concat (map (le_bytes k) xs)"

lemma length_le_array [simp]: "length (le_array k xs) = k * length xs"
  by (induction xs) (auto simp: le_array_def)

lemma slice_le_array:
  assumes "i < length xs" and "0 < k"
  shows "slice (k * i) k (le_array k xs) = le_bytes k (xs ! i)"
  using assms
proof (induction xs arbitrary: i)
  case Nil
  then show ?case by simp
next
  case (Cons x xs)
  show ?case
  proof (cases i)
    case 0
    then show ?thesis by (simp add: le_array_def slice_def)
  next
    case (Suc j)
    have "slice (k * i) k (le_array k (x # xs)) = slice (k * j) k (le_array k xs)"
      using Suc by (simp add: le_array_def slice_append2)
    with Cons Suc show ?thesis by simp
  qed
qed

lemma le_array_cong_bytes:
  assumes "length bs = k * n" and "0 < k"
  shows "le_array k (map (\<lambda>i. le_at (k * i) k bs) [0..<n]) = bs"
  using assms
proof (induction n arbitrary: bs)
  case 0
  then show ?case by (simp add: le_array_def)
next
  case (Suc n)
  let ?hd = "take (k * n) bs" and ?tl = "drop (k * n) bs"
  have len: "length ?hd = k * n" "length ?tl = k" using Suc.prems by (auto simp: algebra_simps)
  have eq: "le_at (k * i) k bs = le_at (k * i) k ?hd" if "i < n" for i
  proof -
    have "k * i + k \<le> k * n" using that by (metis Suc_leI mult_Suc_right mult_le_mono2 add.commute)
    then show ?thesis by (simp add: le_at_def slice_def drop_take)
  qed
  have "le_array k (map (\<lambda>i. le_at (k * i) k bs) [0..<n]) = le_array k (map (\<lambda>i. le_at (k * i) k ?hd) [0..<n])"
    using eq by (auto simp: le_array_def intro!: arg_cong [where f = concat])
  also have "\<dots> = ?hd" using Suc.IH [OF len(1)] Suc.prems by simp
  finally have "le_array k (map (\<lambda>i. le_at (k * i) k bs) [0..<Suc n]) = ?hd @ le_bytes k (le_val ?tl)"
    using len by (simp add: le_array_def le_at_def slice_def)
  also have "\<dots> = bs" using len by (simp add: le_bytes_le_val)
  finally show ?case .
qed

section \<open>The superblock\<close>

record superblock =
  sb_magic :: nat
  sb_size :: nat
  sb_nblocks :: nat
  sb_ninodes :: nat
  sb_nlog :: nat
  sb_logstart :: nat
  sb_inodestart :: nat
  sb_bmapstart :: nat

definition superblock_zero :: superblock where
  "superblock_zero = \<lparr>sb_magic = 0, sb_size = 0, sb_nblocks = 0, sb_ninodes = 0, sb_nlog = 0,
     sb_logstart = 0, sb_inodestart = 0, sb_bmapstart = 0\<rparr>"

definition superblock_words :: "superblock \<Rightarrow> nat list" where
  "superblock_words sb = [sb_magic sb, sb_size sb, sb_nblocks sb, sb_ninodes sb, sb_nlog sb,
     sb_logstart sb, sb_inodestart sb, sb_bmapstart sb]"

definition superblock_bytes :: "superblock \<Rightarrow> byte list" where
  "superblock_bytes sb = le_array 4 (superblock_words sb)"

definition superblock_of_bytes :: "byte list \<Rightarrow> superblock" where
  "superblock_of_bytes bs = \<lparr>sb_magic = le_at 0 4 bs, sb_size = le_at 4 4 bs,
     sb_nblocks = le_at 8 4 bs, sb_ninodes = le_at 12 4 bs, sb_nlog = le_at 16 4 bs,
     sb_logstart = le_at 20 4 bs, sb_inodestart = le_at 24 4 bs, sb_bmapstart = le_at 28 4 bs\<rparr>"

definition wf_superblock :: "superblock \<Rightarrow> bool" where
  "wf_superblock sb \<longleftrightarrow> (\<forall>w \<in> set (superblock_words sb). w < 2 ^ 32)"

text \<open>\<open>iblock\<close>: the block holding inode \<open>inum\<close>.\<close>

definition iblock :: "nat \<Rightarrow> superblock \<Rightarrow> nat" where
  "iblock inum sb = inum div IPB + sb_inodestart sb"

lemma length_superblock_words [simp]: "length (superblock_words sb) = 8"
  by (simp add: superblock_words_def)

lemma length_superblock_bytes [simp]: "length (superblock_bytes sb) = 32"
  by (simp add: superblock_bytes_def)

lemma superblock_roundtrip:
  assumes "wf_superblock sb"
  shows "superblock_of_bytes (superblock_bytes sb @ rest) = sb"
proof -
  have "le_at (4 * i) 4 (superblock_bytes sb @ rest) = superblock_words sb ! i" if "i < 8" for i
  proof -
    have "superblock_words sb ! i < 256 ^ 4"
      using assms nth_mem [of i "superblock_words sb"] that
      by (simp add: wf_superblock_def)
    then show ?thesis
      using that slice_le_array [of i "superblock_words sb" 4]
      by (simp add: le_at_def slice_append1 superblock_bytes_def)
  qed
  from this [of 0] this [of 1] this [of 2] this [of 3] this [of 4] this [of 5] this [of 6]
    this [of 7] show ?thesis
    by (simp add: superblock_of_bytes_def superblock_words_def)
qed

section \<open>The on-disk inode\<close>

record dinode =
  di_typ :: nat
  di_major :: nat
  di_minor :: nat
  di_nlink :: nat
  di_mode :: nat
  di_uid :: nat
  di_gid :: nat
  di_reserved0 :: nat
  di_size :: nat
  di_reserved_time :: "nat list"
  di_addrs :: "nat list"
  di_reserved_tail :: "byte list"

definition dinode_default :: dinode where
  "dinode_default = \<lparr>di_typ = 0, di_major = 0, di_minor = 0, di_nlink = 0, di_mode = 0,
     di_uid = 0, di_gid = 0, di_reserved0 = 0, di_size = 0, di_reserved_time = replicate 3 0,
     di_addrs = replicate (NDIRECT + 2) 0, di_reserved_tail = replicate 40 0\<rparr>"

definition dinode_halves :: "dinode \<Rightarrow> nat list" where
  "dinode_halves d = [di_typ d, di_major d, di_minor d, di_nlink d, di_mode d, di_uid d,
     di_gid d, di_reserved0 d]"

definition dinode_words :: "dinode \<Rightarrow> nat list" where
  "dinode_words d = di_size d # di_reserved_time d @ di_addrs d"

definition dinode_bytes :: "dinode \<Rightarrow> byte list" where
  "dinode_bytes d = le_array 2 (dinode_halves d) @ le_array 4 (dinode_words d) @ di_reserved_tail d"

definition dinode_of_bytes :: "byte list \<Rightarrow> dinode" where
  "dinode_of_bytes bs = \<lparr>di_typ = le_at 0 2 bs, di_major = le_at 2 2 bs, di_minor = le_at 4 2 bs,
     di_nlink = le_at 6 2 bs, di_mode = le_at 8 2 bs, di_uid = le_at 10 2 bs, di_gid = le_at 12 2 bs,
     di_reserved0 = le_at 14 2 bs, di_size = le_at 16 4 bs,
     di_reserved_time = map (\<lambda>i. le_at (20 + 4 * i) 4 bs) [0..<3],
     di_addrs = map (\<lambda>i. le_at (32 + 4 * i) 4 bs) [0..<NDIRECT + 2],
     di_reserved_tail = slice 88 40 bs\<rparr>"

definition wf_dinode :: "dinode \<Rightarrow> bool" where
  "wf_dinode d \<longleftrightarrow>
     (\<forall>h \<in> set (dinode_halves d). h < 2 ^ 16) \<and> (\<forall>w \<in> set (dinode_words d). w < 2 ^ 32) \<and>
     length (di_reserved_time d) = 3 \<and> length (di_addrs d) = NDIRECT + 2 \<and>
     length (di_reserved_tail d) = 40"

lemma length_dinode_halves [simp]: "length (dinode_halves d) = 8"
  by (simp add: dinode_halves_def)

lemma length_dinode_bytes:
  "wf_dinode d \<Longrightarrow> length (dinode_bytes d) = DINODE_SIZE"
  by (simp add: wf_dinode_def dinode_bytes_def dinode_words_def layout_simps)

lemma dinode_bytes_half:
  assumes "wf_dinode d" and "i < 8"
  shows "le_at (2 * i) 2 (dinode_bytes d @ rest) = dinode_halves d ! i"
proof -
  have "dinode_halves d ! i < 256 ^ 2"
    using assms nth_mem [of i "dinode_halves d"] by (simp add: wf_dinode_def)
  then show ?thesis
    using assms slice_le_array [of i "dinode_halves d" 2]
    by (simp add: le_at_def dinode_bytes_def slice_append1)
qed

lemma dinode_bytes_word:
  assumes "wf_dinode d" and "i < 18"
  shows "le_at (16 + 4 * i) 4 (dinode_bytes d @ rest) = dinode_words d ! i"
proof -
  have len: "length (dinode_words d) = 18"
    using assms by (simp add: wf_dinode_def dinode_words_def layout_simps)
  then have "dinode_words d ! i < 256 ^ 4"
    using assms nth_mem [of i "dinode_words d"] by (simp add: wf_dinode_def)
  then show ?thesis
    using assms len slice_le_array [of i "dinode_words d" 4]
    by (simp add: le_at_def dinode_bytes_def slice_append1 slice_append2)
qed

lemma dinode_roundtrip:
  assumes wf: "wf_dinode d"
  shows "dinode_of_bytes (dinode_bytes d @ rest) = d"
proof -
  let ?bs = "dinode_bytes d @ rest"
  note h = dinode_bytes_half [OF wf, of _ rest] and w = dinode_bytes_word [OF wf, of _ rest]
  have tail: "slice 88 40 ?bs = di_reserved_tail d"
    using wf by (simp add: wf_dinode_def dinode_bytes_def dinode_words_def slice_def layout_simps)
  have times: "map (\<lambda>i. le_at (20 + 4 * i) 4 ?bs) [0..<3] = di_reserved_time d"
    by (rule nth_equalityI)
      (use wf w [of "Suc i" for i] in \<open>auto simp: wf_dinode_def dinode_words_def nth_append\<close>)
  have addrs: "map (\<lambda>i. le_at (32 + 4 * i) 4 ?bs) [0..<NDIRECT + 2] = di_addrs d"
    by (rule nth_equalityI)
      (use wf w [of "4 + i" for i] in
        \<open>auto simp: wf_dinode_def dinode_words_def nth_append layout_simps\<close>)
  show ?thesis
    unfolding dinode_of_bytes_def tail times addrs
    using h [of 0] h [of 1] h [of 2] h [of 3] h [of 4] h [of 5] h [of 6] h [of 7] w [of 0]
    by (simp add: dinode_halves_def dinode_words_def)
qed

lemma dinode_of_bytes_wf:
  assumes "128 \<le> length bs"
  shows "wf_dinode (dinode_of_bytes bs)"
  using assms le_at_less [of _ 2 bs] le_at_less [of _ 4 bs]
  by (auto simp: wf_dinode_def dinode_of_bytes_def dinode_halves_def dinode_words_def)

section \<open>Directory entries\<close>

record dirent =
  de_inum :: nat
  de_name :: "byte list"

definition dirent_default :: dirent where
  "dirent_default = \<lparr>de_inum = 0, de_name = replicate DIRSIZ 0\<rparr>"

definition dirent_bytes :: "dirent \<Rightarrow> byte list" where
  "dirent_bytes e = le_bytes 2 (de_inum e) @ de_name e"

definition dirent_of_bytes :: "byte list \<Rightarrow> dirent" where
  "dirent_of_bytes bs = \<lparr>de_inum = le_at 0 2 bs, de_name = slice 2 DIRSIZ bs\<rparr>"

definition wf_dirent :: "dirent \<Rightarrow> bool" where
  "wf_dirent e \<longleftrightarrow> de_inum e < 2 ^ 16 \<and> length (de_name e) = DIRSIZ"

lemma length_dirent_bytes: "wf_dirent e \<Longrightarrow> length (dirent_bytes e) = DIRENT_SIZE"
  by (simp add: wf_dirent_def dirent_bytes_def layout_simps)

lemma dirent_roundtrip: "wf_dirent e \<Longrightarrow> dirent_of_bytes (dirent_bytes e) = e"
  by (simp add: wf_dirent_def dirent_of_bytes_def dirent_bytes_def le_at_def slice_def)

lemma wf_dirent_default [simp]: "wf_dirent dirent_default"
  by (simp add: wf_dirent_def dirent_default_def)

lemma dirent_of_bytes_wf: "length bs = DIRENT_SIZE \<Longrightarrow> wf_dirent (dirent_of_bytes bs)"
  using le_at_less [of 0 2 bs]
  by (simp add: wf_dirent_def dirent_of_bytes_def layout_simps)

lemma dirent_bytes_of_bytes: "length bs = DIRENT_SIZE \<Longrightarrow> dirent_bytes (dirent_of_bytes bs) = bs"
  by (simp add: dirent_bytes_def dirent_of_bytes_def le_at_def slice_def le_bytes_le_val layout_simps)

end
