(* ===== verification/Bio.thy ===== *)
theory Bio
  imports Layout
begin

text \<open>
  The buffer cache of \<open>crates/kernel/src/driver/bio.rs\<close>. A \<open>Buffer\<close> is a record; its
  \<open>Arc::strong_count\<close> is the field \<open>b_refs\<close> (1 when only the cache holds it). The critical
  section of \<open>bread\<close>, the completion of a load, \<open>bwrite\<close>, taking and dropping an \<open>Arc\<close> and
  writing through \<open>data_mut\<close> are steps over the cache and the disk. \<open>view\<close> is what a client
  sees: the cached contents of a block if it is cached, the disk's otherwise. The steps
  refine an abstract block store: only \<open>data_mut\<close> changes the view, and a buffer that
  \<open>bread\<close> returns holds the view of its block.
\<close>

section \<open>State\<close>

definition NBUF :: nat where "NBUF = 64"
definition BLOCK_INVALID :: nat where "BLOCK_INVALID = 2 ^ 32 - 1"

record buffer =
  b_no :: nat
  b_data :: block
  b_valid :: bool
  b_loading :: bool
  b_last_used :: nat
  b_refs :: nat

definition buffer_new :: buffer where
  "buffer_new = \<lparr>b_no = BLOCK_INVALID, b_data = replicate BSIZE 0, b_valid = False,
     b_loading = False, b_last_used = 0, b_refs = 1\<rparr>"

record bio =
  bufs :: "buffer list"
  bdisk :: disk

definition bio_init :: "bio \<Rightarrow> bio" where
  "bio_init s = (if bufs s = [] then s\<lparr>bufs := replicate NBUF buffer_new\<rparr> else s)"

definition touch :: "nat \<Rightarrow> buffer \<Rightarrow> buffer" where
  "touch now x = x\<lparr>b_last_used := now\<rparr>"

definition arc_clone :: "buffer \<Rightarrow> buffer" where
  "arc_clone x = x\<lparr>b_refs := b_refs x + 1\<rparr>"

section \<open>Choosing a slot\<close>

fun lru_sweep :: "nat \<Rightarrow> buffer list \<Rightarrow> (nat \<times> nat) option \<Rightarrow> (nat \<times> nat) option" where
  "lru_sweep i [] best = best"
| "lru_sweep i (x # xs) best =
     (if b_loading x then lru_sweep (i + 1) xs best
      else if b_refs x > 1 then lru_sweep (i + 1) xs best
      else lru_sweep (i + 1) xs
             (case best of
                None \<Rightarrow> Some (i, b_last_used x)
              | Some (j, lu_best) \<Rightarrow> if b_last_used x < lu_best then Some (i, b_last_used x) else best))"

definition pick_evict_slot :: "buffer list \<Rightarrow> nat option" where
  "pick_evict_slot xs =
     (case find_idx (\<lambda>x. \<not> b_valid x \<and> \<not> b_loading x) xs of
        Some i \<Rightarrow> Some i
      | None \<Rightarrow> map_option fst (lru_sweep 0 xs None))"

section \<open>Reading, writing, holding\<close>

datatype role = Hit | Loader | Waiter

text \<open>One pass of \<open>bread\<close> under the cache lock; \<open>None\<close> when every buffer is held.\<close>

definition bread_try :: "nat \<Rightarrow> nat \<Rightarrow> bio \<Rightarrow> (nat \<times> role) option \<times> bio" where
  "bread_try b now s =
     (case find_idx (\<lambda>x. b_no x = b \<and> b_valid x) (bufs s) of
        Some i \<Rightarrow> (Some (i, Hit), s\<lparr>bufs := (bufs s)[i := touch now (arc_clone (bufs s ! i))]\<rparr>)
      | None \<Rightarrow>
         (case find_idx (\<lambda>x. b_no x = b \<and> b_loading x) (bufs s) of
            Some i \<Rightarrow> (Some (i, Waiter), s\<lparr>bufs := (bufs s)[i := arc_clone (bufs s ! i)]\<rparr>)
          | None \<Rightarrow>
             (case pick_evict_slot (bufs s) of
                Some slot \<Rightarrow>
                  (Some (slot, Loader),
                   s\<lparr>bufs := (bufs s)[slot := touch now ((arc_clone (bufs s ! slot))
                       \<lparr>b_valid := False, b_no := b, b_loading := True\<rparr>)]\<rparr>)
              | None \<Rightarrow> (None, s))))"

text \<open>The loader's completion: the device has filled the buffer.\<close>

definition load_finish :: "nat \<Rightarrow> bio \<Rightarrow> bio" where
  "load_finish i s = s\<lparr>bufs := (bufs s)[i := (bufs s ! i)
     \<lparr>b_data := bdisk s (b_no (bufs s ! i)), b_valid := True, b_loading := False\<rparr>]\<rparr>"

text \<open>\<open>bread\<close> as one task runs it while no other task is inside the cache. \<open>None\<close>: the
  caller yields or waits.\<close>

definition bread :: "nat \<Rightarrow> nat \<Rightarrow> bio \<Rightarrow> (nat \<times> bio) option" where
  "bread b now s =
     (case bread_try b now s of
        (Some (i, Hit), s') \<Rightarrow> Some (i, s')
      | (Some (i, Loader), s') \<Rightarrow> Some (i, load_finish i s')
      | _ \<Rightarrow> None)"

definition bwrite :: "nat \<Rightarrow> bio \<Rightarrow> bio" where
  "bwrite i s = s\<lparr>bdisk := (bdisk s)(b_no (bufs s ! i) := b_data (bufs s ! i))\<rparr>"

text \<open>Writing through \<open>data_mut\<close>, cloning and dropping an \<open>Arc<Buffer>\<close>.\<close>

definition data_mut :: "nat \<Rightarrow> block \<Rightarrow> bio \<Rightarrow> bio" where
  "data_mut i x s = s\<lparr>bufs := (bufs s)[i := (bufs s ! i)\<lparr>b_data := x\<rparr>]\<rparr>"

definition buf_clone :: "nat \<Rightarrow> bio \<Rightarrow> bio" where
  "buf_clone i s = s\<lparr>bufs := (bufs s)[i := arc_clone (bufs s ! i)]\<rparr>"

definition buf_drop :: "nat \<Rightarrow> bio \<Rightarrow> bio" where
  "buf_drop i s = s\<lparr>bufs := (bufs s)[i := (bufs s ! i)\<lparr>b_refs := b_refs (bufs s ! i) - 1\<rparr>]\<rparr>"

section \<open>View and invariant\<close>

definition view :: "bio \<Rightarrow> nat \<Rightarrow> block" where
  "view s b =
     (case find_idx (\<lambda>x. b_no x = b \<and> b_valid x) (bufs s) of
        Some i \<Rightarrow> b_data (bufs s ! i)
      | None \<Rightarrow> bdisk s b)"

definition live :: "buffer \<Rightarrow> bool" where
  "live x \<longleftrightarrow> b_valid x \<or> b_loading x"

definition buf_ok :: "disk \<Rightarrow> buffer \<Rightarrow> bool" where
  "buf_ok d x \<longleftrightarrow>
     \<not> (b_valid x \<and> b_loading x) \<and> 1 \<le> b_refs x \<and> (b_loading x \<longrightarrow> 2 \<le> b_refs x) \<and>
     (\<not> live x \<longrightarrow> b_refs x = 1) \<and> (b_valid x \<and> b_refs x = 1 \<longrightarrow> b_data x = d (b_no x))"

definition bio_inv :: "bio \<Rightarrow> bool" where
  "bio_inv s \<longleftrightarrow>
     (\<forall>i < length (bufs s). buf_ok (bdisk s) (bufs s ! i)) \<and>
     (\<forall>i < length (bufs s). \<forall>j < length (bufs s). i \<noteq> j \<longrightarrow>
        live (bufs s ! i) \<longrightarrow> live (bufs s ! j) \<longrightarrow> b_no (bufs s ! i) \<noteq> b_no (bufs s ! j))"

section \<open>Steps\<close>

text \<open>What tasks do with the cache. A buffer is read, changed and flushed only by a task
  that holds it. Two obligations are the clients': a waiter's handle is not the loader's,
  and the last handle of a modified buffer is dropped only after it was flushed (the log
  pins every buffer it records until \<open>commit\<close> has written it home).\<close>

inductive bio_step :: "bio \<Rightarrow> bio \<Rightarrow> bool" where
  st_try: "bread_try b now s = (r, s') \<Longrightarrow> bio_step s s'"
| st_load: "i < length (bufs s) \<Longrightarrow> b_loading (bufs s ! i) \<Longrightarrow> bio_step s (load_finish i s)"
| st_bwrite: "i < length (bufs s) \<Longrightarrow> b_valid (bufs s ! i) \<Longrightarrow> 1 < b_refs (bufs s ! i)
    \<Longrightarrow> bio_step s (bwrite i s)"
| st_clone: "i < length (bufs s) \<Longrightarrow> 1 < b_refs (bufs s ! i) \<Longrightarrow> bio_step s (buf_clone i s)"
| st_drop: "i < length (bufs s) \<Longrightarrow> 1 < b_refs (bufs s ! i)
    \<Longrightarrow> (b_loading (bufs s ! i) \<longrightarrow> 2 < b_refs (bufs s ! i))
    \<Longrightarrow> (b_refs (bufs s ! i) = 2 \<longrightarrow> b_data (bufs s ! i) = bdisk s (b_no (bufs s ! i)))
    \<Longrightarrow> bio_step s (buf_drop i s)"

inductive bio_write :: "bio \<Rightarrow> nat \<Rightarrow> block \<Rightarrow> bio \<Rightarrow> bool" where
  "i < length (bufs s) \<Longrightarrow> b_valid (bufs s ! i) \<Longrightarrow> 1 < b_refs (bufs s ! i)
    \<Longrightarrow> bio_write s (b_no (bufs s ! i)) x (data_mut i x s)"

lemmas buf_defs = touch_def arc_clone_def live_def buf_ok_def

section \<open>Slot selection\<close>

lemma lru_sweep_spec:
  assumes "lru_sweep k xs best = Some (i, lu)"
  shows "(best = Some (i, lu) \<or> (k \<le> i \<and> i < k + length xs \<and> \<not> b_loading (xs ! (i - k)) \<and>
            b_refs (xs ! (i - k)) \<le> 1 \<and> b_last_used (xs ! (i - k)) = lu)) \<and>
         (\<forall>j lb. best = Some (j, lb) \<longrightarrow> lu \<le> lb) \<and>
         (\<forall>x \<in> set xs. \<not> b_loading x \<longrightarrow> b_refs x \<le> 1 \<longrightarrow> lu \<le> b_last_used x)"
  using assms
proof (induction k xs best rule: lru_sweep.induct)
  case (1 i best)
  then show ?case by simp
next
  case (2 k x xs best)
  let ?best = "if b_loading x \<or> 1 < b_refs x then best else (case best of
                None \<Rightarrow> Some (k, b_last_used x)
              | Some (j, lu_best) \<Rightarrow> if b_last_used x < lu_best then Some (k, b_last_used x) else best)"
  have run: "lru_sweep (k + 1) xs ?best = Some (i, lu)" using "2.prems" by (auto split: if_splits)
  have IH: "(?best = Some (i, lu) \<or> (k + 1 \<le> i \<and> i < k + 1 + length xs \<and> \<not> b_loading (xs ! (i - (k + 1))) \<and>
            b_refs (xs ! (i - (k + 1))) \<le> 1 \<and> b_last_used (xs ! (i - (k + 1))) = lu)) \<and>
         (\<forall>j lb. ?best = Some (j, lb) \<longrightarrow> lu \<le> lb) \<and>
         (\<forall>x \<in> set xs. \<not> b_loading x \<longrightarrow> b_refs x \<le> 1 \<longrightarrow> lu \<le> b_last_used x)"
    using "2.IH" run by (cases "b_loading x"; cases "1 < b_refs x") simp_all
  have nth: "(x # xs) ! (i - k) = xs ! (i - (k + 1))" if "k + 1 \<le> i" using that by (simp add: nth_Cons')
  show ?case using IH nth by (auto split: if_splits option.splits)
qed

lemma lru_sweep_None:
  "lru_sweep k xs best = None \<longleftrightarrow> best = None \<and> (\<forall>x \<in> set xs. b_loading x \<or> 1 < b_refs x)"
  by (induction k xs best rule: lru_sweep.induct) (auto split: option.splits)

lemma pick_evict_slot_Some:
  assumes "pick_evict_slot xs = Some i"
  shows "i < length xs \<and> \<not> b_loading (xs ! i) \<and> (b_valid (xs ! i) \<longrightarrow> b_refs (xs ! i) \<le> 1)"
  using assms lru_sweep_spec [of 0 xs None] unfolding pick_evict_slot_def
  by (fastforce split: option.splits dest: find_idx_Some)

section \<open>The invariant is kept\<close>

lemma bio_invD:
  assumes "bio_inv s" and "i < length (bufs s)"
  shows "buf_ok (bdisk s) (bufs s ! i)"
    and "\<And>j. j < length (bufs s) \<Longrightarrow> i \<noteq> j \<Longrightarrow> live (bufs s ! i) \<Longrightarrow> live (bufs s ! j)
           \<Longrightarrow> b_no (bufs s ! i) \<noteq> b_no (bufs s ! j)"
  using assms by (auto simp: bio_inv_def)

lemma bio_inv_update:
  assumes inv: "bio_inv s" and i: "i < length (bufs s)" and ok: "buf_ok (bdisk s) x"
    and uniq: "\<And>j. live x \<Longrightarrow> j < length (bufs s) \<Longrightarrow> j \<noteq> i \<Longrightarrow> live (bufs s ! j)
      \<Longrightarrow> b_no (bufs s ! j) \<noteq> b_no x"
  shows "bio_inv (s\<lparr>bufs := (bufs s)[i := x]\<rparr>)"
proof -
  have "b_no ((bufs s)[i := x] ! j) \<noteq> b_no ((bufs s)[i := x] ! k)"
    if "j < length (bufs s)" "k < length (bufs s)" "j \<noteq> k"
      "live ((bufs s)[i := x] ! j)" "live ((bufs s)[i := x] ! k)" for j k
    using that uniq [of j] uniq [of k] bio_invD(2) [OF inv that(1) that(2,3)] i
    by (cases "j = i"; cases "k = i") auto
  moreover have "buf_ok (bdisk s) ((bufs s)[i := x] ! j)" if "j < length (bufs s)" for j
    using that bio_invD(1) [OF inv that] ok by (cases "j = i") auto
  ultimately show ?thesis by (auto simp: bio_inv_def)
qed

lemma bio_inv_same_no:
  assumes "bio_inv s" and "i < length (bufs s)" and "buf_ok (bdisk s) x"
    and "b_no x = b_no (bufs s ! i)" and "live x \<Longrightarrow> live (bufs s ! i)"
  shows "bio_inv (s\<lparr>bufs := (bufs s)[i := x]\<rparr>)"
  using assms(1-3)
proof (rule bio_inv_update)
  fix j assume "live x" "j < length (bufs s)" "j \<noteq> i" "live (bufs s ! j)"
  then show "b_no (bufs s ! j) \<noteq> b_no x" using bio_invD(2) [OF assms(1,2), of j] assms(4,5) by simp
qed

lemma bread_try_inv:
  assumes inv: "bio_inv s" and r: "bread_try b now s = (r, s')"
  shows "bio_inv s'"
proof -
  consider (hit) i where "find_idx (\<lambda>x. b_no x = b \<and> b_valid x) (bufs s) = Some i"
      "s' = s\<lparr>bufs := (bufs s)[i := touch now (arc_clone (bufs s ! i))]\<rparr>"
    | (wait) i where "find_idx (\<lambda>x. b_no x = b \<and> b_loading x) (bufs s) = Some i"
      "s' = s\<lparr>bufs := (bufs s)[i := arc_clone (bufs s ! i)]\<rparr>"
    | (load) i where "find_idx (\<lambda>x. b_no x = b \<and> b_valid x) (bufs s) = None"
      "find_idx (\<lambda>x. b_no x = b \<and> b_loading x) (bufs s) = None"
      "pick_evict_slot (bufs s) = Some i"
      "s' = s\<lparr>bufs := (bufs s)[i := touch now ((arc_clone (bufs s ! i))
                       \<lparr>b_valid := False, b_no := b, b_loading := True\<rparr>)]\<rparr>"
    | (full) "s' = s"
    using r by (auto simp: bread_try_def split: option.splits)
  then show ?thesis
  proof cases
    case hit
    then have "i < length (bufs s)" "b_valid (bufs s ! i)" by auto
    with hit bio_invD(1) [OF inv, of i] show ?thesis
      by (auto intro!: bio_inv_same_no [OF inv] simp: buf_defs)
  next
    case wait
    then have "i < length (bufs s)" "b_loading (bufs s ! i)" by auto
    with wait bio_invD(1) [OF inv, of i] show ?thesis
      by (auto intro!: bio_inv_same_no [OF inv] simp: buf_defs)
  next
    case load
    then have i: "i < length (bufs s)" using pick_evict_slot_Some by blast
    have "b_no (bufs s ! j) \<noteq> b" if "j < length (bufs s)" "live (bufs s ! j)" for j
      using load(1,2) that by (auto simp: find_idx_None live_def)
    then show ?thesis
      unfolding load(4) using i bio_invD(1) [OF inv i] by (auto intro!: bio_inv_update [OF inv] simp: buf_defs)
  qed (use inv in simp)
qed

lemma load_finish_inv:
  assumes "bio_inv s" and "i < length (bufs s)" and "b_loading (bufs s ! i)"
  shows "bio_inv (load_finish i s)"
  using assms bio_invD(1) [OF assms(1,2)] unfolding load_finish_def
  by (auto intro!: bio_inv_same_no simp: buf_defs)

lemma bwrite_inv:
  assumes "bio_inv s" and "i < length (bufs s)" and "b_valid (bufs s ! i)"
  shows "bio_inv (bwrite i s)"
proof -
  have "buf_ok (bdisk (bwrite i s)) (bufs s ! j)" if "j < length (bufs s)" for j
    using bio_invD(1) [OF assms(1) that] bio_invD(2) [OF assms(1,2) that] assms(3)
    by (cases "j = i") (auto simp: bwrite_def buf_ok_def live_def)
  then show ?thesis using assms(1) by (auto simp: bio_inv_def bwrite_def)
qed

lemma data_mut_inv:
  assumes "bio_inv s" and "i < length (bufs s)" and "b_valid (bufs s ! i)" and "1 < b_refs (bufs s ! i)"
  shows "bio_inv (data_mut i x s)"
  using assms bio_invD(1) [OF assms(1,2)] unfolding data_mut_def
  by (auto intro!: bio_inv_same_no simp: buf_defs)

lemma buf_clone_inv:
  assumes "bio_inv s" and "i < length (bufs s)" and "1 < b_refs (bufs s ! i)"
  shows "bio_inv (buf_clone i s)"
  using assms bio_invD(1) [OF assms(1,2)] unfolding buf_clone_def
  by (auto intro!: bio_inv_same_no simp: buf_defs)

lemma buf_drop_inv:
  assumes "bio_inv s" and "i < length (bufs s)" and "1 < b_refs (bufs s ! i)"
    and "b_loading (bufs s ! i) \<longrightarrow> 2 < b_refs (bufs s ! i)"
    and "b_refs (bufs s ! i) = 2 \<longrightarrow> b_data (bufs s ! i) = bdisk s (b_no (bufs s ! i))"
  shows "bio_inv (buf_drop i s)"
  using assms bio_invD(1) [OF assms(1,2)] unfolding buf_drop_def
  by (auto intro!: bio_inv_same_no simp: buf_defs)

lemma bio_step_inv: "bio_step s s' \<Longrightarrow> bio_inv s \<Longrightarrow> bio_inv s'"
  by (induction rule: bio_step.induct)
    (auto intro: bread_try_inv load_finish_inv bwrite_inv buf_clone_inv buf_drop_inv)

section \<open>The view of a block\<close>

lemma view_cached:
  assumes inv: "bio_inv s" and i: "i < length (bufs s)" "b_valid (bufs s ! i)"
  shows "view s (b_no (bufs s ! i)) = b_data (bufs s ! i)"
proof -
  have "\<not> (b_no (bufs s ! j) = b_no (bufs s ! i) \<and> b_valid (bufs s ! j))" if "j < i" for j
    using bio_invD(2) [OF inv i(1), of j] that i by (auto simp: live_def)
  then have "find_idx (\<lambda>x. b_no x = b_no (bufs s ! i) \<and> b_valid x) (bufs s) = Some i"
    using i by (auto intro: find_idx_first)
  then show ?thesis by (simp add: view_def)
qed

lemma view_uncached:
  assumes "\<And>i. i < length (bufs s) \<Longrightarrow> b_valid (bufs s ! i) \<Longrightarrow> b_no (bufs s ! i) \<noteq> b"
  shows "view s b = bdisk s b"
proof -
  have "find_idx (\<lambda>x. b_no x = b \<and> b_valid x) (bufs s) = None"
    using assms by (auto simp: find_idx_None)
  then show ?thesis by (simp add: view_def)
qed

text \<open>Two caches over the same disk agree on a block when each valid copy of it in one is a
  valid copy in the other, or equals the disk.\<close>

lemma view_eqI:
  assumes inv: "bio_inv s" "bio_inv s'"
    and fwd: "\<And>i. i < length (bufs s) \<Longrightarrow> b_valid (bufs s ! i) \<Longrightarrow> b_no (bufs s ! i) = b
      \<Longrightarrow> view s' b = b_data (bufs s ! i)"
    and none: "(\<And>i. i < length (bufs s) \<Longrightarrow> b_valid (bufs s ! i) \<Longrightarrow> b_no (bufs s ! i) \<noteq> b)
      \<Longrightarrow> view s' b = bdisk s b"
  shows "view s' b = view s b"
proof (cases "\<exists>i < length (bufs s). b_valid (bufs s ! i) \<and> b_no (bufs s ! i) = b")
  case True
  then show ?thesis using fwd view_cached [OF inv(1)] by metis
next
  case False
  then have "view s' b = bdisk s b" by (intro none) blast
  moreover have "view s b = bdisk s b" using False by (intro view_uncached) blast
  ultimately show ?thesis by simp
qed

lemma view_update_meta:
  assumes "b_no x = b_no (bufs s ! i)" "b_valid x = b_valid (bufs s ! i)" "b_data x = b_data (bufs s ! i)"
    and "i < length (bufs s)"
  shows "view (s\<lparr>bufs := (bufs s)[i := x]\<rparr>) = view s"
proof
  fix b
  have "find_idx (\<lambda>y. b_no y = b \<and> b_valid y) ((bufs s)[i := x]) = find_idx (\<lambda>y. b_no y = b \<and> b_valid y) (bufs s)"
    using assms by (intro find_idx_update) simp
  then show "view (s\<lparr>bufs := (bufs s)[i := x]\<rparr>) b = view s b"
    using assms by (auto simp: view_def nth_list_update split: option.splits)
qed

lemma evict_view:
  assumes inv: "bio_inv s" and inv': "bio_inv (s\<lparr>bufs := (bufs s)[i := x]\<rparr>)" (is "bio_inv ?s'")
    and i: "pick_evict_slot (bufs s) = Some i" and x: "\<not> b_valid x"
  shows "view ?s' b = view s b"
proof (rule view_eqI [OF inv inv'])
  have il: "i < length (bufs s)" and ok: "buf_ok (bdisk s) (bufs s ! i)"
    using pick_evict_slot_Some [OF i] bio_invD(1) [OF inv] by auto
  fix j assume j: "j < length (bufs s)" "b_valid (bufs s ! j)" "b_no (bufs s ! j) = b"
  show "view ?s' b = b_data (bufs s ! j)"
  proof (cases "j = i")
    case True
    then have "b_refs (bufs s ! i) = 1" using pick_evict_slot_Some [OF i] j ok by (auto simp: buf_ok_def)
    then have "b_data (bufs s ! i) = bdisk s b" using True j ok by (auto simp: buf_ok_def)
    moreover have "view ?s' b = bdisk ?s' b"
    proof (rule view_uncached)
      fix k assume k: "k < length (bufs ?s')" "b_valid (bufs ?s' ! k)"
      then have "k \<noteq> i" using x il by auto
      then show "b_no (bufs ?s' ! k) \<noteq> b"
        using k j True bio_invD(2) [OF inv, of k j] by (auto simp: live_def)
    qed
    ultimately show ?thesis using True by simp
  next
    case False
    then show ?thesis using view_cached [OF inv', of j] j by simp
  qed
next
  assume none: "\<And>j. j < length (bufs s) \<Longrightarrow> b_valid (bufs s ! j) \<Longrightarrow> b_no (bufs s ! j) \<noteq> b"
  have "view ?s' b = bdisk ?s' b"
  proof (rule view_uncached)
    fix k assume k: "k < length (bufs ?s')" "b_valid (bufs ?s' ! k)"
    with x show "b_no (bufs ?s' ! k) \<noteq> b" using none [of k] by (cases "k = i") auto
  qed
  then show "view ?s' b = bdisk s b" by simp
qed

lemma bread_try_view:
  assumes inv: "bio_inv s" and r: "bread_try b now s = (r, s')"
  shows "view s' = view s"
proof -
  have inv': "bio_inv s'" by (rule bread_try_inv [OF assms])
  have meta: "view (s\<lparr>bufs := (bufs s)[i := touch now (arc_clone (bufs s ! i))]\<rparr>) = view s"
    "view (s\<lparr>bufs := (bufs s)[i := arc_clone (bufs s ! i)]\<rparr>) = view s" if "i < length (bufs s)" for i
    using that by (auto intro!: view_update_meta simp: touch_def arc_clone_def)
  show ?thesis
  proof (cases "find_idx (\<lambda>x. b_no x = b \<and> b_valid x) (bufs s)")
    case None
    note n1 = None
    show ?thesis
    proof (cases "find_idx (\<lambda>x. b_no x = b \<and> b_loading x) (bufs s)")
      case None
      show ?thesis
      proof (cases "pick_evict_slot (bufs s)")
        case (Some i)
        have s': "s' = s\<lparr>bufs := (bufs s)[i := touch now ((arc_clone (bufs s ! i))
                       \<lparr>b_valid := False, b_no := b, b_loading := True\<rparr>)]\<rparr>"
          using r n1 None Some by (simp add: bread_try_def)
        show ?thesis using evict_view [OF inv inv' [unfolded s'] Some] by (auto simp: s' touch_def)
      qed (use r n1 None in \<open>simp add: bread_try_def\<close>)
    qed (use r n1 meta(2) in \<open>auto simp: bread_try_def\<close>)
  qed (use r meta(1) in \<open>auto simp: bread_try_def\<close>)
qed

lemma load_finish_view:
  assumes inv: "bio_inv s" and i: "i < length (bufs s)" "b_loading (bufs s ! i)"
  shows "view (load_finish i s) = view s"
proof
  fix b
  let ?s' = "load_finish i s"
  have inv': "bio_inv ?s'" by (rule load_finish_inv [OF assms])
  have nv: "\<not> b_valid (bufs s ! i)" using bio_invD(1) [OF inv i(1)] i(2) by (auto simp: buf_ok_def)
  have same: "bufs ?s' ! j = bufs s ! j" if "j \<noteq> i" for j using that by (simp add: load_finish_def)
  have new: "view ?s' (b_no (bufs s ! i)) = bdisk s (b_no (bufs s ! i))"
    using view_cached [OF inv', of i] i by (simp add: load_finish_def)
  show "view ?s' b = view s b"
  proof (rule view_eqI [OF inv inv'])
    fix j assume j: "j < length (bufs s)" "b_valid (bufs s ! j)" "b_no (bufs s ! j) = b"
    then have "j \<noteq> i" using nv by auto
    then show "view ?s' b = b_data (bufs s ! j)"
      using view_cached [OF inv', of j] j same by (simp add: load_finish_def)
  next
    assume none: "\<And>j. j < length (bufs s) \<Longrightarrow> b_valid (bufs s ! j) \<Longrightarrow> b_no (bufs s ! j) \<noteq> b"
    show "view ?s' b = bdisk s b"
    proof (cases "b_no (bufs s ! i) = b")
      case False
      have "view ?s' b = bdisk ?s' b"
      proof (rule view_uncached)
        fix k assume k: "k < length (bufs ?s')" "b_valid (bufs ?s' ! k)"
        then show "b_no (bufs ?s' ! k) \<noteq> b"
          using none [of k] False i by (cases "k = i") (auto simp: load_finish_def)
      qed
      then show ?thesis by (simp add: load_finish_def)
    qed (use new in simp)
  qed
qed

lemma bwrite_view:
  assumes inv: "bio_inv s" and i: "i < length (bufs s)" "b_valid (bufs s ! i)"
  shows "view (bwrite i s) = view s"
proof
  fix b
  show "view (bwrite i s) b = view s b"
  proof (cases "b = b_no (bufs s ! i)")
    case True
    have "view (bwrite i s) (b_no (bufs s ! i)) = b_data (bufs s ! i)"
      using view_cached [OF bwrite_inv [OF assms], of i] i by (simp add: bwrite_def)
    with True show ?thesis using view_cached [OF inv i] by simp
  next
    case False
    then show ?thesis by (simp add: view_def bwrite_def split: option.split)
  qed
qed

lemma data_mut_view:
  assumes inv: "bio_inv s" and i: "i < length (bufs s)" "b_valid (bufs s ! i)" "1 < b_refs (bufs s ! i)"
  shows "view (data_mut i x s) = (view s)(b_no (bufs s ! i) := x)"
proof
  fix b
  show "view (data_mut i x s) b = ((view s)(b_no (bufs s ! i) := x)) b"
  proof (cases "b = b_no (bufs s ! i)")
    case True
    have "view (data_mut i x s) (b_no (bufs s ! i)) = x"
      using view_cached [OF data_mut_inv [OF assms], of i] i by (simp add: data_mut_def)
    with True show ?thesis by simp
  next
    case False
    have "find_idx (\<lambda>y. b_no y = b \<and> b_valid y) (bufs (data_mut i x s)) =
          find_idx (\<lambda>y. b_no y = b \<and> b_valid y) (bufs s)"
      unfolding data_mut_def by (simp add: find_idx_update)
    with False i show ?thesis
      by (auto simp: view_def data_mut_def nth_list_update split: option.splits dest: find_idx_SomeD)
  qed
qed

lemma bio_step_view:
  assumes "bio_step s s'" and "bio_inv s"
  shows "view s' = view s"
  using assms
proof (induction rule: bio_step.induct)
  case (st_clone i s)
  then show ?case unfolding buf_clone_def by (intro view_update_meta) (simp_all add: arc_clone_def)
next
  case (st_drop i s)
  then show ?case unfolding buf_drop_def by (intro view_update_meta) simp_all
qed (auto intro: bread_try_view load_finish_view bwrite_view)

section \<open>What bread returns\<close>

lemma bread_result:
  assumes inv: "bio_inv s" and r: "bread b now s = Some (i, s')"
  shows "bio_inv s'" and "view s' = view s" and "bdisk s' = bdisk s" and "i < length (bufs s')"
    and "b_no (bufs s' ! i) = b" and "b_valid (bufs s' ! i)" and "2 \<le> b_refs (bufs s' ! i)"
    and "\<exists>y. bufs s' = (bufs s)[i := y] \<and> b_refs y = b_refs (bufs s ! i) + 1"
proof -
  obtain ro s1 where t: "bread_try b now s = (Some (i, ro), s1)"
    and ro: "ro = Hit \<and> s' = s1 \<or> ro = Loader \<and> s' = load_finish i s1"
    using r by (auto simp: bread_def split: prod.splits option.splits role.splits)
  have inv1: "bio_inv s1" and v1: "view s1 = view s"
    using bread_try_inv [OF inv t] bread_try_view [OF inv t] by auto
  have hit: "ro = Hit \<Longrightarrow> i < length (bufs s) \<and> b_no (bufs s ! i) = b \<and> b_valid (bufs s ! i)
      \<and> s1 = s\<lparr>bufs := (bufs s)[i := touch now (arc_clone (bufs s ! i))]\<rparr>"
    using t by (auto simp: bread_try_def split: option.splits)
  have load: "ro = Loader \<Longrightarrow> i < length (bufs s) \<and> s1 = s\<lparr>bufs := (bufs s)[i := touch now ((arc_clone (bufs s ! i))
      \<lparr>b_valid := False, b_no := b, b_loading := True\<rparr>)]\<rparr>"
    using t pick_evict_slot_Some by (auto simp: bread_try_def split: option.splits)
  have refs: "1 \<le> b_refs (bufs s ! i)" using hit load ro bio_invD(1) [OF inv, of i] by (auto simp: buf_ok_def)
  have ld: "ro = Loader \<Longrightarrow> i < length (bufs s1) \<and> b_loading (bufs s1 ! i)" using load by (auto simp: touch_def)
  show "bio_inv s'" using ro inv1 ld load_finish_inv by auto
  show "view s' = view s" using ro inv1 ld v1 load_finish_view by auto
  show "bdisk s' = bdisk s" "i < length (bufs s')" "b_no (bufs s' ! i) = b" "b_valid (bufs s' ! i)"
    "2 \<le> b_refs (bufs s' ! i)" "\<exists>y. bufs s' = (bufs s)[i := y] \<and> b_refs y = b_refs (bufs s ! i) + 1"
    using ro hit load refs by (auto simp: load_finish_def touch_def arc_clone_def)
qed

section \<open>Block stores\<close>

text \<open>The interface the log relies on: a store of blocks over a backing disk, written
  through. The buffer cache provides it.\<close>

locale block_store =
  fixes lookup :: "'s \<Rightarrow> nat \<Rightarrow> block"
    and backing :: "'s \<Rightarrow> nat \<Rightarrow> block"
    and put :: "nat \<Rightarrow> block \<Rightarrow> 's \<Rightarrow> 's"
    and ok :: "'s \<Rightarrow> bool"
  assumes lookup_put: "ok s \<Longrightarrow> lookup (put b x s) = (lookup s)(b := x)"
    and backing_put: "ok s \<Longrightarrow> backing (put b x s) = (backing s)(b := x)"
    and ok_put: "ok s \<Longrightarrow> ok (put b x s)"
begin

lemma puts:
  "ok s \<Longrightarrow> ok (fold (\<lambda>(b, x). put b x) ws s)
     \<and> lookup (fold (\<lambda>(b, x). put b x) ws s) = fold (\<lambda>(b, x) d. d(b := x)) ws (lookup s)
     \<and> backing (fold (\<lambda>(b, x). put b x) ws s) = fold (\<lambda>(b, x) d. d(b := x)) ws (backing s)"
  by (induction ws arbitrary: s) (auto simp: lookup_put backing_put ok_put split: prod.splits)

lemma put_agree:
  "ok s \<Longrightarrow> lookup s = backing s \<Longrightarrow> lookup (put b x s) = backing (put b x s)"
  by (simp add: lookup_put backing_put)

end

text \<open>The pattern \<open>let buf = bread(b).await; buf.data_mut().copy_from_slice(x); bwrite(&buf).await\<close>
  of the log, after which the handle is dropped.\<close>

definition bio_put :: "nat \<Rightarrow> nat \<Rightarrow> block \<Rightarrow> bio \<Rightarrow> bio" where
  "bio_put now b x s =
     (case bread b now s of
        None \<Rightarrow> s
      | Some (i, s') \<Rightarrow> buf_drop i (bwrite i (data_mut i x s')))"

text \<open>No load is in flight and some buffer is idle: what a task running alone finds.\<close>

definition bio_quiet :: "bio \<Rightarrow> bool" where
  "bio_quiet s \<longleftrightarrow> bio_inv s \<and> (\<forall>x \<in> set (bufs s). \<not> b_loading x) \<and> (\<exists>x \<in> set (bufs s). b_refs x \<le> 1)"

lemma bread_quiet:
  assumes "bio_quiet s"
  shows "\<exists>i s'. bread b now s = Some (i, s')"
proof -
  have nl: "find_idx (\<lambda>x. b_no x = b \<and> b_loading x) (bufs s) = None"
    using assms by (auto simp: bio_quiet_def find_idx_None)
  have "lru_sweep 0 (bufs s) None \<noteq> None"
    using assms by (auto simp: bio_quiet_def lru_sweep_None) (meson leD)
  then have "pick_evict_slot (bufs s) \<noteq> None" by (auto simp: pick_evict_slot_def split: option.splits)
  with nl show ?thesis by (auto simp: bread_def bread_try_def split: option.splits)
qed

lemma bio_put_effect:
  assumes q: "bio_quiet s"
  shows "bio_quiet (bio_put now b x s) \<and> view (bio_put now b x s) = (view s)(b := x)
    \<and> bdisk (bio_put now b x s) = (bdisk s)(b := x)"
proof -
  have inv: "bio_inv s" using q by (simp add: bio_quiet_def)
  obtain i s1 where r: "bread b now s = Some (i, s1)" using bread_quiet [OF q] by blast
  note R = bread_result [OF inv r]
  obtain y where y: "bufs s1 = (bufs s)[i := y]" "b_refs y = b_refs (bufs s ! i) + 1" using R(8) by blast
  have i: "i < length (bufs s)" using R(4) y by simp
  let ?s2 = "data_mut i x s1"
  have s2: "bio_inv ?s2" "view ?s2 = (view s)(b := x)" "i < length (bufs ?s2)" "b_valid (bufs ?s2 ! i)"
    "b_no (bufs ?s2 ! i) = b" "bufs ?s2 = (bufs s)[i := y\<lparr>b_data := x\<rparr>]" "bdisk ?s2 = bdisk s"
    using data_mut_inv [of s1 i x] data_mut_view [of s1 i x] R y i by (auto simp: data_mut_def)
  let ?s3 = "bwrite i ?s2"
  have s3: "bio_inv ?s3" "view ?s3 = (view s)(b := x)" "bufs ?s3 = (bufs s)[i := y\<lparr>b_data := x\<rparr>]"
    "bdisk ?s3 = (bdisk s)(b := x)"
    using bwrite_inv [of ?s2 i] bwrite_view [of ?s2 i] s2 i by (auto simp: bwrite_def)
  let ?s4 = "buf_drop i ?s3"
  have nl: "\<not> b_loading y" using bio_invD(1) [OF R(1,4)] R(6) y i by (auto simp: buf_ok_def)
  have refs: "1 < b_refs y" "b_no y = b" using R(5,7) y i by auto
  have "bio_inv ?s4" using s3 i nl refs by (intro buf_drop_inv) auto
  moreover have "view ?s4 = (view s)(b := x)"
    using view_update_meta [of _ ?s3 i] s3 i unfolding buf_drop_def by auto
  moreover have b4: "bufs ?s4 = (bufs s)[i := y\<lparr>b_data := x, b_refs := b_refs (bufs s ! i)\<rparr>]"
    using s3 i y by (simp add: buf_drop_def)
  have "\<exists>z \<in> set (bufs ?s4). b_refs z \<le> 1"
  proof -
    obtain k where k: "k < length (bufs s)" "b_refs (bufs s ! k) \<le> 1"
      using q by (auto simp: bio_quiet_def in_set_conv_nth)
    then have "b_refs (bufs ?s4 ! k) \<le> 1" "k < length (bufs ?s4)"
      using b4 i by (cases "k = i"; simp)+
    then show ?thesis using nth_mem by blast
  qed
  moreover have "\<forall>z \<in> set (bufs ?s4). \<not> b_loading z"
    using b4 q nl set_update_subset_insert [of "bufs s" i] unfolding bio_quiet_def by fastforce
  moreover have "bdisk ?s4 = (bdisk s)(b := x)" using s3 by (simp add: buf_drop_def)
  ultimately show ?thesis using r by (simp add: bio_put_def bio_quiet_def)
qed

interpretation cache: block_store view bdisk "bio_put now" bio_quiet
  by unfold_locales (simp_all add: bio_put_effect)

section \<open>Properties\<close>

text \<open>A cache together with the abstract block store it must implement: the store starts as
  the disk's contents and changes only when a holder writes through \<open>data_mut\<close>.\<close>

inductive cache_run :: "bio \<Rightarrow> (nat \<Rightarrow> block) \<Rightarrow> bool" where
  cold: "cache_run (bio_init \<lparr>bufs = [], bdisk = d\<rparr>) d"
| internal: "cache_run s a \<Longrightarrow> bio_step s s' \<Longrightarrow> cache_run s' a"
| store: "cache_run s a \<Longrightarrow> bio_write s b x s' \<Longrightarrow> cache_run s' (a(b := x))"

inductive_cases bio_writeE: "bio_write s b x s'"

lemma bio_init_inv: "bio_inv (bio_init \<lparr>bufs = [], bdisk = d\<rparr>)"
  by (auto simp: bio_init_def bio_inv_def buffer_new_def buf_ok_def live_def)

lemma cache_run_sim: "cache_run s a \<Longrightarrow> bio_inv s \<and> view s = a"
proof (induction rule: cache_run.induct)
  case (cold d)
  have "view (bio_init \<lparr>bufs = [], bdisk = d\<rparr>) b = d b" for b
    using view_uncached [of "bio_init \<lparr>bufs = [], bdisk = d\<rparr>" b]
    by (simp add: bio_init_def buffer_new_def)
  then show ?case using bio_init_inv by auto
next
  case (internal s a s')
  then show ?case using bio_step_inv bio_step_view by auto
next
  case (store s a b x s')
  from store.hyps(2) show ?case
    by (elim bio_writeE) (use store.IH data_mut_inv data_mut_view in auto)
qed

text \<open>C7. The buffer cache implements a block store. In every state that concurrent hits,
  misses, evictions, loads, flushes, clones and drops can reach from a cold cache, a buffer
  returned by \<open>bread\<close> is valid, is the buffer of the requested block, is held by the caller
  and holds the last contents written to that block (or the disk's if there were none).\<close>

theorem bread_returns_last_write:
  assumes "cache_run s a" and "bread b now s = Some (i, s')"
  shows "b_no (bufs s' ! i) = b \<and> b_valid (bufs s' ! i) \<and> 1 < b_refs (bufs s' ! i)
    \<and> b_data (bufs s' ! i) = a b \<and> view s' = a"
proof -
  have inv: "bio_inv s" and v: "view s = a" using cache_run_sim [OF assms(1)] by auto
  note R = bread_result [OF inv assms(2)]
  have "view s' (b_no (bufs s' ! i)) = b_data (bufs s' ! i)" by (rule view_cached [OF R(1,4,6)])
  then show ?thesis using R v by simp
qed

theorem bread_returns_last_write_witness:
  "\<exists>i s'. bread 5 1 (bio_init \<lparr>bufs = [], bdisk = \<lambda>b. replicate BSIZE (word_of_nat b)\<rparr>) = Some (i, s')
     \<and> b_data (bufs s' ! i) = replicate BSIZE 5"
proof -
  let ?d = "\<lambda>b. replicate BSIZE (word_of_nat b :: byte)"
  let ?s = "bio_init \<lparr>bufs = [], bdisk = ?d\<rparr>"
  have "bio_quiet ?s" using bio_init_inv [of ?d]
    by (auto simp: bio_quiet_def bio_init_def buffer_new_def NBUF_def)
  then obtain i s' where "bread 5 1 ?s = Some (i, s')" using bread_quiet by blast
  with bread_returns_last_write [OF cold [of ?d] this] show ?thesis by auto
qed

text \<open>Eviction is safe and fair. \<open>pick_evict_slot\<close> never takes a buffer that is being
  loaded or that a task still holds; a free slot is preferred, otherwise the least recently
  used idle buffer is taken; and it gives up only when every buffer is loading or held.\<close>

lemma pick_evict_slot_correct:
  shows "case pick_evict_slot xs of
      Some i \<Rightarrow> i < length xs \<and> \<not> b_loading (xs ! i) \<and>
        (if \<exists>x \<in> set xs. \<not> b_valid x \<and> \<not> b_loading x then \<not> b_valid (xs ! i)
         else b_refs (xs ! i) \<le> 1 \<and>
           list_all (\<lambda>x. b_loading x \<or> 1 < b_refs x \<or> b_last_used (xs ! i) \<le> b_last_used x) xs)
    | None \<Rightarrow> list_all (\<lambda>x. b_loading x \<or> 1 < b_refs x) xs"
proof (cases "find_idx (\<lambda>x. \<not> b_valid x \<and> \<not> b_loading x) xs")
  case (Some i)
  then have "i < length xs" "\<not> b_valid (xs ! i)" "\<not> b_loading (xs ! i)" by auto
  with Some show ?thesis using nth_mem [of i xs] by (auto simp: pick_evict_slot_def)
next
  case None
  then have no: "\<not> (\<exists>x \<in> set xs. \<not> b_valid x \<and> \<not> b_loading x)"
    by (auto simp: find_idx_None in_set_conv_nth)
  show ?thesis
  proof (cases "lru_sweep 0 xs None")
    case None
    then have "pick_evict_slot xs = None" using \<open>find_idx _ xs = None\<close> by (simp add: pick_evict_slot_def)
    then show ?thesis using None by (simp add: lru_sweep_None list_all_iff)
  next
    case (Some p)
    then show ?thesis using no \<open>find_idx _ xs = None\<close> lru_sweep_spec [of 0 xs None "fst p" "snd p"]
      by (auto simp: pick_evict_slot_def list_all_iff not_less)
  qed
qed

end
