(* ===== verification/Log.thy ===== *)
theory Log
  imports Bio
begin

text \<open>
  The write-ahead log of \<open>crates/kernel/src/fs/log.rs\<close>. The in-memory \<open>LogState\<close> is a
  record; \<open>begin_op\<close>, \<open>log_write\<close> and \<open>end_op\<close> act on it, and \<open>commit\<close> and \<open>recover\<close> act
  on the disk, a function from block numbers to blocks. A commit is the list of block
  writes it issues, in order: a crash is a prefix of that list, so crash safety is a
  statement about every prefix. One write of a 512-byte block is one virtio sector and is
  atomic.

  A pinned buffer is named by its block number: the cache holds one valid buffer per
  block and never evicts a pinned one (theory \<open>Bio\<close>), so \<open>buf b\<close> is the current contents
  of the pinned buffer of block \<open>b\<close>.
\<close>

section \<open>State\<close>

definition MAXOPBLOCKS :: nat where "MAXOPBLOCKS = 10"

record log_header =
  lh_n :: nat
  lh_block :: "nat list"

definition log_header_zero :: log_header where
  "log_header_zero = \<lparr>lh_n = 0, lh_block = replicate LOGSIZE 0\<rparr>"

record log_state =
  log_start :: nat
  log_size :: nat
  outstanding :: nat
  committing :: bool
  initialized :: bool
  lh :: log_header
  pinned :: "nat list"

definition log_state_zero :: log_state where
  "log_state_zero = \<lparr>log_start = 0, log_size = 0, outstanding = 0, committing = False,
     initialized = False, lh = log_header_zero, pinned = []\<rparr>"

section \<open>Opening, extending and closing a transaction\<close>

text \<open>The body of \<open>begin_op\<close>'s loop, run with the log lock held: \<open>True\<close> when the caller
  was admitted, \<open>False\<close> when it must await \<open>WaitCommit\<close> and try again. \<open>None\<close> is the
  failed \<open>assert!(log.initialized)\<close>.\<close>

definition begin_op :: "log_state \<Rightarrow> (bool \<times> log_state) option" where
  "begin_op l =
     (if \<not> initialized l then None
      else if committing l then Some (False, l)
      else if LOGSIZE < lh_n (lh l) + (outstanding l + 1) * MAXOPBLOCKS then Some (False, l)
      else Some (True, l\<lparr>outstanding := outstanding l + 1\<rparr>))"

text \<open>\<open>WaitCommit::poll\<close>: ready when the admission test holds.\<close>

definition wait_commit_ready :: "log_state \<Rightarrow> bool" where
  "wait_commit_ready l \<longleftrightarrow>
     \<not> committing l \<and> lh_n (lh l) + (outstanding l + 1) * MAXOPBLOCKS \<le> LOGSIZE"

text \<open>\<open>log_write\<close>: record a modified buffer; a block already recorded is absorbed.\<close>

definition log_write :: "nat \<Rightarrow> log_state \<Rightarrow> log_state option" where
  "log_write b l =
     (if outstanding l = 0 then None
      else if LOGSIZE \<le> lh_n (lh l) then None
      else if b \<in> set (take (lh_n (lh l)) (lh_block (lh l))) then Some l
      else Some (l\<lparr>lh := \<lparr>lh_n = lh_n (lh l) + 1, lh_block = (lh_block (lh l))[lh_n (lh l) := b]\<rparr>,
                   pinned := pinned l @ [b]\<rparr>))"

text \<open>The locked section of \<open>end_op\<close>: the counter is a \<open>u32\<close> and wraps in a release
  build. \<open>True\<close> means the caller runs \<open>commit\<close>.\<close>

definition end_op :: "log_state \<Rightarrow> (bool \<times> log_state) option" where
  "end_op l =
     (let n = (outstanding l + 2 ^ 32 - 1) mod 2 ^ 32; l' = l\<lparr>outstanding := n\<rparr> in
      if committing l then None
      else if n = 0 then Some (True, l'\<lparr>committing := True\<rparr>)
      else Some (False, l'))"

definition end_op_finish :: "log_state \<Rightarrow> log_state" where
  "end_op_finish l = l\<lparr>committing := False\<rparr>"

section \<open>The header block\<close>

definition header_image :: "log_header \<Rightarrow> block" where
  "header_image h =
     fold (\<lambda>i dst. splice (4 + i * 4) (le_bytes 4 (lh_block h ! i)) dst) [0..<lh_n h]
       (splice 0 (le_bytes 4 (lh_n h)) (replicate BSIZE 0))"

definition parse_header :: "block \<Rightarrow> log_header" where
  "parse_header bs =
     (let n = min (le_at 0 4 bs) LOGSIZE in
      \<lparr>lh_n = n, lh_block = map (\<lambda>i. if i < n then le_at (4 + i * 4) 4 bs else 0) [0..<LOGSIZE]\<rparr>)"

definition read_log_header :: "nat \<Rightarrow> disk \<Rightarrow> log_header" where
  "read_log_header start d = parse_header (d start)"

definition write_log_header :: "nat \<Rightarrow> log_header \<Rightarrow> nat \<times> block" where
  "write_log_header start h = (start, header_image h)"

definition clear_log_header :: "nat \<Rightarrow> nat \<times> block" where
  "clear_log_header start = write_log_header start log_header_zero"

section \<open>Commit\<close>

definition run_writes :: "(nat \<times> block) list \<Rightarrow> disk \<Rightarrow> disk" where
  "run_writes ws d = fold (\<lambda>(b, x) d. d(b := x)) ws d"

text \<open>The block writes of \<open>commit\<close>: the log slots, the header (the commit point), the home
  blocks, the cleared header.\<close>

definition commit_writes :: "nat \<Rightarrow> log_header \<Rightarrow> nat list \<Rightarrow> (nat \<Rightarrow> block) \<Rightarrow> (nat \<times> block) list" where
  "commit_writes start h pins buf =
     (if lh_n h = 0 then []
      else map (\<lambda>i. (start + 1 + i, buf (pins ! i))) [0..<lh_n h]
           @ [write_log_header start h]
           @ map (\<lambda>b. (b, buf b)) pins
           @ [clear_log_header start])"

text \<open>The whole of \<open>commit\<close>: the disk after all writes, and the emptied in-memory log.\<close>

definition commit :: "(nat \<Rightarrow> block) \<Rightarrow> log_state \<Rightarrow> disk \<Rightarrow> log_state \<times> disk" where
  "commit buf l d =
     (if lh_n (lh l) = 0 then (l, d)
      else (l\<lparr>lh := log_header_zero, pinned := []\<rparr>,
            run_writes (commit_writes (log_start l) (lh l) (pinned l) buf) d))"

section \<open>Recovery\<close>

definition install_step :: "nat \<Rightarrow> log_header \<Rightarrow> nat \<Rightarrow> disk \<Rightarrow> disk" where
  "install_step start h i d = d(lh_block h ! i := d (start + 1 + i))"

definition install_log_to_home :: "nat \<Rightarrow> log_header \<Rightarrow> disk \<Rightarrow> disk" where
  "install_log_to_home start h d = fold (install_step start h) [0..<lh_n h] d"

definition recover :: "nat \<Rightarrow> disk \<Rightarrow> disk" where
  "recover start d =
     (let h = read_log_header start d in
      if lh_n h = 0 then d
      else run_writes [clear_log_header start] (install_log_to_home start h d))"

text \<open>Recovery interrupted after its first \<open>k\<close> writes.\<close>

definition recover_upto :: "nat \<Rightarrow> nat \<Rightarrow> disk \<Rightarrow> disk" where
  "recover_upto k start d =
     (let h = read_log_header start d in
      if lh_n h = 0 then d
      else run_writes (take (k - lh_n h) [clear_log_header start])
             (fold (install_step start h) (take k [0..<lh_n h]) d))"

text \<open>The same recovery written against any block store: every \<open>bread\<close> is a \<open>lookup\<close> and
  every \<open>data_mut\<close> with \<open>bwrite\<close> a \<open>put\<close>.\<close>

definition recover_via :: "('s \<Rightarrow> nat \<Rightarrow> block) \<Rightarrow> (nat \<Rightarrow> block \<Rightarrow> 's \<Rightarrow> 's) \<Rightarrow> nat \<Rightarrow> 's \<Rightarrow> 's" where
  "recover_via lookup put start s =
     (let h = parse_header (lookup s start) in
      if lh_n h = 0 then s
      else put start (header_image log_header_zero)
             (fold (\<lambda>i s. put (lh_block h ! i) (lookup s (start + 1 + i)) s) [0..<lh_n h] s))"

text \<open>\<open>init\<close>: set the location and recover.\<close>

definition log_init :: "nat \<Rightarrow> nat \<Rightarrow> log_state \<Rightarrow> disk \<Rightarrow> log_state \<times> disk" where
  "log_init start sz l d =
     (l\<lparr>log_start := start, log_size := sz, initialized := True\<rparr>, recover start d)"

section \<open>Well-formed logs\<close>

text \<open>The header mirrors the pinned list, entries are distinct home blocks outside the log
  area, and unused header slots are zero.\<close>

definition log_area :: "nat \<Rightarrow> nat set" where
  "log_area start = {start..start + LOGSIZE}"

definition wf_header :: "nat \<Rightarrow> log_header \<Rightarrow> bool" where
  "wf_header start h \<longleftrightarrow>
     lh_n h \<le> LOGSIZE \<and> length (lh_block h) = LOGSIZE \<and>
     (\<forall>b \<in> set (lh_block h). b < 2 ^ 32) \<and>
     drop (lh_n h) (lh_block h) = replicate (LOGSIZE - lh_n h) 0 \<and>
     distinct (take (lh_n h) (lh_block h)) \<and>
     set (take (lh_n h) (lh_block h)) \<inter> log_area start = {}"

definition wf_log :: "log_state \<Rightarrow> bool" where
  "wf_log l \<longleftrightarrow> wf_header (log_start l) (lh l) \<and> pinned l = take (lh_n (lh l)) (lh_block (lh l))"

lemma LOGSIZE_pos [simp]: "0 < LOGSIZE"
  by (simp add: LOGSIZE_def)

lemma log_header_zero_n [simp]: "lh_n log_header_zero = 0"
  by (simp add: log_header_zero_def)

lemma wf_header_zero [simp]: "wf_header start log_header_zero"
  by (simp add: wf_header_def log_header_zero_def)

lemma wf_log_zero [simp]: "wf_log log_state_zero"
  by (simp add: wf_log_def log_state_zero_def log_header_zero_def wf_header_def)

lemma wf_log_pinned_length: "wf_log l \<Longrightarrow> length (pinned l) = lh_n (lh l)"
  by (simp add: wf_log_def wf_header_def)

lemma wf_header_nth:
  assumes "wf_header start h" and "i < lh_n h"
  shows "lh_block h ! i \<notin> log_area start" and "lh_block h ! i < 2 ^ 32"
proof -
  have i: "i < LOGSIZE" "i < length (lh_block h)" using assms by (auto simp: wf_header_def)
  have "lh_block h ! i \<in> set (take (lh_n h) (lh_block h))"
    using assms i by (auto simp: in_set_conv_nth intro!: exI [of _ i])
  then show "lh_block h ! i \<notin> log_area start" using assms(1) unfolding wf_header_def by blast
  show "lh_block h ! i < 2 ^ 32" using assms(1) nth_mem [OF i(2)] unfolding wf_header_def by blast
qed

lemma log_write_wf:
  assumes wf: "wf_log l" and w: "log_write b l = Some l'"
    and b: "b < 2 ^ 32" "b \<notin> log_area (log_start l)"
  shows "wf_log l'"
proof -
  let ?n = "lh_n (lh l)" and ?bs = "lh_block (lh l)"
  have n: "?n < LOGSIZE" "length ?bs = LOGSIZE"
    using wf w by (auto simp: wf_log_def wf_header_def log_write_def split: if_splits)
  show ?thesis
  proof (cases "b \<in> set (take ?n ?bs)")
    case True
    with w wf show ?thesis by (auto simp: log_write_def split: if_splits)
  next
    case False
    then have l': "l' = l\<lparr>lh := \<lparr>lh_n = ?n + 1, lh_block = ?bs[?n := b]\<rparr>, pinned := pinned l @ [b]\<rparr>"
      using w by (auto simp: log_write_def split: if_splits)
    have tk: "take (?n + 1) (?bs[?n := b]) = take ?n ?bs @ [b]"
      using n by (simp add: take_Suc_conv_app_nth)
    have dr: "drop (?n + 1) (?bs[?n := b]) = replicate (LOGSIZE - (?n + 1)) 0"
    proof -
      have "drop (?n + 1) (?bs[?n := b]) = drop 1 (drop ?n ?bs)" by simp
      also have "\<dots> = drop 1 (replicate (LOGSIZE - ?n) 0)"
        using wf by (simp only: wf_log_def wf_header_def)
      finally show ?thesis by simp
    qed
    have mem: "\<forall>x \<in> set (?bs[?n := b]). x < 2 ^ 32"
      using wf b(1) set_update_subset_insert [of ?bs ?n b] by (auto simp: wf_log_def wf_header_def)
    show ?thesis
      using wf n b(2) False mem tk dr unfolding l' wf_log_def wf_header_def by auto
  qed
qed

section \<open>The header round trip\<close>

lemma header_slots:
  assumes "\<forall>i < m. f i < 256 ^ 4" and "4 + m * 4 \<le> length bs"
  defines "out \<equiv> fold (\<lambda>i dst. splice (4 + i * 4) (le_bytes 4 (f i)) dst) [0..<m] bs"
  shows "length out = length bs \<and> le_at 0 4 out = le_at 0 4 bs \<and>
         (\<forall>j < m. le_at (4 + j * 4) 4 out = f j)"
  using assms(1,2) unfolding out_def
proof (induction m)
  case 0
  then show ?case by simp
next
  case (Suc m)
  let ?out = "fold (\<lambda>i dst. splice (4 + i * 4) (le_bytes 4 (f i)) dst) [0..<m] bs"
  have IH: "length ?out = length bs" "le_at 0 4 ?out = le_at 0 4 bs"
    "\<And>j. j < m \<Longrightarrow> le_at (4 + j * 4) 4 ?out = f j"
    using Suc by auto
  have fm: "f m < 256 ^ 4" using Suc.prems(1) by blast
  show ?case
  proof (intro conjI allI impI)
    fix j assume j: "j < Suc m"
    show "le_at (4 + j * 4) 4 (fold (\<lambda>i dst. splice (4 + i * 4) (le_bytes 4 (f i)) dst) [0..<Suc m] bs) = f j"
    proof (cases "j = m")
      case True
      with fm Suc.prems(2) IH(1) show ?thesis by (simp add: le_at_splice_same)
    next
      case False
      then have "j < m" using j by simp
      with Suc.prems(2) IH show ?thesis by (simp add: le_at_splice_other)
    qed
  qed (use Suc.prems(2) IH in \<open>simp_all add: le_at_splice_other\<close>)
qed

lemma header_image_facts:
  assumes "wf_header start h"
  shows "length (header_image h) = BSIZE" and "le_at 0 4 (header_image h) = lh_n h"
    and "\<And>j. j < lh_n h \<Longrightarrow> le_at (4 + j * 4) 4 (header_image h) = lh_block h ! j"
proof -
  let ?z = "splice 0 (le_bytes 4 (lh_n h)) (replicate BSIZE (0 :: byte))"
  have n: "lh_n h \<le> 30" using assms by (simp add: wf_header_def LOGSIZE_def)
  have b: "\<forall>i < lh_n h. lh_block h ! i < 256 ^ 4" using wf_header_nth(2) [OF assms] by simp
  have z: "length ?z = BSIZE" "le_at 0 4 ?z = lh_n h"
    using n by (simp_all add: BSIZE_def le_at_splice_same)
  have "4 + lh_n h * 4 \<le> length ?z" using n z(1) by (simp add: BSIZE_def)
  from header_slots [OF b this] z
  show "length (header_image h) = BSIZE" "le_at 0 4 (header_image h) = lh_n h"
    "\<And>j. j < lh_n h \<Longrightarrow> le_at (4 + j * 4) 4 (header_image h) = lh_block h ! j"
    unfolding header_image_def by simp_all
qed

lemma parse_header_image:
  assumes "wf_header start h"
  shows "parse_header (header_image h) = h"
proof -
  have n: "lh_n h \<le> LOGSIZE" and len: "length (lh_block h) = LOGSIZE"
    and z: "drop (lh_n h) (lh_block h) = replicate (LOGSIZE - lh_n h) 0"
    using assms by (auto simp: wf_header_def)
  have "map (\<lambda>i. if i < lh_n h then le_at (4 + i * 4) 4 (header_image h) else 0) [0..<LOGSIZE] = lh_block h"
  proof (rule nth_equalityI)
    fix i assume "i < length (map (\<lambda>i. if i < lh_n h then le_at (4 + i * 4) 4 (header_image h) else 0) [0..<LOGSIZE])"
    then have i: "i < LOGSIZE" by simp
    have "lh_block h ! i = 0" if "\<not> i < lh_n h"
    proof -
      have "lh_block h ! i = drop (lh_n h) (lh_block h) ! (i - lh_n h)" using that len n by simp
      also have "\<dots> = 0" unfolding z using that i by simp
      finally show ?thesis .
    qed
    then show "map (\<lambda>i. if i < lh_n h then le_at (4 + i * 4) 4 (header_image h) else 0) [0..<LOGSIZE] ! i = lh_block h ! i"
      using i header_image_facts(3) [OF assms] by simp
  qed (simp add: len)
  then show ?thesis
    unfolding parse_header_def Let_def header_image_facts(2) [OF assms]
    using n by (simp add: min_absorb1)
qed

lemma parse_header_zero: "lh_n (parse_header (header_image log_header_zero)) = 0"
  by (simp add: parse_header_image [OF wf_header_zero])

section \<open>Effects of the write sequences\<close>

lemma run_writes_nil [simp]: "run_writes [] d = d"
  and run_writes_append [simp]: "run_writes (xs @ ys) d = run_writes ys (run_writes xs d)"
  and run_writes_Cons [simp]: "run_writes ((b, x) # ws) d = run_writes ws (d(b := x))"
  by (simp_all add: run_writes_def)

lemma run_writes_other: "b \<notin> fst ` set ws \<Longrightarrow> run_writes ws d b = d b"
  unfolding run_writes_def by (induction ws arbitrary: d) auto

lemma run_writes_home:
  "run_writes (map (\<lambda>b. (b, f b)) bs) d b = (if b \<in> set bs then f b else d b)"
  unfolding run_writes_def by (induction bs arbitrary: d) auto

lemma run_writes_slots:
  "run_writes (map (\<lambda>i. (s + 1 + i, g i)) [0..<n]) d b =
     (if s < b \<and> b \<le> s + n then g (b - s - 1) else d b)"
proof (induction n)
  case 0
  then show ?case by auto
next
  case (Suc n)
  have "run_writes (map (\<lambda>i. (s + 1 + i, g i)) [0..<Suc n]) d =
        (run_writes (map (\<lambda>i. (s + 1 + i, g i)) [0..<n]) d)(s + 1 + n := g n)"
    by (simp del: upt_Suc add: upt_Suc_append)
  then show ?case using Suc by auto
qed

lemma install_Suc:
  "fold (install_step start h) [0..<Suc m] d b =
     (if b = lh_block h ! m then fold (install_step start h) [0..<m] d (start + 1 + m)
      else fold (install_step start h) [0..<m] d b)"
  unfolding upt_Suc_append [OF le0] fold_append o_def by (simp add: install_step_def)

lemma install_other:
  assumes "m \<le> length (lh_block h)" and "b \<notin> set (take m (lh_block h))"
  shows "fold (install_step start h) [0..<m] d b = d b"
  using assms
proof (induction m)
  case 0
  then show ?case by simp
next
  case (Suc m)
  then have "b \<noteq> lh_block h ! m" "b \<notin> set (take m (lh_block h))"
    by (auto simp: take_Suc_conv_app_nth)
  with Suc show ?case unfolding install_Suc by simp
qed

lemma install_home:
  assumes wf: "wf_header start h" and "m \<le> lh_n h" and "i < m"
  shows "fold (install_step start h) [0..<m] d (lh_block h ! i) = d (start + 1 + i)"
  using assms(2,3)
proof (induction m)
  case 0
  then show ?case by simp
next
  case (Suc m)
  have sz: "Suc m \<le> length (lh_block h)" "lh_n h \<le> LOGSIZE" using wf Suc.prems by (auto simp: wf_header_def)
  show ?case
  proof (cases "i = m")
    case True
    have "start + 1 + m \<in> log_area start" using sz Suc.prems by (simp add: log_area_def)
    then have "start + 1 + m \<notin> set (take m (lh_block h))"
      using wf set_take_subset_set_take [of m "lh_n h" "lh_block h"] Suc.prems
      unfolding wf_header_def by fastforce
    then have "fold (install_step start h) [0..<m] d (start + 1 + m) = d (start + 1 + m)"
      using install_other sz by (metis Suc_leD)
    then show ?thesis using True unfolding install_Suc by simp
  next
    case False
    have "lh_block h ! i \<noteq> lh_block h ! m"
      using wf False Suc.prems sz nth_eq_iff_index_eq [of "take (lh_n h) (lh_block h)" i m]
      unfolding wf_header_def by simp
    with False Suc show ?thesis unfolding install_Suc by simp
  qed
qed

section \<open>Crash safety\<close>

text \<open>The disk found after a crash that let the first \<open>k\<close> writes of \<open>commit\<close> through, and
  the disk after recovery was itself cut short once for every entry of \<open>js\<close>.\<close>

definition crash_commit :: "nat \<Rightarrow> (nat \<Rightarrow> block) \<Rightarrow> log_state \<Rightarrow> disk \<Rightarrow> disk" where
  "crash_commit k buf l d = run_writes (take k (commit_writes (log_start l) (lh l) (pinned l) buf)) d"

definition crash_recoveries :: "nat list \<Rightarrow> nat \<Rightarrow> disk \<Rightarrow> disk" where
  "crash_recoveries js start d = fold (\<lambda>j. recover_upto j start) js d"

lemma start_notin_home:
  assumes "wf_header start h"
  shows "start \<notin> set (take m (take (lh_n h) (lh_block h)))"
proof -
  have "start \<in> log_area start" by (simp add: log_area_def)
  then show ?thesis using assms set_take_subset [of m "take (lh_n h) (lh_block h)"]
    unfolding wf_header_def by blast
qed

lemma recover_empty: "lh_n (parse_header (d start)) = 0 \<Longrightarrow> recover start d = d"
  by (simp add: recover_def read_log_header_def)

lemma recover_other:
  assumes "parse_header (d start) = h" and "wf_header start h"
    and "b \<notin> set (take (lh_n h) (lh_block h))" and "b \<noteq> start"
  shows "recover start d b = d b"
proof -
  have "lh_n h \<le> length (lh_block h)" using assms(2) by (simp add: wf_header_def)
  then show ?thesis using assms
    by (auto simp: recover_def read_log_header_def Let_def clear_log_header_def
        write_log_header_def install_log_to_home_def install_other)
qed

lemma recover_home:
  assumes "parse_header (d start) = h" and "wf_header start h" and "i < lh_n h"
  shows "recover start d (lh_block h ! i) = d (start + 1 + i)"
proof -
  have "start \<in> log_area start" by (simp add: log_area_def)
  then have "lh_block h ! i \<noteq> start" using wf_header_nth(1) [OF assms(2,3)] by metis
  then show ?thesis using assms
    by (auto simp: recover_def read_log_header_def Let_def clear_log_header_def
        write_log_header_def install_log_to_home_def install_home)
qed

text \<open>The shapes a prefix of the commit's writes can have.\<close>

lemma crash_before_header:
  assumes "k \<le> lh_n (lh l)" and "lh_n (lh l) \<noteq> 0"
  shows "crash_commit k buf l d =
    run_writes (map (\<lambda>i. (log_start l + 1 + i, buf (pinned l ! i))) [0..<k]) d"
  using assms by (simp add: crash_commit_def commit_writes_def take_map)

lemma crash_after_header:
  assumes "lh_n (lh l) < k" and "lh_n (lh l) \<noteq> 0"
  shows "crash_commit k buf l d =
    run_writes (take (k - lh_n (lh l) - 1 - length (pinned l)) [clear_log_header (log_start l)])
      (run_writes (map (\<lambda>b. (b, buf b)) (take (k - lh_n (lh l) - 1) (pinned l)))
        ((run_writes (map (\<lambda>i. (log_start l + 1 + i, buf (pinned l ! i))) [0..<lh_n (lh l)]) d)
          (log_start l := header_image (lh l))))"
proof -
  have "take (k - lh_n (lh l)) (write_log_header (log_start l) (lh l) # map (\<lambda>b. (b, buf b)) (pinned l)
            @ [clear_log_header (log_start l)]) =
        write_log_header (log_start l) (lh l) # map (\<lambda>b. (b, buf b)) (take (k - lh_n (lh l) - 1) (pinned l))
          @ take (k - lh_n (lh l) - 1 - length (pinned l)) [clear_log_header (log_start l)]"
    using assms by (cases "k - lh_n (lh l)") (simp_all add: take_map)
  then have "take k (commit_writes (log_start l) (lh l) (pinned l) buf) =
      map (\<lambda>i. (log_start l + 1 + i, buf (pinned l ! i))) [0..<lh_n (lh l)]
      @ [write_log_header (log_start l) (lh l)] @ map (\<lambda>b. (b, buf b)) (take (k - lh_n (lh l) - 1) (pinned l))
      @ take (k - lh_n (lh l) - 1 - length (pinned l)) [clear_log_header (log_start l)]"
    using assms by (simp add: commit_writes_def)
  then show ?thesis unfolding crash_commit_def by (simp add: write_log_header_def)
qed

lemma crash_header_cases:
  assumes wf: "wf_log l" and empty: "lh_n (parse_header (d (log_start l))) = 0"
  shows "lh_n (parse_header (crash_commit k buf l d (log_start l))) = 0 \<and>
           (k \<le> lh_n (lh l) \<or> 2 * lh_n (lh l) + 1 < k \<or> lh_n (lh l) = 0)
       \<or> parse_header (crash_commit k buf l d (log_start l)) = lh l \<and> lh_n (lh l) < k \<and>
           lh_n (lh l) \<noteq> 0 \<and> k \<le> 2 * lh_n (lh l) + 1"
proof (cases "lh_n (lh l) = 0")
  case True
  with empty show ?thesis by (simp add: crash_commit_def commit_writes_def)
next
  case nz: False
  let ?s = "log_start l"
  have wfh: "wf_header ?s (lh l)" and p: "pinned l = take (lh_n (lh l)) (lh_block (lh l))"
    using wf by (auto simp: wf_log_def)
  have len: "length (pinned l) = lh_n (lh l)" by (rule wf_log_pinned_length [OF wf])
  consider "k \<le> lh_n (lh l)" | "lh_n (lh l) < k" "k \<le> 2 * lh_n (lh l) + 1" | "2 * lh_n (lh l) + 1 < k"
    by linarith
  then show ?thesis
  proof cases
    case 1
    with nz empty show ?thesis by (simp add: crash_before_header run_writes_slots del: One_nat_def)
  next
    case 2
    have "?s \<notin> set (take (k - lh_n (lh l) - 1) (pinned l))"
      unfolding p by (rule start_notin_home [OF wfh])
    with 2 nz len show ?thesis
      by (simp add: crash_after_header run_writes_home parse_header_image [OF wfh])
  next
    case 3
    then have "crash_commit k buf l d ?s = header_image log_header_zero"
      using nz len by (simp add: crash_after_header clear_log_header_def write_log_header_def take_Cons')
    with 3 show ?thesis by (simp add: parse_header_zero)
  qed
qed

lemma crash_commit_other:
  assumes "wf_log l" and "b \<notin> log_area (log_start l)" and "b \<notin> set (pinned l)"
  shows "crash_commit k buf l d b = d b"
proof -
  have n: "lh_n (lh l) \<le> LOGSIZE" using assms(1) by (simp add: wf_log_def wf_header_def)
  have "b \<notin> fst ` set (commit_writes (log_start l) (lh l) (pinned l) buf)"
    using assms(2,3) n
    by (auto simp: commit_writes_def log_area_def write_log_header_def clear_log_header_def image_iff)
  then have "b \<notin> fst ` set (take k (commit_writes (log_start l) (lh l) (pinned l) buf))"
    using set_take_subset by fast
  then show ?thesis unfolding crash_commit_def by (rule run_writes_other)
qed

lemma crash_commit_slot:
  assumes wf: "wf_log l" and k: "lh_n (lh l) < k" and i: "i < lh_n (lh l)"
  shows "crash_commit k buf l d (log_start l + 1 + i) = buf (pinned l ! i)"
proof -
  let ?s = "log_start l"
  have n: "lh_n (lh l) \<le> LOGSIZE" "lh_n (lh l) \<noteq> 0"
    using wf i by (auto simp: wf_log_def wf_header_def)
  then have "?s + 1 + i \<in> log_area ?s" using i by (simp add: log_area_def)
  then have "?s + 1 + i \<notin> set (pinned l)" using wf unfolding wf_log_def wf_header_def by auto
  then have notin: "?s + 1 + i \<notin> set (take m (pinned l))" for m using set_take_subset by fast
  have "run_writes (take m [clear_log_header ?s]) e (?s + 1 + i) = e (?s + 1 + i)" for m e
    by (cases m) (simp_all add: clear_log_header_def write_log_header_def)
  then show ?thesis
    using notin k n i by (simp add: crash_after_header run_writes_home run_writes_slots del: One_nat_def)
qed

lemma crash_commit_early:
  assumes wf: "wf_log l" and b: "b \<notin> log_area (log_start l)" and k: "k \<le> lh_n (lh l)"
  shows "crash_commit k buf l d b = d b"
proof (cases "lh_n (lh l) = 0")
  case False
  have "lh_n (lh l) \<le> LOGSIZE" using wf by (simp add: wf_log_def wf_header_def)
  then show ?thesis using b k
    unfolding crash_before_header [OF k False] run_writes_slots log_area_def by auto
qed (simp add: crash_commit_def commit_writes_def)

lemma crash_commit_late:
  assumes wf: "wf_log l" and b: "b \<notin> log_area (log_start l)" and k: "2 * lh_n (lh l) + 1 < k"
  shows "crash_commit k buf l d b = (if b \<in> set (pinned l) then buf b else d b)"
proof (cases "b \<in> set (pinned l)")
  case True
  have len: "length (pinned l) = lh_n (lh l)" by (rule wf_log_pinned_length [OF wf])
  with True have "lh_n (lh l) \<noteq> 0" by (metis length_pos_if_in_set less_numeral_extra(3))
  moreover have "b \<noteq> log_start l" using b by (auto simp: log_area_def)
  ultimately show ?thesis using True k len
    by (simp add: crash_after_header clear_log_header_def write_log_header_def run_writes_home take_Cons')
qed (simp add: crash_commit_other [OF wf b])

text \<open>Recovery after a crash anywhere in \<open>commit\<close>: all of the transaction or none of it.\<close>

lemma commit_crash_atomic:
  assumes wf: "wf_log l" and empty: "lh_n (read_log_header (log_start l) d) = 0"
    and b: "b \<notin> log_area (log_start l)"
  shows "recover (log_start l) (crash_commit k buf l d) b =
    (if b \<in> set (pinned l) \<and> lh_n (lh l) < k then buf b else d b)"
proof -
  let ?s = "log_start l" and ?n = "lh_n (lh l)" and ?d = "crash_commit k buf l d"
  have wfh: "wf_header ?s (lh l)" and p: "pinned l = take ?n (lh_block (lh l))"
    using wf by (auto simp: wf_log_def)
  have len: "length (pinned l) = ?n" by (rule wf_log_pinned_length [OF wf])
  have bs: "b \<noteq> ?s" using b by (auto simp: log_area_def)
  have e: "lh_n (parse_header (d ?s)) = 0" using empty by (simp add: read_log_header_def)
  from crash_header_cases [where d = d and k = k and buf = buf, OF wf e] show ?thesis
  proof (elim disjE conjE)
    assume "lh_n (parse_header (?d ?s)) = 0" and "k \<le> ?n"
    then show ?thesis by (simp add: recover_empty crash_commit_early [OF wf b])
  next
    assume z: "lh_n (parse_header (?d ?s)) = 0" and k: "2 * ?n + 1 < k"
    have r: "recover ?s ?d = ?d" by (rule recover_empty) (rule z)
    from k have "?n < k" by linarith
    with r k show ?thesis by (simp only: crash_commit_late [OF wf b]) simp
  next
    assume "lh_n (parse_header (?d ?s)) = 0" and "?n = 0"
    then show ?thesis using len by (simp add: recover_empty crash_commit_def commit_writes_def)
  next
    assume h: "parse_header (?d ?s) = lh l" and k: "?n < k"
    show ?thesis
    proof (cases "b \<in> set (pinned l)")
      case True
      then obtain i where i: "i < ?n" "b = pinned l ! i" by (metis in_set_conv_nth len)
      then show ?thesis
        using recover_home [where d = ?d, OF h wfh i(1)] crash_commit_slot [OF wf k i(1)] k True p by simp
    next
      case False
      then show ?thesis
        using recover_other [where d = ?d, OF h wfh _ bs] crash_commit_other [OF wf b False] p by simp
    qed
  qed
qed

text \<open>Recovery cut short and run again.\<close>

lemma recover_upto_install:
  assumes "parse_header (d start) = h" and "k \<le> lh_n h" and "lh_n h \<noteq> 0"
  shows "recover_upto k start d = fold (install_step start h) [0..<k] d"
  using assms by (simp add: recover_upto_def read_log_header_def)

lemma recover_upto_all:
  assumes "parse_header (d start) = h" and "lh_n h < k"
  shows "recover_upto k start d = recover start d"
  using assms
  by (simp add: recover_upto_def recover_def read_log_header_def install_log_to_home_def Let_def
      take_Cons')

lemma recover_header:
  assumes "wf_header start (parse_header (d start))"
  shows "lh_n (parse_header (recover start d start)) = 0"
  by (simp add: recover_def read_log_header_def clear_log_header_def write_log_header_def
      parse_header_zero Let_def)

lemma recover_upto_step:
  assumes wf: "wf_header start (parse_header (d start))"
  shows "wf_header start (parse_header (recover_upto k start d start)) \<and>
         recover start (recover_upto k start d) = recover start d"
proof -
  let ?h = "parse_header (d start)" and ?d = "recover_upto k start d"
  consider "lh_n ?h = 0" | "lh_n ?h < k" "lh_n ?h \<noteq> 0" | "k \<le> lh_n ?h" "lh_n ?h \<noteq> 0" by linarith
  then show ?thesis
  proof cases
    case 1
    with wf show ?thesis by (simp add: recover_upto_def read_log_header_def)
  next
    case 2
    have "recover start d start = header_image log_header_zero"
      using 2 by (simp add: recover_def read_log_header_def clear_log_header_def
          write_log_header_def Let_def)
    then have "parse_header (recover start d start) = log_header_zero"
      by (simp add: parse_header_image [OF wf_header_zero])
    with 2 show ?thesis
      by (simp add: recover_upto_all recover_empty recover_header [where d = d, OF wf])
  next
    case 3
    have len: "k \<le> length (lh_block ?h)" "lh_n ?h \<le> LOGSIZE" using wf 3 by (auto simp: wf_header_def)
    have tk: "take k (take (lh_n ?h) (lh_block ?h)) = take k (lh_block ?h)" using 3 by (simp add: min_absorb1)
    have area: "?d x = d x" if "x \<in> log_area start" for x
    proof -
      have "x \<notin> set (take k (lh_block ?h))"
        using wf that set_take_subset [of k "take (lh_n ?h) (lh_block ?h)"] tk
        unfolding wf_header_def by auto
      then show ?thesis using 3 len by (simp add: recover_upto_install install_other)
    qed
    have hd: "parse_header (?d start) = ?h" using area [of start] by (simp add: log_area_def)
    have "recover start ?d b = recover start d b" for b
    proof (cases "b \<in> set (take (lh_n ?h) (lh_block ?h))")
      case True
      then obtain i where i: "i < lh_n ?h" "b = lh_block ?h ! i" by (auto simp: in_set_conv_nth)
      have "start + 1 + i \<in> log_area start" using i len by (simp add: log_area_def)
      then show ?thesis using recover_home [where d = ?d, OF hd wf i(1)] recover_home [where d = d, OF refl wf i(1)] i area by simp
    next
      case False
      have "b \<notin> set (take k (lh_block ?h))"
        using False set_take_subset [of k "take (lh_n ?h) (lh_block ?h)"] tk by auto
      then have "?d b = d b" using 3 len by (simp add: recover_upto_install install_other)
      moreover have "recover start e start = header_image log_header_zero"
        if "parse_header (e start) = ?h" for e :: disk
        using that 3 by (simp add: recover_def read_log_header_def clear_log_header_def
            write_log_header_def Let_def)
      ultimately show ?thesis
        using recover_other [where d = ?d, OF hd wf False] recover_other [where d = d, OF refl wf False] hd
        by (cases "b = start") auto
    qed
    then show ?thesis using hd wf by auto
  qed
qed

lemma crash_recoveries_recover:
  assumes "wf_header start (parse_header (d start))"
  shows "recover start (crash_recoveries js start d) = recover start d"
  using assms unfolding crash_recoveries_def
proof (induction js arbitrary: d)
  case (Cons j js)
  then show ?case using recover_upto_step [where d = d and k = j, OF Cons.prems] by simp
qed simp

lemma wf_header_empty: "lh_n (parse_header bs) = 0 \<Longrightarrow> wf_header start (parse_header bs)"
  by (auto simp: wf_header_def parse_header_def Let_def min_def map_replicate_const split: if_splits)

lemma crash_commit_header_wf:
  assumes "wf_log l" and "lh_n (parse_header (d (log_start l))) = 0"
  shows "wf_header (log_start l) (parse_header (crash_commit k buf l d (log_start l)))"
  using crash_header_cases [where d = d and k = k and buf = buf, OF assms] assms(1) wf_header_empty by (auto simp: wf_log_def)

section \<open>Recovery through a block store\<close>

context block_store
begin

lemma install_via:
  fixes m start :: nat and h :: log_header
  assumes "ok s" and "lookup s = backing s"
  defines "out \<equiv> fold (\<lambda>i s. put (lh_block h ! i) (lookup s (start + 1 + i)) s) [0..<m] s"
  shows "ok out \<and> lookup out = fold (install_step start h) [0..<m] (lookup s) \<and> lookup out = backing out"
  using assms(1,2) unfolding out_def
  by (induction m) (auto simp: lookup_put backing_put ok_put install_step_def)

lemma recover_via_refines:
  assumes "ok s" and "lookup s = backing s"
  shows "ok (recover_via lookup put start s)
    \<and> lookup (recover_via lookup put start s) = recover start (backing s)
    \<and> backing (recover_via lookup put start s) = recover start (backing s)"
  using install_via [OF assms, of "parse_header (backing s start)" start
      "lh_n (parse_header (backing s start))"] assms
  by (auto simp: recover_via_def recover_def read_log_header_def install_log_to_home_def Let_def
      clear_log_header_def write_log_header_def lookup_put backing_put ok_put)

end

section \<open>Concurrent file-system operations\<close>

text \<open>Several kernel tasks run file-system calls at once. \<open>ls_ops\<close> maps each task inside a
  \<open>begin_op\<close>/\<open>end_op\<close> pair to the number of log slots it has taken. The steps are the
  critical sections of the log, each run under the log lock; a caller that is not
  admitted changes nothing. The bound of \<open>MAXOPBLOCKS\<close> slots per operation is the
  contract the constant states for every caller.\<close>

record log_sys =
  ls_log :: log_state
  ls_ops :: "nat \<rightharpoonup> nat"

inductive log_step :: "log_sys \<Rightarrow> log_sys \<Rightarrow> bool" where
  op_begin: "ls_ops s t = None \<Longrightarrow> begin_op (ls_log s) = Some (True, l)
    \<Longrightarrow> log_step s (s\<lparr>ls_log := l, ls_ops := (ls_ops s)(t \<mapsto> 0)\<rparr>)"
| op_write: "ls_ops s t = Some u \<Longrightarrow> log_write b (ls_log s) = Some l
    \<Longrightarrow> b < 2 ^ 32 \<Longrightarrow> b \<notin> log_area (log_start (ls_log s))
    \<Longrightarrow> u' = u + (lh_n (lh l) - lh_n (lh (ls_log s))) \<Longrightarrow> u' \<le> MAXOPBLOCKS
    \<Longrightarrow> log_step s (s\<lparr>ls_log := l, ls_ops := (ls_ops s)(t \<mapsto> u')\<rparr>)"
| op_end: "ls_ops s t = Some u \<Longrightarrow> end_op (ls_log s) = Some (c, l)
    \<Longrightarrow> log_step s (s\<lparr>ls_log := l, ls_ops := (ls_ops s)(t := None)\<rparr>)"
| op_commit: "committing (ls_log s) \<Longrightarrow> commit buf (ls_log s) d = (l, d')
    \<Longrightarrow> log_step s (s\<lparr>ls_log := end_op_finish l\<rparr>)"

inductive log_reachable :: "log_sys \<Rightarrow> bool" where
  boot: "log_init start sz log_state_zero d = (l, d') \<Longrightarrow> log_reachable \<lparr>ls_log = l, ls_ops = Map.empty\<rparr>"
| step: "log_reachable s \<Longrightarrow> log_step s s' \<Longrightarrow> log_reachable s'"

definition op_budget :: "(nat \<rightharpoonup> nat) \<Rightarrow> nat" where
  "op_budget ops = (\<Sum>t \<in> dom ops. MAXOPBLOCKS - the (ops t))"

definition log_inv :: "log_sys \<Rightarrow> bool" where
  "log_inv s \<longleftrightarrow>
     finite (dom (ls_ops s)) \<and> outstanding (ls_log s) = card (dom (ls_ops s)) \<and>
     (committing (ls_log s) \<longrightarrow> dom (ls_ops s) = {}) \<and>
     (\<not> committing (ls_log s) \<longrightarrow> dom (ls_ops s) = {} \<longrightarrow> lh_n (lh (ls_log s)) = 0) \<and>
     initialized (ls_log s) \<and> wf_log (ls_log s) \<and>
     outstanding (ls_log s) * MAXOPBLOCKS \<le> LOGSIZE \<and>
     lh_n (lh (ls_log s)) + op_budget (ls_ops s) \<le> LOGSIZE"

lemma op_budget_insert:
  assumes "finite (dom ops)" and "ops t = None"
  shows "op_budget (ops(t \<mapsto> u)) = MAXOPBLOCKS - u + op_budget ops"
proof -
  have "t \<notin> dom ops" using assms by auto
  then show ?thesis using assms(1) by (auto simp: op_budget_def intro!: sum.cong)
qed

lemma op_budget_update:
  assumes "finite (dom ops)" and "ops t = Some u"
  shows "op_budget (ops(t \<mapsto> u')) + (MAXOPBLOCKS - u) = op_budget ops + (MAXOPBLOCKS - u')"
    and "op_budget (ops(t := None)) + (MAXOPBLOCKS - u) = op_budget ops"
proof -
  have fin: "finite (dom (ops(t := None)))" using assms(1) by simp
  have "(ops(t := None))(t \<mapsto> u) = ops" using assms(2) by auto
  then have "op_budget ops = MAXOPBLOCKS - u + op_budget (ops(t := None))"
    using op_budget_insert [OF fin, of t u] by simp
  moreover have "op_budget (ops(t \<mapsto> u')) = MAXOPBLOCKS - u' + op_budget (ops(t := None))"
    using op_budget_insert [OF fin, of t u'] by simp
  ultimately show "op_budget (ops(t \<mapsto> u')) + (MAXOPBLOCKS - u) = op_budget ops + (MAXOPBLOCKS - u')"
    and "op_budget (ops(t := None)) + (MAXOPBLOCKS - u) = op_budget ops" by simp_all
qed

lemma op_budget_le:
  assumes "finite (dom ops)"
  shows "op_budget ops \<le> card (dom ops) * MAXOPBLOCKS"
  unfolding op_budget_def using sum_bounded_above [of "dom ops" "\<lambda>t. MAXOPBLOCKS - the (ops t)" MAXOPBLOCKS]
  by simp

lemma log_write_fields:
  assumes "log_write b l = Some l'"
  shows "outstanding l' = outstanding l" "committing l' = committing l" "initialized l' = initialized l"
    "log_start l' = log_start l" "lh_n (lh l') \<in> {lh_n (lh l), lh_n (lh l) + 1}" "outstanding l \<noteq> 0"
  using assms by (auto simp: log_write_def split: if_splits)

lemma log_inv_begin:
  assumes "log_inv s" and "ls_ops s t = None" and "begin_op (ls_log s) = Some (True, l)"
  shows "log_inv (s\<lparr>ls_log := l, ls_ops := (ls_ops s)(t \<mapsto> 0)\<rparr>)"
proof -
  have t: "t \<notin> dom (ls_ops s)" using assms(2) by auto
  then show ?thesis
    using assms op_budget_le [of "ls_ops s"] op_budget_insert [of "ls_ops s" t 0]
    by (auto simp: log_inv_def begin_op_def wf_log_def split: if_splits)
qed

lemma log_inv_write:
  assumes inv: "log_inv s" and t: "ls_ops s t = Some u" and w: "log_write b (ls_log s) = Some l"
    and b: "b < 2 ^ 32" "b \<notin> log_area (log_start (ls_log s))"
    and u': "u' = u + (lh_n (lh l) - lh_n (lh (ls_log s)))" "u' \<le> MAXOPBLOCKS"
  shows "log_inv (s\<lparr>ls_log := l, ls_ops := (ls_ops s)(t \<mapsto> u')\<rparr>)"
proof -
  have fin: "finite (dom (ls_ops s))" using inv by (simp add: log_inv_def)
  have td: "t \<in> dom (ls_ops s)" using t by auto
  then have dom: "dom ((ls_ops s)(t \<mapsto> u')) = dom (ls_ops s)" by auto
  have wf: "wf_log l" using inv w b by (auto simp: log_inv_def intro: log_write_wf)
  have "lh_n (lh l) + op_budget ((ls_ops s)(t \<mapsto> u')) \<le> LOGSIZE"
    using inv op_budget_update(1) [OF fin t, of u'] u' log_write_fields(5) [OF w]
    by (auto simp: log_inv_def)
  then show ?thesis
    using inv wf td log_write_fields [OF w] unfolding log_inv_def by (auto simp: dom insert_absorb)
qed

lemma log_inv_end:
  assumes inv: "log_inv s" and t: "ls_ops s t = Some u" and e: "end_op (ls_log s) = Some (c, l)"
  shows "log_inv (s\<lparr>ls_log := l, ls_ops := (ls_ops s)(t := None)\<rparr>)"
proof -
  have fin: "finite (dom (ls_ops s))" and td: "t \<in> dom (ls_ops s)" using inv t by (auto simp: log_inv_def)
  then have pos: "0 < outstanding (ls_log s)" using inv by (auto simp: log_inv_def card_gt_0_iff)
  moreover have "outstanding (ls_log s) \<le> 3" using inv by (simp add: log_inv_def LOGSIZE_def MAXOPBLOCKS_def)
  ultimately have n: "(outstanding (ls_log s) + 2 ^ 32 - 1) mod 2 ^ 32 = outstanding (ls_log s) - 1"
    by (simp add: mod_if)
  have card: "card (dom (ls_ops s) - {t}) = outstanding (ls_log s) - 1" using inv td fin by (simp add: log_inv_def)
  have "card (dom (ls_ops s) - {t}) = 0 \<longleftrightarrow> dom (ls_ops s) - {t} = {}" using fin by simp
  with card have z: "outstanding (ls_log s) - 1 = 0 \<longleftrightarrow> dom (ls_ops s) - {t} = {}" by simp
  have "op_budget ((ls_ops s)(t := None)) \<le> op_budget (ls_ops s)" using op_budget_update(2) [OF fin t] by simp
  moreover have "(outstanding (ls_log s) - 1) * MAXOPBLOCKS \<le> LOGSIZE"
    using inv by (auto simp: log_inv_def diff_mult_distrib)
  ultimately show ?thesis using inv e card z
    unfolding log_inv_def end_op_def Let_def n by (auto simp: wf_log_def split: if_splits)
qed

lemma log_inv_commit:
  assumes "log_inv s" and "committing (ls_log s)" and "commit buf (ls_log s) d = (l, d')"
  shows "log_inv (s\<lparr>ls_log := end_op_finish l\<rparr>)"
  using assms
  by (auto simp: log_inv_def commit_def end_op_finish_def wf_log_def op_budget_def split: if_splits)

lemma log_reachable_inv: "log_reachable s \<Longrightarrow> log_inv s"
proof (induction rule: log_reachable.induct)
  case (boot start sz d l d')
  then show ?case
    by (auto simp: log_init_def log_inv_def log_state_zero_def op_budget_def wf_log_def)
next
  case (step s s')
  from step.hyps(2) step.IH show ?case
    by cases (auto intro: log_inv_begin log_inv_write log_inv_end log_inv_commit)
qed

lemma commit_is_crash_commit: "snd (commit buf l d) = crash_commit (2 * lh_n (lh l) + 2 + length (pinned l)) buf l d"
  by (simp add: commit_def crash_commit_def commit_writes_def)

lemma log_inv_room:
  assumes inv: "log_inv s" and t: "ls_ops s t = Some u" and u: "u < MAXOPBLOCKS"
  shows "lh_n (lh (ls_log s)) < LOGSIZE" and "outstanding (ls_log s) \<noteq> 0"
proof -
  have fin: "finite (dom (ls_ops s))" using inv by (simp add: log_inv_def)
  from op_budget_update(2) [OF fin t] u have "0 < op_budget (ls_ops s)" by simp
  then show "lh_n (lh (ls_log s)) < LOGSIZE" using inv by (auto simp: log_inv_def)
  show "outstanding (ls_log s) \<noteq> 0" using inv t fin by (auto simp: log_inv_def)
qed

lemma log_reachable_used: "log_reachable s \<Longrightarrow> ls_ops s t = Some u \<Longrightarrow> u \<le> MAXOPBLOCKS"
proof (induction arbitrary: t u rule: log_reachable.induct)
  case (step s s')
  from step.hyps(2) step.IH step.prems show ?case by cases (auto split: if_splits)
qed simp

section \<open>Properties\<close>

text \<open>C1. Crash atomicity of the write-ahead log. Let a transaction be committed on a disk
  whose log header is empty, let a crash stop \<open>commit\<close> after any number \<open>k\<close> of its block
  writes, and let every following recovery but the last be cut short as well (after the
  numbers of writes in \<open>js\<close>). Then the recovered contents of every block outside the log
  area are those of the whole transaction if the header write got through, and those from
  before the transaction otherwise: never a mixture.\<close>

theorem commit_recovery_atomic:
  assumes "wf_log l" and "lh_n (read_log_header (log_start l) d) = 0"
    and "b \<notin> log_area (log_start l)"
  shows "recover (log_start l) (crash_recoveries js (log_start l) (crash_commit k buf l d)) b =
    (if b \<in> set (pinned l) \<and> lh_n (lh l) < k then buf b else d b)"
proof -
  have "wf_header (log_start l) (parse_header (crash_commit k buf l d (log_start l)))"
    using crash_commit_header_wf [where d = d, OF assms(1)] assms(2) by (simp add: read_log_header_def)
  then have "recover (log_start l) (crash_recoveries js (log_start l) (crash_commit k buf l d)) =
      recover (log_start l) (crash_commit k buf l d)"
    by (rule crash_recoveries_recover)
  then show ?thesis using commit_crash_atomic [OF assms] by simp
qed

definition example_log :: log_state where
  "example_log = log_state_zero\<lparr>log_start := 2, initialized := True, outstanding := 1,
     lh := \<lparr>lh_n = 1, lh_block = (replicate LOGSIZE 0)[0 := 100]\<rparr>, pinned := [100]\<rparr>"

definition zero_disk :: disk where
  "zero_disk b = replicate BSIZE 0"

lemma example_log_wf: "wf_log example_log"
proof (rule log_write_wf)
  let ?l = "log_state_zero\<lparr>log_start := 2, initialized := True, outstanding := 1\<rparr>"
  show "wf_log ?l" by (simp add: wf_log_def log_state_zero_def)
  show "log_write 100 ?l = Some example_log"
    by (simp add: log_write_def example_log_def log_state_zero_def log_header_zero_def)
  show "100 \<notin> log_area (log_start ?l)" by (simp add: log_area_def LOGSIZE_def)
qed simp

lemma zero_disk_header: "lh_n (read_log_header start zero_disk) = 0"
  by (simp add: read_log_header_def zero_disk_def parse_header_def Let_def BSIZE_def le_at_replicate0)

theorem commit_recovery_atomic_witness:
  "recover 2 (crash_recoveries [1, 0] 2 (crash_commit 2 (\<lambda>_. replicate BSIZE 7) example_log zero_disk)) 100
     = replicate BSIZE 7"
proof -
  have "log_start example_log = 2" "pinned example_log = [100]" "lh_n (lh example_log) = 1"
    "(100::nat) \<notin> log_area 2"
    by (simp_all add: example_log_def log_area_def LOGSIZE_def)
  then show ?thesis
    using commit_recovery_atomic [OF example_log_wf zero_disk_header, of 100 "[1, 0]" 2 "\<lambda>_. replicate BSIZE 7"]
    by simp
qed

text \<open>A commit that is not interrupted puts every logged block home, leaves every other
  block outside the log area alone and leaves an empty header on disk and in memory, so the
  next transaction starts from the state that crash atomicity assumes.\<close>

lemma commit_installs:
  assumes "wf_log l" and "lh_n (read_log_header (log_start l) d) = 0"
    and "commit buf l d = (l', d')"
  shows "(\<forall>b. b \<notin> log_area (log_start l) \<longrightarrow> d' b = (if b \<in> set (pinned l) then buf b else d b))
    \<and> lh_n (read_log_header (log_start l) d') = 0 \<and> lh_n (lh l') = 0 \<and> wf_log l'"
proof -
  let ?k = "2 * lh_n (lh l) + 2 + length (pinned l)"
  have d': "d' = crash_commit ?k buf l d" using assms(3) commit_is_crash_commit [of buf l d] by simp
  have "lh_n (read_log_header (log_start l) d') = 0"
    using crash_header_cases [where d = d and k = ?k and buf = buf, OF assms(1)] assms(2)
    by (auto simp: d' read_log_header_def wf_log_pinned_length [OF assms(1)])
  moreover have "lh_n (lh l') = 0 \<and> wf_log l'"
    using assms(1,3) by (auto simp: commit_def wf_log_def split: if_splits)
  ultimately show ?thesis using crash_commit_late [OF assms(1)] by (auto simp: d')
qed

text \<open>C6. When \<open>log_write\<close> panics. In every state that concurrent callers can reach, each
  keeping to \<open>MAXOPBLOCKS\<close> new slots in an operation, a task inside \<open>begin_op\<close>/\<open>end_op\<close> can always end its operation; its \<open>log_write\<close> of any block \<open>b\<close>
  panics exactly when the log is full, whether or not \<open>b\<close> is already logged; and the log can only be
  full when every operation in progress has used up its \<open>MAXOPBLOCKS\<close> slots. So the admission
  test of \<open>begin_op\<close> keeps room for every operation that has slots left, while an operation
  that only wants to log again a block that is already there can still hit the
  \<open>log overflow\<close> assertion, which is checked before the search for the block.\<close>

theorem log_overflow_exact:
  assumes "log_reachable s" and "ls_ops s t = Some u"
  shows "(\<exists>c l. end_op (ls_log s) = Some (c, l)) \<and>
    (log_write b (ls_log s) = None \<longleftrightarrow> lh_n (lh (ls_log s)) = LOGSIZE) \<and>
    (log_write b (ls_log s) = None \<longrightarrow> (\<forall>t' u'. ls_ops s t' = Some u' \<longrightarrow> u' = MAXOPBLOCKS))"
proof -
  note inv = log_reachable_inv [OF assms(1)]
  have "\<not> committing (ls_log s)" and out: "outstanding (ls_log s) \<noteq> 0" and n: "lh_n (lh (ls_log s)) \<le> LOGSIZE"
    using inv assms(2) by (auto simp: log_inv_def)
  then have e: "\<exists>c l. end_op (ls_log s) = Some (c, l)" by (auto simp: end_op_def Let_def)
  have w: "log_write b (ls_log s) = None \<longleftrightarrow> lh_n (lh (ls_log s)) = LOGSIZE"
    using out n by (auto simp: log_write_def)
  have "u' = MAXOPBLOCKS" if "lh_n (lh (ls_log s)) = LOGSIZE" "ls_ops s t' = Some u'" for t' u'
    using log_inv_room(1) [OF inv that(2)] that(1) log_reachable_used [OF assms(1) that(2)] by fastforce
  with e w show ?thesis by blast
qed

text \<open>A full log is reachable: three operations are admitted and each logs \<open>MAXOPBLOCKS\<close> fresh blocks.\<close>

definition filling :: "nat \<Rightarrow> log_state" where
  "filling k = log_state_zero\<lparr>log_start := 2, log_size := 30, initialized := True, outstanding := 3,
     lh := \<lparr>lh_n = k, lh_block = map (\<lambda>i. 1000 + i) [0..<k] @ replicate (LOGSIZE - k) 0\<rparr>,
     pinned := map (\<lambda>i. 1000 + i) [0..<k]\<rparr>"

definition used :: "nat \<Rightarrow> nat \<rightharpoonup> nat" where
  "used k = [7 \<mapsto> min k 10, 8 \<mapsto> min (k - 10) 10, 9 \<mapsto> min (k - 20) 10]"

lemma filling_start: "log_reachable \<lparr>ls_log = filling 0, ls_ops = used 0\<rparr>"
proof -
  define s where "s n ops = \<lparr>ls_log = log_state_zero\<lparr>log_start := 2, log_size := 30, initialized := True, outstanding := n\<rparr>,
    ls_ops = ops\<rparr>" for n and ops :: "nat \<rightharpoonup> nat"
  have "log_reachable (s 0 Map.empty)"
    unfolding s_def
    by (rule boot [where start = 2 and sz = 30 and d = zero_disk]) (simp add: log_init_def log_state_zero_def)
  moreover have "log_step (s n ops) (s (n + 1) (ops(t \<mapsto> 0)))" if "ops t = None" "n < 3" for n ops t
    using op_begin [of "s n ops" t "ls_log (s (n + 1) ops)"] that
    by (simp add: s_def begin_op_def log_state_zero_def log_header_zero_def LOGSIZE_def MAXOPBLOCKS_def)
  from this [of Map.empty 7 0] this [of "[7 \<mapsto> 0]" 8 1] this [of "[7 \<mapsto> 0, 8 \<mapsto> 0]" 9 2]
  have "log_step (s 0 Map.empty) (s 1 [7 \<mapsto> 0])" "log_step (s 1 [7 \<mapsto> 0]) (s 2 [7 \<mapsto> 0, 8 \<mapsto> 0])"
    "log_step (s 2 [7 \<mapsto> 0, 8 \<mapsto> 0]) (s 3 [7 \<mapsto> 0, 8 \<mapsto> 0, 9 \<mapsto> 0])"
    by (simp_all add: numeral_2_eq_2 numeral_3_eq_3)
  ultimately have "log_reachable (s 3 [7 \<mapsto> 0, 8 \<mapsto> 0, 9 \<mapsto> 0])" by (meson log_reachable.step)
  then show ?thesis by (simp add: s_def filling_def used_def log_state_zero_def log_header_zero_def)
qed

lemma filling_step:
  assumes "k < 30"
  shows "log_step \<lparr>ls_log = filling k, ls_ops = used k\<rparr> \<lparr>ls_log = filling (k + 1), ls_ops = used (k + 1)\<rparr>"
proof -
  consider "k < 10" | "10 \<le> k" "k < 20" | "20 \<le> k" using assms by linarith
  then obtain t u where t: "used k t = Some u" "used (k + 1) = (used k)(t \<mapsto> u + 1)" "u + 1 \<le> MAXOPBLOCKS"
  proof cases
    case 1
    show thesis by (rule that [of 7 k]) (use 1 in \<open>auto simp: used_def MAXOPBLOCKS_def fun_eq_iff\<close>)
  next
    case 2
    show thesis by (rule that [of 8 "k - 10"]) (use 2 in \<open>auto simp: used_def MAXOPBLOCKS_def fun_eq_iff\<close>)
  next
    case 3
    show thesis by (rule that [of 9 "k - 20"]) (use 3 assms in \<open>auto simp: used_def MAXOPBLOCKS_def fun_eq_iff\<close>)
  qed
  have "replicate (LOGSIZE - k) (0::nat) = 0 # replicate (LOGSIZE - (k + 1)) 0"
    using assms by (simp add: LOGSIZE_def Suc_diff_Suc flip: replicate_Suc)
  then have w: "log_write (1000 + k) (filling k) = Some (filling (k + 1))"
    using assms by (simp add: log_write_def filling_def LOGSIZE_def list_update_append)
  show ?thesis
    using op_write [of "\<lparr>ls_log = filling k, ls_ops = used k\<rparr>" t u "1000 + k" "filling (k + 1)" "u + 1"] t w assms
    by (simp add: filling_def log_area_def LOGSIZE_def)
qed

lemma filling_reachable: "k \<le> 30 \<Longrightarrow> log_reachable \<lparr>ls_log = filling k, ls_ops = used k\<rparr>"
proof (induction k)
  case (Suc k)
  then show ?case using log_reachable.step [OF _ filling_step [of k]] by simp
qed (rule filling_start)

theorem log_overflow_exact_witness:
  "log_reachable \<lparr>ls_log = filling 30, ls_ops = used 30\<rparr> \<and> 1000 \<in> set (pinned (filling 30)) \<and>
   log_write 1000 (filling 30) = None \<and> log_write 1000 (filling 29) \<noteq> None"
proof -
  note r = filling_reachable [of 30] filling_reachable [of 29]
  have "used 30 7 = Some 10" "used 29 7 = Some 10" "lh_n (lh (filling 30)) = 30" "lh_n (lh (filling 29)) = 29"
    "1000 \<in> set (pinned (filling 30))"
    by (simp_all add: used_def filling_def)
  then show ?thesis
    using r log_overflow_exact [OF r(1), of 7 10 1000] log_overflow_exact [OF r(2), of 7 10 1000]
    by (simp add: LOGSIZE_def)
qed

text \<open>No admission deadlock. In every reachable state in which \<open>begin_op\<close> makes its caller
  wait, some operation is still inside the log or a commit is running, so a wake-up is still
  to come; and the condition \<open>WaitCommit\<close> waits for is exactly \<open>begin_op\<close>'s admission test,
  so a woken caller that finds it true is admitted.\<close>

lemma begin_op_waits_for_progress:
  assumes "log_reachable s"
  shows "(begin_op (ls_log s) = Some (False, ls_log s) \<longrightarrow> dom (ls_ops s) \<noteq> {} \<or> committing (ls_log s))
    \<and> (wait_commit_ready (ls_log s) \<longleftrightarrow> (\<exists>l. begin_op (ls_log s) = Some (True, l)))"
  using log_reachable_inv [OF assms]
  by (auto simp: log_inv_def begin_op_def wait_commit_ready_def LOGSIZE_def MAXOPBLOCKS_def)

text \<open>Boot-time recovery runs through the buffer cache. From any quiet cache that agrees
  with its disk (the cold cache at boot), the reads and write-throughs of \<open>recover\<close> leave
  both the disk and what later readers see exactly as the recovery of the raw disk does.\<close>

lemma recover_through_cache:
  assumes "bio_quiet s" and "view s = bdisk s"
  shows "bdisk (recover_via view (bio_put now) start s) = recover start (bdisk s)
    \<and> view (recover_via view (bio_put now) start s) = recover start (bdisk s)"
  using cache.recover_via_refines [OF assms] by simp

end
