(* ===== verification/Bitmap.thy ===== *)
theory Bitmap
  imports Log
begin

text \<open>
  The file-system state and the free-block bitmap: \<open>crates/kernel/src/fs/superblock.rs\<close> and
  \<open>crates/kernel/src/fs/bmap.rs\<close>. The state holds the logical contents of every block (what
  \<open>bread\<close> returns, theory \<open>Bio\<close>), the cached superblock and the open log transaction.
  Operations return \<open>None\<close> where the kernel panics: here, an assertion of \<open>log_write\<close> or of
  \<open>bfree\<close>. Device errors, which the kernel also answers with a panic, are not modelled.
\<close>

section \<open>State\<close>

record fs =
  blk :: disk
  sb :: superblock
  flog :: log_state

text \<open>\<open>superblock::init\<close>.\<close>

definition superblock_init :: "fs \<Rightarrow> fs option" where
  "superblock_init s =
     (let x = superblock_of_bytes (blk s 1) in
      if sb_magic x \<noteq> FSMAGIC then None else Some (s\<lparr>sb := x\<rparr>))"

text \<open>Changing a buffer through \<open>data_mut\<close> and recording it with \<open>log_write\<close>.\<close>

definition blk_write :: "nat \<Rightarrow> block \<Rightarrow> fs \<Rightarrow> fs option" where
  "blk_write b x s = map_option (\<lambda>l. s\<lparr>blk := (blk s)(b := x), flog := l\<rparr>) (log_write b (flog s))"

lemma blk_write_Some:
  assumes "blk_write b x s = Some s'"
  shows "blk s' = (blk s)(b := x)" "sb s' = sb s" "log_write b (flog s) = Some (flog s')"
  using assms by (auto simp: blk_write_def)

text \<open>\<open>log_room k\<close>: a transaction is open and \<open>k\<close> more blocks fit.\<close>

definition log_room :: "nat \<Rightarrow> fs \<Rightarrow> bool" where
  "log_room k s \<longleftrightarrow> 0 < outstanding (flog s) \<and> lh_n (lh (flog s)) + k \<le> LOGSIZE"

lemma blk_write_room:
  assumes "log_room (Suc k) s"
  shows "\<exists>s'. blk_write b x s = Some s' \<and> log_room k s'"
  using assms by (auto simp: blk_write_def log_write_def log_room_def)

lemma log_room_mono: "log_room k s \<Longrightarrow> j \<le> k \<Longrightarrow> log_room j s"
  by (simp add: log_room_def)

section \<open>The bitmap\<close>

definition bit_mask :: "nat \<Rightarrow> byte" where
  "bit_mask bi = push_bit (bi mod 8) 1"

unbundle bit_operations_syntax

text \<open>The first clear bit among the first \<open>lim\<close> bits of a bitmap block.\<close>

definition find_clear :: "block \<Rightarrow> nat \<Rightarrow> nat option" where
  "find_clear bs lim = find (\<lambda>bi. bs ! (bi div 8) AND bit_mask bi = 0) [0..<lim]"

text \<open>\<open>balloc\<close>'s loop from block group \<open>b\<close>: scan one bitmap block, claim the first free
  block and zero it.\<close>

function balloc_from :: "nat \<Rightarrow> fs \<Rightarrow> (nat option \<times> fs) option" where
  "balloc_from b s =
     (if b < sb_size (sb s) then
        (let blkno = sb_bmapstart (sb s) + b div BPB;
             bs = blk s blkno;
             lim = min BPB (sb_size (sb s) - b)
         in case find_clear bs lim of
              Some bi \<Rightarrow> do {
                s1 \<leftarrow> blk_write blkno (bs[bi div 8 := bs ! (bi div 8) OR bit_mask bi]) s;
                s2 \<leftarrow> blk_write (b + bi) (replicate BSIZE 0) s1;
                Some (Some (b + bi), s2) }
            | None \<Rightarrow> balloc_from (b + BPB) s)
      else Some (None, s))"
  by pat_completeness auto

termination
  by (relation "measure (\<lambda>(b, s). sb_size (sb s) - b)") (auto simp: BPB_def BSIZE_def)

declare balloc_from.simps [simp del]

definition balloc :: "fs \<Rightarrow> (nat option \<times> fs) option" where
  "balloc s = balloc_from 0 s"

definition bfree :: "nat \<Rightarrow> fs \<Rightarrow> fs option" where
  "bfree b s =
     (let blkno = sb_bmapstart (sb s) + b div BPB;
          bs = blk s blkno;
          bi = b mod BPB
      in if bs ! (bi div 8) AND bit_mask bi = 0 then None
         else blk_write blkno (bs[bi div 8 := bs ! (bi div 8) AND NOT (bit_mask bi)]) s)"

section \<open>Reading the bitmap\<close>

definition bm_block :: "fs \<Rightarrow> nat \<Rightarrow> nat" where
  "bm_block s b = sb_bmapstart (sb s) + b div BPB"

definition bit_in :: "block \<Rightarrow> nat \<Rightarrow> bool" where
  "bit_in bs bi \<longleftrightarrow> bit (bs ! (bi div 8)) (bi mod 8)"

definition allocated :: "fs \<Rightarrow> nat \<Rightarrow> bool" where
  "allocated s b \<longleftrightarrow> bit_in (blk s (bm_block s b)) (b mod BPB)"

text \<open>First block after the metadata: \<open>mkfs\<close> puts the bitmap last.\<close>

definition data_start :: "fs \<Rightarrow> nat" where
  "data_start s = sb_bmapstart (sb s) + (sb_size (sb s) + BPB - 1) div BPB"

text \<open>The regions of a volume follow each other (boot block, superblock, log, inodes, bitmap,
  data), blocks have their size and every metadata block is marked as in use.\<close>

definition wf_layout :: "superblock \<Rightarrow> bool" where
  "wf_layout x \<longleftrightarrow>
     2 \<le> sb_logstart x \<and> sb_logstart x + LOGSIZE < sb_inodestart x \<and>
     sb_inodestart x + (sb_ninodes x + IPB - 1) div IPB \<le> sb_bmapstart x \<and>
     sb_bmapstart x + (sb_size x + BPB - 1) div BPB \<le> sb_size x \<and> sb_size x < 2 ^ 32"

definition wf_fs :: "fs \<Rightarrow> bool" where
  "wf_fs s \<longleftrightarrow> (\<forall>b. length (blk s b) = BSIZE) \<and> (\<forall>b < data_start s. allocated s b) \<and>
     wf_layout (sb s)"

lemma wf_fs_len [simp]: "wf_fs s \<Longrightarrow> length (blk s b) = BSIZE"
  by (simp add: wf_fs_def)

lemma wf_data_start: "wf_fs s \<Longrightarrow> data_start s \<le> sb_size (sb s)"
  by (simp add: wf_fs_def wf_layout_def data_start_def)

lemma bit_mask_and: "(x AND bit_mask bi = 0) \<longleftrightarrow> \<not> bit x (bi mod 8)"
proof -
  have "x AND bit_mask bi = (if bit x (bi mod 8) then bit_mask bi else 0)"
    unfolding bit_mask_def by (rule bit_eqI) (auto simp: bit_simps)
  moreover have "bit_mask bi \<noteq> 0"
  proof -
    have "bit (bit_mask bi) (bi mod 8)" by (simp add: bit_mask_def bit_simps)
    then show ?thesis by (metis bit_0_eq bot_fun_def bot_bool_def)
  qed
  ultimately show ?thesis by simp
qed

lemma bit_mask_bit: "bit (bit_mask bi) n \<longleftrightarrow> n = bi mod 8"
  by (auto simp: bit_mask_def bit_simps)

lemma find_clear_Some:
  assumes "find_clear bs lim = Some bi"
  shows "bi < lim" "\<not> bit_in bs bi" "\<forall>j < bi. bit_in bs j"
proof -
  obtain i where i: "i < length [0..<lim]" "bs ! (([0..<lim] ! i) div 8) AND bit_mask ([0..<lim] ! i) = 0"
    "bi = [0..<lim] ! i" "\<forall>j < i. \<not> (bs ! (([0..<lim] ! j) div 8) AND bit_mask ([0..<lim] ! j) = 0)"
    using assms by (auto simp: find_clear_def find_Some_iff)
  then have "bi = i" by simp
  with i show "bi < lim" "\<not> bit_in bs bi" "\<forall>j < bi. bit_in bs j"
    by (auto simp: bit_mask_and bit_in_def)
qed

lemma find_clear_None: "find_clear bs lim = None \<longleftrightarrow> (\<forall>j < lim. bit_in bs j)"
  by (auto simp: find_clear_def find_None_iff bit_mask_and bit_in_def)

lemma bit_in_set:
  assumes "length bs = BSIZE" and "bi < BPB" and "bj < BPB"
  shows "bit_in (bs[bi div 8 := bs ! (bi div 8) OR bit_mask bi]) bj \<longleftrightarrow> bj = bi \<or> bit_in bs bj"
proof -
  have "bi div 8 < length bs" "bj div 8 < length bs" using assms by (auto simp: BPB_def)
  moreover have "bj = bi \<longleftrightarrow> bj div 8 = bi div 8 \<and> bj mod 8 = bi mod 8" by (metis div_mult_mod_eq)
  ultimately show ?thesis by (auto simp: bit_in_def nth_list_update bit_simps bit_mask_bit)
qed

lemma bit_in_clear:
  assumes "length bs = BSIZE" and "bi < BPB" and "bj < BPB"
  shows "bit_in (bs[bi div 8 := bs ! (bi div 8) AND NOT (bit_mask bi)]) bj \<longleftrightarrow> bj \<noteq> bi \<and> bit_in bs bj"
proof -
  have "bi div 8 < length bs" "bj div 8 < length bs" using assms by (auto simp: BPB_def)
  moreover have "bj = bi \<longleftrightarrow> bj div 8 = bi div 8 \<and> bj mod 8 = bi mod 8" by (metis div_mult_mod_eq)
  moreover have "bj mod 8 < 8" by simp
  ultimately show ?thesis by (auto simp: bit_in_def nth_list_update bit_simps bit_mask_bit)
qed

section \<open>Allocation\<close>

lemma bm_block_meta:
  assumes "b < sb_size (sb s)"
  shows "bm_block s b < data_start s" and "sb_bmapstart (sb s) \<le> bm_block s b"
proof -
  have "b div BPB < (sb_size (sb s) + BPB - 1) div BPB"
    using assms by (simp add: BPB_def BSIZE_def)
  then show "bm_block s b < data_start s" by (simp add: bm_block_def data_start_def)
qed (simp add: bm_block_def)

text \<open>What a successful allocation of \<open>b\<close> does.\<close>

definition claimed :: "fs \<Rightarrow> nat \<Rightarrow> fs \<Rightarrow> bool" where
  "claimed s b s' \<longleftrightarrow>
     b < sb_size (sb s) \<and> data_start s \<le> b \<and> \<not> allocated s b \<and> sb s' = sb s \<and> wf_fs s' \<and>
     blk s' b = replicate BSIZE 0 \<and>
     (\<forall>c. c \<noteq> b \<longrightarrow> c \<noteq> bm_block s b \<longrightarrow> blk s' c = blk s c) \<and>
     (\<forall>c < sb_size (sb s). allocated s' c \<longleftrightarrow> c = b \<or> allocated s c)"

lemma allocated_unfold: "allocated s b = bit_in (blk s (sb_bmapstart (sb s) + b div BPB)) (b mod BPB)"
  by (simp add: allocated_def bm_block_def)

lemma group_split:
  assumes "BPB dvd k" and "bi < BPB"
  shows "(k + bi) div BPB = k div BPB" and "(k + bi) mod BPB = bi"
  using assms by (auto elim!: dvdE)

lemma group_allocated:
  assumes "BPB dvd k" and "bi < BPB"
  shows "allocated s (k + bi) \<longleftrightarrow> bit_in (blk s (sb_bmapstart (sb s) + k div BPB)) bi"
  using group_split [OF assms] by (simp add: allocated_unfold)

lemma claim_bit:
  assumes wf: "wf_fs s" and b: "b < sb_size (sb s)" "\<not> allocated s b"
    and s': "sb s' = sb s" "blk s' = (blk s)(bm_block s b := (blk s (bm_block s b))
      [b mod BPB div 8 := blk s (bm_block s b) ! (b mod BPB div 8) OR bit_mask (b mod BPB)], b := replicate BSIZE 0)"
  shows "claimed s b s'"
proof -
  have lo: "data_start s \<le> b" using wf b(2) by (auto simp: wf_fs_def not_less [symmetric])
  have ne: "bm_block s c \<noteq> b" if "c < sb_size (sb s)" for c using bm_block_meta(1) [OF that] lo by simp
  have bm: "bm_block s' c = bm_block s c" for c using s'(1) by (simp add: bm_block_def)
  have al: "allocated s' c \<longleftrightarrow> c = b \<or> allocated s c" if c: "c < sb_size (sb s)" for c
  proof (cases "bm_block s c = bm_block s b")
    case True
    then have "c div BPB = b div BPB" by (simp add: bm_block_def)
    then have "c = b \<longleftrightarrow> c mod BPB = b mod BPB" by (metis div_mult_mod_eq)
    then show ?thesis
      using True ne [OF b(1)] bit_in_set [of "blk s (bm_block s b)" "b mod BPB" "c mod BPB"] wf
      by (simp add: allocated_def bm s'(2))
  next
    case False
    then show ?thesis using ne [OF c] by (auto simp: allocated_def bm s'(2))
  qed
  have "data_start s' = data_start s" using s'(1) by (simp add: data_start_def)
  then have "wf_fs s'" using wf wf_data_start [OF wf] al s' by (auto simp: wf_fs_def)
  then show ?thesis using b lo al s' by (auto simp: claimed_def)
qed

lemma balloc_from_spec:
  assumes "wf_fs s" and "BPB dvd k" and "balloc_from k s = Some (r, s')"
  shows "case r of
      Some b \<Rightarrow> k \<le> b \<and> claimed s b s' \<and> (\<forall>c. k \<le> c \<and> c < b \<longrightarrow> allocated s c)
    | None \<Rightarrow> s' = s \<and> (\<forall>c. k \<le> c \<and> c < sb_size (sb s) \<longrightarrow> allocated s c)"
  using assms
proof (induction k s rule: balloc_from.induct)
  case (1 k s)
  let ?no = "sb_bmapstart (sb s) + k div BPB" and ?lim = "min BPB (sb_size (sb s) - k)"
  show ?case
  proof (cases "k < sb_size (sb s)")
    case False
    then show ?thesis using "1.prems" by (auto simp: balloc_from.simps [of k])
  next
    case in_range: True
    show ?thesis
    proof (cases "find_clear (blk s ?no) ?lim")
      case None
      then have run: "balloc_from (k + BPB) s = Some (r, s')"
        using "1.prems" in_range by (simp add: balloc_from.simps [of k] Let_def)
      have al: "allocated s c" if "k \<le> c" "c < k + BPB" "c < sb_size (sb s)" for c
      proof -
        have "c - k < BPB" "c - k < sb_size (sb s) - k" using that by linarith+
        then show ?thesis
          using None that(1) group_allocated [OF "1.prems"(2), of "c - k"] by (simp add: find_clear_None)
      qed
      have "case r of
          Some b \<Rightarrow> k + BPB \<le> b \<and> claimed s b s' \<and> (\<forall>c. k + BPB \<le> c \<and> c < b \<longrightarrow> allocated s c)
        | None \<Rightarrow> s' = s \<and> (\<forall>c. k + BPB \<le> c \<and> c < sb_size (sb s) \<longrightarrow> allocated s c)"
        by (rule "1.IH" [OF in_range refl refl refl None "1.prems"(1) _ run]) (use "1.prems"(2) in simp)
      then show ?thesis
        using al by (cases r) (auto simp: claimed_def, (meson not_less order_less_trans)+)
    next
      case (Some bi)
      then have bi: "bi < BPB" "k + bi < sb_size (sb s)" "\<not> bit_in (blk s ?no) bi"
        "\<forall>j < bi. bit_in (blk s ?no) j"
        using find_clear_Some [OF Some] by auto
      note g = group_split [OF "1.prems"(2) bi(1)]
      obtain s1 where w1: "blk_write ?no ((blk s ?no)[bi div 8 := blk s ?no ! (bi div 8) OR bit_mask bi]) s = Some s1"
        and w2: "blk_write (k + bi) (replicate BSIZE 0) s1 = Some s'" and r: "r = Some (k + bi)"
        using "1.prems"(3) in_range Some
        by (auto simp: balloc_from.simps [of k] Let_def split: bind_splits)
      have "claimed s (k + bi) s'"
        using bi(2,3) g group_allocated [OF "1.prems"(2) bi(1)] blk_write_Some [OF w1] blk_write_Some [OF w2]
        by (intro claim_bit [OF "1.prems"(1)]) (simp_all add: bm_block_def)
      moreover have "allocated s c" if "k \<le> c" "c < k + bi" for c
        using bi that group_allocated [OF "1.prems"(2), of "c - k"] by simp
      ultimately show ?thesis by (simp add: r)
    qed
  qed
qed

lemma balloc_Some:
  assumes "wf_fs s" and "balloc s = Some (Some b, s')"
  shows "claimed s b s'" and "\<forall>c < b. allocated s c"
  using balloc_from_spec [OF assms(1) dvd_0_right, of "Some b" s'] assms(2) by (auto simp: balloc_def)

lemma balloc_None:
  assumes "wf_fs s" and "balloc s = Some (None, s')"
  shows "s' = s" and "\<forall>c < sb_size (sb s). allocated s c"
  using balloc_from_spec [OF assms(1) dvd_0_right, of None s'] assms(2) by (auto simp: balloc_def)

lemma balloc_from_room:
  "log_room (k + 2) s \<Longrightarrow> \<exists>r s'. balloc_from b s = Some (r, s') \<and> log_room k s'"
proof (induction b s rule: balloc_from.induct)
  case (1 b s)
  show ?case
  proof (cases "b < sb_size (sb s)")
    case False
    then show ?thesis using "1.prems" log_room_mono [of "k + 2" s k]
      by (simp add: balloc_from.simps [of b])
  next
    case True
    let ?no = "sb_bmapstart (sb s) + b div BPB" and ?lim = "min BPB (sb_size (sb s) - b)"
    show ?thesis
    proof (cases "find_clear (blk s ?no) ?lim")
      case None
      from "1.IH" [OF True refl refl refl None "1.prems"] True None show ?thesis
        by (simp add: balloc_from.simps [of b] Let_def)
    next
      case (Some bi)
      let ?x = "(blk s ?no)[bi div 8 := blk s ?no ! (bi div 8) OR bit_mask bi]"
      from "1.prems" have "log_room (Suc (Suc k)) s" by simp
      then obtain s1 where s1: "blk_write ?no ?x s = Some s1" "log_room (Suc k) s1"
        using blk_write_room by blast
      obtain s2 where s2: "blk_write (b + bi) (replicate BSIZE 0) s1 = Some s2" "log_room k s2"
        using blk_write_room [OF s1(2)] by blast
      show ?thesis using True Some s1 s2
        by (simp add: balloc_from.simps [of b] Let_def)
    qed
  qed
qed

lemma balloc_room: "log_room (k + 2) s \<Longrightarrow> \<exists>r s'. balloc s = Some (r, s') \<and> log_room k s'"
  unfolding balloc_def by (rule balloc_from_room)

section \<open>Freeing\<close>

definition freed :: "fs \<Rightarrow> nat \<Rightarrow> fs \<Rightarrow> bool" where
  "freed s b s' \<longleftrightarrow>
     allocated s b \<and> sb s' = sb s \<and> wf_fs s' \<and>
     (\<forall>c. c \<noteq> bm_block s b \<longrightarrow> blk s' c = blk s c) \<and>
     (\<forall>c < sb_size (sb s). allocated s' c \<longleftrightarrow> c \<noteq> b \<and> allocated s c)"

lemma bfree_alt:
  "bfree b s = (if allocated s b then blk_write (bm_block s b) ((blk s (bm_block s b))
      [b mod BPB div 8 := blk s (bm_block s b) ! (b mod BPB div 8) AND NOT (bit_mask (b mod BPB))]) s
    else None)"
  by (simp add: bfree_def Let_def allocated_def bm_block_def bit_in_def bit_mask_and)

lemma bfree_Some:
  assumes wf: "wf_fs s" and b: "b < sb_size (sb s)" "data_start s \<le> b" and f: "bfree b s = Some s'"
  shows "freed s b s'"
proof -
  have al: "allocated s b" using f by (auto simp: bfree_alt split: if_splits)
  have s': "sb s' = sb s" "blk s' = (blk s)(bm_block s b := (blk s (bm_block s b))
      [b mod BPB div 8 := blk s (bm_block s b) ! (b mod BPB div 8) AND NOT (bit_mask (b mod BPB))])"
    using f al by (auto simp: bfree_alt dest: blk_write_Some)
  have bm: "bm_block s' c = bm_block s c" for c using s'(1) by (simp add: bm_block_def)
  have al': "allocated s' c \<longleftrightarrow> c \<noteq> b \<and> allocated s c" if c: "c < sb_size (sb s)" for c
  proof (cases "bm_block s c = bm_block s b")
    case True
    then have "c div BPB = b div BPB" by (simp add: bm_block_def)
    then have "c = b \<longleftrightarrow> c mod BPB = b mod BPB" by (metis div_mult_mod_eq)
    then show ?thesis
      using True bit_in_clear [of "blk s (bm_block s b)" "b mod BPB" "c mod BPB"] wf
      by (simp add: allocated_def bm s'(2))
  next
    case False
    then show ?thesis using c b by (auto simp: allocated_def bm s'(2))
  qed
  have "data_start s' = data_start s" using s'(1) by (simp add: data_start_def)
  then have "wf_fs s'" using wf wf_data_start [OF wf] al' s' b by (auto simp: wf_fs_def)
  then show ?thesis using al al' s' by (simp add: freed_def)
qed

lemma bfree_room:
  assumes "log_room (Suc k) s" and "allocated s b"
  shows "\<exists>s'. bfree b s = Some s' \<and> log_room k s'"
  using assms blk_write_room by (simp add: bfree_alt)

section \<open>Properties\<close>

text \<open>\<open>balloc\<close> claims the lowest free block. On a well-formed file system an allocation
  that succeeds returns a block that was free and lies outside the metadata, every lower
  block being in use; it sets that block's bit and no other, zeroes the block, and changes
  nothing but the block and its bitmap block. One that reports a full disk changes nothing,
  and no free block exists.\<close>

lemma balloc_claims_first_free:
  assumes "wf_fs s" and "balloc s = Some (r, s')"
  shows "case r of
      Some b \<Rightarrow> b < sb_size (sb s) \<and> data_start s \<le> b \<and> \<not> allocated s b \<and> (\<forall>c < b. allocated s c)
        \<and> (\<forall>c < sb_size (sb s). allocated s' c \<longleftrightarrow> c = b \<or> allocated s c)
        \<and> blk s' b = replicate BSIZE 0 \<and> (\<forall>c. c \<noteq> b \<and> c \<noteq> bm_block s b \<longrightarrow> blk s' c = blk s c)
        \<and> wf_fs s'
    | None \<Rightarrow> s' = s \<and> (\<forall>c < sb_size (sb s). allocated s c)"
proof (cases r)
  case None
  with assms(2) have "balloc s = Some (None, s')" by simp
  then show ?thesis unfolding None using balloc_None [OF assms(1)] by simp
next
  case (Some b)
  with assms(2) have "balloc s = Some (Some b, s')" by simp
  then show ?thesis unfolding Some using balloc_Some [OF assms(1)] by (simp add: claimed_def)
qed

text \<open>Freeing a block undoes its allocation, and freeing it twice is caught. After
  \<open>balloc\<close> returned \<open>b\<close>, \<open>bfree b\<close> restores every bit of the bitmap (it finds room in a log
  with a free slot), and a second \<open>bfree b\<close> panics.\<close>

lemma bfree_undoes_balloc:
  assumes "wf_fs s" and "balloc s = Some (Some b, s1)" and "log_room 1 s1"
  shows "\<exists>s2. bfree b s1 = Some s2 \<and> (\<forall>c < sb_size (sb s). allocated s2 c = allocated s c)
    \<and> bfree b s2 = None"
proof -
  have c: "claimed s b s1" by (rule balloc_Some(1) [OF assms(1,2)])
  then have "allocated s1 b" by (auto simp: claimed_def)
  then obtain s2 where s2: "bfree b s1 = Some s2" using bfree_room [of 0 s1 b] assms(3) by auto
  have "wf_fs s1" "b < sb_size (sb s1)" "data_start s1 \<le> b" using c by (auto simp: claimed_def data_start_def)
  from bfree_Some [OF this s2] have f: "freed s1 b s2" .
  then have al: "\<forall>c < sb_size (sb s). allocated s2 c \<longleftrightarrow> c \<noteq> b \<and> allocated s1 c"
    using c by (auto simp: freed_def claimed_def)
  then have "\<not> allocated s2 b" "\<forall>x < sb_size (sb s). allocated s2 x = allocated s x"
    using c by (auto simp: claimed_def)
  then show ?thesis using s2 by (auto simp: bfree_alt)
qed

text \<open>A small volume for the witnesses: 100 blocks, the log at 2, inodes at 33, the bitmap in
  block 38, whose first five bytes mark blocks 0 to 39 as used.\<close>

definition tiny_sb :: superblock where
  "tiny_sb = superblock_zero\<lparr>sb_magic := FSMAGIC, sb_size := 100, sb_nblocks := 61, sb_ninodes := 16,
     sb_nlog := 31, sb_logstart := 2, sb_inodestart := 33, sb_bmapstart := 38\<rparr>"

definition tiny_fs :: fs where
  "tiny_fs = \<lparr>blk = zero_disk(38 := replicate 5 0xFF @ replicate (BSIZE - 5) 0), sb = tiny_sb,
     flog = log_state_zero\<lparr>log_start := 2, initialized := True, outstanding := 1\<rparr>\<rparr>"

lemma tiny_data_start: "data_start tiny_fs = 39"
  by (simp add: data_start_def tiny_fs_def tiny_sb_def BPB_def BSIZE_def)

lemma tiny_size [simp]: "sb_size (sb tiny_fs) = 100"
  by (simp add: tiny_fs_def tiny_sb_def)

lemma tiny_bit:
  assumes "b < 100"
  shows "allocated tiny_fs b \<longleftrightarrow> b < 40"
proof -
  have bm: "blk tiny_fs (bm_block tiny_fs b) = replicate 5 0xFF @ replicate (BSIZE - 5) 0"
    using assms by (simp add: bm_block_def tiny_fs_def tiny_sb_def BPB_def BSIZE_def)
  have ff: "bit (0xFF :: byte) (b mod 8)"
  proof -
    have "b mod 8 \<in> {0, 1, 2, 3, 4, 5, 6, 7}" by auto
    then show ?thesis by auto
  qed
  have "b div 8 < BSIZE" "b mod BPB = b" using assms by (simp_all add: BPB_def BSIZE_def)
  then show ?thesis
    using ff by (auto simp: allocated_def bit_in_def bm nth_append)
qed

lemma tiny_wf: "wf_fs tiny_fs"
proof -
  have "\<forall>b < data_start tiny_fs. allocated tiny_fs b" by (auto simp: tiny_data_start tiny_bit)
  moreover have "length (blk tiny_fs b) = BSIZE" for b by (simp add: tiny_fs_def zero_disk_def BSIZE_def)
  moreover have "wf_layout (sb tiny_fs)"
    by (simp add: wf_layout_def tiny_fs_def tiny_sb_def layout_simps)
  ultimately show ?thesis by (simp add: wf_fs_def)
qed

lemma tiny_room: "log_room 20 tiny_fs"
  by (simp add: log_room_def tiny_fs_def log_state_zero_def LOGSIZE_def)

lemma tiny_not_full: "\<not> (\<forall>c < sb_size (sb tiny_fs). allocated tiny_fs c)"
  by (auto simp: tiny_bit intro!: exI [of _ 40])

end
