(* ===== verification/Inode.thy ===== *)
theory Inode
  imports Bitmap
begin

text \<open>
  Inodes: \<open>crates/kernel/src/fs/inode.rs\<close>. The in-memory \<open>InodeState\<close>, its on-disk image,
  the block map with direct, single-indirect and double-indirect blocks, reading, writing,
  truncation and allocation of inodes. A locked inode is its number with its state: the
  lock makes its holder the only one to touch the state. Functions that only follow or
  change block pointers take the \<open>addrs\<close> array alone. Times are an argument, the value of
  \<open>now_secs()\<close> at the call. The inode cache and the lock are in \<open>Icache\<close>.
\<close>

section \<open>State\<close>

record inode_state =
  i_typ :: nat
  i_major :: nat
  i_minor :: nat
  i_nlink :: nat
  i_mode :: nat
  i_uid :: nat
  i_gid :: nat
  i_size :: nat
  i_atime :: nat
  i_mtime :: nat
  i_ctime :: nat
  i_addrs :: "nat list"

definition inode_state_empty :: inode_state where
  "inode_state_empty = \<lparr>i_typ = 0, i_major = 0, i_minor = 0, i_nlink = 0, i_mode = 0, i_uid = 0,
     i_gid = 0, i_size = 0, i_atime = 0, i_mtime = 0, i_ctime = 0, i_addrs = replicate (NDIRECT + 2) 0\<rparr>"

record locked_inode =
  li_inum :: nat
  li_state :: inode_state

definition inode_off :: "nat \<Rightarrow> nat" where
  "inode_off inum = (inum mod IPB) * DINODE_SIZE"

definition read_dinode :: "nat \<Rightarrow> fs \<Rightarrow> dinode" where
  "read_dinode inum s = dinode_of_bytes (drop (inode_off inum) (blk s (iblock inum (sb s))))"

definition write_dinode :: "nat \<Rightarrow> dinode \<Rightarrow> fs \<Rightarrow> fs option" where
  "write_dinode inum d s =
     blk_write (iblock inum (sb s)) (splice (inode_off inum) (dinode_bytes d) (blk s (iblock inum (sb s)))) s"

definition state_of_dinode :: "dinode \<Rightarrow> inode_state" where
  "state_of_dinode d = \<lparr>i_typ = di_typ d, i_major = di_major d, i_minor = di_minor d,
     i_nlink = di_nlink d, i_mode = di_mode d, i_uid = di_uid d, i_gid = di_gid d, i_size = di_size d,
     i_atime = di_reserved_time d ! 0, i_mtime = di_reserved_time d ! 1,
     i_ctime = di_reserved_time d ! 2, i_addrs = di_addrs d\<rparr>"

definition dinode_of_state :: "inode_state \<Rightarrow> dinode" where
  "dinode_of_state st = dinode_default\<lparr>di_typ := i_typ st, di_major := i_major st,
     di_minor := i_minor st, di_nlink := i_nlink st, di_mode := i_mode st, di_uid := i_uid st,
     di_gid := i_gid st, di_size := i_size st,
     di_reserved_time := [i_atime st, i_mtime st, i_ctime st], di_addrs := i_addrs st\<rparr>"

text \<open>\<open>load_from_disk\<close>: \<open>None\<close> is the \<open>ilock: empty inode\<close> panic.\<close>

definition load_from_disk :: "nat \<Rightarrow> fs \<Rightarrow> inode_state option" where
  "load_from_disk inum s =
     (let st = state_of_dinode (read_dinode inum s) in if i_typ st = 0 then None else Some st)"

definition iupdate :: "locked_inode \<Rightarrow> fs \<Rightarrow> fs option" where
  "iupdate li s = write_dinode (li_inum li) (dinode_of_state (li_state li)) s"

section \<open>The block map\<close>

definition entry :: "fs \<Rightarrow> nat \<Rightarrow> nat \<Rightarrow> nat" where
  "entry s b i = le_at (i * 4) 4 (blk s b)"

definition bmap :: "nat list \<Rightarrow> nat \<Rightarrow> fs \<Rightarrow> nat" where
  "bmap addrs bn s =
     (if bn < NDIRECT then addrs ! bn
      else if bn < NDIRECT + NINDIRECT then
        (let idx = bn - NDIRECT; ind_blkno = addrs ! NDIRECT in
         if ind_blkno = 0 then 0 else entry s ind_blkno idx)
      else if MAXFILE \<le> bn then 0
      else
        (let off = bn - NDIRECT - NINDIRECT;
             outer = off div NINDIRECT; inner = off mod NINDIRECT;
             root_blkno = addrs ! NDOUBLE_SLOT in
         if root_blkno = 0 then 0
         else (let leaf_blkno = entry s root_blkno outer in
               if leaf_blkno = 0 then 0 else entry s leaf_blkno inner)))"

text \<open>The two ways \<open>bmap_or_alloc\<close> obtains a block: from a slot of \<open>addrs\<close>, or from an entry
  of a pointer block. The first component is \<open>None\<close> when the disk is full.\<close>

definition addr_or_alloc :: "nat list \<Rightarrow> nat \<Rightarrow> fs \<Rightarrow> (nat option \<times> nat list \<times> fs) option" where
  "addr_or_alloc addrs k s =
     (if addrs ! k \<noteq> 0 then Some (Some (addrs ! k), addrs, s)
      else do {
        (r, s1) \<leftarrow> balloc s;
        Some (r, (case r of None \<Rightarrow> addrs | Some nb \<Rightarrow> addrs[k := nb]), s1) })"

definition entry_or_alloc :: "nat \<Rightarrow> nat \<Rightarrow> fs \<Rightarrow> (nat option \<times> fs) option" where
  "entry_or_alloc b i s =
     (if entry s b i \<noteq> 0 then Some (Some (entry s b i), s)
      else do {
        (r, s1) \<leftarrow> balloc s;
        (case r of
           None \<Rightarrow> Some (None, s1)
         | Some nb \<Rightarrow> do {
             s2 \<leftarrow> blk_write b (splice (i * 4) (le_bytes 4 nb) (blk s1 b)) s1;
             Some (Some nb, s2) }) })"

definition bmap_or_alloc :: "nat list \<Rightarrow> nat \<Rightarrow> fs \<Rightarrow> (nat option \<times> nat list \<times> fs) option" where
  "bmap_or_alloc addrs bn s =
     (if bn < NDIRECT then addr_or_alloc addrs bn s
      else if bn < NDIRECT + NINDIRECT then do {
        (r, a1, s1) \<leftarrow> addr_or_alloc addrs NDIRECT s;
        (case r of
           None \<Rightarrow> Some (None, a1, s1)
         | Some ind \<Rightarrow> do {
             (r2, s2) \<leftarrow> entry_or_alloc ind (bn - NDIRECT) s1;
             Some (r2, a1, s2) }) }
      else if MAXFILE \<le> bn then None
      else do {
        (r, a1, s1) \<leftarrow> addr_or_alloc addrs NDOUBLE_SLOT s;
        (case r of
           None \<Rightarrow> Some (None, a1, s1)
         | Some root \<Rightarrow> do {
             (r2, s2) \<leftarrow> entry_or_alloc root ((bn - NDIRECT - NINDIRECT) div NINDIRECT) s1;
             (case r2 of
                None \<Rightarrow> Some (None, a1, s2)
              | Some leaf \<Rightarrow> do {
                  (r3, s3) \<leftarrow> entry_or_alloc leaf ((bn - NDIRECT - NINDIRECT) mod NINDIRECT) s2;
                  Some (r3, a1, s3) }) }) })"

section \<open>Reading\<close>

function readi_loop :: "nat list \<Rightarrow> nat \<Rightarrow> nat \<Rightarrow> fs \<Rightarrow> byte list" where
  "readi_loop addrs off n s =
     (if n = 0 then []
      else
        (let blkno = bmap addrs (off div BSIZE) s;
             block_off = off mod BSIZE;
             chunk = min (BSIZE - block_off) n in
         (if blkno = 0 then replicate chunk 0 else slice block_off chunk (blk s blkno))
         @ readi_loop addrs (off + chunk) (n - chunk) s))"
  by pat_completeness auto

termination
  by (relation "measure (\<lambda>(_, _, n, _). n)") auto

declare readi_loop.simps [simp del]

text \<open>\<open>readi\<close> with a buffer of \<open>len\<close> bytes: the bytes copied and the inode with its new
  access time.\<close>

definition readi :: "nat \<Rightarrow> locked_inode \<Rightarrow> nat \<Rightarrow> nat \<Rightarrow> fs \<Rightarrow> byte list \<times> locked_inode" where
  "readi now li len off s =
     (let sz = i_size (li_state li) in
      if sz \<le> off then ([], li)
      else (readi_loop (i_addrs (li_state li)) off (min (len mod 2 ^ 32) (sz - off)) s,
            li\<lparr>li_state := (li_state li)\<lparr>i_atime := now\<rparr>\<rparr>))"

section \<open>Writing\<close>

function writei_loop :: "nat list \<Rightarrow> byte list \<Rightarrow> nat \<Rightarrow> fs \<Rightarrow> (nat \<times> nat list \<times> fs) option" where
  "writei_loop addrs src off s =
     (if src = [] then Some (0, addrs, s)
      else do {
        (r, a1, s1) \<leftarrow> bmap_or_alloc addrs (off div BSIZE) s;
        (case r of
           None \<Rightarrow> Some (0, a1, s1)
         | Some blkno \<Rightarrow>
             (let block_off = off mod BSIZE;
                  chunk = min (BSIZE - block_off) (length src) in
              do {
                s2 \<leftarrow> blk_write blkno (splice block_off (take chunk src) (blk s1 blkno)) s1;
                (t, a2, s3) \<leftarrow> writei_loop a1 (drop chunk src) (off + chunk) s2;
                Some (chunk + t, a2, s3) })) })"
  by pat_completeness auto

termination
  by (relation "measure (\<lambda>(_, src, _, _). length src)") auto

declare writei_loop.simps [simp del]

definition writei :: "nat \<Rightarrow> locked_inode \<Rightarrow> byte list \<Rightarrow> nat \<Rightarrow> fs \<Rightarrow> (nat \<times> locked_inode \<times> fs) option" where
  "writei now li src off s =
     (let max_bytes = MAXFILE * BSIZE in
      if max_bytes \<le> off then Some (0, li, s)
      else do {
        (tot, a1, s1) \<leftarrow> writei_loop (i_addrs (li_state li)) (take (max_bytes - off) src) off s;
        (let st1 = (li_state li)\<lparr>i_addrs := a1\<rparr> in
         if 0 < tot then
           (let li2 = li\<lparr>li_state := st1\<lparr>i_mtime := now, i_ctime := now,
                  i_size := (if i_size st1 < off + tot then off + tot else i_size st1)\<rparr>\<rparr> in
            do { s2 \<leftarrow> iupdate li2 s1; Some (tot, li2, s2) })
         else Some (tot, li\<lparr>li_state := st1\<rparr>, s1)) })"

section \<open>Allocating an inode\<close>

definition ialloc :: "nat \<Rightarrow> nat \<Rightarrow> nat \<Rightarrow> fs \<Rightarrow> (nat option \<times> fs) option" where
  "ialloc now typ0 mode s =
     (case find (\<lambda>inum. di_typ (read_dinode inum s) = 0) [1..<sb_ninodes (sb s)] of
        None \<Rightarrow> Some (None, s)
      | Some inum \<Rightarrow> do {
          s1 \<leftarrow> write_dinode inum (dinode_default\<lparr>di_typ := typ0, di_nlink := 1, di_mode := mode,
                  di_reserved_time := [now, now, now]\<rparr>) s;
          Some (Some inum, s1) })"

section \<open>Truncation\<close>

text \<open>Step 1 of \<open>itrunc_to\<close>: direct blocks from \<open>keep\<close> on.\<close>

primrec trunc_direct :: "nat list \<Rightarrow> nat \<Rightarrow> nat list \<Rightarrow> fs \<Rightarrow> (nat list \<times> fs) option" where
  "trunc_direct [] keep addrs s = Some (addrs, s)"
| "trunc_direct (i # is) keep addrs s =
     (if keep \<le> i \<and> addrs ! i \<noteq> 0 then do {
        s1 \<leftarrow> bfree (addrs ! i) s;
        trunc_direct is keep (addrs[i := 0]) s1 }
      else trunc_direct is keep addrs s)"

text \<open>Free every block that the entries \<open>js\<close> of pointer block \<open>b\<close> name.\<close>

primrec free_entries :: "nat \<Rightarrow> nat list \<Rightarrow> fs \<Rightarrow> fs option" where
  "free_entries b [] s = Some s"
| "free_entries b (j # js) s =
     (if entry s b j \<noteq> 0 then do { s1 \<leftarrow> bfree (entry s b j) s; free_entries b js s1 }
      else free_entries b js s)"

primrec free_blocks :: "nat list \<Rightarrow> fs \<Rightarrow> fs option" where
  "free_blocks [] s = Some s"
| "free_blocks (b # bs) s = do { s1 \<leftarrow> bfree b s; free_blocks bs s1 }"

text \<open>The non-zero entries of a pointer block from \<open>lo\<close> on, and the block with them zeroed.\<close>

definition tail_entries :: "block \<Rightarrow> nat \<Rightarrow> nat list" where
  "tail_entries bs lo = filter (\<lambda>x. x \<noteq> 0) (map (\<lambda>j. le_at (j * 4) 4 bs) [lo..<NINDIRECT])"

definition clear_entries :: "nat \<Rightarrow> block \<Rightarrow> block" where
  "clear_entries lo bs =
     fold (\<lambda>j d. if le_at (j * 4) 4 d \<noteq> 0 then splice (j * 4) (replicate 4 0) d else d) [lo..<NINDIRECT] bs"

text \<open>Step 2: the single-indirect tree.\<close>

definition trunc_indirect :: "nat \<Rightarrow> nat list \<Rightarrow> fs \<Rightarrow> (nat list \<times> fs) option" where
  "trunc_indirect keep addrs s =
     (let ind = addrs ! NDIRECT; ind_keep = min (keep - NDIRECT) NINDIRECT in
      if ind = 0 then Some (addrs, s)
      else if ind_keep = 0 then do {
        s1 \<leftarrow> free_entries ind [0..<NINDIRECT] s;
        s2 \<leftarrow> bfree ind s1;
        Some (addrs[NDIRECT := 0], s2) }
      else if ind_keep < NINDIRECT then do {
        s1 \<leftarrow> blk_write ind (clear_entries ind_keep (blk s ind)) s;
        s2 \<leftarrow> free_blocks (tail_entries (blk s ind) ind_keep) s1;
        Some (addrs, s2) }
      else Some (addrs, s))"

text \<open>Step 3: the double-indirect tree.\<close>

primrec free_leaves :: "nat list \<Rightarrow> fs \<Rightarrow> fs option" where
  "free_leaves [] s = Some s"
| "free_leaves (leaf # leaves) s = do {
     s1 \<leftarrow> free_entries leaf [0..<NINDIRECT] s;
     s2 \<leftarrow> bfree leaf s1;
     free_leaves leaves s2 }"

text \<open>\<open>None\<close>: the index of the last kept leaf is out of range of the root block.\<close>

definition trim_leaf :: "nat \<Rightarrow> nat \<Rightarrow> nat \<Rightarrow> fs \<Rightarrow> fs option" where
  "trim_leaf root leaves_keep inner_keep s =
     (if inner_keep < NINDIRECT \<and> 0 < leaves_keep then
        (let leaf = entry s root (leaves_keep - 1) in
         if NINDIRECT \<le> leaves_keep - 1 then None
         else if leaf \<noteq> 0 then do {
           s1 \<leftarrow> blk_write leaf (clear_entries inner_keep (blk s leaf)) s;
           free_blocks (tail_entries (blk s leaf) inner_keep) s1 }
         else Some s)
      else Some s)"

definition trunc_double :: "nat \<Rightarrow> nat list \<Rightarrow> fs \<Rightarrow> (nat list \<times> fs) option" where
  "trunc_double keep addrs s =
     (let root = addrs ! NDOUBLE_SLOT;
          di_keep = keep - (NDIRECT + NINDIRECT);
          leaves_keep = (di_keep + NINDIRECT - 1) div NINDIRECT;
          inner_keep = di_keep - (leaves_keep - 1) * NINDIRECT in
      if root = 0 then Some (addrs, s)
      else if di_keep = 0 then do {
        s1 \<leftarrow> free_leaves (tail_entries (blk s root) 0) s;
        s2 \<leftarrow> bfree root s1;
        Some (addrs[NDOUBLE_SLOT := 0], s2) }
      else do {
        s1 \<leftarrow> blk_write root (clear_entries leaves_keep (blk s root)) s;
        s2 \<leftarrow> free_leaves (tail_entries (blk s root) leaves_keep) s1;
        s3 \<leftarrow> trim_leaf root leaves_keep inner_keep s2;
        Some (addrs, s3) })"

text \<open>Step 4: zero the tail of the last kept block. \<open>None\<close>: the index into the root block is
  out of range.\<close>

definition tail_block :: "nat list \<Rightarrow> nat \<Rightarrow> fs \<Rightarrow> nat option" where
  "tail_block addrs idx s =
     (if idx < NDIRECT then Some (addrs ! idx)
      else if idx < NDIRECT + NINDIRECT then
        Some (if addrs ! NDIRECT = 0 then 0 else entry s (addrs ! NDIRECT) (idx - NDIRECT))
      else
        (let off = idx - NDIRECT - NINDIRECT;
             outer = off div NINDIRECT; inner = off mod NINDIRECT in
         if addrs ! NDOUBLE_SLOT = 0 then Some 0
         else if NINDIRECT \<le> outer then None
         else (let leaf = entry s (addrs ! NDOUBLE_SLOT) outer in
               Some (if leaf = 0 then 0 else entry s leaf inner))))"

definition trunc_tail :: "nat \<Rightarrow> nat \<Rightarrow> nat \<Rightarrow> nat list \<Rightarrow> fs \<Rightarrow> fs option" where
  "trunc_tail new_size cur_size keep addrs s =
     (if new_size < cur_size \<and> 0 < keep then
        (let in_blk_off = new_size mod BSIZE in
         if 0 < in_blk_off then do {
           b \<leftarrow> tail_block addrs (keep - 1) s;
           if b \<noteq> 0 then
             blk_write b (take in_blk_off (blk s b) @ replicate (BSIZE - in_blk_off) 0) s
           else Some s }
         else Some s)
      else Some s)"

definition itrunc_to :: "nat \<Rightarrow> locked_inode \<Rightarrow> nat \<Rightarrow> fs \<Rightarrow> (locked_inode \<times> fs) option" where
  "itrunc_to now li new_size s =
     (let st = li_state li;
          keep = ((new_size + BSIZE - 1) mod 2 ^ 32) div BSIZE in
      do {
        (a1, s1) \<leftarrow> trunc_direct [0..<NDIRECT] keep (i_addrs st) s;
        (a2, s2) \<leftarrow> trunc_indirect keep a1 s1;
        (a3, s3) \<leftarrow> trunc_double keep a2 s2;
        s4 \<leftarrow> trunc_tail new_size (i_size st) keep a3 s3;
        let li' = li\<lparr>li_state := st\<lparr>i_mtime := now, i_ctime := now, i_addrs := a3, i_size := new_size\<rparr>\<rparr>;
        s5 \<leftarrow> iupdate li' s4;
        Some (li', s5) })"

definition itrunc :: "nat \<Rightarrow> locked_inode \<Rightarrow> fs \<Rightarrow> (locked_inode \<times> fs) option" where
  "itrunc now li s = itrunc_to now li 0 s"

section \<open>Dinodes on disk\<close>

lemma inode_off_le: "inode_off inum + DINODE_SIZE \<le> BSIZE"
proof -
  have "inum mod IPB < IPB" by simp
  then have "inum mod IPB \<le> 3" by (simp add: layout_simps)
  then show ?thesis by (simp add: inode_off_def layout_simps)
qed

lemma inode_off_disjoint:
  assumes "inum mod IPB \<noteq> j mod IPB"
  shows "inode_off inum + DINODE_SIZE \<le> inode_off j \<or> inode_off j + DINODE_SIZE \<le> inode_off inum"
  using assms by (cases "inum mod IPB < j mod IPB") (auto simp: inode_off_def DINODE_SIZE_def)

definition wf_state :: "inode_state \<Rightarrow> bool" where
  "wf_state st \<longleftrightarrow> wf_dinode (dinode_of_state st)"

lemma dinode_of_state_inverse:
  "state_of_dinode (dinode_of_state st) = st"
  by (simp add: state_of_dinode_def dinode_of_state_def)

lemma dinode_of_bytes_take:
  assumes "DINODE_SIZE \<le> length bs"
  shows "dinode_of_bytes (take DINODE_SIZE bs) = dinode_of_bytes bs"
proof -
  have le: "le_at o' n (take 128 bs) = le_at o' n bs" if "o' + n \<le> 128" for o' n
    using that by (simp add: le_at_def slice_def drop_take min_absorb1)
  have "map (\<lambda>i. le_at (32 + 4 * i) 4 (take 128 bs)) [0..<NDIRECT + 2] = map (\<lambda>i. le_at (32 + 4 * i) 4 bs) [0..<NDIRECT + 2]"
    by (auto simp: le NDIRECT_def)
  moreover have "map (\<lambda>i. le_at (20 + 4 * i) 4 (take 128 bs)) [0..<3] = map (\<lambda>i. le_at (20 + 4 * i) 4 bs) [0..<3]"
    by (auto simp: le)
  moreover have "slice 88 40 (take 128 bs) = slice 88 40 bs" by (simp add: slice_def drop_take)
  ultimately show ?thesis unfolding dinode_of_bytes_def DINODE_SIZE_def by (simp add: le)
qed

lemma read_dinode_alt:
  assumes "wf_fs s"
  shows "read_dinode inum s = dinode_of_bytes (slice (inode_off inum) DINODE_SIZE (blk s (iblock inum (sb s))))"
  using inode_off_le [of inum] wf_fs_len [OF assms]
  by (simp add: read_dinode_def slice_def dinode_of_bytes_take)

text \<open>Writing one dinode and reading any.\<close>

lemma write_dinode_read:
  assumes wf: "wf_fs s" and d: "wf_dinode d" and w: "write_dinode inum d s = Some s'" and wf': "wf_fs s'"
  shows "read_dinode j s' = (if j = inum then d else read_dinode j s)"
proof -
  let ?b = "iblock inum (sb s)"
  have s': "blk s' = (blk s)(?b := splice (inode_off inum) (dinode_bytes d) (blk s ?b))" "sb s' = sb s"
    using w blk_write_Some unfolding write_dinode_def by blast+
  have len: "length (dinode_bytes d) = DINODE_SIZE" by (rule length_dinode_bytes [OF d])
  have fits: "inode_off inum + length (dinode_bytes d) \<le> length (blk s ?b)"
    using inode_off_le [of inum] wf by (simp add: len)
  show ?thesis
  proof (cases "iblock j (sb s) = ?b")
    case False
    then have "j \<noteq> inum" by auto
    with False show ?thesis by (simp add: read_dinode_def s')
  next
    case same: True
    show ?thesis
    proof (cases "j = inum")
      case True
      have "slice (inode_off inum) DINODE_SIZE (splice (inode_off inum) (dinode_bytes d) (blk s ?b)) = dinode_bytes d"
        using fits len by (intro slice_splice_same) simp_all
      then show ?thesis
        using True dinode_roundtrip [OF d, of "[]"] by (simp add: read_dinode_alt [OF wf'] s')
    next
      case False
      have "j div IPB = inum div IPB" using same by (simp add: iblock_def)
      then have "inum mod IPB \<noteq> j mod IPB" using False by (metis div_mult_mod_eq)
      then have "slice (inode_off j) DINODE_SIZE (splice (inode_off inum) (dinode_bytes d) (blk s ?b)) =
          slice (inode_off j) DINODE_SIZE (blk s ?b)"
        using inode_off_disjoint [of inum j] inode_off_le [of j] fits wf by (intro slice_splice_other) (auto simp: len)
      then show ?thesis using False same by (simp add: read_dinode_alt [OF wf'] read_dinode_alt [OF wf] s')
    qed
  qed
qed

end
