(* ===== verification/Itree.thy ===== *)
theory Itree
  imports Inode
begin

text \<open>
  The block tree of a file. Every place that can hold a block number (a slot of \<open>addrs\<close>, an
  entry of a pointer block) is a \<open>ptr\<close>; \<open>pv\<close> is the number found there, 0 for none. A tree
  is well formed when distinct places hold distinct allocated data blocks. \<open>fbyte\<close> is the
  file as a sequence of bytes, independent of how blocks are laid out. The lemmas here say
  how one allocation changes a tree; the operations are built from them.
\<close>

section \<open>Places for block numbers\<close>

datatype ptr = Direct nat | Ind | IndE nat | Root | RootE nat | LeafE nat nat

fun valid_ptr :: "ptr \<Rightarrow> bool" where
  "valid_ptr (Direct i) = (i < NDIRECT)"
| "valid_ptr Ind = True"
| "valid_ptr (IndE i) = (i < NINDIRECT)"
| "valid_ptr Root = True"
| "valid_ptr (RootE o') = (o' < NINDIRECT)"
| "valid_ptr (LeafE o' i) = (o' < NINDIRECT \<and> i < NINDIRECT)"

definition entry0 :: "fs \<Rightarrow> nat \<Rightarrow> nat \<Rightarrow> nat" where
  "entry0 s b i = (if b = 0 then 0 else entry s b i)"

fun pv :: "fs \<Rightarrow> nat list \<Rightarrow> ptr \<Rightarrow> nat" where
  "pv s a (Direct i) = a ! i"
| "pv s a Ind = a ! NDIRECT"
| "pv s a (IndE i) = entry0 s (a ! NDIRECT) i"
| "pv s a Root = a ! NDOUBLE_SLOT"
| "pv s a (RootE o') = entry0 s (a ! NDOUBLE_SLOT) o'"
| "pv s a (LeafE o' i) = entry0 s (entry0 s (a ! NDOUBLE_SLOT) o') i"

fun is_data :: "ptr \<Rightarrow> bool" where
  "is_data (Direct i) = True"
| "is_data (IndE i) = True"
| "is_data (LeafE o' i) = True"
| "is_data _ = False"

text \<open>The place of file block \<open>bn\<close>.\<close>

definition data_ptr :: "nat \<Rightarrow> ptr" where
  "data_ptr bn =
     (if bn < NDIRECT then Direct bn
      else if bn < NDIRECT + NINDIRECT then IndE (bn - NDIRECT)
      else LeafE ((bn - NDIRECT - NINDIRECT) div NINDIRECT) ((bn - NDIRECT - NINDIRECT) mod NINDIRECT))"

definition tree_block :: "fs \<Rightarrow> nat list \<Rightarrow> nat \<Rightarrow> bool" where
  "tree_block s a b \<longleftrightarrow> b \<noteq> 0 \<and> (\<exists>p. valid_ptr p \<and> pv s a p = b)"

definition wf_tree :: "fs \<Rightarrow> nat list \<Rightarrow> bool" where
  "wf_tree s a \<longleftrightarrow> length a = NDIRECT + 2 \<and>
     (\<forall>p. valid_ptr p \<longrightarrow> pv s a p \<noteq> 0 \<longrightarrow>
        data_start s \<le> pv s a p \<and> pv s a p < sb_size (sb s) \<and> allocated s (pv s a p)) \<and>
     (\<forall>p q. valid_ptr p \<longrightarrow> valid_ptr q \<longrightarrow> pv s a p \<noteq> 0 \<longrightarrow> pv s a p = pv s a q \<longrightarrow> p = q)"

text \<open>The bytes of a file, holes as zeros.\<close>

definition fbyte :: "fs \<Rightarrow> nat list \<Rightarrow> nat \<Rightarrow> byte" where
  "fbyte s a k =
     (let p = data_ptr (k div BSIZE) in
      if k div BSIZE < MAXFILE \<and> pv s a p \<noteq> 0 then blk s (pv s a p) ! (k mod BSIZE) else 0)"

lemma data_ptr_is_data [simp]: "is_data (data_ptr bn)"
  by (simp add: data_ptr_def)

lemma data_ptr_valid: "bn < MAXFILE \<Longrightarrow> valid_ptr (data_ptr bn)"
  by (auto simp: data_ptr_def MAXFILE_def NDOUBLE_INDIRECT_def div_less_iff_less_mult)

lemma data_ptr_inj:
  assumes "data_ptr m = data_ptr n"
  shows "m = n"
proof (cases "NDIRECT + NINDIRECT \<le> m \<and> NDIRECT + NINDIRECT \<le> n")
  case True
  let ?m = "m - NDIRECT - NINDIRECT" and ?n = "n - NDIRECT - NINDIRECT"
  have "?m div NINDIRECT = ?n div NINDIRECT" "?m mod NINDIRECT = ?n mod NINDIRECT"
    using assms True by (simp_all add: data_ptr_def)
  then have "?m = ?n" by (metis div_mult_mod_eq)
  then show ?thesis using True by linarith
next
  case False
  then show ?thesis using assms by (simp add: data_ptr_def split: if_splits)
qed

text \<open>\<open>bmap\<close> reads the place of a file block.\<close>

lemma bmap_pv: "bn < MAXFILE \<Longrightarrow> bmap a bn s = pv s a (data_ptr bn)"
  by (auto simp: bmap_def data_ptr_def entry0_def Let_def MAXFILE_def)

lemma bmap_beyond: "MAXFILE \<le> bn \<Longrightarrow> bmap a bn s = 0"
  by (auto simp: bmap_def MAXFILE_def)

lemma wf_treeD:
  assumes "wf_tree s a" "valid_ptr p" "pv s a p \<noteq> 0"
  shows "data_start s \<le> pv s a p" "pv s a p < sb_size (sb s)" "allocated s (pv s a p)"
    "\<And>q. valid_ptr q \<Longrightarrow> pv s a p = pv s a q \<Longrightarrow> p = q"
  using assms by (auto simp: wf_tree_def)

lemma wf_tree_len: "wf_tree s a \<Longrightarrow> length a = NDIRECT + 2"
  by (simp add: wf_tree_def)

section \<open>How a tree grows\<close>

text \<open>A block that a change to the tree \<open>a\<close> must leave alone: metadata other than the bitmap,
  and every allocated block of another owner.\<close>

definition foreign :: "fs \<Rightarrow> nat list \<Rightarrow> nat \<Rightarrow> bool" where
  "foreign s a c \<longleftrightarrow>
     c < sb_bmapstart (sb s) \<or>
     (data_start s \<le> c \<and> c < sb_size (sb s) \<and> allocated s c \<and> \<not> tree_block s a c)"

text \<open>\<open>evolves\<close>: the operation respects other owners, keeps what is allocated, and adds only
  blocks that were free.\<close>

definition evolves :: "fs \<Rightarrow> nat list \<Rightarrow> fs \<Rightarrow> nat list \<Rightarrow> bool" where
  "evolves s a s' a' \<longleftrightarrow>
     wf_fs s' \<and> wf_tree s' a' \<and> sb s' = sb s \<and>
     (\<forall>c. c < sb_size (sb s) \<longrightarrow> allocated s c \<longrightarrow> allocated s' c) \<and>
     (\<forall>c. foreign s a c \<longrightarrow> blk s' c = blk s c) \<and>
     (\<forall>c. tree_block s' a' c \<longrightarrow> tree_block s a c \<or> \<not> allocated s c) \<and>
     (\<forall>k < NDIRECT + 2. a ! k \<noteq> 0 \<longrightarrow> a' ! k = a ! k)"

text \<open>\<open>grow D\<close>: blocks are added to the tree, zeroed, and among data blocks only at the
  places in \<open>D\<close>.\<close>

definition grow :: "ptr set \<Rightarrow> fs \<Rightarrow> nat list \<Rightarrow> fs \<Rightarrow> nat list \<Rightarrow> bool" where
  "grow D s a s' a' \<longleftrightarrow>
     evolves s a s' a' \<and>
     (\<forall>p. valid_ptr p \<longrightarrow> pv s a p \<noteq> 0 \<longrightarrow> pv s' a' p = pv s a p) \<and>
     (\<forall>p. valid_ptr p \<longrightarrow> is_data p \<longrightarrow> p \<notin> D \<longrightarrow> pv s' a' p = pv s a p) \<and>
     (\<forall>p. valid_ptr p \<longrightarrow> is_data p \<longrightarrow> pv s a p \<noteq> 0 \<longrightarrow> blk s' (pv s a p) = blk s (pv s a p)) \<and>
     (\<forall>p. valid_ptr p \<longrightarrow> is_data p \<longrightarrow> pv s a p = 0 \<longrightarrow> pv s' a' p \<noteq> 0 \<longrightarrow>
        blk s' (pv s' a' p) = replicate BSIZE 0)"

lemma data_start_cong: "sb s' = sb s \<Longrightarrow> data_start s' = data_start s"
  by (simp add: data_start_def)

lemma foreign_evolves:
  assumes "evolves s a s' a'" and "foreign s a c"
  shows "foreign s' a' c"
proof -
  have sb: "sb s' = sb s" using assms(1) by (simp add: evolves_def)
  then have "data_start s' = data_start s" by (rule data_start_cong)
  then show ?thesis using assms sb by (auto simp: foreign_def evolves_def)
qed

lemma evolves_trans:
  assumes 1: "evolves s a s1 a1" and 2: "evolves s1 a1 s2 a2"
  shows "evolves s a s2 a2"
proof -
  have wf: "wf_tree s2 a2" using 2 by (simp add: evolves_def)
  have "tree_block s a c \<or> \<not> allocated s c" if "tree_block s2 a2 c" for c
  proof -
    have "c < sb_size (sb s)" using that wf_treeD(2) [OF wf] 1 2 by (auto simp: tree_block_def evolves_def)
    then show ?thesis using that 1 2 by (auto simp: evolves_def)
  qed
  moreover have "blk s2 c = blk s c" if "foreign s a c" for c
    using that foreign_evolves [OF 1 that] 1 2 by (simp add: evolves_def)
  ultimately show ?thesis using 1 2 unfolding evolves_def by auto
qed

lemma evolves_refl: "wf_fs s \<Longrightarrow> wf_tree s a \<Longrightarrow> evolves s a s a"
  by (auto simp: evolves_def)

lemma grow_evolves: "grow D s a s' a' \<Longrightarrow> evolves s a s' a'"
  by (simp add: grow_def)

lemma growD:
  assumes "grow D s a s' a'" and "valid_ptr p"
  shows "pv s a p \<noteq> 0 \<Longrightarrow> pv s' a' p = pv s a p"
    and "is_data p \<Longrightarrow> p \<notin> D \<Longrightarrow> pv s' a' p = pv s a p"
    and "is_data p \<Longrightarrow> pv s a p \<noteq> 0 \<Longrightarrow> blk s' (pv s a p) = blk s (pv s a p)"
    and "is_data p \<Longrightarrow> pv s a p = 0 \<Longrightarrow> pv s' a' p \<noteq> 0 \<Longrightarrow> blk s' (pv s' a' p) = replicate BSIZE 0"
  using assms unfolding grow_def by blast+

lemma grow_refl:
  assumes "wf_fs s" and "wf_tree s a"
  shows "grow D s a s a"
  using assms by (auto simp: grow_def evolves_def)

lemma grow_trans:
  assumes 1: "grow D s a s1 a1" and 2: "grow D s1 a1 s2 a2"
  shows "grow D s a s2 a2"
proof -
  have ev: "evolves s a s2 a2"
    by (rule evolves_trans [OF grow_evolves [OF 1] grow_evolves [OF 2]])
  show ?thesis
    unfolding grow_def
  proof (intro conjI allI impI ev)
    fix p assume p: "valid_ptr p"
    show "pv s2 a2 p = pv s a p" if "pv s a p \<noteq> 0"
      using that growD(1) [OF 1 p] growD(1) [OF 2 p] by simp
    show "pv s2 a2 p = pv s a p" if "is_data p" "p \<notin> D"
      using that growD(2) [OF 1 p] growD(2) [OF 2 p] by simp
    show "blk s2 (pv s a p) = blk s (pv s a p)" if "is_data p" "pv s a p \<noteq> 0"
      using that growD(1,3) [OF 1 p] growD(3) [OF 2 p] by simp
    show "blk s2 (pv s2 a2 p) = replicate BSIZE 0" if "is_data p" "pv s a p = 0" "pv s2 a2 p \<noteq> 0"
    proof (cases "pv s1 a1 p = 0")
      case True
      then show ?thesis using that growD(4) [OF 2 p] by simp
    next
      case False
      then show ?thesis
        using that growD(4) [OF 1 p] growD(1) [OF 2 p] growD(3) [OF 2 p] by simp
    qed
  qed
qed

text \<open>A growing tree does not change the file's bytes.\<close>

lemma grow_fbyte:
  assumes "grow D s a s' a'" 
  shows "fbyte s' a' k = fbyte s a k"
proof (cases "k div BSIZE < MAXFILE")
  case True
  have v: "valid_ptr (data_ptr (k div BSIZE))" by (rule data_ptr_valid [OF True])
  have "k mod BSIZE < BSIZE" by simp
  then show ?thesis
    using True growD [OF assms v] unfolding fbyte_def Let_def by (cases "pv s a (data_ptr (k div BSIZE)) = 0") auto
qed (simp add: fbyte_def)

section \<open>Adding one block\<close>

definition slot :: "nat \<Rightarrow> ptr" where
  "slot k = (if k < NDIRECT then Direct k else if k = NDIRECT then Ind else Root)"

lemma slot_valid [simp]: "valid_ptr (slot k)" and slot_data: "is_data (slot k) \<longleftrightarrow> k < NDIRECT"
  by (auto simp: slot_def)

lemma pv_slot: "k < NDIRECT + 2 \<Longrightarrow> pv s a (slot k) = a ! k"
  by (auto simp: slot_def NDOUBLE_SLOT_def less_Suc_eq)

lemma grow_by_pv:
  assumes wf: "wf_tree s a" and wf': "wf_fs s'" "sb s' = sb s" "length a' = length a"
    and nb: "\<not> allocated s nb" "data_start s \<le> nb" "nb < sb_size (sb s)" "nb \<noteq> 0"
    and al: "\<And>c. c < sb_size (sb s) \<Longrightarrow> allocated s' c \<longleftrightarrow> c = nb \<or> allocated s c"
    and p: "valid_ptr p" "pv s a p = 0" "p \<in> D \<or> \<not> is_data p"
    and pv': "\<And>q. valid_ptr q \<Longrightarrow> pv s' a' q = (if q = p then nb else pv s a q)"
    and fr: "\<And>c. foreign s a c \<Longrightarrow> blk s' c = blk s c"
    and keep: "\<And>q. valid_ptr q \<Longrightarrow> is_data q \<Longrightarrow> pv s a q \<noteq> 0 \<Longrightarrow> blk s' (pv s a q) = blk s (pv s a q)"
    and zero: "is_data p \<Longrightarrow> blk s' nb = replicate BSIZE 0"
  shows "grow D s a s' a'"
proof -
  have ne: "pv s a q \<noteq> nb" if "valid_ptr q" for q
    using wf_treeD(3) [OF wf that] nb by (cases "pv s a q = 0") auto
  have ds: "data_start s' = data_start s" by (rule data_start_cong [OF wf'(2)])
  have "wf_tree s' a'"
    unfolding wf_tree_def
  proof (intro conjI allI impI)
    show "length a' = NDIRECT + 2" using wf_tree_len [OF wf] wf'(3) by simp
  next
    fix q assume q: "valid_ptr q" "pv s' a' q \<noteq> 0"
    then show "data_start s' \<le> pv s' a' q" "pv s' a' q < sb_size (sb s')" "allocated s' (pv s' a' q)"
      using pv' [OF q(1)] wf_treeD(1-3) [OF wf q(1)] nb al ds wf'(2) by (auto split: if_splits)
  next
    fix q r assume "valid_ptr q" "valid_ptr r" "pv s' a' q \<noteq> 0" "pv s' a' q = pv s' a' r"
    then show "q = r"
      using pv' [of q] pv' [of r] ne [of q] ne [of r] wf_treeD(4) [OF wf, of q r]
      by (auto split: if_splits)
  qed
  moreover have "tree_block s a c \<or> \<not> allocated s c" if "tree_block s' a' c" for c
    using that pv' nb(1) by (auto simp: tree_block_def split: if_splits)
  moreover have "a' ! k = a ! k" if "k < NDIRECT + 2" "a ! k \<noteq> 0" for k
    using that pv' [OF slot_valid, of k] p(2) by (auto simp: pv_slot split: if_splits)
  ultimately have "evolves s a s' a'" using wf' al fr by (auto simp: evolves_def)
  then show ?thesis
    unfolding grow_def using p pv' keep zero ne by auto
qed

lemma claimedD:
  assumes "claimed s nb s1"
  shows "\<not> allocated s nb" "data_start s \<le> nb" "nb < sb_size (sb s)" "sb s1 = sb s" "wf_fs s1"
    "blk s1 nb = replicate BSIZE 0"
    "\<And>c. data_start s \<le> c \<Longrightarrow> c \<noteq> nb \<Longrightarrow> blk s1 c = blk s c"
    "\<And>c. c < sb_bmapstart (sb s) \<Longrightarrow> blk s1 c = blk s c"
    "\<And>c. c < sb_size (sb s) \<Longrightarrow> allocated s1 c \<longleftrightarrow> c = nb \<or> allocated s c"
proof -
  have nb: "nb < sb_size (sb s)" "data_start s \<le> nb" using assms by (auto simp: claimed_def)
  note bm = bm_block_meta [OF nb(1)]
  have "sb_bmapstart (sb s) \<le> data_start s" by (simp add: data_start_def)
  with assms bm nb show "\<not> allocated s nb" "data_start s \<le> nb" "nb < sb_size (sb s)" "sb s1 = sb s" "wf_fs s1"
    "blk s1 nb = replicate BSIZE 0"
    "\<And>c. data_start s \<le> c \<Longrightarrow> c \<noteq> nb \<Longrightarrow> blk s1 c = blk s c"
    "\<And>c. c < sb_bmapstart (sb s) \<Longrightarrow> blk s1 c = blk s c"
    "\<And>c. c < sb_size (sb s) \<Longrightarrow> allocated s1 c \<longleftrightarrow> c = nb \<or> allocated s c"
    unfolding claimed_def by auto
qed

lemma data_start_pos: "wf_fs s \<Longrightarrow> 0 < data_start s"
  by (simp add: wf_fs_def wf_layout_def data_start_def)

lemma claimed_nonzero: "wf_fs s \<Longrightarrow> claimed s nb s1 \<Longrightarrow> nb \<noteq> 0"
  using data_start_pos claimedD(2) by fastforce

lemma entry_zero_block:
  assumes "blk s b = replicate BSIZE 0" and "i < NINDIRECT"
  shows "entry0 s b i = 0"
proof -
  have "i * 4 + 4 \<le> BSIZE" using assms(2) by (simp add: layout_simps)
  then show ?thesis using assms(1) by (simp add: entry0_def entry_def le_at_replicate0)
qed

lemma claimed_entry:
  assumes "claimed s nb s1" and "i < NINDIRECT" and "b = 0 \<or> data_start s \<le> b"
  shows "entry0 s1 b i = (if b = nb then 0 else entry0 s b i)"
  using assms claimedD(6,7) [OF assms(1)] entry_zero_block [of s1 b i] by (auto simp: entry0_def entry_def)

lemma pv_bound:
  assumes "wf_tree s a" and "valid_ptr p"
  shows "pv s a p = 0 \<or> data_start s \<le> pv s a p"
  using wf_treeD(1) [OF assms] by blast

lemma pv_not_free:
  assumes "wf_tree s a" and "valid_ptr p" and "claimed s nb s1" and "nb \<noteq> 0"
  shows "pv s a p \<noteq> nb"
  using wf_treeD(3) [OF assms(1,2)] claimedD(1) [OF assms(3)] assms(4) by (cases "pv s a p = 0") auto

lemma graft_top_pv:
  assumes wf: "wf_tree s a" and c: "claimed s nb s1" and nb: "nb \<noteq> 0"
    and k: "k < NDIRECT + 2" "a ! k = 0" and q: "valid_ptr q"
  shows "pv s1 (a[k := nb]) q = (if q = slot k then nb else pv s a q)"
proof -
  have len: "length a = NDIRECT + 2" by (rule wf_tree_len [OF wf])
  have root: "a ! NDOUBLE_SLOT = 0 \<or> data_start s \<le> a ! NDOUBLE_SLOT" "a ! NDOUBLE_SLOT \<noteq> nb"
    using pv_bound [OF wf, of Root] pv_not_free [OF wf _ c nb, of Root] by auto
  have ind: "a ! NDIRECT = 0 \<or> data_start s \<le> a ! NDIRECT" "a ! NDIRECT \<noteq> nb"
    using pv_bound [OF wf, of Ind] pv_not_free [OF wf _ c nb, of Ind] by auto
  have leaf: "entry0 s (a ! NDOUBLE_SLOT) o' = 0 \<or> data_start s \<le> entry0 s (a ! NDOUBLE_SLOT) o'"
    "entry0 s (a ! NDOUBLE_SLOT) o' \<noteq> nb" if "o' < NINDIRECT" for o'
    using that pv_bound [OF wf, of "RootE o'"] pv_not_free [OF wf _ c nb, of "RootE o'"] by auto
  have e0: "entry0 s 0 i = 0" "entry0 s1 0 i = 0" for i by (simp_all add: entry0_def)
  have nbds: "data_start s \<le> nb" using claimedD(2) [OF c] .
  note E = claimed_entry [OF c]
  show ?thesis
  proof (cases q)
    case (LeafE o' i)
    then have oi: "o' < NINDIRECT" "i < NINDIRECT" using q by auto
    show ?thesis
      using LeafE oi k len root leaf [OF oi(1)] E [OF oi(1)] E [OF oi(2)] nbds e0
      by (cases "k = NDOUBLE_SLOT") (auto simp: slot_def NDOUBLE_SLOT_def nth_list_update)
  next
    case (RootE o')
    then show ?thesis
      using q k len root E [of o'] nbds e0
      by (cases "k = NDOUBLE_SLOT") (auto simp: slot_def NDOUBLE_SLOT_def nth_list_update)
  next
    case (IndE i)
    then show ?thesis
      using q k len ind E [of i] nbds e0
      by (cases "k = NDIRECT") (auto simp: slot_def NDOUBLE_SLOT_def nth_list_update)
  qed (use q k len in \<open>auto simp: slot_def NDOUBLE_SLOT_def nth_list_update\<close>)
qed

lemma graft_top:
  assumes wf: "wf_fs s" "wf_tree s a" and c: "claimed s nb s1" and k: "k < NDIRECT + 2" "a ! k = 0"
    and D: "k < NDIRECT \<Longrightarrow> Direct k \<in> D"
  shows "grow D s a s1 (a[k := nb])" and "pv s1 (a[k := nb]) (slot k) = nb" and "blk s1 nb = replicate BSIZE 0"
proof -
  have nb: "nb \<noteq> 0" by (rule claimed_nonzero [OF wf(1) c])
  show "pv s1 (a[k := nb]) (slot k) = nb" using graft_top_pv [OF wf(2) c nb k, of "slot k"] by simp
  show "blk s1 nb = replicate BSIZE 0" by (rule claimedD(6) [OF c])
  show "grow D s a s1 (a[k := nb])"
  proof (rule grow_by_pv [where nb = nb and p = "slot k", OF wf(2)])
    fix q assume q: "valid_ptr q"
    show "pv s1 (a[k := nb]) q = (if q = slot k then nb else pv s a q)"
      by (rule graft_top_pv [OF wf(2) c nb k q])
    show "blk s1 (pv s a q) = blk s (pv s a q)" if "is_data q" "pv s a q \<noteq> 0"
      using that wf_treeD(1) [OF wf(2) q] pv_not_free [OF wf(2) q c nb] claimedD(7) [OF c] by simp
  next
    fix d assume "foreign s a d"
    then show "blk s1 d = blk s d"
      using claimedD(1,7,8) [OF c] by (auto simp: foreign_def)
  qed (use claimedD [OF c] nb k D in \<open>auto simp: pv_slot slot_data, auto simp: slot_def\<close>)
qed

text \<open>Entries of pointer blocks.\<close>

fun parent :: "ptr \<Rightarrow> ptr" where
  "parent (IndE i) = Ind"
| "parent (RootE o') = Root"
| "parent (LeafE o' i) = RootE o'"
| "parent p = p"

fun eidx :: "ptr \<Rightarrow> nat" where
  "eidx (IndE i) = i"
| "eidx (RootE o') = o'"
| "eidx (LeafE o' i) = i"
| "eidx _ = 0"

fun is_entry :: "ptr \<Rightarrow> bool" where
  "is_entry (IndE i) = True"
| "is_entry (RootE o') = True"
| "is_entry (LeafE o' i) = True"
| "is_entry _ = False"

lemma pv_entry: "is_entry p \<Longrightarrow> pv s a p = entry0 s (pv s a (parent p)) (eidx p)"
  by (cases p) auto

lemma entry_valid: "is_entry p \<Longrightarrow> valid_ptr p \<Longrightarrow> valid_ptr (parent p) \<and> eidx p < NINDIRECT"
  by (cases p) auto

lemma entry_eq: "is_entry p \<Longrightarrow> is_entry q \<Longrightarrow> parent p = parent q \<Longrightarrow> eidx p = eidx q \<Longrightarrow> p = q"
  by (cases p; cases q) auto

lemma le_at_slot:
  assumes "length bs = BSIZE" and "i < NINDIRECT" and "j < NINDIRECT" and "n < 2 ^ 32"
  shows "le_at (j * 4) 4 (splice (i * 4) (le_bytes 4 n) bs) = (if j = i then n else le_at (j * 4) 4 bs)"
proof -
  have b: "i * 4 + 4 \<le> BSIZE" "j * 4 + 4 \<le> BSIZE" using assms by (auto simp: layout_simps)
  show ?thesis
  proof (cases "j = i")
    case True
    with b assms show ?thesis by (simp add: le_at_splice_same)
  next
    case False
    then have "j * 4 + 4 \<le> i * 4 \<or> i * 4 + 4 \<le> j * 4" by linarith
    with b assms False show ?thesis by (simp add: le_at_splice_other)
  qed
qed

lemma graft_entry0:
  assumes c: "claimed s nb s1" and nb: "nb \<noteq> 0" "nb < 2 ^ 32"
    and pb: "data_start s \<le> pb" "pb \<noteq> 0" "pb \<noteq> nb" and i: "i < NINDIRECT"
    and s2: "blk s2 = (blk s1)(pb := splice (i * 4) (le_bytes 4 nb) (blk s1 pb))"
    and j: "j < NINDIRECT" and b: "b = 0 \<or> data_start s \<le> b"
  shows "entry0 s2 b j = (if b = pb \<and> j = i then nb else if b = nb then 0 else entry0 s b j)"
proof (cases "b = pb")
  case True
  have "length (blk s1 pb) = BSIZE" using claimedD(5) [OF c] by simp
  moreover have "entry s1 pb j = entry s pb j" using claimedD(7) [OF c pb(1,3)] by (simp add: entry_def)
  ultimately show ?thesis
    using True pb le_at_slot [of "blk s1 pb" i j nb] i j nb by (auto simp: entry0_def entry_def s2)
next
  case False
  then have "entry0 s2 b j = entry0 s1 b j" by (simp add: entry0_def entry_def s2)
  then show ?thesis using False claimed_entry [OF c j b] by auto
qed

lemma graft_entry_pv:
  assumes wf: "wf_tree s a" and c: "claimed s nb s1" and nb: "nb \<noteq> 0" "nb < 2 ^ 32"
    and p: "is_entry p" "valid_ptr p" "pv s a p = 0" and pb: "pb = pv s a (parent p)" "pb \<noteq> 0"
    and s2: "blk s2 = (blk s1)(pb := splice (eidx p * 4) (le_bytes 4 nb) (blk s1 pb))"
    and q: "valid_ptr q"
  shows "pv s2 a q = (if q = p then nb else pv s a q)"
proof -
  have vp: "valid_ptr (parent p)" "eidx p < NINDIRECT" using entry_valid [OF p(1,2)] by auto
  have pbd: "data_start s \<le> pb" "pb \<noteq> nb"
    using pv_bound [OF wf vp(1)] pv_not_free [OF wf vp(1) c nb(1)] pb by auto
  note E = graft_entry0 [OF c nb pbd(1) pb(2) pbd(2) vp(2) s2]
  have step: "pv s2 a r = (if r = p then nb else pv s a r)"
    if r: "is_entry r" "valid_ptr r" "pv s2 a (parent r) = pv s a (parent r)" for r
  proof -
    have vr: "valid_ptr (parent r)" "eidx r < NINDIRECT" using entry_valid [OF r(1,2)] by auto
    have "pv s a (parent r) = pb \<and> eidx r = eidx p \<longleftrightarrow> r = p"
      using wf_treeD(4) [OF wf vp(1) _ vr(1)] pb entry_eq [OF r(1) p(1)] by metis
    moreover have "pv s a (parent r) \<noteq> nb" by (rule pv_not_free [OF wf vr(1) c nb(1)])
    ultimately show ?thesis
      using E [OF vr(2) pv_bound [OF wf vr(1)]] pv_entry [OF r(1), of s2 a] pv_entry [OF r(1), of s a] r(3)
      by auto
  qed
  show ?thesis
  proof (cases q)
    case (LeafE o' i)
    then have oi: "o' < NINDIRECT" "i < NINDIRECT" using q by auto
    have root: "pv s2 a (RootE o') = (if RootE o' = p then nb else pv s a (RootE o'))"
      by (rule step) (use oi in auto)
    show ?thesis
    proof (cases "RootE o' = p")
      case True
      have "entry0 s2 nb i = 0" using E [OF oi(2), of nb] claimedD(2) [OF c] pbd by auto
      moreover have "pv s a q = 0" using True p(3) LeafE by (auto simp: entry0_def)
      ultimately show ?thesis using True root LeafE by auto
    next
      case False
      then show ?thesis using step [of q] root LeafE q by simp
    qed
  qed (use p(1) step [of q] q in auto)
qed

lemma graft_entry:
  assumes wf: "wf_fs s" "wf_tree s a" and c: "claimed s nb s1"
    and p: "is_entry p" "valid_ptr p" "pv s a p = 0" and pb: "pb = pv s a (parent p)" "pb \<noteq> 0"
    and s2: "blk s2 = (blk s1)(pb := splice (eidx p * 4) (le_bytes 4 nb) (blk s1 pb))" "sb s2 = sb s1"
    and D: "is_data p \<Longrightarrow> p \<in> D"
  shows "grow D s a s2 a" and "pv s2 a p = nb" and "blk s2 nb = replicate BSIZE 0"
proof -
  have nb: "nb \<noteq> 0" by (rule claimed_nonzero [OF wf(1) c])
  have nb32: "nb < 2 ^ 32" using claimedD(3) [OF c] wf(1) by (simp add: wf_fs_def wf_layout_def)
  have vp: "valid_ptr (parent p)" "eidx p < NINDIRECT" using entry_valid [OF p(1,2)] by auto
  have pbd: "data_start s \<le> pb" "pb \<noteq> nb" "pb < sb_size (sb s)"
    using wf_treeD(1,2) [OF wf(2) vp(1)] pv_not_free [OF wf(2) vp(1) c nb] pb by auto
  have pv2: "pv s2 a q = (if q = p then nb else pv s a q)" if "valid_ptr q" for q
    by (rule graft_entry_pv [OF wf(2) c nb nb32 p pb s2(1) that])
  show "pv s2 a p = nb" using pv2 [OF p(2)] by simp
  show z: "blk s2 nb = replicate BSIZE 0" using claimedD(6) [OF c] pbd s2 by simp
  have sbs: "sb s2 = sb s" using s2 claimedD(4) [OF c] by simp
  have bm: "bm_block s2 d = bm_block s1 d" for d using s2(2) by (simp add: bm_block_def)
  have alloc: "allocated s2 d = allocated s1 d" if "d < sb_size (sb s)" for d
  proof -
    have "bm_block s1 d < data_start s"
      using bm_block_meta(1) [of d s1] that claimedD(4) [OF c] by (simp add: data_start_def)
    then show ?thesis using pbd s2(1) by (auto simp: allocated_def bm)
  qed
  have w4: "eidx p * 4 + 4 \<le> BSIZE" using vp(2) by (simp add: layout_simps)
  have "wf_fs s2"
    using claimedD(4,5) [OF c] alloc wf_data_start [OF wf(1)] w4 data_start_cong [OF s2(2)] data_start_cong [OF sbs] s2
    by (auto simp: wf_fs_def)
  then show "grow D s a s2 a"
  proof (rule grow_by_pv [where nb = nb and p = p, OF wf(2)])
    fix q assume q: "valid_ptr q"
    show "pv s2 a q = (if q = p then nb else pv s a q)" by (rule pv2 [OF q])
    show "blk s2 (pv s a q) = blk s (pv s a q)" if "is_data q" "pv s a q \<noteq> 0"
    proof -
      have "pv s a q \<noteq> pb"
        using wf_treeD(4) [OF wf(2) vp(1) _ q] pb that p(1) by (cases p) auto
      then show ?thesis
        using that wf_treeD(1) [OF wf(2) q] pv_not_free [OF wf(2) q c nb] claimedD(7) [OF c] s2 by simp
    qed
  next
    fix d assume d: "foreign s a d"
    then have "d \<noteq> pb" using pbd pb vp(1) by (auto simp: foreign_def tree_block_def data_start_def)
    then show "blk s2 d = blk s d"
      using d claimedD(1,7,8) [OF c] s2 by (auto simp: foreign_def)
  next
    fix d assume "d < sb_size (sb s)"
    then show "allocated s2 d \<longleftrightarrow> d = nb \<or> allocated s d" using alloc claimedD(9) [OF c] by simp
  qed (use claimedD [OF c] sbs nb p D z in auto)
qed

end
