(* ===== verification/Iwrite.thy ===== *)
theory Iwrite
  imports Itree
begin

text \<open>
  Correctness of the block map and of \<open>readi\<close> and \<open>writei\<close> (\<open>fs/inode.rs\<close>) against the file
  as a sequence of bytes: reads return the file's bytes, writes change exactly the bytes
  written, no block of another file or of the metadata is touched, and blocks never become
  shared between files.
\<close>

section \<open>Allocation on the path to a file block\<close>

lemma evolves_wf: "evolves s a s' a' \<Longrightarrow> wf_fs s'" "evolves s a s' a' \<Longrightarrow> wf_tree s' a'"
  "evolves s a s' a' \<Longrightarrow> sb s' = sb s"
  by (simp_all add: evolves_def)

lemma grow_wf: "grow D s a s' a' \<Longrightarrow> wf_fs s'" "grow D s a s' a' \<Longrightarrow> wf_tree s' a'" "grow D s a s' a' \<Longrightarrow> sb s' = sb s"
  using grow_evolves evolves_wf by blast+

lemma addr_or_alloc_spec:
  assumes wf: "wf_fs s" "wf_tree s a" and k: "k < NDIRECT + 2" and D: "k < NDIRECT \<Longrightarrow> Direct k \<in> D"
    and r: "addr_or_alloc a k s = Some (r, a', s')"
  shows "grow D s a s' a'" and "\<And>b. r = Some b \<Longrightarrow> b \<noteq> 0 \<and> pv s' a' (slot k) = b"
proof -
  have *: "grow D s a s' a' \<and> (\<forall>b. r = Some b \<longrightarrow> b \<noteq> 0 \<and> pv s' a' (slot k) = b)"
  proof (cases "a ! k = 0")
    case False
    then show ?thesis using r wf grow_refl k by (auto simp: addr_or_alloc_def pv_slot)
  next
    case True
    then obtain r1 where b: "balloc s = Some (r1, s')"
      and rr: "r = r1" "a' = (case r1 of None \<Rightarrow> a | Some nb \<Rightarrow> a[k := nb])"
      using r by (auto simp: addr_or_alloc_def split: bind_splits)
    show ?thesis
    proof (cases r1)
      case None
      then show ?thesis using b rr wf balloc_None [OF wf(1)] grow_refl by auto
    next
      case (Some nb)
      have c: "claimed s nb s'" by (rule balloc_Some(1) [OF wf(1)]) (use b Some in simp)
      show ?thesis
        using graft_top [OF wf c k True D] claimed_nonzero [OF wf(1) c] rr Some by auto
    qed
  qed
  show "grow D s a s' a'" and "\<And>b. r = Some b \<Longrightarrow> b \<noteq> 0 \<and> pv s' a' (slot k) = b" using * by auto
qed

lemma entry_or_alloc_spec:
  assumes wf: "wf_fs s" "wf_tree s a" and p: "is_entry p" "valid_ptr p"
    and pb: "pb = pv s a (parent p)" "pb \<noteq> 0" and D: "is_data p \<Longrightarrow> p \<in> D"
    and r: "entry_or_alloc pb (eidx p) s = Some (r, s')"
  shows "grow D s a s' a" and "\<And>b. r = Some b \<Longrightarrow> b \<noteq> 0 \<and> pv s' a p = b"
proof -
  have e: "pv s a p = entry s pb (eidx p)" using pv_entry [OF p(1), of s a] pb by (simp add: entry0_def)
  have *: "grow D s a s' a \<and> (\<forall>b. r = Some b \<longrightarrow> b \<noteq> 0 \<and> pv s' a p = b)"
  proof (cases "pv s a p = 0")
    case False
    then show ?thesis using r wf grow_refl e by (auto simp: entry_or_alloc_def)
  next
    case True
    then obtain r1 s1 where b: "balloc s = Some (r1, s1)"
      and rr: "(case r1 of None \<Rightarrow> Some (None, s1) | Some nb \<Rightarrow> do {
             s2 \<leftarrow> blk_write pb (splice (eidx p * 4) (le_bytes 4 nb) (blk s1 pb)) s1;
             Some (Some nb, s2) }) = Some (r, s')"
      using r e by (auto simp: entry_or_alloc_def split: bind_splits)
    show ?thesis
    proof (cases r1)
      case None
      then show ?thesis using b rr wf balloc_None [OF wf(1)] grow_refl by auto
    next
      case (Some nb)
      have c: "claimed s nb s1" by (rule balloc_Some(1) [OF wf(1)]) (use b Some in simp)
      have w: "blk_write pb (splice (eidx p * 4) (le_bytes 4 nb) (blk s1 pb)) s1 = Some s'" "r = Some nb"
        using rr Some by (auto split: bind_splits)
      show ?thesis
        using graft_entry [OF wf c p True pb blk_write_Some(1,2) [OF w(1)] D] claimed_nonzero [OF wf(1) c] w by auto
    qed
  qed
  show "grow D s a s' a" and "\<And>b. r = Some b \<Longrightarrow> b \<noteq> 0 \<and> pv s' a p = b" using * by auto
qed

lemma bmap_or_alloc_spec:
  assumes wf: "wf_fs s" "wf_tree s a" and bn: "bn < MAXFILE"
    and r: "bmap_or_alloc a bn s = Some (r, a', s')"
  shows "grow {data_ptr bn} s a s' a'" and "\<And>b. r = Some b \<Longrightarrow> b \<noteq> 0 \<and> pv s' a' (data_ptr bn) = b"
proof -
  let ?D = "{data_ptr bn}" and ?goal = "grow {data_ptr bn} s a s' a' \<and> (\<forall>b. r = Some b \<longrightarrow> b \<noteq> 0 \<and> pv s' a' (data_ptr bn) = b)"
  consider (direct) "bn < NDIRECT" | (single) "NDIRECT \<le> bn" "bn < NDIRECT + NINDIRECT"
    | (double) "NDIRECT + NINDIRECT \<le> bn" by linarith
  then have ?goal
  proof cases
    case direct
    have "addr_or_alloc a bn s = Some (r, a', s')" using r direct by (simp add: bmap_or_alloc_def)
    from addr_or_alloc_spec [OF wf _ _ this, of ?D] direct show ?thesis by (auto simp: data_ptr_def slot_def)
  next
    case single
    obtain r1 a1 s1 where t: "addr_or_alloc a NDIRECT s = Some (r1, a1, s1)"
      and rest: "(case r1 of None \<Rightarrow> Some (None, a1, s1) | Some ind \<Rightarrow> do {
             (r2, s2) \<leftarrow> entry_or_alloc ind (bn - NDIRECT) s1; Some (r2, a1, s2) }) = Some (r, a', s')"
      using r single by (auto simp: bmap_or_alloc_def split: bind_splits)
    note T = addr_or_alloc_spec [OF wf _ _ t, of ?D, simplified]
    show ?thesis
    proof (cases r1)
      case None
      then show ?thesis using rest T by auto
    next
      case (Some ind)
      have i: "ind \<noteq> 0" "pv s1 a1 Ind = ind" using T(2) [OF Some] by (auto simp: slot_def)
      have e: "entry_or_alloc ind (eidx (IndE (bn - NDIRECT))) s1 = Some (r, s')" "a' = a1"
        using rest Some by (auto split: bind_splits)
      have dp: "data_ptr bn = IndE (bn - NDIRECT)" using single by (simp add: data_ptr_def)
      have vp: "valid_ptr (IndE (bn - NDIRECT))" using single by auto
      note E = entry_or_alloc_spec [OF grow_wf(1,2) [OF T(1)] _ vp _ i(1) _ e(1), of ?D]
      show ?thesis using grow_trans [OF T(1) E(1)] E(2) i(2) e(2) dp by auto
    qed
  next
    case double
    let ?o = "(bn - NDIRECT - NINDIRECT) div NINDIRECT" and ?i = "(bn - NDIRECT - NINDIRECT) mod NINDIRECT"
    obtain r1 a1 s1 where t: "addr_or_alloc a NDOUBLE_SLOT s = Some (r1, a1, s1)"
      and rest: "(case r1 of None \<Rightarrow> Some (None, a1, s1) | Some root \<Rightarrow> do {
             (r2, s2) \<leftarrow> entry_or_alloc root ?o s1;
             (case r2 of None \<Rightarrow> Some (None, a1, s2)
              | Some leaf \<Rightarrow> do { (r3, s3) \<leftarrow> entry_or_alloc leaf ?i s2; Some (r3, a1, s3) }) }) = Some (r, a', s')"
      using r double bn by (auto simp: bmap_or_alloc_def split: bind_splits)
    have k: "NDOUBLE_SLOT < NDIRECT + 2" "\<not> NDOUBLE_SLOT < NDIRECT" by (simp_all add: NDOUBLE_SLOT_def)
    note T = addr_or_alloc_spec [OF wf k(1) _ t, of ?D]
    have dp: "data_ptr bn = LeafE ?o ?i" using double by (simp add: data_ptr_def)
    have v: "valid_ptr (RootE ?o)" "valid_ptr (LeafE ?o ?i)" using data_ptr_valid [OF bn] dp by auto
    show ?thesis
    proof (cases r1)
      case None
      then show ?thesis using rest T k by auto
    next
      case (Some root)
      have R: "root \<noteq> 0" "pv s1 a1 Root = root" using T(2) [OF _ Some] k by (auto simp: slot_def NDOUBLE_SLOT_def)
      have g1: "grow ?D s a s1 a1" using T(1) k by blast
      obtain r2 s2 where e: "entry_or_alloc root (eidx (RootE ?o)) s1 = Some (r2, s2)"
        and rest2: "(case r2 of None \<Rightarrow> Some (None, a1, s2)
              | Some leaf \<Rightarrow> do { (r3, s3) \<leftarrow> entry_or_alloc leaf ?i s2; Some (r3, a1, s3) }) = Some (r, a', s')"
        using rest Some by (auto split: bind_splits)
      note E = entry_or_alloc_spec [OF grow_wf(1,2) [OF g1] _ v(1) _ R(1) _ e, of ?D]
      have g2: "grow ?D s a s2 a1" using grow_trans [OF g1 E(1)] R(2) by simp
      show ?thesis
      proof (cases r2)
        case None
        then show ?thesis using rest2 g2 by auto
      next
        case (Some leaf)
        have L: "leaf \<noteq> 0" "pv s2 a1 (RootE ?o) = leaf" using E(2) [OF _ _ _ Some] R(2) by auto
        have f: "entry_or_alloc leaf (eidx (LeafE ?o ?i)) s2 = Some (r, s')" "a' = a1"
          using rest2 Some by (auto split: bind_splits)
        note F = entry_or_alloc_spec [OF grow_wf(1,2) [OF g2] _ v(2) _ L(1) _ f(1), of ?D]
        have d: "parent (LeafE ?o ?i) = RootE ?o" by simp
        show ?thesis using grow_trans [OF g2 F(1)] F(2) L(2) f(2) dp d by auto
      qed
    qed
  qed
  then show "grow {data_ptr bn} s a s' a'" and "\<And>b. r = Some b \<Longrightarrow> b \<noteq> 0 \<and> pv s' a' (data_ptr bn) = b" by auto
qed

section \<open>Reading\<close>

lemma div_mod_add:
  fixes x m i :: nat
  assumes "x mod m + i < m"
  shows "(x + i) div m = x div m" and "(x + i) mod m = x mod m + i"
proof -
  have "(r + i + q * m) div m = q \<and> (r + i + q * m) mod m = r + i" if "r + i < m" for r q using that by simp
  moreover have "x + i = x mod m + i + x div m * m" by simp
  ultimately show "(x + i) div m = x div m" and "(x + i) mod m = x mod m + i" using assms by metis+
qed

lemma chunk_bytes:
  assumes wf: "wf_fs s" and c: "c \<le> BSIZE - off mod BSIZE"
  shows "(if bmap a (off div BSIZE) s = 0 then replicate c 0
      else slice (off mod BSIZE) c (blk s (bmap a (off div BSIZE) s))) = map (fbyte s a) [off..<off + c]"
    (is "?l = ?r")
proof (rule nth_equalityI)
  have "off mod BSIZE < BSIZE" by simp
  then have c': "off mod BSIZE + c \<le> BSIZE" using c by linarith
  show "length ?l = length ?r" using c' wf by auto
  fix i assume "i < length ?l"
  then have i: "i < c" using c' wf by (auto split: if_splits)
  have lt: "off mod BSIZE + i < BSIZE" using i c' by linarith
  note dm = div_mod_add [OF lt]
  show "?l ! i = ?r ! i"
  proof (cases "off div BSIZE < MAXFILE")
    case True
    then show ?thesis using i dm lt wf by (auto simp: fbyte_def bmap_pv Let_def)
  next
    case False
    then show ?thesis using i dm by (auto simp: fbyte_def bmap_beyond)
  qed
qed

lemma readi_loop_bytes:
  assumes "wf_fs s"
  shows "readi_loop a off n s = map (fbyte s a) [off..<off + n]"
  using assms
proof (induction a off n s rule: readi_loop.induct)
  case (1 a off n s)
  show ?case
  proof (cases "n = 0")
    case False
    let ?c = "min (BSIZE - off mod BSIZE) n"
    have "off mod BSIZE < BSIZE" by simp
    then have c: "0 < ?c" "?c \<le> n" using False by auto
    have IH: "readi_loop a (off + ?c) (n - ?c) s = map (fbyte s a) [off + ?c..<off + n]"
      using "1.IH" [OF False refl refl refl "1.prems"] c by simp
    have "readi_loop a off n s = map (fbyte s a) [off..<off + ?c] @ readi_loop a (off + ?c) (n - ?c) s"
      unfolding readi_loop.simps [of a off n s] using False chunk_bytes [OF "1.prems", of ?c off a]
      by (simp add: Let_def)
    also have "\<dots> = map (fbyte s a) [off..<off + n]"
      using c by (simp only: IH map_append [symmetric]) (metis le_add1 le_add_diff_inverse add_le_cancel_left upt_add_eq_append)
    finally show ?thesis .
  qed (simp add: readi_loop.simps)
qed

section \<open>Writing\<close>

text \<open>A tree does not change when its pointer blocks do not.\<close>

lemma pv_same:
  assumes "\<And>r. valid_ptr r \<Longrightarrow> \<not> is_data r \<Longrightarrow> pv s a r \<noteq> 0 \<Longrightarrow> blk s' (pv s a r) = blk s (pv s a r)"
    and "valid_ptr q"
  shows "pv s' a q = pv s a q"
proof -
  have e: "entry0 s' (pv s a r) i = entry0 s (pv s a r) i" if "valid_ptr r" "\<not> is_data r" for r i
    using assms(1) [OF that] by (simp add: entry0_def entry_def)
  show ?thesis
  proof (cases q)
    case (LeafE o' i)
    then show ?thesis using assms(2) e [of Root o'] e [of "RootE o'" i] by simp
  next
    case (RootE o')
    then show ?thesis using e [of Root o'] by simp
  next
    case (IndE i)
    then show ?thesis using e [of Ind i] by simp
  qed auto
qed

lemma data_write:
  assumes wf: "wf_fs s" "wf_tree s a" and bn: "bn < MAXFILE" and b: "b = pv s a (data_ptr bn)" "b \<noteq> 0"
    and s': "blk s' = (blk s)(b := x)" "length x = BSIZE" "sb s' = sb s"
  shows "evolves s a s' a"
    and "fbyte s' a k = (if k div BSIZE = bn then x ! (k mod BSIZE) else fbyte s a k)"
    and "\<And>q. valid_ptr q \<Longrightarrow> pv s' a q = pv s a q"
    and "\<And>c. c < sb_size (sb s) \<Longrightarrow> allocated s' c = allocated s c"
proof -
  have v: "valid_ptr (data_ptr bn)" by (rule data_ptr_valid [OF bn])
  have bd: "data_start s \<le> b" "b < sb_size (sb s)" using wf_treeD(1,2) [OF wf(2) v] b by auto
  have other: "pv s a q \<noteq> b" if "valid_ptr q" "q \<noteq> data_ptr bn" for q
    using wf_treeD(4) [OF wf(2) v _ that(1)] b that(2) by auto
  show pv': "pv s' a q = pv s a q" if "valid_ptr q" for q
  proof (rule pv_same [OF _ that])
    fix r assume "valid_ptr r" "\<not> is_data r"
    then have "pv s a r \<noteq> b" using other [of r] data_ptr_is_data [of bn] by metis
    then show "blk s' (pv s a r) = blk s (pv s a r)" using s' by simp
  qed
  have ds: "data_start s' = data_start s" by (rule data_start_cong [OF s'(3)])
  show al: "allocated s' c = allocated s c" if "c < sb_size (sb s)" for c
    using bm_block_meta(1) [OF that] bd s' by (auto simp: allocated_def bm_block_def)
  have tb: "tree_block s' a c = tree_block s a c" for c using pv' by (auto simp: tree_block_def)
  have "wf_fs s'" using wf al wf_data_start [OF wf(1)] s' ds by (auto simp: wf_fs_def)
  moreover have "wf_tree s' a" using wf(2) pv' al ds s'(3) unfolding wf_tree_def by auto
  moreover have "blk s' c = blk s c" if "foreign s a c" for c
    using that bd b v s' by (auto simp: foreign_def tree_block_def data_start_def)
  ultimately show "evolves s a s' a" using al tb s' by (auto simp: evolves_def)
  show "fbyte s' a k = (if k div BSIZE = bn then x ! (k mod BSIZE) else fbyte s a k)"
  proof (cases "k div BSIZE = bn")
    case True
    then show ?thesis using bn b pv' [OF v] s' by (simp add: fbyte_def)
  next
    case False
    show ?thesis
    proof (cases "k div BSIZE < MAXFILE")
      case True
      have w: "valid_ptr (data_ptr (k div BSIZE))" by (rule data_ptr_valid [OF True])
      have "data_ptr (k div BSIZE) \<noteq> data_ptr bn" using False data_ptr_inj by blast
      with other [OF w] pv' [OF w] False s' show ?thesis by (simp add: fbyte_def Let_def)
    qed (use False in \<open>simp add: fbyte_def\<close>)
  qed
qed

lemma div_in_block:
  fixes k off c :: nat
  assumes "c \<le> BSIZE - off mod BSIZE"
  shows "k div BSIZE = off div BSIZE \<and> off mod BSIZE \<le> k mod BSIZE \<and> k mod BSIZE < off mod BSIZE + c
      \<longleftrightarrow> off \<le> k \<and> k < off + c"
    and "off \<le> k \<Longrightarrow> k < off + c \<Longrightarrow> k mod BSIZE - off mod BSIZE = k - off"
proof -
  have m: "off mod BSIZE < BSIZE" "k mod BSIZE < BSIZE" by simp_all
  have o: "off = off div BSIZE * BSIZE + off mod BSIZE" and kk: "k = k div BSIZE * BSIZE + k mod BSIZE" by simp_all
  have fwd: "k div BSIZE = off div BSIZE" if "off \<le> k" "k < off + c"
  proof (rule div_nat_eqI)
    show "BSIZE * (off div BSIZE) \<le> k" using that(1) o by (metis le_trans le_add1 mult.commute)
    have "off + c \<le> off div BSIZE * BSIZE + BSIZE" using assms m o by linarith
    then show "k < BSIZE * Suc (off div BSIZE)" using that(2) by (simp add: algebra_simps)
  qed
  have shift: "off \<le> k \<longleftrightarrow> off mod BSIZE \<le> k mod BSIZE" "k < off + c \<longleftrightarrow> k mod BSIZE < off mod BSIZE + c"
    "k mod BSIZE - off mod BSIZE = k - off" if "k div BSIZE = off div BSIZE"
  proof -
    have "k = off div BSIZE * BSIZE + k mod BSIZE" using kk that by simp
    then show "off \<le> k \<longleftrightarrow> off mod BSIZE \<le> k mod BSIZE" "k < off + c \<longleftrightarrow> k mod BSIZE < off mod BSIZE + c"
      "k mod BSIZE - off mod BSIZE = k - off" using o by linarith+
  qed
  show "k div BSIZE = off div BSIZE \<and> off mod BSIZE \<le> k mod BSIZE \<and> k mod BSIZE < off mod BSIZE + c
      \<longleftrightarrow> off \<le> k \<and> k < off + c"
    using fwd shift by blast
  show "k mod BSIZE - off mod BSIZE = k - off" if "off \<le> k" "k < off + c"
    using shift(3) fwd [OF that] by simp
qed

lemma splice_nth_bytes:
  assumes "length bs = BSIZE" and "off mod BSIZE + length ys \<le> BSIZE"
  shows "splice (off mod BSIZE) ys bs ! (k mod BSIZE) =
    (if off mod BSIZE \<le> k mod BSIZE \<and> k mod BSIZE < off mod BSIZE + length ys
     then ys ! (k mod BSIZE - off mod BSIZE) else bs ! (k mod BSIZE))"
  using assms by (simp add: nth_splice)

lemma writei_loop_spec:
  assumes "wf_fs s" "wf_tree s a" "off + length src \<le> MAXFILE * BSIZE"
    and "writei_loop a src off s = Some (t, a', s')"
  shows "evolves s a s' a' \<and> t \<le> length src \<and>
    (\<forall>k. fbyte s' a' k = (if off \<le> k \<and> k < off + t then src ! (k - off) else fbyte s a k))"
  using assms
proof (induction "length src" arbitrary: s a src off t rule: less_induct)
  case less
  note wf = less.prems(1,2)
  show ?case
  proof (cases "src = []")
    case True
    then show ?thesis using less.prems evolves_refl by (auto simp: writei_loop.simps)
  next
    case False
    then have "off < MAXFILE * BSIZE" using less.prems(3) by (cases src) auto
    then have bn: "off div BSIZE < MAXFILE" by (simp add: less_mult_imp_div_less)
    let ?c = "min (BSIZE - off mod BSIZE) (length src)"
    have "off mod BSIZE < BSIZE" by simp
    then have c: "0 < ?c" "?c \<le> length src" "?c \<le> BSIZE - off mod BSIZE" "off mod BSIZE + ?c \<le> BSIZE"
      using False by (auto, linarith)
    obtain r a1 s1 where m: "bmap_or_alloc a (off div BSIZE) s = Some (r, a1, s1)"
      using less.prems(4) False by (auto simp: writei_loop.simps [of a src] split: bind_splits)
    note M = bmap_or_alloc_spec [OF wf bn m]
    note g = grow_wf [OF M(1)] grow_fbyte [OF M(1)]
    show ?thesis
    proof (cases r)
      case None
      then have "t = 0" "a' = a1" "s' = s1" using less.prems(4) False m by (auto simp: writei_loop.simps [of a src])
      then show ?thesis using grow_evolves [OF M(1)] g by auto
    next
      case (Some b)
      let ?x = "splice (off mod BSIZE) (take ?c src) (blk s1 b)"
      obtain s2 t2 where w: "blk_write b ?x s1 = Some s2"
        and rest: "writei_loop a1 (drop ?c src) (off + ?c) s2 = Some (t2, a', s')" and t: "t = ?c + t2"
        using less.prems(4) False m Some by (auto simp: writei_loop.simps [of a src] Let_def split: bind_splits)
      have b: "b = pv s1 a1 (data_ptr (off div BSIZE))" "b \<noteq> 0" using M(2) [OF Some] by auto
      have lx: "length ?x = BSIZE" using g(1) c by simp
      note W = data_write [OF g(1,2) bn b blk_write_Some(1) [OF w] lx blk_write_Some(2) [OF w]]
      have fb: "fbyte s2 a1 k = (if off \<le> k \<and> k < off + ?c then src ! (k - off) else fbyte s a k)" for k
      proof (cases "k div BSIZE = off div BSIZE")
        case True
        have "take ?c src ! (k - off) = src ! (k - off)" if "off \<le> k" "k < off + ?c"
          by (rule nth_take) (use that in linarith)
        moreover have "fbyte s1 a1 k = blk s1 b ! (k mod BSIZE)" using True b bn by (simp add: fbyte_def)
        ultimately show ?thesis
          using W(2) [of k] True splice_nth_bytes [of "blk s1 b" off "take ?c src" k] g(1,4) c
            div_in_block [OF c(3), of k] by auto
      next
        case False
        then show ?thesis using W(2) [of k] g(4) div_in_block(1) [OF c(3), of k] by auto
      qed
      have "length (drop ?c src) < length src" using c by simp
      note IH = less.hyps [OF this evolves_wf(1,2) [OF W(1)] _ rest]
      have "evolves s2 a1 s' a' \<and> t2 \<le> length (drop ?c src) \<and>
        (\<forall>k. fbyte s' a' k = (if off + ?c \<le> k \<and> k < off + ?c + t2 then drop ?c src ! (k - (off + ?c)) else fbyte s2 a1 k))"
        by (rule IH) (use less.prems(3) c in simp)
      then have I: "evolves s2 a1 s' a'" "t2 \<le> length src - ?c"
        "\<And>k. fbyte s' a' k = (if off + ?c \<le> k \<and> k < off + ?c + t2 then src ! (k - off) else fbyte s2 a1 k)"
        using c by auto
      have "evolves s a s' a'"
        using evolves_trans [OF evolves_trans [OF grow_evolves [OF M(1)] W(1)] I(1)] .
      moreover have "t \<le> length src" using I(2) c t by linarith
      moreover have "fbyte s' a' k = (if off \<le> k \<and> k < off + t then src ! (k - off) else fbyte s a k)" for k
        using I(3) [of k] fb [of k] t by auto
      ultimately show ?thesis by blast
    qed
  qed
qed

section \<open>The whole file system\<close>

definition inode_live :: "fs \<Rightarrow> nat \<Rightarrow> bool" where
  "inode_live s i \<longleftrightarrow> 0 < i \<and> i < sb_ninodes (sb s) \<and> di_typ (read_dinode i s) \<noteq> 0"

definition di_tree :: "fs \<Rightarrow> nat \<Rightarrow> nat list" where
  "di_tree s i = di_addrs (read_dinode i s)"

text \<open>Every file's tree is well formed and no block belongs to two files.\<close>

definition fs_inv :: "fs \<Rightarrow> bool" where
  "fs_inv s \<longleftrightarrow> wf_fs s \<and> (\<forall>i. inode_live s i \<longrightarrow> wf_tree s (di_tree s i)) \<and>
     (\<forall>i j b. inode_live s i \<longrightarrow> inode_live s j \<longrightarrow> i \<noteq> j \<longrightarrow>
        \<not> (tree_block s (di_tree s i) b \<and> tree_block s (di_tree s j) b))"

lemma iblock_meta:
  assumes "wf_fs s" and "i < sb_ninodes (sb s)"
  shows "iblock i (sb s) < sb_bmapstart (sb s)"
proof -
  have "i div IPB < (sb_ninodes (sb s) + IPB - 1) div IPB"
    using assms(2) by (simp add: layout_simps)
  then show ?thesis using assms(1) by (simp add: iblock_def wf_fs_def wf_layout_def)
qed

lemma fs_invD:
  assumes "fs_inv s"
  shows "wf_fs s" "\<And>i. inode_live s i \<Longrightarrow> wf_tree s (di_tree s i)"
    "\<And>i j b. inode_live s i \<Longrightarrow> inode_live s j \<Longrightarrow> i \<noteq> j \<Longrightarrow> tree_block s (di_tree s i) b
      \<Longrightarrow> \<not> tree_block s (di_tree s j) b"
  using assms unfolding fs_inv_def by blast+

text \<open>Blocks of another file are foreign.\<close>

lemma other_foreign:
  assumes "fs_inv s" and "inode_live s i" and "inode_live s j" and "i \<noteq> j" and "tree_block s (di_tree s j) c"
  shows "foreign s (di_tree s i) c"
  using assms wf_treeD(1-3) [OF fs_invD(2) [OF assms(1,3)]] fs_invD(3) [OF assms(1,3,2)]
  by (auto simp: foreign_def tree_block_def)

lemma tree_frame:
  assumes "\<And>c. tree_block s a c \<Longrightarrow> blk s' c = blk s c"
  shows "\<And>q. valid_ptr q \<Longrightarrow> pv s' a q = pv s a q" and "\<And>k. fbyte s' a k = fbyte s a k"
    and "\<And>c. tree_block s' a c \<longleftrightarrow> tree_block s a c"
proof -
  show pv': "pv s' a q = pv s a q" if "valid_ptr q" for q
    by (rule pv_same [OF _ that]) (use assms in \<open>auto simp: tree_block_def\<close>)
  show "fbyte s' a k = fbyte s a k" for k
  proof (cases "k div BSIZE < MAXFILE")
    case True
    note v = data_ptr_valid [OF True]
    have "blk s' (pv s a (data_ptr (k div BSIZE))) = blk s (pv s a (data_ptr (k div BSIZE)))"
      if "pv s a (data_ptr (k div BSIZE)) \<noteq> 0"
      by (rule assms) (use that v in \<open>auto simp: tree_block_def\<close>)
    then show ?thesis using pv' [OF v] by (simp add: fbyte_def Let_def)
  qed (simp add: fbyte_def)
  show "tree_block s' a c \<longleftrightarrow> tree_block s a c" for c using pv' by (auto simp: tree_block_def)
qed

lemma wf_tree_frame:
  assumes "wf_tree s a" and "\<And>c. tree_block s a c \<Longrightarrow> blk s' c = blk s c" and "sb s' = sb s"
    and "\<And>c. tree_block s a c \<Longrightarrow> allocated s' c"
  shows "wf_tree s' a"
proof -
  have f: "pv s' a q = pv s a q" if "valid_ptr q" for q by (rule tree_frame(1) [OF assms(2) that])
  have ds: "data_start s' = data_start s" by (rule data_start_cong [OF assms(3)])
  have "allocated s' (pv s a p)" if "valid_ptr p" "pv s a p \<noteq> 0" for p
    by (rule assms(4)) (use that in \<open>auto simp: tree_block_def\<close>)
  then show ?thesis using assms(1) unfolding wf_tree_def by (simp add: f ds assms(3))
qed

text \<open>A tree with some of the slots of a well-formed tree.\<close>

lemma wf_tree_sub:
  assumes wf: "wf_tree s a1" and len: "length a = NDIRECT + 2"
    and sub: "\<forall>k < NDIRECT + 2. a ! k \<noteq> 0 \<longrightarrow> a1 ! k = a ! k"
  shows "wf_tree s a" and "\<And>c. tree_block s a c \<Longrightarrow> tree_block s a1 c"
proof -
  have nd: "NDOUBLE_SLOT < NDIRECT + 2" "NDIRECT < NDIRECT + 2" by (simp_all add: NDOUBLE_SLOT_def)
  have e0: "entry0 s 0 i = 0" for i by (simp add: entry0_def)
  have pv': "pv s a q = 0 \<or> pv s a q = pv s a1 q" if "valid_ptr q" for q
  proof (cases q)
    case (Direct i)
    then have "i < NDIRECT + 2" using that by simp
    then show ?thesis using Direct sub by (cases "a ! i = 0") auto
  next
    case (LeafE o' i)
    then show ?thesis using e0 sub nd(1) by (cases "a ! NDOUBLE_SLOT = 0") auto
  next
    case (RootE o')
    then show ?thesis using e0 sub nd(1) by (cases "a ! NDOUBLE_SLOT = 0") auto
  next
    case (IndE i)
    then show ?thesis using e0 sub nd(2) by (cases "a ! NDIRECT = 0") auto
  next
    case Ind
    then show ?thesis using sub nd(2) by (cases "a ! NDIRECT = 0") auto
  next
    case Root
    then show ?thesis using sub nd(1) by (cases "a ! NDOUBLE_SLOT = 0") auto
  qed
  show "wf_tree s a"
    unfolding wf_tree_def
  proof (intro conjI allI impI)
    fix p assume "valid_ptr p" "pv s a p \<noteq> 0"
    then show "data_start s \<le> pv s a p" "pv s a p < sb_size (sb s)" "allocated s (pv s a p)"
      using pv' [of p] wf_treeD(1-3) [OF wf, of p] by auto
  next
    fix p q assume pq: "valid_ptr p" "valid_ptr q" "pv s a p \<noteq> 0" "pv s a p = pv s a q"
    then have "pv s a1 p = pv s a1 q" "pv s a1 p \<noteq> 0" using pv' [of p] pv' [of q] by auto
    then show "p = q" using wf_treeD(4) [OF wf pq(1) _ pq(2)] by blast
  qed (rule len)
  show "tree_block s a1 c" if "tree_block s a c" for c
    using that pv' unfolding tree_block_def by (metis)
qed

text \<open>An operation on the tree of file \<open>i\<close>, seen from the whole file system.\<close>

lemma evolves_others:
  assumes inv: "fs_inv s" and i: "inode_live s i" and ev: "evolves s (di_tree s i) s' a'"
  shows "\<And>j. j < sb_ninodes (sb s) \<Longrightarrow> read_dinode j s' = read_dinode j s"
    and "\<And>j k. inode_live s j \<Longrightarrow> j \<noteq> i \<Longrightarrow> fbyte s' (di_tree s j) k = fbyte s (di_tree s j) k"
    and "\<And>j. inode_live s j \<Longrightarrow> j \<noteq> i \<Longrightarrow> wf_tree s' (di_tree s j)"
    and "\<And>j c. inode_live s j \<Longrightarrow> j \<noteq> i \<Longrightarrow> tree_block s' (di_tree s j) c \<Longrightarrow> \<not> tree_block s' a' c"
proof -
  have sb': "sb s' = sb s" by (rule evolves_wf(3) [OF ev])
  show "read_dinode j s' = read_dinode j s" if "j < sb_ninodes (sb s)" for j
  proof -
    have "foreign s (di_tree s i) (iblock j (sb s))"
      using iblock_meta [OF fs_invD(1) [OF inv] that] by (simp add: foreign_def)
    then show ?thesis using ev by (simp add: read_dinode_def sb' evolves_def)
  qed
  fix j assume j: "inode_live s j" "j \<noteq> i"
  have bl: "blk s' c = blk s c" if "tree_block s (di_tree s j) c" for c
    using other_foreign [OF inv i j(1) _ that] j(2) ev by (simp add: evolves_def)
  note f = tree_frame [OF bl]
  show "fbyte s' (di_tree s j) k = fbyte s (di_tree s j) k" for k by (rule f(2))
  have al: "allocated s c" "c < sb_size (sb s)" if "tree_block s (di_tree s j) c" for c
    using that wf_treeD(2,3) [OF fs_invD(2) [OF inv j(1)]] by (auto simp: tree_block_def)
  show "wf_tree s' (di_tree s j)"
    by (rule wf_tree_frame [OF fs_invD(2) [OF inv j(1)] bl sb']) (use al ev in \<open>auto simp: evolves_def\<close>)
  show "\<not> tree_block s' a' c" if "tree_block s' (di_tree s j) c" for c
    using that f(3) al [of c] ev fs_invD(3) [OF inv j(1) i j(2)] by (auto simp: evolves_def)
qed

section \<open>Updating an inode on disk\<close>

lemma write_dinode_meta:
  assumes wf: "wf_fs s" and i: "i < sb_ninodes (sb s)" and d: "wf_dinode d"
    and w: "write_dinode i d s = Some s'"
  shows "wf_fs s'" "sb s' = sb s" "\<And>c. c < sb_size (sb s) \<Longrightarrow> allocated s' c = allocated s c"
    "\<And>c. data_start s \<le> c \<Longrightarrow> blk s' c = blk s c"
    "\<And>j. read_dinode j s' = (if j = i then d else read_dinode j s)"
proof -
  let ?b = "iblock i (sb s)"
  have s': "blk s' = (blk s)(?b := splice (inode_off i) (dinode_bytes d) (blk s ?b))" and sb': "sb s' = sb s"
    using w blk_write_Some unfolding write_dinode_def by blast+
  have b: "?b < sb_bmapstart (sb s)" by (rule iblock_meta [OF wf i])
  have ds: "data_start s' = data_start s" by (rule data_start_cong [OF sb'])
  show al: "allocated s' c = allocated s c" if "c < sb_size (sb s)" for c
    using bm_block_meta(2) [OF that] b by (auto simp: allocated_def bm_block_def s' sb')
  have "length (splice (inode_off i) (dinode_bytes d) (blk s ?b)) = BSIZE"
    using inode_off_le [of i] length_dinode_bytes [OF d] wf by simp
  then show wf': "wf_fs s'" using wf al wf_data_start [OF wf] by (auto simp: wf_fs_def ds sb' s')
  show "sb s' = sb s" by (rule sb')
  show "blk s' c = blk s c" if "data_start s \<le> c" for c
    using that b by (auto simp: s' data_start_def)
  show "read_dinode j s' = (if j = i then d else read_dinode j s)" for j
    by (rule write_dinode_read [OF wf d w wf'])
qed

lemma write_dinode_tree:
  assumes wf: "wf_fs s" and i: "i < sb_ninodes (sb s)" and d: "wf_dinode d"
    and w: "write_dinode i d s = Some s'" and t: "wf_tree s a"
  shows "wf_tree s' a" "\<And>k. fbyte s' a k = fbyte s a k" "\<And>c. tree_block s' a c \<longleftrightarrow> tree_block s a c"
proof -
  note M = write_dinode_meta [OF wf i d w]
  have b: "data_start s \<le> c \<and> c < sb_size (sb s) \<and> allocated s c" if "tree_block s a c" for c
    using that wf_treeD(1-3) [OF t] by (auto simp: tree_block_def)
  have bl: "blk s' c = blk s c" if "tree_block s a c" for c using b [OF that] M(4) by simp
  show "wf_tree s' a" by (rule wf_tree_frame [OF t bl M(2)]) (use b M(3) in auto)
  show "fbyte s' a k = fbyte s a k" "tree_block s' a c \<longleftrightarrow> tree_block s a c" for k c
    using tree_frame(2,3) [OF bl] by auto
qed

section \<open>writei as a whole\<close>

text \<open>The caller's view of a locked inode: its block pointers are the ones on disk, its fields
  fit their widths and it is in use.\<close>

definition locked_ok :: "fs \<Rightarrow> locked_inode \<Rightarrow> bool" where
  "locked_ok s li \<longleftrightarrow> inode_live s (li_inum li) \<and> i_addrs (li_state li) = di_tree s (li_inum li) \<and>
     wf_state (li_state li) \<and> i_typ (li_state li) \<noteq> 0"

lemma locked_ok_tree: "fs_inv s \<Longrightarrow> locked_ok s li \<Longrightarrow> wf_tree s (i_addrs (li_state li))"
  by (simp add: locked_ok_def fs_invD(2))

lemma wf_state_addrs:
  assumes "wf_state st"
  shows "length (i_addrs st) = NDIRECT + 2" "\<forall>x \<in> set (i_addrs st). x < 2 ^ 32"
  using assms by (auto simp: wf_state_def wf_dinode_def dinode_of_state_def dinode_words_def)

lemma wf_state_update:
  assumes "wf_state st" "length a = NDIRECT + 2" "\<forall>x \<in> set a. x < 2 ^ 32" "now < 2 ^ 32" "sz < 2 ^ 32"
  shows "wf_state (st\<lparr>i_addrs := a, i_mtime := now, i_ctime := now, i_size := sz\<rparr>)"
  using assms
  by (auto simp: wf_state_def wf_dinode_def dinode_of_state_def dinode_words_def dinode_halves_def dinode_default_def)

lemma tree_addrs_small:
  assumes "wf_fs s" "wf_tree s a"
  shows "\<forall>x \<in> set a. x < 2 ^ 32"
proof
  fix x assume "x \<in> set a"
  then obtain k where k: "k < NDIRECT + 2" "x = a ! k" using wf_tree_len [OF assms(2)] by (auto simp: in_set_conv_nth)
  then have "x = pv s a (slot k)" by (simp add: pv_slot)
  then have "x = 0 \<or> x < sb_size (sb s)" using wf_treeD(2) [OF assms(2) slot_valid] by metis
  moreover have "sb_size (sb s) < 2 ^ 32" using assms(1) by (simp add: wf_fs_def wf_layout_def)
  ultimately show "x < 2 ^ 32" by auto
qed

lemma writei_cases:
  assumes wf: "wf_fs s" "wf_tree s (i_addrs (li_state li))" and st: "wf_state (li_state li)" and now: "now < 2 ^ 32"
    and w: "writei now li src off s = Some (n, li', s')"
  obtains a1 s1 where "evolves s (i_addrs (li_state li)) s1 a1" "n \<le> length src" "li_inum li' = li_inum li"
    "i_addrs (li_state li') = a1" "i_typ (li_state li') = i_typ (li_state li)" "wf_state (li_state li')"
    "i_size (li_state li') = (if n = 0 then i_size (li_state li) else max (i_size (li_state li)) (off + n))"
    "\<And>k. fbyte s1 a1 k = (if off \<le> k \<and> k < off + n then src ! (k - off) else fbyte s (i_addrs (li_state li)) k)"
    "if n = 0 then s' = s1 else write_dinode (li_inum li) (dinode_of_state (li_state li')) s1 = Some s'"
proof (cases "MAXFILE * BSIZE \<le> off")
  case True
  then have r: "n = 0" "li' = li" "s' = s" using w by (auto simp: writei_def)
  show ?thesis by (rule that [of s "i_addrs (li_state li)"]) (use r evolves_refl [OF wf] st in auto)
next
  case False
  let ?a = "i_addrs (li_state li)" and ?src = "take (MAXFILE * BSIZE - off) src"
  let ?li2 = "\<lambda>t a1. li\<lparr>li_state := (li_state li)\<lparr>i_addrs := a1, i_mtime := now, i_ctime := now,
      i_size := (if i_size (li_state li) < off + t then off + t else i_size (li_state li))\<rparr>\<rparr>"
  obtain t a1 s1 where loop': "writei_loop ?a ?src off s = Some (t, a1, s1)"
    using w False by (cases "writei_loop ?a ?src off s") (auto simp: writei_def)
  then have rest: "(if 0 < t then do { s2 \<leftarrow> iupdate (?li2 t a1) s1; Some (t, ?li2 t a1, s2) }
      else Some (t, li\<lparr>li_state := (li_state li)\<lparr>i_addrs := a1\<rparr>\<rparr>, s1)) = Some (n, li', s')"
    using w False by (auto simp: writei_def Let_def split: if_splits)
  then have "t = n" by (cases "0 < t"; cases "iupdate (?li2 t a1) s1") auto
  then have loop: "writei_loop ?a ?src off s = Some (n, a1, s1)" using loop' by simp
  have pos: "li' = ?li2 n a1 \<and> write_dinode (li_inum li) (dinode_of_state (li_state li')) s1 = Some s'" if "n \<noteq> 0"
    using rest that \<open>t = n\<close> by (cases "iupdate (?li2 t a1) s1") (auto simp: iupdate_def)
  have zero: "li' = li\<lparr>li_state := (li_state li)\<lparr>i_addrs := a1\<rparr>\<rparr> \<and> s' = s1" if "n = 0"
    using rest that \<open>t = n\<close> by auto
  have fits: "off + length ?src \<le> MAXFILE * BSIZE" using False by simp
  note L = writei_loop_spec [OF wf fits loop]
  have n: "n \<le> length src" "off + n \<le> MAXFILE * BSIZE" using L fits by auto
  have "MAXFILE * BSIZE < 2 ^ 32" by (simp add: layout_simps)
  then have sz: "off + n < 2 ^ 32" using n by linarith
  have a1: "length a1 = NDIRECT + 2" "\<forall>x \<in> set a1. x < 2 ^ 32"
    using L evolves_wf wf_tree_len tree_addrs_small by blast+
  have isz: "i_size (li_state li) < 2 ^ 32" using st by (simp add: wf_state_def wf_dinode_def dinode_of_state_def dinode_words_def)
  have fb: "fbyte s1 a1 k = (if off \<le> k \<and> k < off + n then src ! (k - off) else fbyte s ?a k)" for k
    using L by auto
  show ?thesis
  proof (cases "n = 0")
    case True
    have "wf_state ((li_state li)\<lparr>i_addrs := a1\<rparr>)"
      using st a1 by (simp add: wf_state_def wf_dinode_def dinode_of_state_def dinode_words_def dinode_halves_def)
    then show ?thesis using True zero [OF True] L fb n that [of s1 a1] by simp
  next
    case False
    let ?sz = "if i_size (li_state li) < off + n then off + n else i_size (li_state li)"
    have "wf_state (li_state li')"
      using wf_state_update [OF st a1 now, of ?sz] sz isz pos [OF False] by simp
    moreover have "i_size (li_state li') = max (i_size (li_state li)) (off + n)"
      using pos [OF False] by auto
    moreover have "li_inum li' = li_inum li" "i_addrs (li_state li') = a1" "i_typ (li_state li') = i_typ (li_state li)"
      using pos [OF False] by auto
    ultimately show ?thesis
      using False pos [OF False] L fb n(1) by (intro that [of s1 a1]) auto
  qed
qed

end
