(* ===== verification/Ifile.thy ===== *)
theory Ifile
  imports Iwrite
begin

text \<open>
  Files on a whole volume: reading, writing and creating inodes (\<open>readi\<close>, \<open>writei\<close>, \<open>ialloc\<close> of
  \<open>fs/inode.rs\<close>) against the volume invariant \<open>fs_inv\<close>, under which every file has its own
  blocks. The log reservation of a one-block write is here as well.
\<close>

section \<open>The volume invariant\<close>

lemma fs_invI:
  assumes "wf_fs s" and "\<And>i. inode_live s i \<Longrightarrow> wf_tree s (di_tree s i)"
    and "\<And>i j b. inode_live s i \<Longrightarrow> inode_live s j \<Longrightarrow> i \<noteq> j \<Longrightarrow> tree_block s (di_tree s i) b
      \<Longrightarrow> \<not> tree_block s (di_tree s j) b"
  shows "fs_inv s"
  using assms unfolding fs_inv_def by blast

text \<open>An operation that evolves one tree without writing its inode back keeps the invariant:
  the inode on disk still has the old pointers.\<close>

lemma fs_inv_evolves:
  assumes inv: "fs_inv s" and i: "inode_live s i" and ev: "evolves s (di_tree s i) s' a'"
  shows "fs_inv s'"
proof -
  note O = evolves_others [OF inv i ev]
  have sb': "sb s' = sb s" by (rule evolves_wf(3) [OF ev])
  have live: "inode_live s' j = inode_live s j" for j using O(1) [of j] sb' by (auto simp: inode_live_def)
  have tr: "di_tree s' j = di_tree s j" if "inode_live s j" for j
    using that O(1) [of j] by (simp add: di_tree_def inode_live_def)
  have sub: "\<forall>k < NDIRECT + 2. di_tree s i ! k \<noteq> 0 \<longrightarrow> a' ! k = di_tree s i ! k"
    using ev by (simp add: evolves_def)
  note S = wf_tree_sub [OF evolves_wf(2) [OF ev] wf_tree_len [OF fs_invD(2) [OF inv i]] sub]
  have bl: "blk s' c = blk s c" if "inode_live s j" "j \<noteq> i" "tree_block s (di_tree s j) c" for j c
    using other_foreign [OF inv i that(1) _ that(3)] that(2) ev by (simp add: evolves_def)
  have same: "tree_block s' (di_tree s j) c = tree_block s (di_tree s j) c" if "inode_live s j" "j \<noteq> i" for j c
    by (rule tree_frame(3)) (rule bl [OF that])
  show ?thesis
  proof (rule fs_invI)
    show "wf_fs s'" by (rule evolves_wf(1) [OF ev])
    show "wf_tree s' (di_tree s' j)" if "inode_live s' j" for j
      using that live tr O(3) S(1) by (cases "j = i") auto
    fix j k b assume jk: "inode_live s' j" "inode_live s' k" "j \<noteq> k" "tree_block s' (di_tree s' j) b"
    show "\<not> tree_block s' (di_tree s' k) b"
    proof
      assume k: "tree_block s' (di_tree s' k) b"
      consider "j = i" | "k = i" | "j \<noteq> i" "k \<noteq> i" by blast
      then show False
      proof cases
        case 1
        then show False using jk k live tr O(4) [of k b] S(2) by auto
      next
        case 2
        then show False using jk k live tr O(4) [of j b] S(2) by auto
      next
        case 3
        then show False using jk k live tr same fs_invD(3) [OF inv, of j k b] by auto
      qed
    qed
  qed
qed

text \<open>Writing a dinode whose tree is well formed and disjoint from all others.\<close>

lemma fs_inv_write_dinode:
  assumes wf: "wf_fs s" and i: "0 < i" "i < sb_ninodes (sb s)" and d: "wf_dinode d"
    and w: "write_dinode i d s = Some s'"
    and new: "di_typ d \<noteq> 0 \<Longrightarrow> wf_tree s (di_addrs d)"
    and others: "\<And>j. inode_live s j \<Longrightarrow> j \<noteq> i \<Longrightarrow> wf_tree s (di_tree s j)"
    and dis: "\<And>j k b. inode_live s j \<Longrightarrow> inode_live s k \<Longrightarrow> j \<noteq> i \<Longrightarrow> k \<noteq> i \<Longrightarrow> j \<noteq> k
      \<Longrightarrow> tree_block s (di_tree s j) b \<Longrightarrow> \<not> tree_block s (di_tree s k) b"
    and new_dis: "\<And>j b. di_typ d \<noteq> 0 \<Longrightarrow> inode_live s j \<Longrightarrow> j \<noteq> i \<Longrightarrow> tree_block s (di_tree s j) b
      \<Longrightarrow> \<not> tree_block s (di_addrs d) b"
  shows "fs_inv s'"
proof -
  note M = write_dinode_meta [OF wf i(2) d w]
  note T = write_dinode_tree [OF wf i(2) d w]
  have live: "inode_live s' j \<longleftrightarrow> (if j = i then di_typ d \<noteq> 0 else inode_live s j)" for j
    using i by (auto simp: inode_live_def M(2,5))
  have tr: "di_tree s' j = (if j = i then di_addrs d else di_tree s j)" for j by (simp add: di_tree_def M(5))
  have tb: "tree_block s' (di_tree s' j) b = tree_block s (di_tree s' j) b" if "inode_live s' j" for j b
    using that live [of j] tr [of j] T(3) [OF new] T(3) [OF others [of j]] by (auto split: if_splits)
  show ?thesis
  proof (rule fs_invI)
    show "wf_fs s'" by (rule M(1))
    show "wf_tree s' (di_tree s' j)" if "inode_live s' j" for j
      using that live [of j] tr [of j] T(1) [OF new] T(1) [OF others [of j]] by (auto split: if_splits)
    fix j k b assume jk: "inode_live s' j" "inode_live s' k" "j \<noteq> k" "tree_block s' (di_tree s' j) b"
    then show "\<not> tree_block s' (di_tree s' k) b"
      using live [of j] live [of k] tr [of j] tr [of k] tb [of j b] tb [of k b] dis [of j k b] new_dis [of j b] new_dis [of k b]
      by (auto split: if_splits)
  qed
qed

lemma writei_fs_inv:
  assumes inv: "fs_inv s" and ok: "locked_ok s li" and now: "now < 2 ^ 32"
    and w: "writei now li src off s = Some (n, li', s')"
  shows "fs_inv s'"
    and "\<And>j. j < sb_ninodes (sb s) \<Longrightarrow> j \<noteq> li_inum li \<Longrightarrow> read_dinode j s' = read_dinode j s"
    and "\<And>j k. inode_live s j \<Longrightarrow> j \<noteq> li_inum li \<Longrightarrow> fbyte s' (di_tree s j) k = fbyte s (di_tree s j) k"
    and "0 < n \<Longrightarrow> state_of_dinode (read_dinode (li_inum li) s') = li_state li'"
    and "\<And>k. fbyte s' (i_addrs (li_state li')) k =
      (if off \<le> k \<and> k < off + n then src ! (k - off) else fbyte s (i_addrs (li_state li)) k)"
    and "sb s' = sb s"
proof -
  let ?i = "li_inum li" and ?a = "i_addrs (li_state li)"
  have live: "inode_live s ?i" and a: "?a = di_tree s ?i" and st: "wf_state (li_state li)" and ty: "i_typ (li_state li) \<noteq> 0"
    using ok by (auto simp: locked_ok_def)
  note wf = fs_invD(1) [OF inv] locked_ok_tree [OF inv ok]
  obtain a1 s1 where C: "evolves s ?a s1 a1" "i_addrs (li_state li') = a1" "i_typ (li_state li') = i_typ (li_state li)"
    "wf_state (li_state li')"
    "\<And>k. fbyte s1 a1 k = (if off \<le> k \<and> k < off + n then src ! (k - off) else fbyte s ?a k)"
    "if n = 0 then s' = s1 else write_dinode ?i (dinode_of_state (li_state li')) s1 = Some s'"
    using writei_cases [OF wf st now w] by metis
  have ev: "evolves s (di_tree s ?i) s1 a1" using C(1) a by simp
  note O = evolves_others [OF inv live ev]
  have sb1: "sb s1 = sb s" by (rule evolves_wf(3) [OF ev])
  have wf1: "wf_fs s1" "wf_tree s1 a1" using evolves_wf [OF ev] by auto
  have inum: "?i < sb_ninodes (sb s1)" "0 < ?i" using live sb1 by (auto simp: inode_live_def)
  have inv1: "fs_inv s1" by (rule fs_inv_evolves [OF inv live ev])
  have live1: "inode_live s1 j = inode_live s j" for j using O(1) [of j] sb1 by (auto simp: inode_live_def)
  have tr1: "di_tree s1 j = di_tree s j" if "inode_live s j" for j
    using that O(1) [of j] by (simp add: di_tree_def inode_live_def)
  have fs: "fs_inv s' \<and> (\<forall>j. j < sb_ninodes (sb s) \<longrightarrow> j \<noteq> ?i \<longrightarrow> read_dinode j s' = read_dinode j s) \<and>
      (\<forall>j k. inode_live s j \<longrightarrow> j \<noteq> ?i \<longrightarrow> fbyte s' (di_tree s j) k = fbyte s (di_tree s j) k) \<and>
      (0 < n \<longrightarrow> state_of_dinode (read_dinode ?i s') = li_state li') \<and>
      (\<forall>k. fbyte s' a1 k = fbyte s1 a1 k) \<and> sb s' = sb s"
  proof (cases "n = 0")
    case True
    then show ?thesis using C(6) inv1 O sb1 by auto
  next
    case False
    then have wd: "write_dinode ?i (dinode_of_state (li_state li')) s1 = Some s'" using C(6) by simp
    have d: "wf_dinode (dinode_of_state (li_state li'))" "di_addrs (dinode_of_state (li_state li')) = a1"
      using C(2,4) by (auto simp: wf_state_def dinode_of_state_def)
    note M = write_dinode_meta [OF wf1(1) inum(1) d(1) wd]
    note T = write_dinode_tree [OF wf1(1) inum(1) d(1) wd]
    have "fs_inv s'"
      by (rule fs_inv_write_dinode [OF wf1(1) inum(2,1) d(1) wd])
        (use d wf1 live1 tr1 O fs_invD(3) [OF inv1] in auto)
    then show ?thesis
      using M T(2) [OF O(3)] T(2) [OF wf1(2)] O(1,2) sb1 dinode_of_state_inverse by auto
  qed
  then show "fs_inv s'" "\<And>j. j < sb_ninodes (sb s) \<Longrightarrow> j \<noteq> ?i \<Longrightarrow> read_dinode j s' = read_dinode j s"
    "\<And>j k. inode_live s j \<Longrightarrow> j \<noteq> ?i \<Longrightarrow> fbyte s' (di_tree s j) k = fbyte s (di_tree s j) k"
    "0 < n \<Longrightarrow> state_of_dinode (read_dinode ?i s') = li_state li'" "sb s' = sb s"
    "\<And>k. fbyte s' (i_addrs (li_state li')) k = (if off \<le> k \<and> k < off + n then src ! (k - off) else fbyte s ?a k)"
    using C(2,5) by auto
qed

section \<open>Reading\<close>

lemma readi_bytes:
  assumes "wf_fs s" and "len < 2 ^ 32"
  shows "fst (readi now li len off s) =
    map (fbyte s (i_addrs (li_state li))) [off..<min (off + len) (i_size (li_state li))]"
  using assms readi_loop_bytes [OF assms(1)] by (auto simp: readi_def Let_def min_def)

section \<open>Creating an inode\<close>

lemma pv_zero:
  assumes "\<forall>k < NDIRECT + 2. a ! k = 0" and "valid_ptr q"
  shows "pv s a q = 0"
proof -
  have "NDIRECT < NDIRECT + 2" "NDOUBLE_SLOT < NDIRECT + 2" by (simp_all add: NDOUBLE_SLOT_def)
  then have "a ! NDIRECT = 0" "a ! NDOUBLE_SLOT = 0" using assms(1) by blast+
  then show ?thesis using assms by (cases q) (auto simp: entry0_def)
qed

lemma pv_empty: "valid_ptr q \<Longrightarrow> pv s (replicate (NDIRECT + 2) 0) q = 0"
  by (rule pv_zero) (auto simp only: nth_replicate)

lemma wf_tree_empty: "wf_tree s (replicate (NDIRECT + 2) 0)"
  using pv_empty [of _ s] unfolding wf_tree_def by (simp del: replicate_Suc replicate_0 add_2_eq_Suc')

lemma tree_block_empty: "\<not> tree_block s (replicate (NDIRECT + 2) 0) b"
  using pv_empty [of _ s] unfolding tree_block_def by metis

lemma fbyte_empty: "fbyte s (replicate (NDIRECT + 2) 0) k = 0"
  using pv_empty [OF data_ptr_valid, of "k div BSIZE" s] unfolding fbyte_def Let_def by metis

lemma wf_new_dinode:
  assumes "typ0 < 2 ^ 16" "mode < 2 ^ 16" "now < 2 ^ 32"
  shows "wf_dinode (dinode_default\<lparr>di_typ := typ0, di_nlink := 1, di_mode := mode, di_reserved_time := [now, now, now]\<rparr>)"
  using assms by (auto simp: wf_dinode_def dinode_default_def dinode_halves_def dinode_words_def)

lemma ialloc_Some:
  assumes inv: "fs_inv s" and args: "typ0 < 2 ^ 16" "mode < 2 ^ 16" "now < 2 ^ 32"
    and r: "ialloc now typ0 mode s = Some (Some i, s')"
  shows "fs_inv s'" "0 < i" "i < sb_ninodes (sb s)" "\<not> inode_live s i" "\<And>j. 0 < j \<Longrightarrow> j < i \<Longrightarrow> inode_live s j"
    "sb s' = sb s"
    "\<And>j. read_dinode j s' = (if j = i then dinode_default\<lparr>di_typ := typ0, di_nlink := 1, di_mode := mode,
        di_reserved_time := [now, now, now]\<rparr> else read_dinode j s)"
    "\<And>j k. inode_live s j \<Longrightarrow> fbyte s' (di_tree s j) k = fbyte s (di_tree s j) k"
proof -
  let ?d = "dinode_default\<lparr>di_typ := typ0, di_nlink := 1, di_mode := mode, di_reserved_time := [now, now, now]\<rparr>"
  let ?P = "\<lambda>inum. di_typ (read_dinode inum s) = 0"
  have f: "find ?P [1..<sb_ninodes (sb s)] = Some i" and w: "write_dinode i ?d s = Some s'"
    using r by (auto simp: ialloc_def split: option.splits bind_splits)
  obtain m where m: "m < length [1..<sb_ninodes (sb s)]" "?P ([1..<sb_ninodes (sb s)] ! m)"
    "i = [1..<sb_ninodes (sb s)] ! m" "\<forall>j < m. \<not> ?P ([1..<sb_ninodes (sb s)] ! j)"
    using f unfolding find_Some_iff by blast
  then have i: "i = Suc m" "i < sb_ninodes (sb s)" "di_typ (read_dinode i s) = 0" by auto
  have before: "di_typ (read_dinode j s) \<noteq> 0" if "0 < j" "j < i" for j
    using m(4) [rule_format, of "j - 1"] that i by simp
  show "0 < i" "i < sb_ninodes (sb s)" "\<not> inode_live s i" "\<And>j. 0 < j \<Longrightarrow> j < i \<Longrightarrow> inode_live s j"
    using i before by (auto simp: inode_live_def)
  note wf = fs_invD(1) [OF inv] and d = wf_new_dinode [OF args]
  note M = write_dinode_meta [OF wf i(2) d w]
  show "sb s' = sb s" by (rule M(2))
  show "read_dinode j s' = (if j = i then ?d else read_dinode j s)" for j by (rule M(5))
  show "fbyte s' (di_tree s j) k = fbyte s (di_tree s j) k" if "inode_live s j" for j k
    by (rule write_dinode_tree(2) [OF wf i(2) d w fs_invD(2) [OF inv that]])
  have ad: "di_addrs ?d = replicate (NDIRECT + 2) 0" by (simp add: dinode_default_def)
  have tree: "wf_tree s (di_addrs ?d)" "\<not> tree_block s (di_addrs ?d) b" for b
    unfolding ad by (rule wf_tree_empty, rule tree_block_empty)
  show "fs_inv s'"
    by (rule fs_inv_write_dinode [OF wf _ i(2) d w])
      (use i tree fs_invD(2,3) [OF inv] in auto)
qed

section \<open>Log space for a one-block write\<close>

lemma addr_or_alloc_room:
  "log_room (k + 2) s \<Longrightarrow> \<exists>r a' s'. addr_or_alloc a i s = Some (r, a', s') \<and> log_room k s'"
  using balloc_room [of k s] log_room_mono [of "k + 2" s k] by (auto simp: addr_or_alloc_def)

lemma entry_or_alloc_room:
  assumes "log_room (k + 3) s"
  shows "\<exists>r s'. entry_or_alloc b i s = Some (r, s') \<and> log_room k s'"
proof (cases "entry s b i = 0")
  case True
  obtain r s1 where b: "balloc s = Some (r, s1)" "log_room (Suc k) s1"
    using balloc_room [of "Suc k" s] assms by (auto simp: numeral_eq_Suc)
  show ?thesis
  proof (cases r)
    case None
    then show ?thesis using True b log_room_mono [OF b(2), of k] by (simp add: entry_or_alloc_def)
  next
    case (Some nb)
    obtain s2 where "blk_write b (splice (i * 4) (le_bytes 4 nb) (blk s1 b)) s1 = Some s2" "log_room k s2"
      using blk_write_room [OF b(2)] by blast
    then show ?thesis using True b Some by (simp add: entry_or_alloc_def)
  qed
qed (use log_room_mono [OF assms, of k] in \<open>auto simp: entry_or_alloc_def\<close>)

lemma bmap_or_alloc_room:
  assumes room: "log_room (k + 8) s" and bn: "bn < MAXFILE"
  shows "\<exists>r a' s'. bmap_or_alloc a bn s = Some (r, a', s') \<and> log_room k s'"
proof -
  have "log_room (k + 6 + 2) s" using room by (simp add: log_room_def)
  from addr_or_alloc_room [OF this] obtain r a1 s1 where t: "addr_or_alloc a (if bn < NDIRECT then bn else if bn < NDIRECT + NINDIRECT then NDIRECT else NDOUBLE_SLOT) s
      = Some (r, a1, s1)" "log_room (k + 6) s1" by blast
  have mono: "log_room k s1" using log_room_mono [OF t(2)] by simp
  show ?thesis
  proof (cases "bn < NDIRECT \<or> r = None")
    case True
    then show ?thesis using t mono bn by (auto simp: bmap_or_alloc_def)
  next
    case False
    then obtain p where p: "r = Some p" by auto
    have "log_room (k + 3 + 3) s1" using t(2) by (simp add: log_room_def)
    from entry_or_alloc_room [OF this] obtain r2 s2
      where e: "entry_or_alloc p (if bn < NDIRECT + NINDIRECT then bn - NDIRECT else (bn - NDIRECT - NINDIRECT) div NINDIRECT) s1
        = Some (r2, s2)" "log_room (k + 3) s2" by blast
    have mono2: "log_room k s2" using log_room_mono [OF e(2)] by simp
    show ?thesis
    proof (cases "bn < NDIRECT + NINDIRECT \<or> r2 = None")
      case True
      then show ?thesis using t e p mono2 False bn by (auto simp: bmap_or_alloc_def)
    next
      case F2: False
      then obtain q where q: "r2 = Some q" by auto
      from entry_or_alloc_room [OF e(2)] obtain r3 s3
        where "entry_or_alloc q ((bn - NDIRECT - NINDIRECT) mod NINDIRECT) s2 = Some (r3, s3)" "log_room k s3" by blast
      then show ?thesis using t e p q False F2 bn by (auto simp: bmap_or_alloc_def)
    qed
  qed
qed

lemma writei_loop_one_block_room:
  assumes room: "log_room (k + 9) s" and one: "off mod BSIZE + length src \<le> BSIZE" and off: "off < MAXFILE * BSIZE"
  shows "\<exists>t a' s'. writei_loop a src off s = Some (t, a', s') \<and> log_room k s'"
proof (cases "src = []")
  case True
  then show ?thesis using log_room_mono [OF room, of k] by (simp add: writei_loop.simps)
next
  case False
  have bn: "off div BSIZE < MAXFILE" using off by (simp add: less_mult_imp_div_less)
  have "log_room (Suc k + 8) s" using room by (simp add: log_room_def)
  from bmap_or_alloc_room [OF this bn] obtain r a1 s1
    where m: "bmap_or_alloc a (off div BSIZE) s = Some (r, a1, s1)" "log_room (Suc k) s1" by blast
  have c: "min (BSIZE - off mod BSIZE) (length src) = length src" using one by simp
  show ?thesis
  proof (cases r)
    case None
    then show ?thesis using False m log_room_mono [OF m(2), of k] by (auto simp: writei_loop.simps [of a])
  next
    case (Some b)
    obtain s2 where w: "blk_write b (splice (off mod BSIZE) src (blk s1 b)) s1 = Some s2" "log_room k s2"
      using blk_write_room [OF m(2)] by blast
    show ?thesis using False Some m w c by (simp add: writei_loop.simps [of a] writei_loop.simps [of _ "[]"] Let_def)
  qed
qed

lemma writei_one_block_room:
  assumes room: "log_room 10 s" and one: "off mod BSIZE + length src \<le> BSIZE"
  shows "\<exists>n li' s'. writei now li src off s = Some (n, li', s')"
proof (cases "MAXFILE * BSIZE \<le> off")
  case False
  let ?src = "take (MAXFILE * BSIZE - off) src"
  have "log_room (1 + 9) s" using room by simp
  then obtain t a1 s1 where l: "writei_loop (i_addrs (li_state li)) ?src off s = Some (t, a1, s1)" "log_room 1 s1"
    using writei_loop_one_block_room [of 1 s off ?src] one False by fastforce
  have "\<exists>n li' s'. do { s2 \<leftarrow> iupdate li2 s1; Some (t, li2, s2) } = Some (n, li', s')" for li2
  proof -
    have "log_room (Suc 0) s1" using l(2) by simp
    then obtain s2 where "iupdate li2 s1 = Some s2"
      unfolding iupdate_def write_dinode_def using blk_write_room by blast
    then show ?thesis by simp
  qed
  then show ?thesis using False l(1) by (auto simp: writei_def Let_def)
qed (simp add: writei_def)

section \<open>Properties\<close>

text \<open>C30. \<open>readi\<close> returns the file. A read of \<open>len\<close> bytes at \<open>off\<close> gives the bytes of the file
  from \<open>off\<close> up to \<open>off + len\<close> or the end of the file, holes reading as zeros, whatever mixture
  of direct, indirect and double-indirect blocks holds them; at or past the end it gives
  nothing.\<close>

theorem readi_returns_file_bytes:
  assumes "wf_fs s" and "len < 2 ^ 32"
  shows "fst (readi now li len off s) =
    map (fbyte s (i_addrs (li_state li))) [off..<min (off + len) (i_size (li_state li))]"
  by (rule readi_bytes [OF assms])

text \<open>C3. \<open>writei\<close> writes what it says. On a consistent volume, a write that returns \<open>n\<close> has put
  the first \<open>n\<close> bytes of its argument at \<open>off\<close> and changed no other byte of the file, has
  extended the size to cover them and never shrunk it, and (when \<open>n > 0\<close>) has left the
  updated inode on disk.\<close>

theorem writei_updates_exactly:
  assumes "fs_inv s" and "locked_ok s li" and "now < 2 ^ 32"
    and "writei now li src off s = Some (n, li', s')"
  shows "n \<le> length src \<and>
    (\<forall>k. fbyte s' (i_addrs (li_state li')) k =
       (if off \<le> k \<and> k < off + n then src ! (k - off) else fbyte s (i_addrs (li_state li)) k)) \<and>
    i_size (li_state li') = (if n = 0 then i_size (li_state li) else max (i_size (li_state li)) (off + n)) \<and>
    (n > 0 \<longrightarrow> state_of_dinode (read_dinode (li_inum li) s') = li_state li')"
proof -
  have st: "wf_state (li_state li)" using assms(2) by (simp add: locked_ok_def)
  obtain a1 s1 where "n \<le> length src"
    "i_size (li_state li') = (if n = 0 then i_size (li_state li) else max (i_size (li_state li)) (off + n))"
    by (rule writei_cases [OF fs_invD(1) [OF assms(1)] locked_ok_tree [OF assms(1,2)] st assms(3,4)]) blast
  then show ?thesis using writei_fs_inv(4,5) [OF assms] by auto
qed

text \<open>C2. Files do not share blocks and writes stay inside their file. \<open>writei\<close> keeps the volume
  invariant (every file's block tree is well formed and disjoint from every other), leaves
  every other inode on disk as it was and every other file's contents as they were, also
  when it stops early because the disk is full.\<close>

theorem writei_isolated:
  assumes "fs_inv s" and "locked_ok s li" and "now < 2 ^ 32"
    and "writei now li src off s = Some (n, li', s')"
  shows "fs_inv s' \<and>
    (\<forall>j < sb_ninodes (sb s). j \<noteq> li_inum li \<longrightarrow> read_dinode j s' = read_dinode j s) \<and>
    (\<forall>j. inode_live s j \<and> j \<noteq> li_inum li \<longrightarrow>
       (\<forall>k. fbyte s' (di_tree s' j) k = fbyte s (di_tree s j) k))"
  using writei_fs_inv(1,2,3) [OF assms] by (auto simp: di_tree_def inode_live_def)

text \<open>What was written is read back. After a complete write, a read of the same range from
  the inode returns the bytes written.\<close>

lemma write_read_roundtrip:
  assumes "fs_inv s" and "locked_ok s li" and "now < 2 ^ 32" and "length src < 2 ^ 32"
    and "writei now li src off s = Some (length src, li', s')"
  shows "fst (readi now' li' (length src) off s') = src"
proof -
  have st: "wf_state (li_state li)" using assms(2) by (simp add: locked_ok_def)
  obtain a1 s1 where sz: "i_size (li_state li') =
      (if length src = 0 then i_size (li_state li) else max (i_size (li_state li)) (off + length src))"
    by (rule writei_cases [OF fs_invD(1) [OF assms(1)] locked_ok_tree [OF assms(1,2)] st assms(3,5)]) blast
  note W = writei_fs_inv(1,5) [OF assms(1,2,3,5)]
  show ?thesis
  proof (cases "src = []")
    case True
    then show ?thesis using readi_loop_bytes [OF fs_invD(1) [OF W(1)]] by (simp add: readi_def Let_def)
  next
    case False
    have "readi_loop (i_addrs (li_state li')) off (length src) s' = map (\<lambda>k. src ! (k - off)) [off..<off + length src]"
      using readi_loop_bytes [OF fs_invD(1) [OF W(1)]] W(2) by simp
    also have "\<dots> = src" by (rule nth_equalityI) auto
    finally show ?thesis using False sz assms(4) by (auto simp: readi_def Let_def max_def min_def)
  qed
qed

text \<open>A new inode is fresh. \<open>ialloc\<close> takes the first inode not in use, which becomes an empty
  file of the requested type with one link; no other inode or file changes and the volume
  stays consistent.\<close>

lemma ialloc_fresh:
  assumes "fs_inv s" and "typ0 < 2 ^ 16" and "mode < 2 ^ 16" and "now < 2 ^ 32" and "typ0 \<noteq> 0"
    and "ialloc now typ0 mode s = Some (Some i, s')"
  shows "fs_inv s' \<and> \<not> inode_live s i \<and> inode_live s' i \<and> (\<forall>j. 0 < j \<and> j < i \<longrightarrow> inode_live s j) \<and>
    di_size (read_dinode i s') = 0 \<and> di_nlink (read_dinode i s') = 1 \<and> di_typ (read_dinode i s') = typ0 \<and>
    (\<forall>k. fbyte s' (di_tree s' i) k = 0) \<and>
    (\<forall>j. j \<noteq> i \<longrightarrow> read_dinode j s' = read_dinode j s) \<and>
    (\<forall>j k. inode_live s j \<longrightarrow> fbyte s' (di_tree s j) k = fbyte s (di_tree s j) k)"
proof -
  note R = ialloc_Some [OF assms(1-4,6)]
  have t: "di_tree s' i = replicate (NDIRECT + 2) 0" by (simp add: di_tree_def R(7) dinode_default_def)
  have "\<forall>k. fbyte s' (di_tree s' i) k = 0" unfolding t by (simp only: fbyte_empty simp_thms)
  then show ?thesis using R assms(5) by (auto simp: inode_live_def dinode_default_def)
qed

text \<open>A one-block write fits its reservation. With room for \<open>MAXOPBLOCKS\<close> blocks in the log,
  a write within one block returns without hitting any assertion, even when it has to
  allocate the data block and both levels of indirect blocks.\<close>

lemma writei_fits_reservation:
  assumes "log_room MAXOPBLOCKS s" and "off mod BSIZE + length src \<le> BSIZE"
  shows "\<exists>n li' s'. writei now li src off s = Some (n, li', s')"
  using writei_one_block_room assms by (simp add: MAXOPBLOCKS_def)

section \<open>Witnesses\<close>

lemma tiny_dinode: "i < 16 \<Longrightarrow> read_dinode i tiny_fs = dinode_of_bytes (drop (inode_off i) (replicate BSIZE 0))"
  by (simp add: read_dinode_def iblock_def tiny_fs_def tiny_sb_def zero_disk_def layout_simps)

lemma tiny_no_inode: "\<not> inode_live tiny_fs i"
proof -
  have "di_typ (read_dinode i tiny_fs) = 0" if "i < 16"
    using that inode_off_le [of i]
    by (simp add: tiny_dinode dinode_of_bytes_def le_at_def slice_def layout_simps) (simp add: le_at_def [symmetric] numeral_2_eq_2)
  then show ?thesis by (auto simp: inode_live_def tiny_fs_def tiny_sb_def)
qed

lemma tiny_inv: "fs_inv tiny_fs"
  by (rule fs_invI) (use tiny_wf tiny_no_inode in auto)

lemma tiny_typ0: "0 < i \<Longrightarrow> i < 16 \<Longrightarrow> di_typ (read_dinode i tiny_fs) = 0"
  using tiny_no_inode [of i] by (auto simp: inode_live_def tiny_fs_def tiny_sb_def)

definition new_file :: dinode where
  "new_file = dinode_default\<lparr>di_typ := T_FILE, di_nlink := 1, di_mode := 420, di_reserved_time := [5, 5, 5]\<rparr>"

definition new_li :: locked_inode where
  "new_li = \<lparr>li_inum = 1, li_state = state_of_dinode new_file\<rparr>"

lemma tiny_create:
  obtains s1 where "ialloc 5 T_FILE 420 tiny_fs = Some (Some 1, s1)" "fs_inv s1" "log_room 19 s1"
    "locked_ok s1 new_li" "\<not> allocated s1 40" "sb_size (sb s1) = 100"
proof -
  have nin: "sb_ninodes (sb tiny_fs) = 16" by (simp add: tiny_fs_def tiny_sb_def)
  have "find (\<lambda>i. di_typ (read_dinode i tiny_fs) = 0) [1..<16] = Some 1"
    by (simp add: upt_conv_Cons tiny_typ0)
  moreover have "log_room (Suc 19) tiny_fs" using tiny_room by simp
  then obtain s1 where w: "write_dinode 1 new_file tiny_fs = Some s1" "log_room 19 s1"
    unfolding write_dinode_def using blk_write_room by blast
  ultimately have r: "ialloc 5 T_FILE 420 tiny_fs = Some (Some 1, s1)"
    by (simp add: ialloc_def nin new_file_def)
  have args: "T_FILE < 2 ^ 16" "(420 :: nat) < 2 ^ 16" "(5 :: nat) < 2 ^ 32" "T_FILE \<noteq> 0" by (simp_all add: T_FILE_def)
  note R = ialloc_Some [OF tiny_inv args(1-3) r]
  have d1: "read_dinode (Suc 0) s1 = new_file" using R(7) [of 1] by (simp add: new_file_def)
  have wfd: "wf_dinode new_file" unfolding new_file_def by (rule wf_new_dinode) (simp_all add: T_FILE_def)
  have same: "dinode_of_state (state_of_dinode new_file) = new_file"
    by (simp add: dinode_of_state_def state_of_dinode_def new_file_def dinode_default_def)
  have "locked_ok s1 new_li"
    using R(2,3,6) args(4) wfd
    by (simp add: locked_ok_def new_li_def inode_live_def d1 di_tree_def wf_state_def same)
      (simp add: state_of_dinode_def new_file_def)
  moreover have "allocated s1 40 = allocated tiny_fs 40"
    by (rule write_dinode_meta(3) [OF tiny_wf _ wfd w(1)]) (simp_all add: nin)
  then have "\<not> allocated s1 40" by (simp add: tiny_bit)
  moreover have "sb_size (sb s1) = 100" using R(6) by simp
  ultimately show ?thesis using that [OF r R(1) w(2)] by blast
qed

lemma one_block_count:
  assumes "bmap_or_alloc a (off div BSIZE) s = Some (Some b, a1, s1)" and "off mod BSIZE + length src \<le> BSIZE"
    and "writei_loop a src off s = Some (t, a', s')"
  shows "t = length src"
proof (cases "src = []")
  case False
  have "min (BSIZE - off mod BSIZE) (length src) = length src" using assms(2) by simp
  then show ?thesis using assms(1,3) False
    by (auto simp: writei_loop.simps [of a] writei_loop.simps [of _ "[]"] Let_def split: bind_splits)
qed (use assms(3) in \<open>simp add: writei_loop.simps\<close>)

lemma tiny_write:
  obtains s1 li2 s2 where "ialloc 5 T_FILE 420 tiny_fs = Some (Some 1, s1)" "fs_inv s1" "locked_ok s1 new_li"
    "writei 6 new_li [1, 2, 3] 0 s1 = Some (3, li2, s2)"
proof -
  obtain s1 where c: "ialloc 5 T_FILE 420 tiny_fs = Some (Some 1, s1)" "fs_inv s1" "log_room 19 s1"
    "locked_ok s1 new_li" "\<not> allocated s1 40" "sb_size (sb s1) = 100" by (rule tiny_create)
  have "log_room 10 s1" by (rule log_room_mono [OF c(3)]) simp
  moreover have "0 mod BSIZE + length [1 :: byte, 2, 3] \<le> BSIZE" by (simp add: BSIZE_def)
  ultimately obtain n li2 s2 where w: "writei 6 new_li [1, 2, 3] 0 s1 = Some (n, li2, s2)"
    using writei_one_block_room by blast
  have a0: "i_addrs (li_state new_li) ! 0 = 0"
    by (simp add: new_li_def state_of_dinode_def new_file_def dinode_default_def)
  obtain r s3 where b: "balloc s1 = Some (r, s3)"
    using balloc_room [of 17 s1] c(3) by auto
  have "r \<noteq> None" using balloc_None(2) [OF fs_invD(1) [OF c(2)], of s3] b c(5,6) by (cases r) auto
  then obtain nb where nb: "bmap_or_alloc (i_addrs (li_state new_li)) (0 div BSIZE) s1 =
      Some (Some nb, (i_addrs (li_state new_li))[0 := nb], s3)"
    using b a0 by (auto simp: bmap_or_alloc_def addr_or_alloc_def NDIRECT_def)
  have tk: "take (MAXFILE * BSIZE) [1 :: byte, 2, 3] = [1, 2, 3]" by (simp add: layout_simps)
  obtain t a1 s4 where l: "writei_loop (i_addrs (li_state new_li)) [1, 2, 3] 0 s1 = Some (t, a1, s4)"
    using w tk by (cases "writei_loop (i_addrs (li_state new_li)) [1, 2, 3] 0 s1")
      (auto simp: writei_def Let_def layout_simps)
  have "t = 3" using one_block_count [OF nb _ l] by (simp add: BSIZE_def)
  then have "n = 3" using w l tk by (auto simp: writei_def Let_def layout_simps split: bind_splits if_splits)
  then show ?thesis using that [OF c(1,2,4)] w by simp
qed

theorem readi_returns_file_bytes_witness:
  "fst (readi 9 \<lparr>li_inum = 1, li_state = inode_state_empty\<lparr>i_size := 4\<rparr>\<rparr> 10 1 tiny_fs) = [0, 0, 0]"
proof -
  have "fst (readi 9 \<lparr>li_inum = 1, li_state = inode_state_empty\<lparr>i_size := 4\<rparr>\<rparr> 10 1 tiny_fs) =
      map (fbyte tiny_fs (replicate (NDIRECT + 2) 0)) [1..<4]"
    using readi_returns_file_bytes [OF tiny_wf, of 10 9 "\<lparr>li_inum = 1, li_state = inode_state_empty\<lparr>i_size := 4\<rparr>\<rparr>" 1]
    by (simp add: inode_state_empty_def)
  also have "\<dots> = map (\<lambda>k. 0) [1..<4]" by (rule map_cong [OF refl]) (rule fbyte_empty)
  finally show ?thesis by (simp add: upt_conv_Cons)
qed

theorem writei_updates_exactly_witness:
  "\<exists>s1 li2 s2. ialloc 5 T_FILE 420 tiny_fs = Some (Some 1, s1) \<and> writei 6 new_li [1, 2, 3] 0 s1 = Some (3, li2, s2)
     \<and> fbyte s2 (i_addrs (li_state li2)) 2 = 3 \<and> i_size (li_state li2) = 3"
proof -
  obtain s1 li2 s2 where t: "ialloc 5 T_FILE 420 tiny_fs = Some (Some 1, s1)" "fs_inv s1" "locked_ok s1 new_li"
    "writei 6 new_li [1, 2, 3] 0 s1 = Some (3, li2, s2)" by (rule tiny_write)
  have "i_size (li_state new_li) = 0" by (simp add: new_li_def state_of_dinode_def new_file_def dinode_default_def)
  then show ?thesis using writei_updates_exactly [OF t(2,3) _ t(4)] t by auto
qed

theorem writei_isolated_witness:
  "\<exists>s1 li2 s2. writei 6 new_li [1, 2, 3] 0 s1 = Some (3, li2, s2) \<and> fs_inv s2"
proof -
  obtain s1 li2 s2 where t: "fs_inv s1" "locked_ok s1 new_li" "writei 6 new_li [1, 2, 3] 0 s1 = Some (3, li2, s2)"
    by (rule tiny_write)
  then show ?thesis using writei_isolated [OF t(1,2) _ t(3)] by auto
qed

end
