(* ===== verification/Dir.thy ===== *)
theory Dir
  imports Ifile
begin

text \<open>
  Directories: \<open>crates/kernel/src/fs/dir.rs\<close>. A directory is a file of 16-byte entries; a
  name is its bytes, cut to \<open>DIRSIZ\<close>. Each scan of the source is a loop over entry offsets
  that stops at a short read; \<open>dir_find\<close> is the scan that stops at the first entry with a
  given property, and \<open>dirlink_scan\<close> the one of \<open>dirlink\<close>. An inode is its number:
  \<open>iget_wait\<close> only looks up the cache slot. Access times set by \<open>readi\<close> during a scan are
  the business of \<open>readi\<close> and are not repeated here. The lemmas relate the scans to the
  sequence of entries, and the properties say that a directory behaves as a finite map.
\<close>

section \<open>Names\<close>

type_synonym name = "byte list"

text \<open>The comparison loop of \<open>dirent_name_matches\<close> over the positions still to compare.\<close>

primrec match_loop :: "nat list \<Rightarrow> byte list \<Rightarrow> byte list \<Rightarrow> bool" where
  "match_loop [] field nb = True"
| "match_loop (i # is) field nb =
     (let want = (if i < length nb then nb ! i else 0) in
      if field ! i \<noteq> want then False
      else if want = 0 then True
      else match_loop is field nb)"

definition dirent_name_matches :: "dirent \<Rightarrow> name \<Rightarrow> bool" where
  "dirent_name_matches e nm = match_loop [0..<DIRSIZ] (de_name e) (take DIRSIZ nm)"

text \<open>The name field without its padding.\<close>

definition trim_name :: "byte list \<Rightarrow> name" where
  "trim_name field = takeWhile (\<lambda>b. b \<noteq> 0) field"

definition dot :: name where "dot = [46]"
definition dotdot :: name where "dotdot = [46, 46]"

section \<open>Scanning\<close>

definition read_entry :: "locked_inode \<Rightarrow> nat \<Rightarrow> fs \<Rightarrow> byte list" where
  "read_entry li off s = fst (readi 0 li DIRENT_SIZE off s)"

function dir_find :: "(dirent \<Rightarrow> bool) \<Rightarrow> nat \<Rightarrow> locked_inode \<Rightarrow> fs \<Rightarrow> (nat \<times> dirent) option" where
  "dir_find P off li s =
     (if off < i_size (li_state li) then
        (let bs = read_entry li off s in
         if length bs \<noteq> DIRENT_SIZE then None
         else if P (dirent_of_bytes bs) then Some (off, dirent_of_bytes bs)
         else dir_find P (off + DIRENT_SIZE) li s)
      else None)"
  by pat_completeness auto

termination
  by (relation "measure (\<lambda>(_, off, li, _). i_size (li_state li) - off)") (auto simp: DIRENT_SIZE_def)

declare dir_find.simps [simp del]

definition dirlookup_full :: "locked_inode \<Rightarrow> name \<Rightarrow> fs \<Rightarrow> (nat \<times> nat) option" where
  "dirlookup_full li nm s =
     map_option (\<lambda>(off, e). (de_inum e, off))
       (dir_find (\<lambda>e. de_inum e \<noteq> 0 \<and> dirent_name_matches e nm) 0 li s)"

text \<open>\<open>dirlookup\<close>; the outer \<open>None\<close> is its assertion.\<close>

definition dirlookup :: "locked_inode \<Rightarrow> name \<Rightarrow> fs \<Rightarrow> nat option option" where
  "dirlookup li nm s =
     (if i_typ (li_state li) \<noteq> T_DIR then None
      else Some (map_option (\<lambda>(off, e). de_inum e)
             (dir_find (\<lambda>e. de_inum e \<noteq> 0 \<and> dirent_name_matches e nm) 0 li s)))"

text \<open>\<open>dirlookup_by_inum\<close>: the raw bytes of the name (the source then makes a string of
  them).\<close>

definition dirlookup_by_inum :: "locked_inode \<Rightarrow> nat \<Rightarrow> fs \<Rightarrow> name option option" where
  "dirlookup_by_inum li child s =
     (if i_typ (li_state li) \<noteq> T_DIR then None
      else Some (map_option (\<lambda>(off, e). trim_name (de_name e))
             (dir_find (\<lambda>e. de_inum e = child \<and> de_inum e \<noteq> 0 \<and>
                trim_name (de_name e) \<noteq> dot \<and> trim_name (de_name e) \<noteq> dotdot) 0 li s)))"

definition dir_is_empty :: "locked_inode \<Rightarrow> fs \<Rightarrow> bool" where
  "dir_is_empty li s = (dir_find (\<lambda>e. de_inum e \<noteq> 0) (2 * DIRENT_SIZE) li s = None)"

section \<open>Changing a directory\<close>

text \<open>The scan of \<open>dirlink\<close>: \<open>None\<close> when the name exists, else the first free offset, if
  any.\<close>

function dirlink_scan :: "name \<Rightarrow> nat \<Rightarrow> nat option \<Rightarrow> locked_inode \<Rightarrow> fs \<Rightarrow> nat option option" where
  "dirlink_scan nm off free_off li s =
     (if off < i_size (li_state li) then
        (let bs = read_entry li off s; e = dirent_of_bytes bs in
         if length bs \<noteq> DIRENT_SIZE then Some free_off
         else if de_inum e = 0 then
           dirlink_scan nm (off + DIRENT_SIZE) (if free_off = None then Some off else free_off) li s
         else if dirent_name_matches e nm then None
         else dirlink_scan nm (off + DIRENT_SIZE) free_off li s)
      else Some free_off)"
  by pat_completeness auto

termination
  by (relation "measure (\<lambda>(_, off, _, li, _). i_size (li_state li) - off)") (auto simp: DIRENT_SIZE_def)

declare dirlink_scan.simps [simp del]

definition new_dirent :: "name \<Rightarrow> nat \<Rightarrow> dirent" where
  "new_dirent nm inum = \<lparr>de_inum = inum, de_name = splice 0 (take DIRSIZ nm) (replicate DIRSIZ 0)\<rparr>"

definition dirlink :: "nat \<Rightarrow> locked_inode \<Rightarrow> name \<Rightarrow> nat \<Rightarrow> fs \<Rightarrow> (bool \<times> locked_inode \<times> fs) option" where
  "dirlink now li nm inum s =
     (if i_typ (li_state li) \<noteq> T_DIR then None
      else
        (case dirlink_scan nm 0 None li s of
           None \<Rightarrow> Some (False, li, s)
         | Some free_off \<Rightarrow> do {
             let target_off = (case free_off of None \<Rightarrow> i_size (li_state li) | Some o' \<Rightarrow> o');
             (wrote, li1, s1) \<leftarrow> writei now li (dirent_bytes (new_dirent nm inum)) target_off s;
             Some (wrote = DIRENT_SIZE, li1, s1) }))"

definition dirunlink_at :: "nat \<Rightarrow> locked_inode \<Rightarrow> nat \<Rightarrow> fs \<Rightarrow> (bool \<times> locked_inode \<times> fs) option" where
  "dirunlink_at now li off s = do {
     (wrote, li1, s1) \<leftarrow> writei now li (dirent_bytes dirent_default) off s;
     Some (wrote = DIRENT_SIZE, li1, s1) }"

section \<open>Names compare by their first DIRSIZ bytes\<close>

definition proper_name :: "name \<Rightarrow> bool" where
  "proper_name nm \<longleftrightarrow> 0 \<notin> set nm"

lemma match_loop_spec:
  assumes "0 \<notin> set nb" and "length nb \<le> n" and "length field = n" and "k \<le> n" and "k \<le> length nb"
    and "take k field = take k nb"
  shows "match_loop [k..<n] field nb \<longleftrightarrow> takeWhile (\<lambda>b. b \<noteq> 0) field = nb"
  using assms(4-6)
proof (induction "n - k" arbitrary: k)
  case 0
  then have k: "k = n" by simp
  then have "field = nb" using assms(2,3) 0 by simp
  moreover have "takeWhile (\<lambda>b. b \<noteq> 0) nb = nb" using assms(1) by (auto simp: takeWhile_eq_all_conv)
  ultimately show ?case using k by simp
next
  case (Suc m)
  then have kn: "k < n" by simp
  have upt: "[k..<n] = k # [Suc k..<n]" using kn by (rule upt_conv_Cons)
  have dk: "drop k field = field ! k # drop (Suc k) field" using kn assms(3) by (simp add: Cons_nth_drop_Suc)
  show ?case
  proof (cases "k < length nb")
    case True
    have nbk: "nb ! k \<noteq> 0" using assms(1) True by (metis nth_mem)
    show ?thesis
    proof (cases "field ! k = nb ! k")
      case eq: True
      have "take (Suc k) field = take (Suc k) nb"
        using Suc.prems(3) eq True kn assms(3) by (simp add: take_Suc_conv_app_nth)
      then show ?thesis using Suc.hyps(1) [of "Suc k"] Suc.hyps(2) True kn eq nbk by (simp add: upt)
    next
      case False
      have "takeWhile (\<lambda>b. b \<noteq> 0) field \<noteq> nb"
      proof
        assume a: "takeWhile (\<lambda>b. b \<noteq> 0) field = nb"
        then have "nb ! k = field ! k" using True by (metis takeWhile_nth)
        then show False using False by simp
      qed
      then show ?thesis using False True by (simp add: upt)
    qed
  next
    case False
    then have len: "length nb = k" using Suc.prems(2) by simp
    have pre: "take k field = nb" using Suc.prems(3) len by simp
    have "takeWhile (\<lambda>b. b \<noteq> 0) field = nb @ takeWhile (\<lambda>b. b \<noteq> 0) (drop k field)"
    proof -
      have "field = nb @ drop k field" using pre by (metis append_take_drop_id)
      moreover have "takeWhile (\<lambda>b. b \<noteq> 0) (nb @ drop k field) = nb @ takeWhile (\<lambda>b. b \<noteq> 0) (drop k field)"
        by (rule takeWhile_append2) (use assms(1) in auto)
      ultimately show ?thesis by simp
    qed
    then have "takeWhile (\<lambda>b. b \<noteq> 0) field = nb \<longleftrightarrow> field ! k = 0" by (simp add: dk)
    then show ?thesis using False by (simp add: upt)
  qed
qed

lemma dirent_name_matches_iff:
  assumes "proper_name nm" and "length (de_name e) = DIRSIZ"
  shows "dirent_name_matches e nm \<longleftrightarrow> trim_name (de_name e) = take DIRSIZ nm"
  unfolding dirent_name_matches_def trim_name_def
  by (rule match_loop_spec) (use assms in \<open>auto simp: proper_name_def dest: in_set_takeD\<close>)

lemma new_dirent_wf: "inum < 2 ^ 16 \<Longrightarrow> wf_dirent (new_dirent nm inum)"
  by (simp add: wf_dirent_def new_dirent_def)

lemma new_dirent_inum [simp]: "de_inum (new_dirent nm inum) = inum"
  by (simp add: new_dirent_def)

lemma new_dirent_name:
  assumes "proper_name nm"
  shows "trim_name (de_name (new_dirent nm inum)) = take DIRSIZ nm"
proof -
  have nz: "\<forall>b \<in> set (take DIRSIZ nm). b \<noteq> 0" using assms by (auto simp: proper_name_def dest: in_set_takeD)
  have "takeWhile (\<lambda>b. b \<noteq> 0) (replicate n (0 :: byte)) = []" for n by (cases n) auto
  then show ?thesis using nz by (simp add: trim_name_def new_dirent_def splice_def takeWhile_append2)
qed

section \<open>A directory as a sequence of entries\<close>

definition ent :: "fs \<Rightarrow> nat list \<Rightarrow> nat \<Rightarrow> dirent" where
  "ent s a k = dirent_of_bytes (map (fbyte s a) [DIRENT_SIZE * k..<DIRENT_SIZE * k + DIRENT_SIZE])"

definition nents :: "locked_inode \<Rightarrow> nat" where
  "nents li = i_size (li_state li) div DIRENT_SIZE"

lemma DIRENT_SIZE_pos [simp]: "0 < DIRENT_SIZE"
  by (simp add: DIRENT_SIZE_def)

lemma ent_wf: "wf_dirent (ent s a k)"
  unfolding ent_def by (rule dirent_of_bytes_wf) simp

lemma ent_name_len: "length (de_name (ent s a k)) = DIRSIZ"
  using ent_wf [of s a k] by (simp add: wf_dirent_def)

lemma nents_iff: "k < nents li \<longleftrightarrow> DIRENT_SIZE * k + DIRENT_SIZE \<le> i_size (li_state li)"
proof -
  have "k < nents li \<longleftrightarrow> Suc k \<le> i_size (li_state li) div DIRENT_SIZE" by (simp add: nents_def Suc_le_eq)
  also have "\<dots> \<longleftrightarrow> Suc k * DIRENT_SIZE \<le> i_size (li_state li)" by (rule less_eq_div_iff_mult_less_eq) simp
  finally show ?thesis by (simp add: algebra_simps)
qed

lemma read_entry_nth:
  assumes "wf_fs s"
  shows "if k < nents li then length (read_entry li (DIRENT_SIZE * k) s) = DIRENT_SIZE \<and>
           dirent_of_bytes (read_entry li (DIRENT_SIZE * k) s) = ent s (i_addrs (li_state li)) k
         else length (read_entry li (DIRENT_SIZE * k) s) \<noteq> DIRENT_SIZE"
proof -
  have "DIRENT_SIZE < 2 ^ 32" by (simp add: DIRENT_SIZE_def)
  from readi_bytes [OF assms this, of 0 li "DIRENT_SIZE * k"]
  have r: "read_entry li (DIRENT_SIZE * k) s = map (fbyte s (i_addrs (li_state li)))
      [DIRENT_SIZE * k..<min (DIRENT_SIZE * k + DIRENT_SIZE) (i_size (li_state li))]"
    by (simp add: read_entry_def)
  show ?thesis
  proof (cases "k < nents li")
    case True
    then show ?thesis unfolding r ent_def by (simp add: nents_iff min_absorb1)
  next
    case False
    then have "i_size (li_state li) < DIRENT_SIZE * k + DIRENT_SIZE" by (simp add: nents_iff)
    then have "i_size (li_state li) - DIRENT_SIZE * k < DIRENT_SIZE" using DIRENT_SIZE_pos by linarith
    then show ?thesis unfolding r using False \<open>i_size (li_state li) < _\<close> by (simp add: min_absorb2)
  qed
qed

lemma dir_find_spec:
  assumes wf: "wf_fs s"
  shows "dir_find P (DIRENT_SIZE * j) li s =
    map_option (\<lambda>k. (DIRENT_SIZE * k, ent s (i_addrs (li_state li)) k))
      (find (\<lambda>k. P (ent s (i_addrs (li_state li)) k)) [j..<nents li])"
proof (induction "nents li - j" arbitrary: j)
  case 0
  then have "\<not> j < nents li" by simp
  moreover have "dir_find P (DIRENT_SIZE * j) li s = None"
    unfolding dir_find.simps [of P "DIRENT_SIZE * j"]
    using calculation read_entry_nth [OF wf, of j li] by (simp add: Let_def)
  ultimately show ?case by simp
next
  case (Suc m)
  then have j: "j < nents li" by simp
  then have lt: "DIRENT_SIZE * j < i_size (li_state li)" unfolding nents_iff using DIRENT_SIZE_pos by linarith
  have next_off: "DIRENT_SIZE * j + DIRENT_SIZE = DIRENT_SIZE * Suc j" by simp
  have "dir_find P (DIRENT_SIZE * j) li s =
      (if P (ent s (i_addrs (li_state li)) j) then Some (DIRENT_SIZE * j, ent s (i_addrs (li_state li)) j)
       else dir_find P (DIRENT_SIZE * Suc j) li s)"
    unfolding dir_find.simps [of P "DIRENT_SIZE * j"] using lt read_entry_nth [OF wf, of j li] j
    by (simp add: Let_def next_off)
  then show ?case using Suc.hyps(1) [of "Suc j"] Suc.hyps(2) j by (simp add: upt_conv_Cons [OF j])
qed

definition hit :: "fs \<Rightarrow> locked_inode \<Rightarrow> name \<Rightarrow> nat \<Rightarrow> bool" where
  "hit s li nm k \<longleftrightarrow> de_inum (ent s (i_addrs (li_state li)) k) \<noteq> 0 \<and>
     dirent_name_matches (ent s (i_addrs (li_state li)) k) nm"

lemma dirlookup_full_spec:
  assumes "wf_fs s"
  shows "dirlookup_full li nm s = map_option (\<lambda>k. (de_inum (ent s (i_addrs (li_state li)) k), DIRENT_SIZE * k))
    (find (hit s li nm) [0..<nents li])"
  using dir_find_spec [OF assms, of _ 0 li] by (simp add: dirlookup_full_def hit_def [abs_def] option.map_comp comp_def)

lemma dirlookup_spec:
  assumes "wf_fs s" and "i_typ (li_state li) = T_DIR"
  shows "dirlookup li nm s = Some (map_option (\<lambda>k. de_inum (ent s (i_addrs (li_state li)) k))
    (find (hit s li nm) [0..<nents li]))"
  using dir_find_spec [OF assms(1), of _ 0 li] assms(2)
  by (simp add: dirlookup_def hit_def [abs_def] option.map_comp comp_def)

lemma dirlink_scan_spec:
  assumes wf: "wf_fs s"
  shows "dirlink_scan nm (DIRENT_SIZE * j) fo li s =
    (if \<exists>k. j \<le> k \<and> k < nents li \<and> hit s li nm k then None
     else Some (case fo of Some o' \<Rightarrow> Some o' | None \<Rightarrow>
       map_option (\<lambda>k. DIRENT_SIZE * k) (find (\<lambda>k. de_inum (ent s (i_addrs (li_state li)) k) = 0) [j..<nents li])))"
proof (induction "nents li - j" arbitrary: j fo)
  case 0
  then have "\<not> j < nents li" by simp
  moreover have "dirlink_scan nm (DIRENT_SIZE * j) fo li s = Some fo"
    unfolding dirlink_scan.simps [of nm "DIRENT_SIZE * j"]
    using calculation read_entry_nth [OF wf, of j li] by (simp add: Let_def)
  ultimately show ?case by (auto split: option.splits)
next
  case (Suc m)
  let ?e = "ent s (i_addrs (li_state li))"
  have j: "j < nents li" using Suc.hyps(2) by simp
  then have lt: "DIRENT_SIZE * j < i_size (li_state li)" unfolding nents_iff using DIRENT_SIZE_pos by linarith
  have next_off: "DIRENT_SIZE * j + DIRENT_SIZE = DIRENT_SIZE * Suc j" by simp
  have "dirlink_scan nm (DIRENT_SIZE * j) fo li s =
      (if de_inum (?e j) = 0 then dirlink_scan nm (DIRENT_SIZE * Suc j) (if fo = None then Some (DIRENT_SIZE * j) else fo) li s
       else if dirent_name_matches (?e j) nm then None
       else dirlink_scan nm (DIRENT_SIZE * Suc j) fo li s)"
    unfolding dirlink_scan.simps [of nm "DIRENT_SIZE * j"] using lt read_entry_nth [OF wf, of j li] j
    by (simp add: Let_def next_off)
  moreover have "m = nents li - Suc j" using Suc.hyps(2) by simp
  note IH = Suc.hyps(1) [OF this]
  moreover have "(\<exists>k. j \<le> k \<and> k < nents li \<and> hit s li nm k) \<longleftrightarrow>
      hit s li nm j \<or> (\<exists>k. Suc j \<le> k \<and> k < nents li \<and> hit s li nm k)"
    using j by (metis Suc_leD Suc_leI le_eq_less_or_eq)
  ultimately show ?case
    unfolding upt_conv_Cons [OF j] by (auto simp: hit_def split: option.splits)
qed

section \<open>Writing an entry\<close>

lemma writei_loop_all_or_nothing:
  assumes "off mod BSIZE + length src \<le> BSIZE" and "writei_loop a src off s = Some (t, a', s')"
  shows "t = 0 \<or> t = length src"
proof (cases "src = []")
  case False
  then obtain r a1 s1 where m: "bmap_or_alloc a (off div BSIZE) s = Some (r, a1, s1)"
    using assms(2) by (auto simp: writei_loop.simps [of a src] split: bind_splits)
  show ?thesis
  proof (cases r)
    case None
    then show ?thesis using assms(2) False m by (auto simp: writei_loop.simps [of a src])
  next
    case (Some b)
    then show ?thesis using one_block_count [OF _ assms(1,2)] m by simp
  qed
qed (use assms(2) in \<open>simp add: writei_loop.simps\<close>)

lemma writei_count:
  assumes "writei now li src off s = Some (n, li', s')"
  shows "MAXFILE * BSIZE \<le> off \<and> n = 0 \<or> (\<exists>a1 s1. writei_loop (i_addrs (li_state li)) (take (MAXFILE * BSIZE - off) src) off s = Some (n, a1, s1))"
proof (cases "MAXFILE * BSIZE \<le> off")
  case False
  then show ?thesis
    using assms by (cases "writei_loop (i_addrs (li_state li)) (take (MAXFILE * BSIZE - off) src) off s")
      (auto simp: writei_def Let_def split: bind_splits if_splits)
qed (use assms in \<open>auto simp: writei_def\<close>)

lemma writei_locked_ok:
  assumes "fs_inv s" and "locked_ok s li" and "now < 2 ^ 32" and "0 < n"
    and "writei now li src off s = Some (n, li', s')"
  shows "locked_ok s' li'" and "li_inum li' = li_inum li" and "i_typ (li_state li') = i_typ (li_state li)"
    and "i_size (li_state li') = max (i_size (li_state li)) (off + n)"
proof -
  have st: "wf_state (li_state li)" and ty: "i_typ (li_state li) \<noteq> 0" and live: "inode_live s (li_inum li)"
    using assms(2) by (auto simp: locked_ok_def)
  obtain a1 s1 where C: "li_inum li' = li_inum li" "i_typ (li_state li') = i_typ (li_state li)" "wf_state (li_state li')"
    "i_size (li_state li') = (if n = 0 then i_size (li_state li) else max (i_size (li_state li)) (off + n))"
    by (rule writei_cases [OF fs_invD(1) [OF assms(1)] locked_ok_tree [OF assms(1,2)] st assms(3,5)]) blast
  show "li_inum li' = li_inum li" "i_typ (li_state li') = i_typ (li_state li)"
    "i_size (li_state li') = max (i_size (li_state li)) (off + n)" using C assms(4) by auto
  have d: "state_of_dinode (read_dinode (li_inum li) s') = li_state li'" and sb': "sb s' = sb s"
    using writei_fs_inv(4,6) [OF assms(1,2,3,5)] assms(4) by auto
  then have "di_typ (read_dinode (li_inum li) s') = i_typ (li_state li')" "di_tree s' (li_inum li) = i_addrs (li_state li')"
    by (auto simp: state_of_dinode_def di_tree_def dest: arg_cong [where f = i_typ] arg_cong [where f = i_addrs])
  then show "locked_ok s' li'" using C ty live sb' by (auto simp: locked_ok_def inode_live_def)
qed

text \<open>A directory the kernel may work on.\<close>

definition dir_ok :: "fs \<Rightarrow> locked_inode \<Rightarrow> bool" where
  "dir_ok s li \<longleftrightarrow> fs_inv s \<and> locked_ok s li \<and> i_typ (li_state li) = T_DIR \<and> DIRENT_SIZE dvd i_size (li_state li)"

lemma entry_in_block: "DIRENT_SIZE * t mod BSIZE + DIRENT_SIZE \<le> BSIZE"
proof -
  have "DIRENT_SIZE * t mod BSIZE = DIRENT_SIZE * (t mod 32)"
    by (simp add: DIRENT_SIZE_def BSIZE_def mult_mod_right)
  moreover have "t mod 32 \<le> 31" using mod_less_divisor [of 32 t] by linarith
  ultimately show ?thesis by (simp add: DIRENT_SIZE_def BSIZE_def)
qed

lemma dir_write:
  assumes ok: "dir_ok s li" and now: "now < 2 ^ 32" and t: "t \<le> nents li" and e: "wf_dirent e"
    and w: "writei now li (dirent_bytes e) (DIRENT_SIZE * t) s = Some (n, li', s')"
  shows "n = 0 \<or> n = DIRENT_SIZE"
    and "n = DIRENT_SIZE \<Longrightarrow> dir_ok s' li' \<and> nents li' = max (nents li) (Suc t) \<and> li_inum li' = li_inum li \<and>
      (\<forall>k. ent s' (i_addrs (li_state li')) k = (if k = t then e else ent s (i_addrs (li_state li)) k))"
    and "\<And>k. n = 0 \<Longrightarrow> ent s' (i_addrs (li_state li')) k = ent s (i_addrs (li_state li)) k"
proof -
  let ?a = "i_addrs (li_state li)" and ?a' = "i_addrs (li_state li')" and ?src = "dirent_bytes e"
  have inv: "fs_inv s" and lok: "locked_ok s li" and ty: "i_typ (li_state li) = T_DIR"
    and dv: "DIRENT_SIZE dvd i_size (li_state li)" using ok by (auto simp: dir_ok_def)
  have len: "length ?src = DIRENT_SIZE" by (rule length_dirent_bytes [OF e])
  show n: "n = 0 \<or> n = DIRENT_SIZE"
  proof (cases "MAXFILE * BSIZE \<le> DIRENT_SIZE * t")
    case False
    have "DIRENT_SIZE * t + DIRENT_SIZE \<le> MAXFILE * BSIZE"
      using False by (simp add: DIRENT_SIZE_def layout_simps)
    then have "take (MAXFILE * BSIZE - DIRENT_SIZE * t) ?src = ?src" using len by simp
    then obtain a1 s1 where "writei_loop ?a ?src (DIRENT_SIZE * t) s = Some (n, a1, s1)"
      using writei_count [OF w] False by auto
    from writei_loop_all_or_nothing [OF _ this] show ?thesis using entry_in_block [of t] len by simp
  qed (use writei_count [OF w] in \<open>auto simp: writei_loop.simps\<close>)
  note F = writei_fs_inv [OF inv lok now w]
  have fb: "fbyte s' ?a' k = (if DIRENT_SIZE * t \<le> k \<and> k < DIRENT_SIZE * t + n then ?src ! (k - DIRENT_SIZE * t) else fbyte s ?a k)" for k
    by (rule F(5))
  show "ent s' ?a' k = ent s ?a k" if "n = 0" for k
  proof -
    have "fbyte s' ?a' = fbyte s ?a" using fb that by (intro ext) auto
    then show ?thesis by (simp add: ent_def)
  qed
  assume nn: "n = DIRENT_SIZE"
  then have pos: "0 < n" by simp
  note L = writei_locked_ok [OF inv lok now pos w]
  have "ent s' ?a' k = (if k = t then e else ent s ?a k)" for k
  proof (cases "k = t")
    case True
    have "map (fbyte s' ?a') [DIRENT_SIZE * t..<DIRENT_SIZE * t + DIRENT_SIZE] = ?src"
      by (rule nth_equalityI) (use len fb nn in auto)
    then show ?thesis using True dirent_roundtrip [OF e] by (simp add: ent_def)
  next
    case False
    have "\<not> (DIRENT_SIZE * t \<le> x \<and> x < DIRENT_SIZE * t + DIRENT_SIZE)"
      if "DIRENT_SIZE * k \<le> x" "x < DIRENT_SIZE * k + DIRENT_SIZE" for x
      using that False by (auto simp: DIRENT_SIZE_def)
    then have "map (fbyte s' ?a') [DIRENT_SIZE * k..<DIRENT_SIZE * k + DIRENT_SIZE] =
        map (fbyte s ?a) [DIRENT_SIZE * k..<DIRENT_SIZE * k + DIRENT_SIZE]"
      using fb nn by (intro map_cong) auto
    then show ?thesis using False by (simp only: ent_def if_False)
  qed
  moreover have sz: "i_size (li_state li') = max (i_size (li_state li)) (DIRENT_SIZE * Suc t)"
    using L(4) nn by simp
  then have "nents li' = max (nents li) (Suc t)"
  proof -
    obtain m where m: "i_size (li_state li) = DIRENT_SIZE * m" using dv by (auto elim: dvdE)
    have "max (DIRENT_SIZE * m) (DIRENT_SIZE * Suc t) = DIRENT_SIZE * max m (Suc t)"
      by (simp only: nat_mult_max_right)
    then show ?thesis using sz m by (simp add: nents_def)
  qed
  moreover have "DIRENT_SIZE dvd i_size (li_state li')" using sz dv by (simp add: max_def)
  ultimately show "dir_ok s' li' \<and> nents li' = max (nents li) (Suc t) \<and> li_inum li' = li_inum li \<and>
      (\<forall>k. ent s' ?a' k = (if k = t then e else ent s ?a k))"
    using F(1) L ty by (simp add: dir_ok_def)
qed

section \<open>A directory as a finite map\<close>

text \<open>No two live entries have the same name.\<close>

definition dir_unique :: "fs \<Rightarrow> locked_inode \<Rightarrow> bool" where
  "dir_unique s li \<longleftrightarrow>
     (\<forall>j k. j < nents li \<longrightarrow> k < nents li \<longrightarrow>
        de_inum (ent s (i_addrs (li_state li)) j) \<noteq> 0 \<longrightarrow> de_inum (ent s (i_addrs (li_state li)) k) \<noteq> 0 \<longrightarrow>
        trim_name (de_name (ent s (i_addrs (li_state li)) j)) = trim_name (de_name (ent s (i_addrs (li_state li)) k)) \<longrightarrow> j = k)"

lemma hit_iff:
  "proper_name nm \<Longrightarrow> hit s li nm k \<longleftrightarrow> de_inum (ent s (i_addrs (li_state li)) k) \<noteq> 0 \<and>
     trim_name (de_name (ent s (i_addrs (li_state li)) k)) = take DIRSIZ nm"
  by (simp add: hit_def dirent_name_matches_iff ent_name_len)

lemma find_upt_cong:
  assumes "\<And>k. k < n \<Longrightarrow> P k = Q k" and "n \<le> m" and "\<And>k. n \<le> k \<Longrightarrow> k < m \<Longrightarrow> \<not> Q k"
  shows "find Q [0..<m] = find P [0..<n]"
proof -
  have "find Q [n..<m] = None" using assms(3) by (auto simp: find_None_iff)
  moreover have "find Q [0..<n] = find P [0..<n]" by (rule find_cong) (use assms(1) in auto)
  moreover have "[0..<m] = [0..<n] @ [n..<m]" using assms(2) by (metis le_add_diff_inverse upt_add_eq_append zero_le)
  moreover have "find Q (xs @ ys) = (case find Q xs of None \<Rightarrow> find Q ys | Some x \<Rightarrow> Some x)" for xs ys :: "nat list"
    by (induction xs) auto
  ultimately show ?thesis by (simp split: option.split)
qed

lemma find_upt_Some:
  "find P [0..<n] = Some k \<longleftrightarrow> k < n \<and> P k \<and> (\<forall>j < k. \<not> P j)"
proof
  assume "find P [0..<n] = Some k"
  then show "k < n \<and> P k \<and> (\<forall>j < k. \<not> P j)" by (auto simp: find_Some_iff)
next
  assume "k < n \<and> P k \<and> (\<forall>j < k. \<not> P j)"
  then show "find P [0..<n] = Some k" by (auto simp: find_Some_iff intro!: exI [of _ k])
qed

text \<open>The place \<open>dirlink\<close> writes to is unused.\<close>

definition link_slot :: "fs \<Rightarrow> locked_inode \<Rightarrow> nat" where
  "link_slot s li = (case find (\<lambda>k. de_inum (ent s (i_addrs (li_state li)) k) = 0) [0..<nents li] of
     None \<Rightarrow> nents li | Some k \<Rightarrow> k)"

lemma link_slot_free:
  "link_slot s li \<le> nents li" "link_slot s li < nents li \<Longrightarrow> de_inum (ent s (i_addrs (li_state li)) (link_slot s li)) = 0"
proof -
  let ?f = "find (\<lambda>k. de_inum (ent s (i_addrs (li_state li)) k) = 0) [0..<nents li]"
  have *: "link_slot s li \<le> nents li \<and> (link_slot s li < nents li \<longrightarrow>
      de_inum (ent s (i_addrs (li_state li)) (link_slot s li)) = 0)"
  proof (cases ?f)
    case None
    then show ?thesis by (simp add: link_slot_def)
  next
    case (Some k)
    then have "link_slot s li = k" by (simp add: link_slot_def)
    then show ?thesis using Some [unfolded find_upt_Some] by simp
  qed
  then show "link_slot s li \<le> nents li"
    "link_slot s li < nents li \<Longrightarrow> de_inum (ent s (i_addrs (li_state li)) (link_slot s li)) = 0" by auto
qed

lemma dirlink_alt:
  assumes ok: "dir_ok s li"
  shows "dirlink now li nm inum s =
    (if \<exists>k < nents li. hit s li nm k then Some (False, li, s)
     else do { (wrote, li1, s1) \<leftarrow> writei now li (dirent_bytes (new_dirent nm inum)) (DIRENT_SIZE * link_slot s li) s;
               Some (wrote = DIRENT_SIZE, li1, s1) })"
proof -
  have wf: "wf_fs s" and ty: "i_typ (li_state li) = T_DIR" and dv: "DIRENT_SIZE * nents li = i_size (li_state li)"
    using ok by (auto simp: dir_ok_def nents_def fs_inv_def)
  show ?thesis
    using dirlink_scan_spec [OF wf, of nm 0 None li] ty dv
    by (auto simp: dirlink_def link_slot_def Let_def split: option.splits)
qed

lemma dirlink_effect:
  assumes ok: "dir_ok s li" and now: "now < 2 ^ 32" and nm: "proper_name nm" and i: "inum \<noteq> 0" "inum < 2 ^ 16"
    and r: "dirlink now li nm inum s = Some (True, li', s')"
  shows "dir_ok s' li'" and "dirlookup li' nm s' = Some (Some inum)" and "dirlookup li nm s = Some None"
    and "\<And>nm'. proper_name nm' \<Longrightarrow> take DIRSIZ nm' \<noteq> take DIRSIZ nm \<Longrightarrow> dirlookup li' nm' s' = dirlookup li nm' s"
    and "dir_unique s li \<Longrightarrow> dir_unique s' li'" and "li_inum li' = li_inum li"
proof -
  let ?a = "i_addrs (li_state li)" and ?a' = "i_addrs (li_state li')" and ?t = "link_slot s li" and ?e = "new_dirent nm inum"
  have no: "\<not> (\<exists>k < nents li. hit s li nm k)"
    and w: "writei now li (dirent_bytes ?e) (DIRENT_SIZE * ?t) s = Some (DIRENT_SIZE, li', s')"
    using r unfolding dirlink_alt [OF ok] by (auto split: if_splits bind_splits)
  note W = dir_write(2) [OF ok now link_slot_free(1) new_dirent_wf [OF i(2)] w refl]
  have E: "ent s' ?a' k = (if k = ?t then ?e else ent s ?a k)" for k using W by blast
  have N: "nents li' = max (nents li) (Suc ?t)" and ok': "dir_ok s' li'" using W by auto
  show "dir_ok s' li'" "li_inum li' = li_inum li" using W by auto
  have wf: "wf_fs s" "wf_fs s'" "i_typ (li_state li) = T_DIR" "i_typ (li_state li') = T_DIR"
    using ok ok' by (auto simp: dir_ok_def fs_inv_def)
  note L = dirlookup_spec [OF wf(1,3)] dirlookup_spec [OF wf(2,4)]
  have none: "find (hit s li nm) [0..<nents li] = None" using no by (auto simp: find_None_iff)
  show "dirlookup li nm s = Some None" unfolding L none by simp
  have ht: "hit s' li' nm ?t" using E i nm new_dirent_name [OF nm] by (simp add: hit_iff)
  have "find (hit s' li' nm) [0..<nents li'] = Some ?t"
    unfolding find_upt_Some
  proof (intro conjI allI impI)
    show "?t < nents li'" using N by simp
    show "hit s' li' nm ?t" by (rule ht)
    fix j assume j: "j < ?t"
    then have "j < nents li" using link_slot_free(1) [of s li] by simp
    then show "\<not> hit s' li' nm j" using no E j by (auto simp: hit_def)
  qed
  then show "dirlookup li' nm s' = Some (Some inum)" unfolding L using E by (simp add: new_dirent_def)
  show "dirlookup li' nm' s' = dirlookup li nm' s" if p: "proper_name nm'" "take DIRSIZ nm' \<noteq> take DIRSIZ nm" for nm'
  proof -
    have h: "hit s' li' nm' k \<longleftrightarrow> k \<noteq> ?t \<and> hit s li nm' k" for k
      using E [of k] p new_dirent_name [OF nm, of inum] by (auto simp: hit_iff [OF p(1)])
    have ht: "\<not> hit s li nm' ?t" if "?t < nents li" using link_slot_free(2) [OF that] by (simp add: hit_def)
    have "find (hit s' li' nm') [0..<nents li'] = find (hit s li nm') [0..<nents li]"
    proof (rule find_upt_cong)
      fix k assume "k < nents li"
      then show "hit s li nm' k = hit s' li' nm' k" using h [of k] ht by blast
    next
      show "nents li \<le> nents li'" using N by simp
      fix k assume "nents li \<le> k" "k < nents li'"
      then have "k = ?t" using N link_slot_free(1) [of s li] by linarith
      then show "\<not> hit s' li' nm' k" using h by blast
    qed
    moreover have "ent s' ?a' k = ent s ?a k" if "find (hit s li nm') [0..<nents li] = Some k" for k
    proof -
      have "k \<noteq> ?t" using that [unfolded find_upt_Some] ht by blast
      then show ?thesis using E [of k] by simp
    qed
    ultimately show ?thesis unfolding L by (cases "find (hit s li nm') [0..<nents li]") auto
  qed
  show "dir_unique s' li'" if u: "dir_unique s li"
    unfolding dir_unique_def
  proof (intro allI impI)
    fix j k assume jk: "j < nents li'" "k < nents li'" "de_inum (ent s' ?a' j) \<noteq> 0" "de_inum (ent s' ?a' k) \<noteq> 0"
      "trim_name (de_name (ent s' ?a' j)) = trim_name (de_name (ent s' ?a' k))"
    have old: "x < nents li" if "x < nents li'" "x \<noteq> ?t" for x using that N link_slot_free(1) [of s li] by auto
    have new: "\<not> hit s li nm x" if "x < nents li" for x using no that by blast
    have clash: False if "x < nents li'" "x \<noteq> ?t" "de_inum (ent s' ?a' x) \<noteq> 0"
        "trim_name (de_name (ent s' ?a' x)) = trim_name (de_name (ent s' ?a' ?t))" for x
      using new [OF old [OF that(1,2)]] that(2-4) E [of x] E [of ?t] new_dirent_name [OF nm, of inum]
      by (simp add: hit_iff [OF nm])
    show "j = k"
    proof (cases "j = ?t \<or> k = ?t")
      case True
      then show ?thesis using clash [of j] clash [of k] jk by metis
    next
      case False
      then show ?thesis using jk E [of j] E [of k] old [of j] old [of k] u unfolding dir_unique_def by auto
    qed
  qed
qed

lemma wf_dirent_default_inum: "de_inum dirent_default = 0"
  by (simp add: dirent_default_def)

lemma dirlookup_full_iff:
  assumes "dir_ok s li"
  shows "dirlookup li nm s = Some (map_option fst (dirlookup_full li nm s))"
  using assms dirlookup_spec [of s li] dirlookup_full_spec [of s li]
  by (simp add: dir_ok_def fs_inv_def option.map_comp comp_def)

lemma dirunlink_effect:
  assumes ok: "dir_ok s li" and u: "dir_unique s li" and now: "now < 2 ^ 32" and nm: "proper_name nm"
    and f: "dirlookup_full li nm s = Some (i, off)"
    and r: "dirunlink_at now li off s = Some (True, li', s')"
  shows "dir_ok s' li'" and "dir_unique s' li'" and "li_inum li' = li_inum li"
    and "dirlookup li' nm s' = Some None"
    and "\<And>nm'. proper_name nm' \<Longrightarrow> take DIRSIZ nm' \<noteq> take DIRSIZ nm \<Longrightarrow> dirlookup li' nm' s' = dirlookup li nm' s"
proof -
  let ?a = "i_addrs (li_state li)" and ?a' = "i_addrs (li_state li')"
  have wf: "wf_fs s" and ty: "i_typ (li_state li) = T_DIR" using ok by (auto simp: dir_ok_def fs_inv_def)
  obtain t where t: "find (hit s li nm) [0..<nents li] = Some t" "off = DIRENT_SIZE * t"
    using f by (auto simp: dirlookup_full_spec [OF wf])
  have tn: "t < nents li" and ht: "hit s li nm t" using t(1) unfolding find_upt_Some by auto
  have w: "writei now li (dirent_bytes dirent_default) (DIRENT_SIZE * t) s = Some (DIRENT_SIZE, li', s')"
    using r t(2) by (auto simp: dirunlink_at_def split: bind_splits)
  have tl: "t \<le> nents li" using tn by simp
  note W = dir_write(2) [OF ok now tl wf_dirent_default w refl]
  have E: "ent s' ?a' k = (if k = t then dirent_default else ent s ?a k)" for k using W by blast
  have N: "nents li' = nents li" and ok': "dir_ok s' li'" using W tn by auto
  show "dir_ok s' li'" "li_inum li' = li_inum li" using W by auto
  have wf': "wf_fs s'" "i_typ (li_state li') = T_DIR" using ok' by (auto simp: dir_ok_def fs_inv_def)
  note L = dirlookup_spec [OF wf ty] dirlookup_spec [OF wf']
  have h: "hit s' li' x k \<longleftrightarrow> k \<noteq> t \<and> hit s li x k" for x k
    using E [of k] wf_dirent_default_inum by (simp add: hit_def)
  show "dir_unique s' li'"
    using u E unfolding dir_unique_def N by (auto simp: wf_dirent_default_inum)
  have "\<not> hit s' li' nm k" if "k < nents li" for k
  proof
    assume "hit s' li' nm k"
    then have "k \<noteq> t" "hit s li nm k" using h by auto
    then show False using u that tn ht unfolding dir_unique_def hit_iff [OF nm] by metis
  qed
  then have "find (hit s' li' nm) [0..<nents li'] = None" by (auto simp: N find_None_iff)
  then show "dirlookup li' nm s' = Some None" unfolding L by simp
  show "dirlookup li' nm' s' = dirlookup li nm' s" if p: "proper_name nm'" "take DIRSIZ nm' \<noteq> take DIRSIZ nm" for nm'
  proof -
    have nt: "\<not> hit s li nm' t" using ht p unfolding hit_iff [OF nm] hit_iff [OF p(1)] by simp
    have "find (hit s' li' nm') [0..<nents li'] = find (hit s li nm') [0..<nents li]"
      unfolding N by (rule find_cong) (use h nt in auto)
    moreover have "ent s' ?a' k = ent s ?a k" if "find (hit s li nm') [0..<nents li] = Some k" for k
    proof -
      have "k \<noteq> t" using that [unfolded find_upt_Some] nt by blast
      then show ?thesis using E [of k] by simp
    qed
    ultimately show ?thesis unfolding L by (cases "find (hit s li nm') [0..<nents li]") auto
  qed
qed

section \<open>Name maps\<close>

text \<open>The contract the path operations rely on: a directory maps names to inode numbers, names
  being equal when their keys are. Directories on disk provide it.\<close>

locale name_map =
  fixes lookup :: "'d \<Rightarrow> name \<Rightarrow> nat option"
    and add :: "name \<Rightarrow> nat \<Rightarrow> 'd \<Rightarrow> 'd option"
    and remove :: "name \<Rightarrow> 'd \<Rightarrow> 'd option"
    and ok :: "'d \<Rightarrow> bool"
    and key :: "name \<Rightarrow> name"
    and good :: "name \<Rightarrow> bool"
    and fits :: "nat \<Rightarrow> bool"
  assumes add_ok: "ok d \<Longrightarrow> good nm \<Longrightarrow> fits i \<Longrightarrow> add nm i d = Some d' \<Longrightarrow> ok d'"
    and lookup_add: "ok d \<Longrightarrow> good nm \<Longrightarrow> fits i \<Longrightarrow> add nm i d = Some d' \<Longrightarrow> good nm'
      \<Longrightarrow> lookup d' nm' = (if key nm' = key nm then Some i else lookup d nm')"
    and add_fresh: "ok d \<Longrightarrow> good nm \<Longrightarrow> fits i \<Longrightarrow> add nm i d = Some d' \<Longrightarrow> lookup d nm = None"
    and remove_ok: "ok d \<Longrightarrow> good nm \<Longrightarrow> remove nm d = Some d' \<Longrightarrow> ok d'"
    and lookup_remove: "ok d \<Longrightarrow> good nm \<Longrightarrow> remove nm d = Some d' \<Longrightarrow> good nm'
      \<Longrightarrow> lookup d' nm' = (if key nm' = key nm then None else lookup d nm')"
begin

lemma rename:
  assumes "ok d" "good old" "good new" "fits i" "lookup d old = Some i"
    and "add new i d = Some d1" "remove old d1 = Some d2" "good nm"
  shows "ok d2" and "lookup d2 nm =
    (if key nm = key old then None else if key nm = key new then Some i else lookup d nm)"
  using assms add_ok [OF assms(1,3,4,6)] lookup_add [OF assms(1,3,4,6)] remove_ok [of d1 old d2]
    lookup_remove [of d1 old d2 nm] by auto

lemma add_remove:
  assumes "ok d" "good nm" "fits i" "add nm i d = Some d1" "remove nm d1 = Some d2" "good x"
  shows "lookup d2 x = lookup d x \<or> key x = key nm \<and> lookup d2 x = None"
  using assms add_ok [OF assms(1-4)] lookup_add [OF assms(1-4,6)] lookup_remove [of d1 nm d2 x] by auto

end

text \<open>Linking, and the look-up-then-clear of \<open>unlink\<close>, on a locked directory.\<close>

definition dir_add :: "nat \<Rightarrow> name \<Rightarrow> nat \<Rightarrow> locked_inode \<times> fs \<Rightarrow> (locked_inode \<times> fs) option" where
  "dir_add now nm inum d =
     (case dirlink now (fst d) nm inum (snd d) of
        Some (True, li, s) \<Rightarrow> Some (li, s)
      | _ \<Rightarrow> None)"

definition dir_remove :: "nat \<Rightarrow> name \<Rightarrow> locked_inode \<times> fs \<Rightarrow> (locked_inode \<times> fs) option" where
  "dir_remove now nm d =
     (case dirlookup_full (fst d) nm (snd d) of
        None \<Rightarrow> None
      | Some (_, off) \<Rightarrow>
         (case dirunlink_at now (fst d) off (snd d) of
            Some (True, li, s) \<Rightarrow> Some (li, s)
          | _ \<Rightarrow> None))"

definition dir_get :: "locked_inode \<times> fs \<Rightarrow> name \<Rightarrow> nat option" where
  "dir_get d nm = map_option fst (dirlookup_full (fst d) nm (snd d))"

definition dir_state_ok :: "locked_inode \<times> fs \<Rightarrow> bool" where
  "dir_state_ok d \<longleftrightarrow> dir_ok (snd d) (fst d) \<and> dir_unique (snd d) (fst d)"

lemma dir_get_lookup: "dir_ok s li \<Longrightarrow> dir_get (li, s) nm = the (dirlookup li nm s)"
  by (simp add: dir_get_def dirlookup_full_iff)

lemma dir_get_key:
  assumes "dir_ok s li" "proper_name nm" "proper_name nm'" "take DIRSIZ nm = take DIRSIZ nm'"
  shows "dir_get (li, s) nm = dir_get (li, s) nm'"
proof -
  have "hit s li nm = hit s li nm'" using assms(2-4) by (auto simp: hit_iff)
  then show ?thesis using assms(1) by (simp add: dir_get_def dirlookup_full_spec dir_ok_def fs_inv_def)
qed

lemma dir_add_Some:
  assumes "dir_add now nm i (li, s) = Some d'"
  obtains li' s' where "d' = (li', s')" "dirlink now li nm i s = Some (True, li', s')"
  using assms by (auto simp: dir_add_def split: option.splits bool.splits prod.splits)

lemma dir_remove_Some:
  assumes "dir_remove now nm (li, s) = Some d'"
  obtains i off li' s' where "d' = (li', s')" "dirlookup_full li nm s = Some (i, off)"
    "dirunlink_at now li off s = Some (True, li', s')"
  using assms by (auto simp: dir_remove_def split: option.splits bool.splits prod.splits)

lemma dir_add_effect:
  assumes now: "now < 2 ^ 32" and d: "dir_state_ok d" and nm: "proper_name nm" and i: "i \<noteq> 0 \<and> i < 2 ^ 16"
    and a: "dir_add now nm i d = Some d'"
  shows "dir_state_ok d'" and "dir_get d nm = None"
    and "\<And>nm'. proper_name nm' \<Longrightarrow> dir_get d' nm' = (if take DIRSIZ nm' = take DIRSIZ nm then Some i else dir_get d nm')"
proof -
  obtain li s where ls: "d = (li, s)" by fastforce
  then have "dir_add now nm i (li, s) = Some d'" using a by simp
  then obtain li' s' where r: "d' = (li', s')" "dirlink now li nm i s = Some (True, li', s')"
    by (rule dir_add_Some)
  have ok: "dir_ok s li" "dir_unique s li" using d ls by (auto simp: dir_state_ok_def)
  have i': "i \<noteq> 0" "i < 2 ^ 16" using i by auto
  note E = dirlink_effect [OF ok(1) now nm i' r(2)]
  show "dir_state_ok d'" using E(1,5) ok(2) r(1) by (simp add: dir_state_ok_def)
  show "dir_get d nm = None" using E(3) ls dir_get_lookup [OF ok(1)] by simp
  show "dir_get d' nm' = (if take DIRSIZ nm' = take DIRSIZ nm then Some i else dir_get d nm')"
    if "proper_name nm'" for nm'
    using that E(2,4) r(1) ls dir_get_lookup [OF ok(1)] dir_get_lookup [OF E(1)] dir_get_key [OF E(1) that nm] by auto
qed

lemma dir_remove_effect:
  assumes now: "now < 2 ^ 32" and d: "dir_state_ok d" and nm: "proper_name nm"
    and a: "dir_remove now nm d = Some d'"
  shows "dir_state_ok d'"
    and "\<And>nm'. proper_name nm' \<Longrightarrow> dir_get d' nm' = (if take DIRSIZ nm' = take DIRSIZ nm then None else dir_get d nm')"
proof -
  obtain li s where ls: "d = (li, s)" by fastforce
  then have "dir_remove now nm (li, s) = Some d'" using a by simp
  then obtain i off li' s' where r: "d' = (li', s')" "dirlookup_full li nm s = Some (i, off)"
    "dirunlink_at now li off s = Some (True, li', s')"
    by (rule dir_remove_Some)
  have ok: "dir_ok s li" "dir_unique s li" using d ls by (auto simp: dir_state_ok_def)
  note E = dirunlink_effect [OF ok now nm r(2,3)]
  show "dir_state_ok d'" using E(1,2) r(1) by (simp add: dir_state_ok_def)
  show "dir_get d' nm' = (if take DIRSIZ nm' = take DIRSIZ nm then None else dir_get d nm')"
    if "proper_name nm'" for nm'
    using that E(4,5) r(1) ls dir_get_lookup [OF ok(1)] dir_get_lookup [OF E(1)] dir_get_key [OF E(1) that nm] by auto
qed

interpretation dnames: name_map dir_get "dir_add (now mod 2 ^ 32)" "dir_remove (now mod 2 ^ 32)" dir_state_ok
    "take DIRSIZ" proper_name "\<lambda>i. i \<noteq> 0 \<and> i < 2 ^ 16"
proof (unfold_locales, goal_cases)
  have now: "now mod 2 ^ 32 < 2 ^ 32" by simp
  case (1 d nm i d')
  then show ?case by (rule dir_add_effect(1) [OF now])
next
  have now: "now mod 2 ^ 32 < 2 ^ 32" by simp
  case (2 d nm i d' nm')
  then show ?case by (rule dir_add_effect(3) [OF now])
next
  have now: "now mod 2 ^ 32 < 2 ^ 32" by simp
  case (3 d nm i d')
  then show ?case by (rule dir_add_effect(2) [OF now])
next
  have now: "now mod 2 ^ 32 < 2 ^ 32" by simp
  case (4 d nm d')
  then show ?case by (rule dir_remove_effect(1) [OF now])
next
  have now: "now mod 2 ^ 32 < 2 ^ 32" by simp
  case (5 d nm d' nm')
  then show ?case by (rule dir_remove_effect(2) [OF now])
qed

section \<open>Properties\<close>

text \<open>C31. \<open>dirlink\<close> adds exactly one binding. When it succeeds the name was not bound before and
  is bound to the inode afterwards; every name that differs in its first \<open>DIRSIZ\<close> bytes keeps
  its meaning, names stay unique and the volume stays consistent.\<close>

theorem dirlink_adds_binding:
  assumes "dir_ok s li" and "dir_unique s li" and "now < 2 ^ 32" and "proper_name nm"
    and "inum \<noteq> 0" and "inum < 2 ^ 16" and "dirlink now li nm inum s = Some (True, li', s')"
  shows "dirlookup li nm s = Some None \<and> dirlookup li' nm s' = Some (Some inum) \<and>
    (\<forall>nm'. proper_name nm' \<and> take DIRSIZ nm' \<noteq> take DIRSIZ nm \<longrightarrow> dirlookup li' nm' s' = dirlookup li nm' s) \<and>
    dir_ok s' li' \<and> dir_unique s' li'"
  using dirlink_effect [OF assms(1,3,4,5,6,7)] assms(2) by auto

text \<open>\<open>dirlink\<close> refuses a name that exists and then changes nothing; when the directory
  cannot be extended it also fails, and then every lookup gives what it gave before: an entry
  is never half written.\<close>

lemma dirlink_failure_harmless:
  assumes "dir_ok s li" and "now < 2 ^ 32" and "inum < 2 ^ 16" and "dirlink now li nm inum s = Some (False, li', s')"
  shows "(dirlookup li nm s \<noteq> Some None \<longrightarrow> li' = li \<and> s' = s) \<and>
    (\<forall>k. ent s' (i_addrs (li_state li')) k = ent s (i_addrs (li_state li)) k)"
proof -
  have wf: "wf_fs s" and ty: "i_typ (li_state li) = T_DIR" using assms(1) by (auto simp: dir_ok_def fs_inv_def)
  show ?thesis
  proof (cases "\<exists>k < nents li. hit s li nm k")
    case True
    then show ?thesis using assms(4) by (simp add: dirlink_alt [OF assms(1)])
  next
    case False
    then have "dirlookup li nm s = Some None" by (auto simp: dirlookup_spec [OF wf ty] find_None_iff)
    moreover obtain n where w: "writei now li (dirent_bytes (new_dirent nm inum)) (DIRENT_SIZE * link_slot s li) s = Some (n, li', s')"
      "n \<noteq> DIRENT_SIZE"
      using assms(4) False by (auto simp: dirlink_alt [OF assms(1)] split: bind_splits)
    note W = dir_write [OF assms(1,2) link_slot_free(1) new_dirent_wf [OF assms(3)] w(1)]
    have "ent s' (i_addrs (li_state li')) k = ent s (i_addrs (li_state li)) k" for k using W(1,3) w(2) by auto
    ultimately show ?thesis by auto
  qed
qed

text \<open>C32. Clearing the entry found by \<open>dirlookup_full\<close> unbinds exactly that name: afterwards the
  name is not found, every other name keeps its meaning and names stay unique.\<close>

theorem dirunlink_removes_binding:
  assumes "dir_ok s li" and "dir_unique s li" and "now < 2 ^ 32" and "proper_name nm"
    and "dirlookup_full li nm s = Some (i, off)" and "dirunlink_at now li off s = Some (True, li', s')"
  shows "dirlookup li' nm s' = Some None \<and>
    (\<forall>nm'. proper_name nm' \<and> take DIRSIZ nm' \<noteq> take DIRSIZ nm \<longrightarrow> dirlookup li' nm' s' = dirlookup li nm' s) \<and>
    dir_ok s' li' \<and> dir_unique s' li'"
  using dirunlink_effect [OF assms] by auto

text \<open>Renaming inside a directory. Linking the new name to the old name's inode and then
  clearing the old entry leaves the inode under the new name only; every third name keeps its
  meaning.\<close>

lemma rename_within_directory:
  assumes "dir_state_ok d" and "proper_name old" and "proper_name new" and "i \<noteq> 0 \<and> i < 2 ^ 16"
    and "dir_get d old = Some i" and "take DIRSIZ old \<noteq> take DIRSIZ new"
    and "dir_add (now mod 2 ^ 32) new i d = Some d1" and "dir_remove (now mod 2 ^ 32) old d1 = Some d2"
    and "proper_name nm"
  shows "dir_get d2 nm =
    (if take DIRSIZ nm = take DIRSIZ old then None
     else if take DIRSIZ nm = take DIRSIZ new then Some i else dir_get d nm)"
  by (rule dnames.rename(2) [OF assms(1-5,7-9)])

section \<open>Witnesses\<close>

text \<open>A write inside one direct block succeeds when the block is mapped or a block is free.\<close>

lemma writei_direct:
  assumes wf: "wf_fs s" and room: "log_room (k + 4) s" and one: "off mod BSIZE + length src \<le> BSIZE"
    and bn: "off div BSIZE < NDIRECT" and src: "src \<noteq> []"
    and free: "i_addrs (li_state li) ! (off div BSIZE) \<noteq> 0 \<or> (\<exists>c < sb_size (sb s). \<not> allocated s c)"
  shows "\<exists>li' s'. writei now li src off s = Some (length src, li', s') \<and> log_room k s'"
proof -
  let ?a = "i_addrs (li_state li)"
  have mx: "off + length src \<le> MAXFILE * BSIZE"
  proof -
    have "off = off div BSIZE * BSIZE + off mod BSIZE" by simp
    moreover have "off div BSIZE \<le> 11" using bn by (simp add: NDIRECT_def)
    then have "off div BSIZE * BSIZE \<le> 11 * BSIZE" by (rule mult_le_mono1)
    ultimately have "off + length src \<le> 12 * BSIZE" using one by linarith
    then show ?thesis by (simp add: layout_simps)
  qed
  have r1: "log_room (k + 2 + 2) s" using room by (simp add: log_room_def)
  obtain b a1 s1 where m: "bmap_or_alloc ?a (off div BSIZE) s = Some (Some b, a1, s1)" "log_room (Suc (Suc k)) s1"
  proof (cases "?a ! (off div BSIZE) = 0")
    case True
    obtain r s1 where b: "balloc s = Some (r, s1)" "log_room (k + 2) s1" using balloc_room [OF r1] by blast
    have "r \<noteq> None" using balloc_None(2) [OF wf, of s1] b True free by (cases r) auto
    then show ?thesis using that b bn True by (auto simp: bmap_or_alloc_def addr_or_alloc_def)
  next
    case False
    then show ?thesis using that [of _ ?a s] bn log_room_mono [OF room, of "Suc (Suc k)"]
      by (auto simp: bmap_or_alloc_def addr_or_alloc_def)
  qed
  have c: "min (BSIZE - off mod BSIZE) (length src) = length src" using one by simp
  obtain s2 where w: "blk_write b (splice (off mod BSIZE) src (blk s1 b)) s1 = Some s2" "log_room (Suc k) s2"
    using blk_write_room [OF m(2)] by blast
  have l: "writei_loop ?a src off s = Some (length src, a1, s2)"
    using src m(1) w(1) c by (simp add: writei_loop.simps [of ?a] writei_loop.simps [of _ "[]"] Let_def)
  have "\<exists>s'. iupdate li2 s2 = Some s' \<and> log_room k s'" for li2
    unfolding iupdate_def write_dinode_def by (rule blk_write_room [OF w(2)])
  then obtain f where f: "\<And>li2. iupdate li2 s2 = Some (f li2) \<and> log_room k (f li2)" by metis
  have off: "\<not> MAXFILE * BSIZE \<le> off" "take (MAXFILE * BSIZE - off) src = src" using mx src by (cases src; simp)+
  show ?thesis using l f src off by (simp add: writei_def Let_def)
qed

definition new_dir :: dinode where
  "new_dir = dinode_default\<lparr>di_typ := T_DIR, di_nlink := 1, di_mode := 493, di_reserved_time := [5, 5, 5]\<rparr>"

definition new_dir_li :: locked_inode where
  "new_dir_li = \<lparr>li_inum = 1, li_state = state_of_dinode new_dir\<rparr>"

lemma new_dir_li_simps [simp]:
  "i_size (li_state new_dir_li) = 0" "i_typ (li_state new_dir_li) = T_DIR" "nents new_dir_li = 0"
  by (simp_all add: new_dir_li_def state_of_dinode_def new_dir_def dinode_default_def nents_def)

lemma tiny_mkdir:
  obtains s1 where "ialloc 5 T_DIR 493 tiny_fs = Some (Some 1, s1)" "log_room 19 s1" "dir_ok s1 new_dir_li"
    "dir_unique s1 new_dir_li" "sb s1 = sb tiny_fs" "\<And>c. c < 100 \<Longrightarrow> allocated s1 c \<longleftrightarrow> c < 40"
    "read_dinode (Suc 0) s1 = new_dir"
proof -
  have nin: "sb_ninodes (sb tiny_fs) = 16" by (simp add: tiny_fs_def tiny_sb_def)
  have "find (\<lambda>i. di_typ (read_dinode i tiny_fs) = 0) [1..<16] = Some 1"
    by (simp add: upt_conv_Cons tiny_typ0)
  moreover have "log_room (Suc 19) tiny_fs" using tiny_room by simp
  then obtain s1 where w: "write_dinode 1 new_dir tiny_fs = Some s1" "log_room 19 s1"
    unfolding write_dinode_def using blk_write_room by blast
  ultimately have r: "ialloc 5 T_DIR 493 tiny_fs = Some (Some 1, s1)" by (simp add: ialloc_def nin new_dir_def)
  have args: "T_DIR < 2 ^ 16" "(493 :: nat) < 2 ^ 16" "(5 :: nat) < 2 ^ 32" "T_DIR \<noteq> 0" by (simp_all add: T_DIR_def)
  note R = ialloc_Some [OF tiny_inv args(1-3) r]
  have d1: "read_dinode (Suc 0) s1 = new_dir" using R(7) [of 1] by (simp add: new_dir_def)
  have wfd: "wf_dinode new_dir" unfolding new_dir_def by (rule wf_new_dinode) (simp_all add: T_DIR_def)
  have same: "dinode_of_state (state_of_dinode new_dir) = new_dir"
    by (simp add: dinode_of_state_def state_of_dinode_def new_dir_def dinode_default_def)
  have "locked_ok s1 new_dir_li"
    using R(2,3,6) args(4) wfd
    by (simp add: locked_ok_def new_dir_li_def inode_live_def d1 di_tree_def wf_state_def same)
      (simp add: state_of_dinode_def new_dir_def)
  then have "dir_ok s1 new_dir_li" using R(1) by (simp add: dir_ok_def)
  moreover have "allocated s1 c \<longleftrightarrow> c < 40" if "c < 100" for c
    using write_dinode_meta(3) [OF tiny_wf _ wfd w(1), of c] that tiny_bit [OF that] by (simp add: nin)
  moreover have "dir_unique s1 new_dir_li" by (simp add: dir_unique_def)
  ultimately show ?thesis using that [OF r w(2)] R(6) d1 by blast
qed

lemma ent_mapped:
  assumes "de_inum (ent s a 0) \<noteq> 0"
  shows "a ! 0 \<noteq> 0"
proof
  assume z: "a ! 0 = 0"
  have "fbyte s a j = 0" if "j < DIRENT_SIZE" for j
  proof -
    have "j div BSIZE = 0" using that by (simp add: DIRENT_SIZE_def BSIZE_def)
    then show ?thesis using z by (simp add: fbyte_def data_ptr_def NDIRECT_def)
  qed
  then have "map (fbyte s a) [0..<DIRENT_SIZE] = replicate DIRENT_SIZE 0"
    by (intro nth_equalityI) auto
  then have "de_inum (ent s a 0) = 0" by (simp add: ent_def dirent_of_bytes_def le_at_replicate0 DIRENT_SIZE_def)
  then show False using assms by simp
qed

lemma link_writes:
  assumes ok: "dir_ok s li" and room: "log_room (k + 4) s" and slot: "link_slot s li < 32" and i: "inum < 2 ^ 16"
    and no: "dirlookup li nm s = Some None"
    and free: "i_addrs (li_state li) ! 0 \<noteq> 0 \<or> (\<exists>c < sb_size (sb s). \<not> allocated s c)"
  shows "\<exists>li' s'. dirlink now li nm inum s = Some (True, li', s') \<and> log_room k s'"
proof -
  have wf: "wf_fs s" and ty: "i_typ (li_state li) = T_DIR" using ok by (auto simp: dir_ok_def fs_inv_def)
  have nh: "\<not> (\<exists>k < nents li. hit s li nm k)"
    using no by (auto simp: dirlookup_spec [OF wf ty] find_None_iff)
  have e: "length (dirent_bytes (new_dirent nm inum)) = DIRENT_SIZE" by (rule length_dirent_bytes [OF new_dirent_wf [OF i]])
  have z: "DIRENT_SIZE * link_slot s li div BSIZE = 0" using slot by (simp add: DIRENT_SIZE_def BSIZE_def)
  have "dirent_bytes (new_dirent nm inum) \<noteq> []" using e by (metis DIRENT_SIZE_pos length_greater_0_conv)
  then obtain li' s' where "writei now li (dirent_bytes (new_dirent nm inum)) (DIRENT_SIZE * link_slot s li) s = Some (DIRENT_SIZE, li', s')"
    "log_room k s'"
    using writei_direct [OF wf room, of "DIRENT_SIZE * link_slot s li" "dirent_bytes (new_dirent nm inum)" li now]
      entry_in_block [of "link_slot s li"] e z free by (auto simp: NDIRECT_def)
  then show ?thesis using nh by (simp add: dirlink_alt [OF ok])
qed

lemma tiny_link:
  obtains s1 li2 s2 where "dir_ok s1 new_dir_li" "dir_unique s1 new_dir_li"
    "dirlink 6 new_dir_li [97] 7 s1 = Some (True, li2, s2)" "log_room 15 s2" "dir_ok s2 li2" "dir_unique s2 li2"
    "dirlookup li2 [97] s2 = Some (Some 7)" "nents li2 = 1" "i_addrs (li_state li2) ! 0 \<noteq> 0"
proof -
  obtain s1 where s1: "log_room 19 s1" "dir_ok s1 new_dir_li" "dir_unique s1 new_dir_li" "sb s1 = sb tiny_fs"
    "\<And>c. c < 100 \<Longrightarrow> allocated s1 c \<longleftrightarrow> c < 40" by (rule tiny_mkdir) blast
  have wf: "wf_fs s1" using s1(2) by (simp add: dir_ok_def fs_inv_def)
  have "link_slot s1 new_dir_li = 0" using link_slot_free(1) [of s1 new_dir_li] by simp
  moreover have no: "dirlookup new_dir_li [97] s1 = Some None" by (simp add: dirlookup_spec [OF wf])
  moreover have "log_room (15 + 4) s1" using s1(1) by simp
  moreover have "\<exists>c < sb_size (sb s1). \<not> allocated s1 c" using s1(4,5) by (auto intro!: exI [of _ 40])
  ultimately obtain li2 s2 where d: "dirlink 6 new_dir_li [97] 7 s1 = Some (True, li2, s2)" "log_room 15 s2"
    using link_writes [OF s1(2), of 15 7 "[97]" 6] by auto
  have nm: "proper_name [97]" by (simp add: proper_name_def)
  have i7: "(7 :: nat) \<noteq> 0" "(7 :: nat) < 2 ^ 16" "(6 :: nat) < 2 ^ 32" by simp_all
  note E = dirlink_effect [OF s1(2) i7(3) nm i7(1,2) d(1)]
  have w: "writei 6 new_dir_li (dirent_bytes (new_dirent [97] 7)) (DIRENT_SIZE * 0) s1 = Some (DIRENT_SIZE, li2, s2)"
    using d(1) \<open>link_slot s1 new_dir_li = 0\<close> by (auto simp: dirlink_alt [OF s1(2)] split: bind_splits)
  have "nents li2 = 1 \<and> ent s2 (i_addrs (li_state li2)) 0 = new_dirent [97] 7"
    using dir_write(2) [OF s1(2) i7(3) _ new_dirent_wf [OF i7(2)] w refl] by simp
  then show ?thesis using that [OF s1(2,3) d E(1,5,2)] s1(3) ent_mapped [of s2 "i_addrs (li_state li2)"] by simp
qed

lemma unlink_writes:
  assumes "dir_ok s li" and "log_room (k + 4) s" and "i_addrs (li_state li) ! 0 \<noteq> 0" and "t < 32"
  shows "\<exists>li' s'. dirunlink_at now li (DIRENT_SIZE * t) s = Some (True, li', s') \<and> log_room k s'"
proof -
  have wf: "wf_fs s" using assms(1) by (simp add: dir_ok_def fs_inv_def)
  have e: "length (dirent_bytes dirent_default) = DIRENT_SIZE" by (rule length_dirent_bytes) simp
  have z: "DIRENT_SIZE * t div BSIZE = 0" using assms(4) by (simp add: DIRENT_SIZE_def BSIZE_def)
  have "dirent_bytes dirent_default \<noteq> []" using e by (metis DIRENT_SIZE_pos length_greater_0_conv)
  then show ?thesis
    using writei_direct [OF wf assms(2), of "DIRENT_SIZE * t" "dirent_bytes dirent_default" li now]
      entry_in_block [of t] e z assms(3) by (auto simp: NDIRECT_def dirunlink_at_def)
qed

theorem dirlink_adds_binding_witness:
  "\<exists>s1 li2 s2. dirlink 6 new_dir_li [97] 7 s1 = Some (True, li2, s2) \<and> dirlookup li2 [97] s2 = Some (Some 7)"
proof -
  obtain s1 li2 s2 where t: "dir_ok s1 new_dir_li" "dir_unique s1 new_dir_li"
    "dirlink 6 new_dir_li [97] 7 s1 = Some (True, li2, s2)" by (rule tiny_link) blast
  have "proper_name [97]" by (simp add: proper_name_def)
  then show ?thesis using dirlink_adds_binding [OF t(1,2) _ _ _ _ t(3)] t(3) by auto
qed

theorem dirunlink_removes_binding_witness:
  "\<exists>li2 s2 off li3 s3. dirlookup_full li2 [97] s2 = Some (7, off) \<and>
     dirunlink_at 8 li2 off s2 = Some (True, li3, s3) \<and> dirlookup li3 [97] s3 = Some None"
proof -
  obtain li2 s2 where t: "log_room 15 s2" "dir_ok s2 li2" "dir_unique s2 li2"
    "dirlookup li2 [97] s2 = Some (Some 7)" "nents li2 = 1" "i_addrs (li_state li2) ! 0 \<noteq> 0" by (rule tiny_link) blast
  have wf: "wf_fs s2" using t(2) by (auto simp: dir_ok_def fs_inv_def)
  obtain off where f: "dirlookup_full li2 [97] s2 = Some (7, off)"
    using t(4) by (auto simp: dirlookup_full_iff [OF t(2)])
  obtain k where k: "find (hit s2 li2 [97]) [0..<nents li2] = Some k" "off = DIRENT_SIZE * k"
    using f by (auto simp: dirlookup_full_spec [OF wf])
  have "k = 0" using k(1) t(5) unfolding find_upt_Some by simp
  then have "off = DIRENT_SIZE * 0" using k(2) by simp
  moreover have "log_room (11 + 4) s2" using t(1) by simp
  ultimately obtain li3 s3 where u: "dirunlink_at 8 li2 off s2 = Some (True, li3, s3)"
    using unlink_writes [OF t(2) _ t(6), of 11 0 8] by auto
  have "proper_name [97]" by (simp add: proper_name_def)
  then have "dirlookup li3 [97] s3 = Some None" using dirunlink_removes_binding [OF t(2,3) _ _ f u] by simp
  then show ?thesis using f u by blast
qed

lemma dir_remove_small:
  assumes ok: "dir_ok s li" and room: "log_room (k + 4) s" and a: "i_addrs (li_state li) ! 0 \<noteq> 0"
    and n: "nents li \<le> 32" and f: "dir_get (li, s) nm \<noteq> None"
  shows "\<exists>d'. dir_remove now nm (li, s) = Some d'"
proof -
  have wf: "wf_fs s" using ok by (auto simp: dir_ok_def fs_inv_def)
  obtain t where t: "find (hit s li nm) [0..<nents li] = Some t"
    "dirlookup_full li nm s = Some (de_inum (ent s (i_addrs (li_state li)) t), DIRENT_SIZE * t)"
    using f by (auto simp: dir_get_def dirlookup_full_spec [OF wf])
  then have "t < 32" using n unfolding find_upt_Some by simp
  then obtain li' s' where "dirunlink_at now li (DIRENT_SIZE * t) s = Some (True, li', s')"
    using unlink_writes [OF ok room a] by blast
  then show ?thesis using t(2) by (simp add: dir_remove_def)
qed

end
