(* ===== verification/Path.thy ===== *)
theory Path
  imports Dir
begin

text \<open>
  Path resolution (\<open>fs/path.rs\<close>). \<open>namex_loop\<close> is the loop of \<open>namex\<close>, on the bytes of the
  path; the outer option of a result is a kernel panic (locking a free inode), the inner one
  the \<open>None\<close> of the source. The reference \<open>walk\<close> resolves a list of components instead and
  knows nothing of slashes or of how a symlink target is spliced into the rest of the path.

  Inodes are named by their number: the identity of \<open>iget\<close>'s handle. \<open>ilock_now\<close> gives the
  state \<open>ilock\<close> loads from the block of the inode.
\<close>

section \<open>Strings\<close>

definition slash :: byte where "slash = 47"

definition trim_slashes :: "byte list \<Rightarrow> byte list" where
  "trim_slashes path = dropWhile (\<lambda>b. b = slash) path"

definition starts_with_slash :: "byte list \<Rightarrow> bool" where
  "starts_with_slash path \<longleftrightarrow> path \<noteq> [] \<and> hd path = slash"

text \<open>The component before the first slash, and what follows that slash.\<close>

definition split_first :: "byte list \<Rightarrow> byte list \<times> byte list" where
  "split_first path = (takeWhile (\<lambda>b. b \<noteq> slash) path, drop 1 (dropWhile (\<lambda>b. b \<noteq> slash) path))"

text \<open>Well-formed UTF-8, the test of \<open>core::str::from_utf8\<close>: the byte ranges of the Unicode
  standard, which leave out overlong forms and surrogates.\<close>

definition byte_in :: "byte list \<Rightarrow> nat \<Rightarrow> nat \<Rightarrow> nat \<Rightarrow> bool" where
  "byte_in bs i lo hi \<longleftrightarrow> i < length bs \<and> lo \<le> unat (bs ! i) \<and> unat (bs ! i) \<le> hi"

function utf8_valid :: "byte list \<Rightarrow> bool" where
  "utf8_valid [] = True"
| "utf8_valid (a # bs) =
     (let x = unat a in
      if x < 0x80 then utf8_valid bs
      else if 0xC2 \<le> x \<and> x \<le> 0xDF then byte_in bs 0 0x80 0xBF \<and> utf8_valid (drop 1 bs)
      else if 0xE0 \<le> x \<and> x \<le> 0xEF then
        byte_in bs 0 (if x = 0xE0 then 0xA0 else 0x80) (if x = 0xED then 0x9F else 0xBF) \<and>
        byte_in bs 1 0x80 0xBF \<and> utf8_valid (drop 2 bs)
      else if 0xF0 \<le> x \<and> x \<le> 0xF4 then
        byte_in bs 0 (if x = 0xF0 then 0x90 else 0x80) (if x = 0xF4 then 0x8F else 0xBF) \<and>
        byte_in bs 1 0x80 0xBF \<and> byte_in bs 2 0x80 0xBF \<and> utf8_valid (drop 3 bs)
      else False)"
  by pat_completeness auto

termination
  by (relation "measure length") auto

section \<open>Resolution\<close>

definition MAX_SYMLINK_HOPS :: nat where "MAX_SYMLINK_HOPS = 40"

definition ilock_now :: "nat \<Rightarrow> fs \<Rightarrow> locked_inode option" where
  "ilock_now inum s = map_option (\<lambda>st. \<lparr>li_inum = inum, li_state = st\<rparr>) (load_from_disk inum s)"

definition read_symlink_body :: "nat \<Rightarrow> fs \<Rightarrow> byte list option option" where
  "read_symlink_body ip s = do {
     li \<leftarrow> ilock_now ip s;
     let sz = i_size (li_state li);
     Some (if sz = 0 \<or> sz > 256 then None
           else (let buf = fst (readi 0 li sz 0 s) in
             if length buf \<noteq> sz then None
             else if utf8_valid buf then Some buf else None)) }"

lemma split_first_shorter:
  assumes "trim_slashes p \<noteq> []"
  shows "length (snd (split_first (trim_slashes p))) < length p"
proof -
  have "length (trim_slashes p) \<le> length p" by (simp add: trim_slashes_def length_dropWhile_le)
  moreover have "length (dropWhile (\<lambda>b. b \<noteq> slash) (trim_slashes p)) \<le> length (trim_slashes p)"
    by (rule length_dropWhile_le)
  moreover have "0 < length (trim_slashes p)" using assms by simp
  ultimately show ?thesis unfolding split_first_def snd_conv length_drop by linarith
qed

function namex_loop :: "bool \<Rightarrow> bool \<Rightarrow> nat \<Rightarrow> nat \<Rightarrow> byte list \<Rightarrow> fs \<Rightarrow> (nat \<times> name option) option option" where
  "namex_loop want_parent follow_last ip hops path0 s =
     (let path = trim_slashes path0 in
      if path = [] then Some (if want_parent then None else Some (ip, None))
      else (let nm = fst (split_first path); rest = snd (split_first path); is_last = (trim_slashes rest = []) in
        (case ilock_now ip s of
           None \<Rightarrow> None
         | Some li \<Rightarrow>
             if i_typ (li_state li) \<noteq> T_DIR then Some None
             else if want_parent \<and> is_last then Some (Some (ip, Some nm))
             else (case dirlookup li nm s of
                 None \<Rightarrow> None
               | Some None \<Rightarrow> Some None
               | Some (Some nxt) \<Rightarrow>
                   (case ilock_now nxt s of
                      None \<Rightarrow> None
                    | Some nli \<Rightarrow>
                        if i_typ (li_state nli) = T_SYMLINK \<and> (\<not> is_last \<or> follow_last) then
                          if hops + 1 > MAX_SYMLINK_HOPS then Some None
                          else (case read_symlink_body nxt s of
                              None \<Rightarrow> None
                            | Some None \<Rightarrow> Some None
                            | Some (Some target) \<Rightarrow>
                                let path_buf = (if rest = [] then target else target @ slash # rest) in
                                namex_loop want_parent follow_last (if starts_with_slash path_buf then 1 else ip)
                                  (hops + 1) path_buf s)
                        else namex_loop want_parent follow_last nxt hops rest s)))))"
  by pat_completeness auto

termination
  by (relation "measures [\<lambda>(_, _, _, hops, _, _). MAX_SYMLINK_HOPS - hops, \<lambda>(_, _, _, _, path, _). length path]")
    (auto simp: split_first_shorter)

declare namex_loop.simps [simp del]

definition namex :: "nat \<Rightarrow> byte list \<Rightarrow> bool \<Rightarrow> bool \<Rightarrow> fs \<Rightarrow> (nat \<times> name option) option option" where
  "namex start path want_parent follow_last s =
     namex_loop want_parent follow_last (if starts_with_slash path then 1 else start) 0 path s"

definition namei_from :: "nat \<Rightarrow> byte list \<Rightarrow> fs \<Rightarrow> nat option option" where
  "namei_from start path s = map_option (map_option fst) (namex start path False True s)"

definition namei :: "byte list \<Rightarrow> fs \<Rightarrow> nat option option" where
  "namei path s = namei_from 1 path s"

definition namei_nofollow :: "nat \<Rightarrow> byte list \<Rightarrow> fs \<Rightarrow> nat option option" where
  "namei_nofollow start path s = map_option (map_option fst) (namex start path False False s)"

definition nameiparent_from :: "nat \<Rightarrow> byte list \<Rightarrow> fs \<Rightarrow> (nat \<times> name) option option" where
  "nameiparent_from start path s = do {
     r \<leftarrow> namex start path True True s;
     Some (case r of Some (ip, Some nm) \<Rightarrow> Some (ip, nm) | _ \<Rightarrow> None) }"

definition nameiparent :: "byte list \<Rightarrow> fs \<Rightarrow> (nat \<times> name) option option" where
  "nameiparent path s = nameiparent_from 1 path s"

section \<open>The reference: components\<close>

fun split_slash :: "byte list \<Rightarrow> name list" where
  "split_slash [] = [[]]"
| "split_slash (c # cs) =
     (if c = slash then [] # split_slash cs
      else (c # hd (split_slash cs)) # tl (split_slash cs))"

definition comps :: "byte list \<Rightarrow> name list" where
  "comps path = filter (\<lambda>nm. nm \<noteq> []) (split_slash path)"

function walk :: "bool \<Rightarrow> bool \<Rightarrow> nat \<Rightarrow> nat \<Rightarrow> name list \<Rightarrow> fs \<Rightarrow> (nat \<times> name option) option option" where
  "walk wp fl ip hops [] s = Some (if wp then None else Some (ip, None))"
| "walk wp fl ip hops (nm # rest) s =
     (case ilock_now ip s of
        None \<Rightarrow> None
      | Some li \<Rightarrow>
          if i_typ (li_state li) \<noteq> T_DIR then Some None
          else if wp \<and> rest = [] then Some (Some (ip, Some nm))
          else (case dirlookup li nm s of
              None \<Rightarrow> None
            | Some None \<Rightarrow> Some None
            | Some (Some nxt) \<Rightarrow>
                (case ilock_now nxt s of
                   None \<Rightarrow> None
                 | Some nli \<Rightarrow>
                     if i_typ (li_state nli) = T_SYMLINK \<and> (rest \<noteq> [] \<or> fl) then
                       if hops + 1 > MAX_SYMLINK_HOPS then Some None
                       else (case read_symlink_body nxt s of
                           None \<Rightarrow> None
                         | Some None \<Rightarrow> Some None
                         | Some (Some target) \<Rightarrow>
                             walk wp fl (if starts_with_slash target then 1 else ip) (hops + 1) (comps target @ rest) s)
                     else walk wp fl nxt hops rest s)))"
  by pat_completeness auto

termination
  by (relation "measures [\<lambda>(_, _, _, hops, _, _). MAX_SYMLINK_HOPS - hops, \<lambda>(_, _, _, _, cs, _). length cs]") auto

lemma split_slash_nonempty [simp]: "split_slash p \<noteq> []"
  by (cases p) auto

lemma comps_Nil [simp]: "comps [] = []"
  by (simp add: comps_def)

lemma comps_slash [simp]: "comps (slash # p) = comps p"
  by (simp add: comps_def)

lemma comps_trim: "comps (trim_slashes p) = comps p"
  by (induction p) (auto simp: trim_slashes_def)

lemma split_slash_append: "split_slash (a @ slash # b) = split_slash a @ split_slash b"
  by (induction a) auto

lemma comps_append: "comps (a @ slash # b) = comps a @ comps b"
  by (simp add: comps_def split_slash_append)

lemma split_slash_plain: "slash \<notin> set a \<Longrightarrow> split_slash a = [a]"
  by (induction a) auto

lemma comps_plain: "slash \<notin> set a \<Longrightarrow> a \<noteq> [] \<Longrightarrow> comps a = [a]"
  by (simp add: comps_def split_slash_plain)

lemma comps_split:
  assumes "p \<noteq> []" and "hd p \<noteq> slash"
  shows "comps p = fst (split_first p) # comps (snd (split_first p))"
proof -
  let ?a = "takeWhile (\<lambda>b. b \<noteq> slash) p" and ?r = "dropWhile (\<lambda>b. b \<noteq> slash) p"
  have a: "slash \<notin> set ?a" "?a \<noteq> []" using assms by (auto dest: set_takeWhileD simp: neq_Nil_conv)
  have p: "p = ?a @ ?r" by simp
  show ?thesis
  proof (cases ?r)
    case Nil
    then have "p = ?a" by (metis append_Nil2 p)
    then have "comps p = [?a]" using comps_plain [OF a] by metis
    then show ?thesis unfolding split_first_def Nil by simp
  next
    case (Cons c b)
    then have c: "c = slash" using hd_dropWhile [of "\<lambda>b. b \<noteq> slash" p] by simp
    have "comps p = comps (?a @ slash # b)" using p Cons c by simp
    also have "\<dots> = ?a # comps b" by (simp only: comps_append comps_plain [OF a] append_Cons append_Nil)
    finally show ?thesis unfolding split_first_def Cons by simp
  qed
qed

lemma trim_hd: "trim_slashes p \<noteq> [] \<Longrightarrow> hd (trim_slashes p) \<noteq> slash"
  unfolding trim_slashes_def using hd_dropWhile by blast

lemma trim_empty_iff: "trim_slashes p = [] \<longleftrightarrow> comps p = []"
proof
  assume "comps p = []"
  show "trim_slashes p = []"
  proof (rule ccontr)
    assume n: "trim_slashes p \<noteq> []"
    show False using comps_split [OF n trim_hd [OF n]] \<open>comps p = []\<close> by (simp add: comps_trim)
  qed
qed (metis comps_Nil comps_trim)

lemma read_symlink_body_nonempty:
  "read_symlink_body ip s = Some (Some t) \<Longrightarrow> t \<noteq> []"
  by (auto simp: read_symlink_body_def Let_def split: bind_splits if_splits)

lemma namex_loop_walk: "namex_loop wp fl ip hops path s = walk wp fl ip hops (comps path) s"
proof (induction wp fl ip hops path s rule: namex_loop.induct)
  case (1 wp fl ip hops path s)
  show ?case
  proof (cases "trim_slashes path = []")
    case True
    then show ?thesis by (simp add: namex_loop.simps [of wp] trim_empty_iff)
  next
    case False
    let ?p = "trim_slashes path"
    let ?nm = "fst (split_first ?p)" and ?rest = "snd (split_first ?p)"
    have cs: "comps path = ?nm # comps ?rest" using comps_split [OF False trim_hd [OF False]] by (simp add: comps_trim)
    have last: "trim_slashes ?rest = [] \<longleftrightarrow> comps ?rest = []" by (rule trim_empty_iff)
    have splice: "comps (if ?rest = [] then t else t @ slash # ?rest) = comps t @ comps ?rest" for t
      by (simp add: comps_append)
    have abs: "starts_with_slash (if ?rest = [] then t else t @ slash # ?rest) = starts_with_slash t"
      if "t \<noteq> []" for t using that by (simp add: starts_with_slash_def)
    show ?thesis
    proof (cases "\<exists>li nxt nli. ilock_now ip s = Some li \<and> i_typ (li_state li) = T_DIR \<and> \<not> (wp \<and> comps ?rest = []) \<and>
        dirlookup li ?nm s = Some (Some nxt) \<and> ilock_now nxt s = Some nli")
      case False
      then show ?thesis using \<open>?p \<noteq> []\<close>
        unfolding cs by (subst namex_loop.simps) (auto simp: Let_def last split: option.splits)
    next
      case True
      then obtain li nxt nli where c: "ilock_now ip s = Some li" "i_typ (li_state li) = T_DIR" "\<not> (wp \<and> comps ?rest = [])"
        "dirlookup li ?nm s = Some (Some nxt)" "ilock_now nxt s = Some nli" by blast
      note IH = "1.IH" [OF refl \<open>?p \<noteq> []\<close> refl refl refl c(1) _ _ c(4) refl c(5), unfolded last]
      show ?thesis
      proof (cases "i_typ (li_state nli) = T_SYMLINK \<and> (comps ?rest \<noteq> [] \<or> fl)")
        case sym: True
        show ?thesis
        proof (cases "\<exists>t. hops + 1 \<le> MAX_SYMLINK_HOPS \<and> read_symlink_body nxt s = Some (Some t)")
          case True
          then obtain t where t: "hops + 1 \<le> MAX_SYMLINK_HOPS" "read_symlink_body nxt s = Some (Some t)" by blast
          have "t \<noteq> []" using t(2) by (rule read_symlink_body_nonempty)
          then show ?thesis unfolding cs using t c sym \<open>?p \<noteq> []\<close> IH(1) [OF _ _ _ _ t(2) refl refl]
            by (subst namex_loop.simps) (auto simp: Let_def last splice abs not_less)
        next
          case False
          then show ?thesis unfolding cs using c sym \<open>?p \<noteq> []\<close>
            by (subst namex_loop.simps) (auto simp: Let_def last split: option.splits)
        qed
      next
        case False
        then show ?thesis unfolding cs using c \<open>?p \<noteq> []\<close> IH(2)
          by (subst namex_loop.simps) (auto simp: Let_def last)
      qed
    qed
  qed
qed

section \<open>Properties\<close>

text \<open>C33. Path strings are resolved component by component. For every file system, starting
  directory and path, the loop of \<open>namex\<close> over byte positions (leading, doubled and trailing
  slashes, splicing a symlink target in front of what is left) gives the result of walking
  the list of non-empty components, where a symlink is replaced by the components of its
  target, taken relative to the directory that holds it or from the root, at most
  \<open>MAX_SYMLINK_HOPS\<close> times.\<close>

theorem namex_walks_components:
  "namex start path want_parent follow_last s =
     walk want_parent follow_last (if starts_with_slash path then 1 else start) 0 (comps path) s"
  by (simp add: namex_def namex_loop_walk)

lemma ilock_now_synced:
  assumes "state_of_dinode (read_dinode (li_inum li) s) = li_state li" and "i_typ (li_state li) \<noteq> 0"
  shows "ilock_now (li_inum li) s = Some li"
  using assms by (simp add: ilock_now_def load_from_disk_def Let_def)

lemma dirlink_state:
  assumes ok: "dir_ok s li" and now: "now < 2 ^ 32" and i: "inum < 2 ^ 16"
    and d: "dirlink now li nm inum s = Some (True, li', s')"
  shows "state_of_dinode (read_dinode (li_inum li) s') = li_state li'"
    and "\<And>j. j < sb_ninodes (sb s) \<Longrightarrow> j \<noteq> li_inum li \<Longrightarrow> read_dinode j s' = read_dinode j s"
proof -
  have w: "writei now li (dirent_bytes (new_dirent nm inum)) (DIRENT_SIZE * link_slot s li) s = Some (DIRENT_SIZE, li', s')"
    using d unfolding dirlink_alt [OF ok] by (auto split: if_splits bind_splits)
  have inv: "fs_inv s" "locked_ok s li" using ok by (auto simp: dir_ok_def)
  show "state_of_dinode (read_dinode (li_inum li) s') = li_state li'"
    by (rule writei_fs_inv(4) [OF inv now w]) (simp add: DIRENT_SIZE_def)
  show "\<And>j. j < sb_ninodes (sb s) \<Longrightarrow> j \<noteq> li_inum li \<Longrightarrow> read_dinode j s' = read_dinode j s"
    by (rule writei_fs_inv(2) [OF inv now w])
qed

text \<open>C34. A linked name is found by its path. After \<open>dirlink\<close> has entered an inode that is not
  a symlink under a name without slashes, resolving the name from that directory, or from
  the root when the directory is the root, gives the inode, and asking for the parent gives
  the directory and the name.\<close>

theorem linked_name_resolves:
  assumes "dir_ok s li" and "now < 2 ^ 32" and "proper_name nm" and "nm \<noteq> []" and "slash \<notin> set nm"
    and "inode_live s inum" and "di_typ (read_dinode inum s) \<noteq> T_SYMLINK" and "inum < 2 ^ 16"
    and "dirlink now li nm inum s = Some (True, li', s')"
  shows "namei_from (li_inum li) nm s' = Some (Some inum) \<and>
    nameiparent_from (li_inum li) nm s' = Some (Some (li_inum li, nm)) \<and>
    (li_inum li = 1 \<longrightarrow> namei (slash # nm) s' = Some (Some inum))"
proof -
  have i: "inum \<noteq> 0" using assms(6) by (simp add: inode_live_def)
  note E = dirlink_effect [OF assms(1-3) i assms(8,9)] and S = dirlink_state [OF assms(1,2,8,9)]
  have ty: "i_typ (li_state li') = T_DIR" using E(1) by (simp add: dir_ok_def)
  have l: "ilock_now (li_inum li) s' = Some li'"
    using ilock_now_synced [of li' s'] S(1) E(6) ty by (simp add: T_DIR_def)
  obtain nli where n: "ilock_now inum s' = Some nli" "i_typ (li_state nli) \<noteq> T_SYMLINK"
  proof (cases "inum = li_inum li")
    case True
    then show ?thesis using that l ty by (simp add: type_defs)
  next
    case False
    then have "read_dinode inum s' = read_dinode inum s" using S(2) assms(6) by (simp add: inode_live_def)
    then show ?thesis using that assms(6,7)
      by (simp add: ilock_now_def load_from_disk_def Let_def inode_live_def state_of_dinode_def)
  qed
  have cs: "comps nm = [nm]" "comps (slash # nm) = [nm]" using comps_plain [OF assms(5,4)] by simp_all
  have st: "\<not> starts_with_slash nm" "starts_with_slash (slash # nm)"
    using assms(4,5) by (auto simp: starts_with_slash_def dest: hd_in_set)
  show ?thesis using l n ty E(2) st
    by (auto simp: namei_def namei_from_def nameiparent_from_def namex_def namex_loop_walk cs)
qed

theorem linked_name_resolves_witness:
  "\<exists>s1 li2 s2. dirlink 6 new_dir_li dot 1 s1 = Some (True, li2, s2) \<and> namei [slash, 46] s2 = Some (Some 1)"
proof -
  obtain s1 where s1: "log_room 19 s1" "dir_ok s1 new_dir_li" "sb s1 = sb tiny_fs"
    "\<And>c. c < 100 \<Longrightarrow> allocated s1 c \<longleftrightarrow> c < 40" "read_dinode (Suc 0) s1 = new_dir" by (rule tiny_mkdir) blast
  have "link_slot s1 new_dir_li = 0" using link_slot_free(1) [of s1 new_dir_li] by simp
  moreover have "wf_fs s1" using s1(2) by (simp add: dir_ok_def fs_inv_def)
  then have "dirlookup new_dir_li dot s1 = Some None" by (simp add: dirlookup_spec)
  moreover have "\<exists>c < sb_size (sb s1). \<not> allocated s1 c" using s1(3,4) by (auto intro!: exI [of _ 40])
  moreover have "log_room (15 + 4) s1" using s1(1) by simp
  ultimately obtain li2 s2 where d: "dirlink 6 new_dir_li dot 1 s1 = Some (True, li2, s2)"
    using link_writes [OF s1(2), of 15 1 dot 6] by auto
  have live: "inode_live s1 1" using s1(2) by (simp add: dir_ok_def locked_ok_def new_dir_li_def)
  have "di_typ (read_dinode 1 s1) \<noteq> T_SYMLINK" using s1(5) by (simp add: new_dir_def type_defs)
  then have "namei (slash # dot) s2 = Some (Some 1)"
    using linked_name_resolves [OF s1(2) _ _ _ _ live _ _ d]
    by (simp add: proper_name_def dot_def slash_def new_dir_li_def)
  then show ?thesis using d by (auto simp: dot_def)
qed

end
