(* ===== verification/Itrunc.thy ===== *)
theory Itrunc
  imports Ifile
begin

text \<open>
  Correctness of truncation (\<open>itrunc\<close> and \<open>itrunc_to\<close> of \<open>fs/inode.rs\<close>): the blocks past the new
  end, and no others, are given back to the bitmap, each once; the bytes before the new end
  are kept and the ones after it are gone; and a whole truncation fits in the log space an
  operation reserves, whatever the size of the file.
\<close>

section \<open>Log space for writes that repeat\<close>

text \<open>Freeing thousands of blocks writes the same few bitmap blocks over and over, and the log
  absorbs repeated writes: what counts is the set \<open>W\<close> of blocks written.\<close>

definition logged :: "fs \<Rightarrow> nat set" where
  "logged s = set (take (lh_n (lh (flog s))) (lh_block (lh (flog s))))"

definition log_fits :: "nat set \<Rightarrow> fs \<Rightarrow> bool" where
  "log_fits W s \<longleftrightarrow> finite W \<and> 0 < outstanding (flog s) \<and> length (lh_block (lh (flog s))) = LOGSIZE \<and>
     lh_n (lh (flog s)) + card (W - logged s) < LOGSIZE"

lemma blk_write_fits:
  assumes "log_fits W s" and "b \<in> W"
  shows "\<exists>s'. blk_write b x s = Some s' \<and> log_fits W s'"
proof (cases "b \<in> logged s")
  case True
  then show ?thesis using assms by (auto simp: blk_write_def log_write_def log_fits_def logged_def)
next
  case False
  let ?n = "lh_n (lh (flog s))" and ?bs = "lh_block (lh (flog s))"
  have n: "?n < length ?bs" using assms(1) by (simp add: log_fits_def)
  then have l: "set (take (Suc ?n) (?bs[?n := b])) = insert b (logged s)"
    by (simp add: logged_def take_Suc_conv_app_nth)
  have "card (W - insert b (logged s)) = card (W - logged s) - 1"
    using assms False by (metis Diff_insert Diff_iff card_Diff_singleton)
  moreover have "0 < card (W - logged s)"
    using assms False by (auto simp: log_fits_def card_gt_0_iff)
  ultimately have "Suc ?n + card (W - insert b (logged s)) < LOGSIZE"
    using assms(1) by (simp add: log_fits_def)
  then show ?thesis
    using assms(1) False n l by (auto simp: blk_write_def log_write_def log_fits_def logged_def)
qed

section \<open>Freeing several blocks\<close>

definition data_block :: "fs \<Rightarrow> nat \<Rightarrow> bool" where
  "data_block s b \<longleftrightarrow> data_start s \<le> b \<and> b < sb_size (sb s)"

definition bitmap :: "fs \<Rightarrow> nat set" where
  "bitmap s = {sb_bmapstart (sb s)..<data_start s}"

text \<open>The blocks of \<open>B\<close> have been given back and nothing outside the bitmap has changed.\<close>

definition released :: "nat set \<Rightarrow> fs \<Rightarrow> fs \<Rightarrow> bool" where
  "released B s s' \<longleftrightarrow>
     wf_fs s' \<and> sb s' = sb s \<and> (\<forall>c. c \<notin> bitmap s \<longrightarrow> blk s' c = blk s c) \<and>
     (\<forall>c < sb_size (sb s). allocated s' c \<longleftrightarrow> allocated s c \<and> c \<notin> B)"

lemma bm_block_bitmap: "data_block s b \<Longrightarrow> bm_block s b \<in> bitmap s"
  using bm_block_meta [of b s] by (simp add: bitmap_def data_block_def)

lemma bitmap_cong: "sb s' = sb s \<Longrightarrow> bitmap s' = bitmap s" "sb s' = sb s \<Longrightarrow> data_block s' b = data_block s b"
  by (simp_all add: bitmap_def data_block_def data_start_def)

lemma data_not_bitmap: "data_block s b \<Longrightarrow> b \<notin> bitmap s"
  by (simp add: bitmap_def data_block_def)

lemma bfree_released:
  assumes "wf_fs s" "data_block s b" "bfree b s = Some s'"
  shows "released {b} s s'"
proof -
  have "freed s b s'" using bfree_Some [OF assms(1) _ _ assms(3)] assms(2) by (simp add: data_block_def)
  moreover have "c \<noteq> bm_block s b" if "c \<notin> bitmap s" for c using that bm_block_bitmap [OF assms(2)] by blast
  ultimately show ?thesis by (auto simp: released_def freed_def)
qed

lemma released_trans:
  assumes "released A s s1" "released B s1 s2"
  shows "released (A \<union> B) s s2"
  using assms bitmap_cong(1) [of s1 s] by (auto simp: released_def)

lemma released_refl: "wf_fs s \<Longrightarrow> released {} s s"
  by (simp add: released_def)

lemma free_blocks_released:
  assumes "wf_fs s" "\<forall>b \<in> set bs. data_block s b" "free_blocks bs s = Some s'"
  shows "released (set bs) s s'"
  using assms
proof (induction bs arbitrary: s)
  case (Cons b bs)
  then obtain s1 where s1: "bfree b s = Some s1" "free_blocks bs s1 = Some s'"
    by (auto split: bind_splits)
  have r: "released {b} s s1" using bfree_released Cons.prems s1 by simp
  then have "released (set bs) s1 s'"
    using Cons.IH [OF _ _ s1(2)] Cons.prems bitmap_cong(2) [of s1 s] by (auto simp: released_def)
  from released_trans [OF r this] show ?case by simp
qed (simp add: released_refl)

lemma free_blocks_fits:
  assumes "wf_fs s" "\<forall>b \<in> set bs. data_block s b \<and> allocated s b" "distinct bs" "log_fits W s" "bitmap s \<subseteq> W"
  shows "\<exists>s'. free_blocks bs s = Some s' \<and> log_fits W s'"
  using assms
proof (induction bs arbitrary: s)
  case (Cons b bs)
  have b: "data_block s b" "allocated s b" using Cons.prems(2) by auto
  then have "bm_block s b \<in> W" using bm_block_bitmap Cons.prems(5) by blast
  with b blk_write_fits [OF Cons.prems(4)] obtain s1 where s1: "bfree b s = Some s1" "log_fits W s1"
    unfolding bfree_alt by fastforce
  have r: "released {b} s s1" by (rule bfree_released [OF Cons.prems(1) b(1) s1(1)])
  have "\<exists>s'. free_blocks bs s1 = Some s' \<and> log_fits W s'"
  proof (rule Cons.IH [OF _ _ _ s1(2)])
    show "\<forall>c \<in> set bs. data_block s1 c \<and> allocated s1 c"
      using r Cons.prems(2,3) bitmap_cong(2) [of s1 s] by (auto simp: released_def data_block_def)
  qed (use r Cons.prems bitmap_cong(1) [of s1 s] in \<open>auto simp: released_def\<close>)
  then show ?case using s1 by simp
qed simp

lemma free_blocks_append: "free_blocks (xs @ ys) s = do { s1 \<leftarrow> free_blocks xs s; free_blocks ys s1 }"
  by (induction xs arbitrary: s) auto

text \<open>Freeing the blocks that a pointer block names.\<close>

definition nonzero :: "nat list \<Rightarrow> nat list" where
  "nonzero xs = filter (\<lambda>x. x \<noteq> 0) xs"

lemma nonzero_simps [simp]: "nonzero [] = []" "nonzero (x # xs) = (if x = 0 then nonzero xs else x # nonzero xs)"
  "nonzero (xs @ ys) = nonzero xs @ nonzero ys" "set (nonzero xs) = set xs - {0}"
  by (auto simp: nonzero_def)

lemma free_entries_alt:
  assumes "wf_fs s" "data_block s b" "\<forall>j \<in> set js. entry s b j \<noteq> 0 \<longrightarrow> data_block s (entry s b j)"
  shows "free_entries b js s = free_blocks (nonzero (map (entry s b) js)) s"
  using assms
proof (induction js arbitrary: s)
  case (Cons j js)
  show ?case
  proof (cases "entry s b j = 0 \<or> bfree (entry s b j) s = None")
    case True
    then show ?thesis using Cons by auto
  next
    case False
    then obtain s1 where s1: "bfree (entry s b j) s = Some s1" by auto
    have r: "released {entry s b j} s s1" using bfree_released [OF _ _ s1] Cons.prems False by simp
    then have e: "entry s1 b i = entry s b i" for i
      using data_not_bitmap [OF Cons.prems(2)] by (simp add: entry_def released_def)
    have "free_entries b js s1 = free_blocks (nonzero (map (entry s1 b) js)) s1"
      using r Cons.prems bitmap_cong(2) [of s1 s] by (intro Cons.IH) (auto simp: e released_def)
    moreover have "map (entry s1 b) js = map (entry s b) js" using e by simp
    ultimately show ?thesis using False s1 by (simp only: free_entries.simps map_append list.map nonzero_simps) simp
  qed
qed simp

definition leaf_blocks :: "fs \<Rightarrow> nat \<Rightarrow> nat list" where
  "leaf_blocks s leaf = nonzero (map (entry s leaf) [0..<NINDIRECT]) @ [leaf]"

lemma free_leaves_alt:
  assumes "wf_fs s" "\<forall>l \<in> set ls. data_block s l \<and> (\<forall>j < NINDIRECT. entry s l j \<noteq> 0 \<longrightarrow> data_block s (entry s l j))"
  shows "free_leaves ls s = free_blocks (concat (map (leaf_blocks s) ls)) s"
  using assms
proof (induction ls arbitrary: s)
  case (Cons l ls)
  have l: "data_block s l" "\<forall>j \<in> set [0..<NINDIRECT]. entry s l j \<noteq> 0 \<longrightarrow> data_block s (entry s l j)"
    using Cons.prems(2) by auto
  have fl: "free_leaves (l # ls) s = do { s2 \<leftarrow> free_blocks (leaf_blocks s l) s; free_leaves ls s2 }"
    by (simp add: free_entries_alt [OF Cons.prems(1) l] leaf_blocks_def free_blocks_append del: upt.simps)
  show ?case
  proof (cases "free_blocks (leaf_blocks s l) s")
    case None
    then show ?thesis unfolding fl by (simp add: free_blocks_append)
  next
    case (Some s2)
    have "\<forall>b \<in> set (leaf_blocks s l). data_block s b" using l by (auto simp: leaf_blocks_def)
    from free_blocks_released [OF Cons.prems(1) this Some] have r: "released (set (leaf_blocks s l)) s s2" .
    then have e: "entry s2 k i = entry s k i" if "k \<in> set ls" for k i
      using data_not_bitmap [of s k] Cons.prems(2) that by (simp add: entry_def released_def)
    have "free_leaves ls s2 = free_blocks (concat (map (leaf_blocks s2) ls)) s2"
      using r Cons.prems bitmap_cong(2) [of s2 s] by (intro Cons.IH) (auto simp: e released_def)
    moreover have "map (leaf_blocks s2) ls = map (leaf_blocks s) ls" using e by (simp add: leaf_blocks_def cong: map_cong)
    ultimately show ?thesis unfolding fl by (simp add: Some free_blocks_append)
  qed
qed simp

section \<open>Clearing the end of a pointer block\<close>

lemma clear_fold:
  assumes "length bs = BSIZE" "\<forall>j \<in> set js. j < NINDIRECT"
  shows "length (fold (\<lambda>j d. if le_at (j * 4) 4 d \<noteq> 0 then splice (j * 4) (replicate 4 0) d else d) js bs) = BSIZE \<and>
    (\<forall>i < NINDIRECT. le_at (i * 4) 4 (fold (\<lambda>j d. if le_at (j * 4) 4 d \<noteq> 0 then splice (j * 4) (replicate 4 0) d else d) js bs)
       = (if i \<in> set js then 0 else le_at (i * 4) 4 bs))"
  using assms
proof (induction js arbitrary: bs)
  case (Cons j js)
  let ?d = "if le_at (j * 4) 4 bs \<noteq> 0 then splice (j * 4) (replicate 4 0) bs else bs"
  have j: "j < NINDIRECT" "j * 4 + 4 \<le> BSIZE" using Cons.prems(2) by (auto simp: layout_simps)
  have z: "le_bytes k 0 = replicate k 0" for k by (induction k) simp_all
  have e: "le_at (i * 4) 4 ?d = (if i = j then 0 else le_at (i * 4) 4 bs)" if i: "i < NINDIRECT" for i
  proof -
    have "le_at (i * 4) 4 (splice (j * 4) (replicate 4 0) bs) = (if i = j then 0 else le_at (i * 4) 4 bs)"
      using le_at_slot [OF Cons.prems(1) j(1) i, of 0] unfolding z by simp
    then show ?thesis by presburger
  qed
  have l: "length ?d = BSIZE" using Cons.prems(1) j(2) by simp
  have "\<forall>j \<in> set js. j < NINDIRECT" using Cons.prems(2) by simp
  note IH = Cons.IH [OF l this]
  show ?case
    unfolding fold.simps comp_apply
  proof (intro conjI allI impI)
    fix i assume i: "i < NINDIRECT"
    show "le_at (i * 4) 4 (fold (\<lambda>j d. if le_at (j * 4) 4 d \<noteq> 0 then splice (j * 4) (replicate 4 0) d else d) js ?d)
        = (if i \<in> set (j # js) then 0 else le_at (i * 4) 4 bs)"
      using conjunct2 [OF IH, rule_format, OF i] unfolding e [OF i] list.set insert_iff
      by (cases "i = j"; cases "i \<in> set js") (simp_all only: if_True if_False simp_thms)
  qed (use IH in blast)
qed simp

lemma clear_entries_len: "length bs = BSIZE \<Longrightarrow> length (clear_entries lo bs) = BSIZE"
  and clear_entries_at: "length bs = BSIZE \<Longrightarrow> i < NINDIRECT \<Longrightarrow>
    le_at (i * 4) 4 (clear_entries lo bs) = (if lo \<le> i then 0 else le_at (i * 4) 4 bs)"
  using clear_fold [of bs "[lo..<NINDIRECT]"] unfolding clear_entries_def by auto

lemma tail_entries_alt: "tail_entries (blk s b) lo = nonzero (map (entry s b) [lo..<NINDIRECT])"
  by (simp add: tail_entries_def nonzero_def entry_def [abs_def])

section \<open>Pruning a tree\<close>

text \<open>\<open>pruned D\<close>: the places in \<open>D\<close> hold nothing any more and the blocks they held are free; the
  other places, the data in them and everything of other owners is as before.\<close>

definition pruned :: "(ptr \<Rightarrow> bool) \<Rightarrow> fs \<Rightarrow> nat list \<Rightarrow> fs \<Rightarrow> nat list \<Rightarrow> bool" where
  "pruned D s a s' a' \<longleftrightarrow>
     wf_fs s' \<and> sb s' = sb s \<and> length a' = NDIRECT + 2 \<and>
     (\<forall>q. valid_ptr q \<longrightarrow> pv s' a' q = (if D q then 0 else pv s a q)) \<and>
     (\<forall>c < sb_size (sb s). allocated s' c \<longleftrightarrow>
        allocated s c \<and> \<not> (\<exists>q. valid_ptr q \<and> D q \<and> pv s a q = c \<and> c \<noteq> 0)) \<and>
     (\<forall>c. foreign s a c \<longrightarrow> blk s' c = blk s c) \<and>
     (\<forall>q. valid_ptr q \<longrightarrow> is_data q \<longrightarrow> \<not> D q \<longrightarrow> pv s a q \<noteq> 0 \<longrightarrow> blk s' (pv s a q) = blk s (pv s a q))"

lemma prunedD:
  assumes "pruned D s a s' a'"
  shows "wf_fs s'" "sb s' = sb s" "length a' = NDIRECT + 2" "data_start s' = data_start s"
    "\<And>q. valid_ptr q \<Longrightarrow> pv s' a' q = (if D q then 0 else pv s a q)"
    "\<And>c. c < sb_size (sb s) \<Longrightarrow> allocated s' c \<longleftrightarrow>
        allocated s c \<and> \<not> (\<exists>q. valid_ptr q \<and> D q \<and> pv s a q = c \<and> c \<noteq> 0)"
    "\<And>c. foreign s a c \<Longrightarrow> blk s' c = blk s c"
    "\<And>q. valid_ptr q \<Longrightarrow> is_data q \<Longrightarrow> \<not> D q \<Longrightarrow> pv s a q \<noteq> 0 \<Longrightarrow> blk s' (pv s a q) = blk s (pv s a q)"
  using assms unfolding pruned_def by (auto intro: data_start_cong)

lemma pruned_wf_tree:
  assumes wf: "wf_tree s a" and p: "pruned D s a s' a'"
  shows "wf_tree s' a'"
  unfolding wf_tree_def
proof (intro conjI allI impI)
  note P = prunedD [OF p]
  show "length a' = NDIRECT + 2" by (rule P(3))
  fix q assume q: "valid_ptr q" "pv s' a' q \<noteq> 0"
  then have e: "\<not> D q" "pv s' a' q = pv s a q" "pv s a q \<noteq> 0" using P(5) [of q] by (auto split: if_splits)
  note W = wf_treeD [OF wf q(1) e(3)]
  show "data_start s' \<le> pv s' a' q" "pv s' a' q < sb_size (sb s')" using e W P(2,4) by auto
  show "allocated s' (pv s' a' q)" using e W(3,4) P(6) [OF W(2)] by metis
  fix r assume "valid_ptr r" "pv s' a' q = pv s' a' r"
  then show "q = r" using e W(4) P(5) [of r] by (auto split: if_splits)
qed

lemma pruned_foreign:
  assumes p: "pruned D s a s' a'" and f: "foreign s a c"
  shows "foreign s' a' c"
proof -
  note P = prunedD [OF p]
  have "\<not> tree_block s' a' c" if "\<not> tree_block s a c"
    using that P(5) by (auto simp: tree_block_def split: if_splits)
  then show ?thesis using f P(2,4,6) by (auto simp: foreign_def tree_block_def)
qed

lemma pruned_trans:
  assumes 1: "pruned D s a s1 a1" and 2: "pruned E s1 a1 s2 a2"
  shows "pruned (\<lambda>q. D q \<or> E q) s a s2 a2"
  unfolding pruned_def
proof (intro conjI allI impI)
  note P = prunedD [OF 1] and Q = prunedD [OF 2]
  show "wf_fs s2" "sb s2 = sb s" "length a2 = NDIRECT + 2" using P Q by auto
  show "pv s2 a2 q = (if D q \<or> E q then 0 else pv s a q)" if "valid_ptr q" for q
    using P(5) Q(5) that by auto
  show "blk s2 c = blk s c" if "foreign s a c" for c
    using Q(7) [OF pruned_foreign [OF 1 that]] P(7) [OF that] by simp
  show "blk s2 (pv s a q) = blk s (pv s a q)"
    if "valid_ptr q" "is_data q" "\<not> (D q \<or> E q)" "pv s a q \<noteq> 0" for q
    using that P(5,8) [of q] Q(8) [of q] by simp
  fix c assume c: "c < sb_size (sb s)"
  have "(\<exists>q. valid_ptr q \<and> D q \<and> pv s a q = c \<and> c \<noteq> 0) \<or> (\<exists>q. valid_ptr q \<and> E q \<and> pv s1 a1 q = c \<and> c \<noteq> 0)
    \<longleftrightarrow> (\<exists>q. valid_ptr q \<and> (D q \<or> E q) \<and> pv s a q = c \<and> c \<noteq> 0)"
    (is "?D \<or> ?E \<longleftrightarrow> ?DE")
  proof
    assume "?D \<or> ?E"
    then show ?DE using P(5) by (auto split: if_splits)
  next
    assume ?DE
    then obtain q where q: "valid_ptr q" "D q \<or> E q" "pv s a q = c" "c \<noteq> 0" by blast
    then show "?D \<or> ?E" using P(5) [of q] by (cases "D q") auto
  qed
  then show "allocated s2 c \<longleftrightarrow> allocated s c \<and> \<not> (\<exists>q. valid_ptr q \<and> (D q \<or> E q) \<and> pv s a q = c \<and> c \<noteq> 0)"
    using P(6) [OF c] Q(6) [of c] c P(2) by auto
qed

lemma pruned_none:
  assumes "wf_fs s" "length a = NDIRECT + 2" "\<And>q. valid_ptr q \<Longrightarrow> D q \<Longrightarrow> pv s a q = 0"
  shows "pruned D s a s a"
  using assms by (auto simp: pruned_def)

lemma pruned_cong:
  assumes "pruned D s a s' a'" "\<And>q. valid_ptr q \<Longrightarrow> pv s a q \<noteq> 0 \<Longrightarrow> D q = E q"
  shows "pruned E s a s' a'"
proof -
  note P = prunedD [OF assms(1)]
  have "pv s' a' q = (if E q then 0 else pv s a q)" if "valid_ptr q" for q
    using P(5) [OF that] assms(2) [OF that] by (cases "pv s a q = 0") auto
  moreover have "(\<exists>q. valid_ptr q \<and> D q \<and> pv s a q = c \<and> c \<noteq> 0) \<longleftrightarrow> (\<exists>q. valid_ptr q \<and> E q \<and> pv s a q = c \<and> c \<noteq> 0)" for c
    using assms(2) by metis
  ultimately show ?thesis
    using P(1-3,6,7) P(8) assms(2) unfolding pruned_def by simp
qed

text \<open>One step of truncation: a state \<open>s1\<close> in which the places of \<open>ps\<close> have been cleared, whose
  blocks are then freed.\<close>

definition vals :: "fs \<Rightarrow> nat list \<Rightarrow> ptr list \<Rightarrow> nat list" where
  "vals s a ps = nonzero (map (pv s a) ps)"

definition cleared :: "(ptr \<Rightarrow> bool) \<Rightarrow> fs \<Rightarrow> nat list \<Rightarrow> fs \<Rightarrow> nat list \<Rightarrow> bool" where
  "cleared D s a s1 a' \<longleftrightarrow>
     wf_fs s1 \<and> sb s1 = sb s \<and> length a' = NDIRECT + 2 \<and>
     (\<forall>c < sb_size (sb s). allocated s1 c = allocated s c) \<and>
     (\<forall>c. foreign s a c \<longrightarrow> blk s1 c = blk s c) \<and>
     (\<forall>q. valid_ptr q \<longrightarrow> is_data q \<longrightarrow> pv s a q \<noteq> 0 \<longrightarrow> blk s1 (pv s a q) = blk s (pv s a q)) \<and>
     (\<forall>q. valid_ptr q \<longrightarrow> pv s1 a' q = (if D q then 0 else pv s a q))"

lemma distinct_vals:
  assumes "wf_tree s a" "distinct ps" "\<forall>p \<in> set ps. valid_ptr p"
  shows "distinct (vals s a ps)"
  using assms(2,3)
proof (induction ps)
  case (Cons p ps)
  then have "pv s a p \<notin> set (map (pv s a) ps)" if "pv s a p \<noteq> 0"
    using wf_treeD(4) [OF assms(1), of p] that by auto
  then show ?case using Cons by (auto simp: vals_def)
qed (simp add: vals_def)

lemma foreign_not_tree: "wf_tree s a \<Longrightarrow> foreign s a c \<Longrightarrow> \<not> tree_block s a c"
  using wf_treeD(1) [of s a] by (auto simp: foreign_def tree_block_def data_start_def) fastforce

lemma prune_free:
  assumes wf: "wf_tree s a" and cl: "cleared D s a s1 a'"
    and ps: "distinct ps" "\<forall>p \<in> set ps. valid_ptr p"
    and D: "\<And>q. valid_ptr q \<Longrightarrow> pv s a q \<noteq> 0 \<Longrightarrow> D q \<longleftrightarrow> q \<in> set ps"
    and W: "log_fits W s1" "bitmap s \<subseteq> W"
  shows "\<exists>s'. free_blocks (vals s a ps) s1 = Some s' \<and> pruned D s a s' a' \<and> log_fits W s'"
proof -
  have c: "wf_fs s1" "sb s1 = sb s" "length a' = NDIRECT + 2" "\<And>c. c < sb_size (sb s) \<Longrightarrow> allocated s1 c = allocated s c"
    "\<And>c. foreign s a c \<Longrightarrow> blk s1 c = blk s c"
    "\<And>q. valid_ptr q \<Longrightarrow> is_data q \<Longrightarrow> pv s a q \<noteq> 0 \<Longrightarrow> blk s1 (pv s a q) = blk s (pv s a q)"
    "\<And>q. valid_ptr q \<Longrightarrow> pv s1 a' q = (if D q then 0 else pv s a q)"
    using cl unfolding cleared_def by blast+
  have ds: "data_start s1 = data_start s" by (rule data_start_cong [OF c(2)])
  have set: "set (vals s a ps) = {pv s a q |q. valid_ptr q \<and> D q \<and> pv s a q \<noteq> 0}"
    using ps(2) D by (auto simp: vals_def)
  have db: "data_block s1 b \<and> allocated s1 b" if "b \<in> set (vals s a ps)" for b
    using that wf_treeD(1-3) [OF wf] c(2,4) ds unfolding set by (auto simp: data_block_def)
  obtain s' where s': "free_blocks (vals s a ps) s1 = Some s'" "log_fits W s'"
    using free_blocks_fits [OF c(1) _ distinct_vals [OF wf ps] W(1)] db bitmap_cong(1) [OF c(2)] W(2) by auto
  have r: "released (set (vals s a ps)) s1 s'" using free_blocks_released [OF c(1) _ s'(1)] db by blast
  have keep: "blk s' b = blk s1 b" if "b \<notin> bitmap s" for b
    using r that bitmap_cong(1) [OF c(2)] by (simp add: released_def)
  have nb: "b \<notin> bitmap s" if "tree_block s a b" for b
    using that wf_treeD(1) [OF wf] unfolding tree_block_def bitmap_def by fastforce
  have "tree_block s a b" if "tree_block s1 a' b" for b
    using that c(7) by (auto simp: tree_block_def split: if_splits)
  then have pv': "pv s' a' q = pv s1 a' q" if "valid_ptr q" for q
    using tree_frame(1) [of s1 a' s', OF _ that] keep nb by blast
  have "pruned D s a s' a'"
    unfolding pruned_def
  proof (intro conjI allI impI)
    show "wf_fs s'" "sb s' = sb s" "length a' = NDIRECT + 2" using r c by (auto simp: released_def)
    show "pv s' a' q = (if D q then 0 else pv s a q)" if "valid_ptr q" for q
      using pv' [OF that] c(7) [OF that] by simp
    show "allocated s' d \<longleftrightarrow> allocated s d \<and> \<not> (\<exists>q. valid_ptr q \<and> D q \<and> pv s a q = d \<and> d \<noteq> 0)"
      if "d < sb_size (sb s)" for d
      using r that c(2,4) unfolding released_def set by auto
    show "blk s' d = blk s d" if "foreign s a d" for d
    proof -
      have "d \<notin> bitmap s" using that by (auto simp: foreign_def bitmap_def)
      then show ?thesis using keep c(5) [OF that] by simp
    qed
    show "blk s' (pv s a q) = blk s (pv s a q)" if "valid_ptr q" "is_data q" "\<not> D q" "pv s a q \<noteq> 0" for q
      using keep [OF nb, of "pv s a q"] c(6) that by (auto simp: tree_block_def)
  qed
  then show ?thesis using s' by blast
qed

section \<open>The steps of a truncation\<close>

text \<open>Places that hang below entry \<open>lo\<close> or later of the pointer block at \<open>p\<close>.\<close>

definition below :: "ptr \<Rightarrow> nat \<Rightarrow> ptr \<Rightarrow> bool" where
  "below p lo q \<longleftrightarrow> is_entry q \<and>
     (parent q = p \<and> lo \<le> eidx q \<or> is_entry (parent q) \<and> parent (parent q) = p \<and> lo \<le> eidx (parent q))"

lemma clear_entry0:
  assumes "wf_fs s" "pb \<noteq> 0" and s1: "blk s1 = (blk s)(pb := clear_entries lo (blk s pb))" and "i < NINDIRECT"
  shows "entry0 s1 b i = (if b = pb \<and> lo \<le> i then 0 else entry0 s b i)"
  using assms clear_entries_at [of "blk s pb" i lo] by (simp add: entry0_def entry_def)

lemma clear_pv:
  assumes wf: "wf_fs s" "wf_tree s a" and p: "valid_ptr p" "\<not> is_data p" "pv s a p = pb" "pb \<noteq> 0"
    and s1: "blk s1 = (blk s)(pb := clear_entries lo (blk s pb))" and q: "valid_ptr q"
  shows "pv s1 a q = (if below p lo q then 0 else pv s a q)"
proof -
  note E = clear_entry0 [OF wf(1) p(4) s1]
  have same: "pv s a r = pb \<longleftrightarrow> r = p" if "valid_ptr r" for r
    using wf_treeD(4) [OF wf(2) p(1), of r] p(3,4) that by metis
  have step: "pv s1 a r = (if parent r = p \<and> lo \<le> eidx r then 0 else pv s a r)"
    if r: "is_entry r" "valid_ptr r" "pv s1 a (parent r) = pv s a (parent r)" for r
  proof -
    have v: "valid_ptr (parent r)" "eidx r < NINDIRECT" using entry_valid [OF r(1,2)] by auto
    have "pv s1 a r = entry0 s1 (pv s a (parent r)) (eidx r)" unfolding pv_entry [OF r(1), of s1 a] r(3) ..
    also have "\<dots> = (if parent r = p \<and> lo \<le> eidx r then 0 else entry0 s (pv s a (parent r)) (eidx r))"
      unfolding E [OF v(2)] same [OF v(1)] ..
    finally show ?thesis unfolding pv_entry [OF r(1), of s a] .
  qed
  show ?thesis
  proof (cases q)
    case (LeafE o' i)
    then have oi: "o' < NINDIRECT" "i < NINDIRECT" using q by auto
    have root: "pv s1 a (RootE o') = (if Root = p \<and> lo \<le> o' then 0 else pv s a (RootE o'))"
      using step [of "RootE o'"] oi by simp
    show ?thesis
    proof (cases "Root = p \<and> lo \<le> o'")
      case True
      then have "entry0 s1 (a ! NDOUBLE_SLOT) o' = 0" using root by simp
      then have "pv s1 a q = 0" by (simp add: LeafE entry0_def [of s1 0])
      then show ?thesis using True by (auto simp: below_def LeafE)
    next
      case False
      then show ?thesis using step [of q] root q by (auto simp: below_def LeafE)
    qed
  qed (use step [of q] q in \<open>auto simp: below_def\<close>)
qed

lemma write_pointer_block:
  assumes wf: "wf_fs s" "wf_tree s a" and p: "valid_ptr p" "\<not> is_data p" "pv s a p = pb" "pb \<noteq> 0"
    and W: "log_fits W s" "pb \<in> W"
  shows "\<exists>s1. blk_write pb (clear_entries lo (blk s pb)) s = Some s1 \<and> cleared (below p lo) s a s1 a \<and> log_fits W s1"
proof -
  obtain s1 where s1: "blk_write pb (clear_entries lo (blk s pb)) s = Some s1" "log_fits W s1"
    using blk_write_fits [OF W] by blast
  note B = blk_write_Some(1,2) [OF s1(1)]
  note P = wf_treeD [OF wf(2) p(1), unfolded p(3), OF p(4)]
  have al: "allocated s1 c = allocated s c" if "c < sb_size (sb s)" for c
    using bm_block_meta(1) [OF that] P(1) B by (auto simp: allocated_def bm_block_def)
  have "wf_fs s1"
    using wf(1) al wf_data_start [OF wf(1)] B data_start_cong [OF B(2)] clear_entries_len
    by (auto simp: wf_fs_def)
  moreover have "blk s1 c = blk s c" if "foreign s a c" for c
    using foreign_not_tree [OF wf(2) that] p B by (auto simp: tree_block_def)
  moreover have "blk s1 (pv s a q) = blk s (pv s a q)" if "valid_ptr q" "is_data q" for q
    using P(4) [OF that(1)] that(2) p(2) B by auto
  ultimately show ?thesis
    using s1 al B wf_tree_len [OF wf(2)] clear_pv [OF wf p B(1)] by (auto simp: cleared_def)
qed

text \<open>Direct blocks.\<close>

definition dropD :: "nat \<Rightarrow> ptr \<Rightarrow> bool" where
  "dropD keep q \<longleftrightarrow> (\<exists>i. q = Direct i \<and> keep \<le> i)"

lemma trunc_direct_alt:
  assumes "distinct js" "\<forall>i \<in> set js. i < length a"
  shows "\<exists>a'. trunc_direct js keep a s = map_option (Pair a') (free_blocks (nonzero (map ((!) a) (filter ((\<le>) keep) js))) s)
    \<and> length a' = length a \<and> (\<forall>j. a' ! j = (if j \<in> set js \<and> keep \<le> j then 0 else a ! j))"
  using assms
proof (induction js arbitrary: a s)
  case (Cons i js)
  show ?case
  proof (cases "keep \<le> i \<and> a ! i \<noteq> 0")
    case True
    have m: "map ((!) (a[i := 0])) (filter ((\<le>) keep) js) = map ((!) a) (filter ((\<le>) keep) js)"
      using Cons.prems(1) by (auto intro!: nth_list_update_neq)
    show ?thesis
    proof (cases "bfree (a ! i) s")
      case None
      from Cons.IH [of a s] Cons.prems obtain a' where
        "length a' = length a" "\<forall>j. a' ! j = (if j \<in> set js \<and> keep \<le> j then 0 else a ! j)" by auto
      then show ?thesis using True None Cons.prems
        by (intro exI [of _ "a'[i := 0]"]) (auto simp: nth_list_update)
    next
      case (Some s1)
      from Cons.IH [of "a[i := 0]" s1] Cons.prems obtain a' where
        "trunc_direct js keep (a[i := 0]) s1 = map_option (Pair a') (free_blocks (nonzero (map ((!) (a[i := 0])) (filter ((\<le>) keep) js))) s1)"
        "length a' = length a" "\<forall>j. a' ! j = (if j \<in> set js \<and> keep \<le> j then 0 else a[i := 0] ! j)" by auto
      then show ?thesis using True Some Cons.prems(2) unfolding m
        by (intro exI [of _ a']) (auto simp: nth_list_update)
    qed
  next
    case False
    from Cons.IH [of a s] Cons.prems obtain a' where
      "trunc_direct js keep a s = map_option (Pair a') (free_blocks (nonzero (map ((!) a) (filter ((\<le>) keep) js))) s)"
      "length a' = length a" "\<forall>j. a' ! j = (if j \<in> set js \<and> keep \<le> j then 0 else a ! j)" by auto
    then show ?thesis using False by (intro exI [of _ a']) auto
  qed
qed simp

lemma trunc_direct_ok:
  assumes wf: "wf_fs s" "wf_tree s a" and W: "log_fits W s" "bitmap s \<subseteq> W"
  shows "\<exists>a' s'. trunc_direct [0..<NDIRECT] keep a s = Some (a', s') \<and> pruned (dropD keep) s a s' a' \<and> log_fits W s'"
proof -
  note len = wf_tree_len [OF wf(2)]
  let ?js = "filter ((\<le>) keep) [0..<NDIRECT]" and ?ps = "map Direct (filter ((\<le>) keep) [0..<NDIRECT])"
  obtain a' where a': "trunc_direct [0..<NDIRECT] keep a s = map_option (Pair a') (free_blocks (nonzero (map ((!) a) ?js)) s)"
    "length a' = length a" "\<And>j. a' ! j = (if j < NDIRECT \<and> keep \<le> j then 0 else a ! j)"
    using trunc_direct_alt [of "[0..<NDIRECT]" a keep s] len by auto
  have v: "nonzero (map ((!) a) ?js) = vals s a ?ps" by (simp add: vals_def comp_def)
  have "pv s a' q = (if dropD keep q then 0 else pv s a q)" if "valid_ptr q" for q
    using that a'(3) by (cases q) (auto simp: dropD_def NDOUBLE_SLOT_def)
  then have "cleared (dropD keep) s a s a'" using wf(1) a'(2) len by (auto simp: cleared_def)
  moreover have "dropD keep q \<longleftrightarrow> q \<in> set ?ps" if "valid_ptr q" for q
    using that by (cases q) (auto simp: dropD_def)
  ultimately obtain s' where
    "free_blocks (vals s a ?ps) s = Some s'" "pruned (dropD keep) s a s' a'" "log_fits W s'"
    using prune_free [OF wf(2) _ _ _ _ W, of "dropD keep" a' ?ps] by (auto simp: distinct_map inj_on_def)
  then show ?thesis using a'(1) unfolding v by auto
qed

text \<open>The single-indirect tree.\<close>

definition dropI :: "nat \<Rightarrow> ptr \<Rightarrow> bool" where
  "dropI keep q \<longleftrightarrow> (q = Ind \<and> keep \<le> NDIRECT) \<or> (\<exists>j. q = IndE j \<and> keep \<le> NDIRECT + j)"

lemma pv_ind: "a ! NDIRECT \<noteq> 0 \<Longrightarrow> pv s a (IndE j) = entry s (a ! NDIRECT) j"
  by (simp add: entry0_def)

lemma ni: "0 < NINDIRECT" and ni0 [simp]: "(NINDIRECT = 0) = False"
  by (simp_all add: layout_simps)

lemma trunc_indirect_ok:
  assumes wf: "wf_fs s" "wf_tree s a" and W: "log_fits W s" "bitmap s \<subseteq> W" "a ! NDIRECT \<noteq> 0 \<Longrightarrow> a ! NDIRECT \<in> W"
  shows "\<exists>a' s'. trunc_indirect keep a s = Some (a', s') \<and> pruned (dropI keep) s a s' a' \<and> log_fits W s'"
proof (cases "a ! NDIRECT = 0 \<or> NDIRECT + NINDIRECT \<le> keep")
  case True
  then have kp: "a ! NDIRECT = 0 \<or> NINDIRECT \<le> keep - NDIRECT \<and> \<not> keep \<le> NDIRECT" using ni by linarith
  have "pruned (dropI keep) s a s a"
    by (rule pruned_none [OF wf(1) wf_tree_len [OF wf(2)]]) (use True kp in \<open>auto simp: dropI_def entry0_def\<close>)
  moreover have "trunc_indirect keep a s = Some (a, s)" using kp ni by (auto simp: trunc_indirect_def Let_def)
  ultimately show ?thesis using W(1) by blast
next
  case False
  let ?ind = "a ! NDIRECT"
  have ind: "valid_ptr Ind" "pv s a Ind \<noteq> 0" "?ind \<noteq> 0" using False by auto
  have db: "data_block s ?ind" using wf_treeD(1,2) [OF wf(2) ind(1,2)] by (simp add: data_block_def)
  have de: "data_block s (entry s ?ind j)" if "j < NINDIRECT" "entry s ?ind j \<noteq> 0" for j
    using wf_treeD(1,2) [OF wf(2), of "IndE j"] that pv_ind [OF ind(3), of s j] by (simp add: data_block_def)
  show ?thesis
  proof (cases "keep \<le> NDIRECT")
    case True
    let ?ps = "map IndE [0..<NINDIRECT] @ [Ind]"
    have "free_entries ?ind [0..<NINDIRECT] s = free_blocks (nonzero (map (entry s ?ind) [0..<NINDIRECT])) s"
      by (rule free_entries_alt [OF wf(1) db]) (use de in auto)
    then have run: "trunc_indirect keep a s = map_option (Pair (a[NDIRECT := 0])) (free_blocks (vals s a ?ps) s)"
      using True ind(3) pv_ind [OF ind(3), of s]
      by (simp add: trunc_indirect_def vals_def free_blocks_append comp_def del: upt.simps pv.simps(3) split: bind_splits)
    have "pv s (a[NDIRECT := 0]) q = (if dropI keep q then 0 else pv s a q)" if "valid_ptr q" for q
      using that True wf_tree_len [OF wf(2)] by (cases q) (auto simp: dropI_def NDOUBLE_SLOT_def entry0_def)
    then have "cleared (dropI keep) s a s (a[NDIRECT := 0])" using wf(1) wf_tree_len [OF wf(2)] by (auto simp: cleared_def)
    moreover have "dropI keep q \<longleftrightarrow> q \<in> set ?ps" if "valid_ptr q" for q
      using that True by (cases q) (auto simp: dropI_def)
    ultimately obtain s' where
      "free_blocks (vals s a ?ps) s = Some s'" "pruned (dropI keep) s a s' (a[NDIRECT := 0])" "log_fits W s'"
      using prune_free [OF wf(2) _ _ _ _ W(1,2), of "dropI keep" "a[NDIRECT := 0]" ?ps]
      by (auto simp: distinct_map inj_on_def)
    then show ?thesis using run by auto
  next
    case part: False
    let ?lo = "keep - NDIRECT" and ?ps = "map IndE [keep - NDIRECT..<NINDIRECT]"
    obtain s1 where s1: "blk_write ?ind (clear_entries ?lo (blk s ?ind)) s = Some s1"
      "cleared (below Ind ?lo) s a s1 a" "log_fits W s1"
      using write_pointer_block [OF wf ind(1) _ _ ind(3) W(1), of ?lo] W(3) ind by auto
    have "below Ind ?lo q = dropI keep q" if "valid_ptr q" for q
      using that part by (cases q) (auto simp: below_def dropI_def)
    then have cl: "cleared (dropI keep) s a s1 a" using s1(2) unfolding cleared_def by auto
    have v: "tail_entries (blk s ?ind) ?lo = vals s a ?ps"
      using pv_ind [OF ind(3), of s] by (simp add: tail_entries_alt vals_def comp_def del: pv.simps(3))
    have "dropI keep q \<longleftrightarrow> q \<in> set ?ps" if "valid_ptr q" for q
      using that part by (cases q) (auto simp: dropI_def)
    then obtain s2 where
      s2: "free_blocks (vals s a ?ps) s1 = Some s2" "pruned (dropI keep) s a s2 a" "log_fits W s2"
      using prune_free [OF wf(2) cl _ _ _ s1(3) W(2), of ?ps] by (auto simp: distinct_map inj_on_def)
    have "trunc_indirect keep a s = Some (a, s2)"
      using False part s1(1) s2(1) unfolding trunc_indirect_def v [symmetric] by (auto simp: Let_def min_def)
    then show ?thesis using s2 by blast
  qed
qed

text \<open>The double-indirect tree.\<close>

definition dropR :: "nat \<Rightarrow> ptr \<Rightarrow> bool" where
  "dropR keep q \<longleftrightarrow> (q = Root \<and> keep \<le> NDIRECT + NINDIRECT) \<or>
     (\<exists>j. q = RootE j \<and> keep \<le> NDIRECT + NINDIRECT + j * NINDIRECT) \<or>
     (\<exists>j k. q = LeafE j k \<and> keep \<le> NDIRECT + NINDIRECT + j * NINDIRECT + k)"

definition leaf_ptrs :: "nat list \<Rightarrow> ptr list" where
  "leaf_ptrs js = concat (map (\<lambda>j. map (LeafE j) [0..<NINDIRECT] @ [RootE j]) js)"

lemma set_leaf_ptrs: "q \<in> set (leaf_ptrs js) \<longleftrightarrow> (\<exists>j \<in> set js. q = RootE j \<or> (\<exists>k < NINDIRECT. q = LeafE j k))"
  by (fastforce simp: leaf_ptrs_def)

lemma valid_leaf_ptrs: "\<forall>j \<in> set js. j < NINDIRECT \<Longrightarrow> \<forall>q \<in> set (leaf_ptrs js). valid_ptr q"
  by (auto simp: set_leaf_ptrs)

lemma distinct_leaf_ptrs: "distinct js \<Longrightarrow> distinct (leaf_ptrs js)"
  by (induction js) (auto simp: leaf_ptrs_def distinct_map inj_on_def)

lemma pv_root:
  assumes "a ! NDOUBLE_SLOT \<noteq> 0"
  shows "pv s a (RootE j) = entry s (a ! NDOUBLE_SLOT) j"
    and "pv s a (LeafE j k) = (if pv s a (RootE j) = 0 then 0 else entry s (pv s a (RootE j)) k)"
  using assms by (simp_all add: entry0_def)

lemma nonzero_zeros: "\<forall>x \<in> set xs. x = 0 \<Longrightarrow> nonzero xs = []"
  by (induction xs) auto

lemma leaf_vals:
  assumes "a ! NDOUBLE_SLOT \<noteq> 0"
  shows "concat (map (leaf_blocks s) (nonzero (map (entry s (a ! NDOUBLE_SLOT)) js))) = vals s a (leaf_ptrs js)"
proof (induction js)
  case (Cons j js)
  let ?l = "entry s (a ! NDOUBLE_SLOT) j"
  have v: "vals s a (leaf_ptrs (j # js)) = nonzero (map (pv s a) (map (LeafE j) [0..<NINDIRECT])) @ nonzero [?l] @ vals s a (leaf_ptrs js)"
    using pv_root(1) [OF assms, of s j] by (simp add: vals_def leaf_ptrs_def del: upt.simps pv.simps)
  show ?case
  proof (cases "?l = 0")
    case True
    then have "nonzero (map (pv s a) (map (LeafE j) [0..<NINDIRECT])) = []"
      using pv_root [OF assms, of s] by (intro nonzero_zeros) (auto simp del: pv.simps)
    then show ?thesis using Cons True unfolding v by simp
  next
    case False
    then have m: "map (pv s a) (map (LeafE j) [0..<NINDIRECT]) = map (entry s ?l) [0..<NINDIRECT]"
      using pv_root [OF assms, of s] by (auto simp del: pv.simps)
    show ?thesis using Cons False unfolding v m by (simp add: leaf_blocks_def)
  qed
qed (simp add: vals_def leaf_ptrs_def)

lemma free_leaves_vals:
  assumes wf: "wf_fs s1" "wf_tree s a" "a ! NDOUBLE_SLOT \<noteq> 0" and js: "\<forall>j \<in> set js. j < NINDIRECT"
    and same: "\<And>j k. j \<in> set js \<Longrightarrow> entry s1 (entry s (a ! NDOUBLE_SLOT) j) k = entry s (entry s (a ! NDOUBLE_SLOT) j) k"
    and sb: "sb s1 = sb s"
  shows "free_leaves (nonzero (map (entry s (a ! NDOUBLE_SLOT)) js)) s1 = free_blocks (vals s a (leaf_ptrs js)) s1"
proof -
  let ?r = "a ! NDOUBLE_SLOT" and ?ls = "nonzero (map (entry s (a ! NDOUBLE_SLOT)) js)"
  have e: "entry s1 l k = entry s l k" if "l \<in> set ?ls" for l k using that same by auto
  have "data_block s1 l \<and> (\<forall>k < NINDIRECT. entry s1 l k \<noteq> 0 \<longrightarrow> data_block s1 (entry s1 l k))" if "l \<in> set ?ls" for l
  proof -
    from that obtain j where j: "j \<in> set js" "l = entry s ?r j" "l \<noteq> 0" by auto
    have "data_block s l" using wf_treeD(1,2) [OF wf(2), of "RootE j"] pv_root(1) [OF wf(3), of s j] j js
      by (simp add: data_block_def)
    moreover have "data_block s (entry s l k)" if "k < NINDIRECT" "entry s l k \<noteq> 0" for k
      using wf_treeD(1,2) [OF wf(2), of "LeafE j k"] pv_root [OF wf(3), of s j] j js that
      by (simp add: data_block_def)
    ultimately show ?thesis using e [OF that] bitmap_cong(2) [OF sb] by simp
  qed
  then have "free_leaves ?ls s1 = free_blocks (concat (map (leaf_blocks s1) ?ls)) s1"
    by (intro free_leaves_alt [OF wf(1)]) blast
  moreover have "leaf_blocks s1 l = leaf_blocks s l" if "l \<in> set ?ls" for l
    using ext [of "entry s1 l" "entry s l", OF e [OF that]] by (simp add: leaf_blocks_def)
  ultimately show ?thesis using leaf_vals [OF wf(3), of s js] by (metis (no_types, lifting) map_cong)
qed

lemma cleared_wf:
  assumes "cleared D s a s1 a'"
  shows "wf_fs s1" "sb s1 = sb s"
  using assms by (auto simp: cleared_def)

lemma trunc_double_all:
  assumes wf: "wf_fs s" "wf_tree s a" and W: "log_fits W s" "bitmap s \<subseteq> W"
    and r: "a ! NDOUBLE_SLOT \<noteq> 0" and keep: "keep \<le> NDIRECT + NINDIRECT"
  shows "\<exists>a' s'. trunc_double keep a s = Some (a', s') \<and> pruned (dropR keep) s a s' a' \<and> log_fits W s'"
proof -
  let ?root = "a ! NDOUBLE_SLOT" and ?a' = "a[NDOUBLE_SLOT := 0]" and ?ps = "leaf_ptrs [0..<NINDIRECT] @ [Root]"
  have "free_leaves (tail_entries (blk s ?root) 0) s = free_blocks (vals s a (leaf_ptrs [0..<NINDIRECT])) s"
    unfolding tail_entries_alt by (rule free_leaves_vals [OF wf r]) auto
  then have run: "trunc_double keep a s = map_option (Pair ?a') (free_blocks (vals s a ?ps) s)"
    using keep r by (simp add: trunc_double_def Let_def vals_def free_blocks_append split: bind_splits)
  have "pv s ?a' q = (if dropR keep q then 0 else pv s a q)" if "valid_ptr q" for q
    using that keep wf_tree_len [OF wf(2)] by (cases q) (auto simp: dropR_def NDOUBLE_SLOT_def entry0_def)
  then have "cleared (dropR keep) s a s ?a'" using wf(1) wf_tree_len [OF wf(2)] by (auto simp: cleared_def)
  moreover have "dropR keep q \<longleftrightarrow> q \<in> set ?ps" if "valid_ptr q" for q
    using that keep by (cases q) (auto simp: dropR_def set_leaf_ptrs)
  ultimately obtain s' where "free_blocks (vals s a ?ps) s = Some s'" "pruned (dropR keep) s a s' ?a'" "log_fits W s'"
    using prune_free [OF wf(2) _ _ _ _ W, of "dropR keep" ?a' ?ps] distinct_leaf_ptrs [of "[0..<NINDIRECT]"]
      valid_leaf_ptrs [of "[0..<NINDIRECT]"] by (auto simp: set_leaf_ptrs)
  then show ?thesis using run by auto
qed

lemma trim_leaf_ok:
  assumes wf: "wf_fs s" "wf_tree s a" and W: "log_fits W s" "bitmap s \<subseteq> W"
    and r: "a ! NDOUBLE_SLOT \<noteq> 0" and i: "i < NINDIRECT" and leaf: "pv s a (RootE i) \<noteq> 0 \<Longrightarrow> pv s a (RootE i) \<in> W"
  shows "\<exists>s'. trim_leaf (a ! NDOUBLE_SLOT) (Suc i) lo s = Some s' \<and> pruned (below (RootE i) lo) s a s' a \<and> log_fits W s'"
proof (cases "lo < NINDIRECT \<and> pv s a (RootE i) \<noteq> 0")
  case False
  have "pruned (below (RootE i) lo) s a s a"
  proof (rule pruned_none [OF wf(1) wf_tree_len [OF wf(2)]])
    fix q assume "valid_ptr q" "below (RootE i) lo q"
    then show "pv s a q = 0" using False by (cases q) (auto simp: below_def entry0_def)
  qed
  moreover have "trim_leaf (a ! NDOUBLE_SLOT) (Suc i) lo s = Some s"
    using False i pv_root(1) [OF r, of s i] by (auto simp: trim_leaf_def Let_def)
  ultimately show ?thesis using W(1) by blast
next
  case True
  let ?leaf = "pv s a (RootE i)" and ?ps = "map (LeafE i) [lo..<NINDIRECT]"
  have e: "entry s (a ! NDOUBLE_SLOT) i = ?leaf" using pv_root(1) [OF r, of s i] by simp
  obtain s1 where s1: "blk_write ?leaf (clear_entries lo (blk s ?leaf)) s = Some s1"
    "cleared (below (RootE i) lo) s a s1 a" "log_fits W s1"
    using write_pointer_block [OF wf _ _ refl _ W(1), of "RootE i" lo] leaf True i by auto
  have "map (pv s a) ?ps = map (entry s ?leaf) [lo..<NINDIRECT]"
    using True pv_root(2) [OF r, of s i] by (simp del: pv.simps)
  then have v: "tail_entries (blk s ?leaf) lo = vals s a ?ps" unfolding tail_entries_alt vals_def by presburger
  have "below (RootE i) lo q \<longleftrightarrow> q \<in> set ?ps" if "valid_ptr q" for q
    using that by (cases q) (auto simp: below_def)
  then obtain s2 where
    s2: "free_blocks (vals s a ?ps) s1 = Some s2" "pruned (below (RootE i) lo) s a s2 a" "log_fits W s2"
    using prune_free [OF wf(2) s1(2) _ _ _ s1(3) W(2), of ?ps] i by (auto simp: distinct_map inj_on_def)
  have "trim_leaf (a ! NDOUBLE_SLOT) (Suc i) lo s = Some s2"
    using True i s1(1) s2(1) unfolding v [symmetric] by (simp add: trim_leaf_def Let_def e del: pv.simps)
  then show ?thesis using s2 by blast
qed

text \<open>The last leaf block that is kept when \<open>dk\<close> blocks of the double-indirect tree are.\<close>

lemma last_leaf:
  fixes dk n :: nat
  assumes "0 < dk" "0 < n"
  obtains i where "(dk + n - 1) div n = Suc i" "i * n < dk" "dk \<le> Suc i * n"
proof -
  have "(dk + n - 1) div n = Suc ((dk - 1) div n)"
    using assms div_add_self2 [of n "dk - 1"] by (simp add: algebra_simps)
  moreover have b: "(dk - 1) div n * n \<le> dk - 1" "dk - 1 < Suc ((dk - 1) div n) * n"
    using assms(2) dividend_less_div_times [of n "dk - 1"] by auto
  have "(dk - 1) div n * n < dk" "dk \<le> Suc ((dk - 1) div n) * n" using b assms(1) by linarith+
  ultimately show thesis by (rule that)
qed

definition last_leaf_idx :: "nat \<Rightarrow> nat" where
  "last_leaf_idx keep = (keep - (NDIRECT + NINDIRECT) + NINDIRECT - 1) div NINDIRECT - 1"

lemma dropR_split:
  assumes keep: "NDIRECT + NINDIRECT < keep" and q: "valid_ptr q"
    and i: "i * NINDIRECT < keep - (NDIRECT + NINDIRECT)" "keep - (NDIRECT + NINDIRECT) \<le> Suc i * NINDIRECT"
  shows "below Root (Suc i) q \<or> below (RootE i) (keep - (NDIRECT + NINDIRECT) - i * NINDIRECT) q \<longleftrightarrow> dropR keep q"
proof -
  let ?dk = "keep - (NDIRECT + NINDIRECT)"
  have row: "?dk \<le> j * NINDIRECT \<longleftrightarrow> Suc i \<le> j" for j
  proof
    assume "?dk \<le> j * NINDIRECT"
    with i(1) have "i * NINDIRECT < j * NINDIRECT" by linarith
    then show "Suc i \<le> j" by simp
  next
    assume "Suc i \<le> j"
    then have "Suc i * NINDIRECT \<le> j * NINDIRECT" by (rule mult_le_mono1)
    with i(2) show "?dk \<le> j * NINDIRECT" by linarith
  qed
  have cell: "?dk \<le> j * NINDIRECT + k \<longleftrightarrow> Suc i \<le> j \<or> j = i \<and> ?dk - i * NINDIRECT \<le> k" if k: "k < NINDIRECT" for j k
  proof (cases "j < i")
    case True
    then have "Suc j * NINDIRECT \<le> i * NINDIRECT" by (intro mult_le_mono1) simp
    then have "j * NINDIRECT + k < ?dk" using k i(1) by simp
    then show ?thesis using True by simp
  next
    case False
    then consider "j = i" | "Suc i \<le> j" by linarith
    then show ?thesis
    proof cases
      case 2
      then have "?dk \<le> j * NINDIRECT" using row by blast
      then show ?thesis using 2 by simp
    qed auto
  qed
  show ?thesis
  proof (cases q)
    case (RootE j)
    have "dropR keep q \<longleftrightarrow> ?dk \<le> j * NINDIRECT" using keep RootE by (auto simp: dropR_def)
    then show ?thesis using row [of j] RootE by (auto simp: below_def)
  next
    case (LeafE j k)
    have "dropR keep q \<longleftrightarrow> ?dk \<le> j * NINDIRECT + k" using keep LeafE by (auto simp: dropR_def)
    then show ?thesis using cell [of k j] LeafE q by (auto simp: below_def)
  qed (use keep in \<open>auto simp: below_def dropR_def\<close>)
qed

lemma trunc_double_part:
  assumes wf: "wf_fs s" "wf_tree s a" and W: "log_fits W s" "bitmap s \<subseteq> W"
    and r: "a ! NDOUBLE_SLOT \<noteq> 0" "a ! NDOUBLE_SLOT \<in> W" and keep: "NDIRECT + NINDIRECT < keep" "keep \<le> MAXFILE"
    and leaf: "pv s a (RootE (last_leaf_idx keep)) \<noteq> 0 \<Longrightarrow> pv s a (RootE (last_leaf_idx keep)) \<in> W"
  shows "\<exists>s'. trunc_double keep a s = Some (a, s') \<and> pruned (dropR keep) s a s' a \<and> log_fits W s'"
proof -
  let ?root = "a ! NDOUBLE_SLOT" and ?dk = "keep - (NDIRECT + NINDIRECT)"
  have "0 < ?dk" using keep(1) by simp
  then obtain i where i: "(?dk + NINDIRECT - 1) div NINDIRECT = Suc i" "i * NINDIRECT < ?dk" "?dk \<le> Suc i * NINDIRECT"
    using last_leaf [OF _ ni] by blast
  have li: "last_leaf_idx keep = i" using i(1) by (simp add: last_leaf_idx_def)
  have "?dk \<le> NINDIRECT * NINDIRECT" using keep(2) by (simp add: MAXFILE_def NDOUBLE_INDIRECT_def)
  with i(2) have "i * NINDIRECT < NINDIRECT * NINDIRECT" by linarith
  then have iN: "i < NINDIRECT" by simp
  let ?ik = "?dk - i * NINDIRECT" and ?js = "[Suc i..<NINDIRECT]"
  obtain s1 where s1: "blk_write ?root (clear_entries (Suc i) (blk s ?root)) s = Some s1"
    "cleared (below Root (Suc i)) s a s1 a" "log_fits W s1"
    using write_pointer_block [OF wf _ _ _ r(1) W(1) r(2), of Root] by auto
  note S1 = cleared_wf [OF s1(2)]
  have e1: "entry s1 (entry s ?root j) k = entry s (entry s ?root j) k" if "j \<in> set ?js" for j k
  proof -
    have "pv s a (RootE j) \<noteq> pv s a Root"
      using wf_treeD(4) [OF wf(2), of Root "RootE j"] r(1) that by auto
    then have "entry s ?root j \<noteq> ?root" using pv_root(1) [OF r(1), of s j] by simp
    then show ?thesis using blk_write_Some(1) [OF s1(1)] by (simp add: entry_def)
  qed
  have fl: "free_leaves (tail_entries (blk s ?root) (Suc i)) s1 = free_blocks (vals s a (leaf_ptrs ?js)) s1"
    unfolding tail_entries_alt by (rule free_leaves_vals [OF S1(1) wf(2) r(1) _ e1 S1(2)]) auto
  have "below Root (Suc i) q \<longleftrightarrow> q \<in> set (leaf_ptrs ?js)" if "valid_ptr q" for q
    using that by (cases q) (auto simp: below_def set_leaf_ptrs)
  then obtain s2 where s2: "free_blocks (vals s a (leaf_ptrs ?js)) s1 = Some s2"
    "pruned (below Root (Suc i)) s a s2 a" "log_fits W s2"
    using prune_free [OF wf(2) s1(2) distinct_leaf_ptrs valid_leaf_ptrs _ s1(3) W(2), of ?js] by auto
  note P = prunedD [OF s2(2)]
  have "pv s2 a (RootE i) = pv s a (RootE i)" using P(5) [of "RootE i"] iN by (simp add: below_def)
  then obtain s3 where s3: "trim_leaf ?root (Suc i) ?ik s2 = Some s3" "pruned (below (RootE i) ?ik) s2 a s3 a" "log_fits W s3"
    using trim_leaf_ok [OF P(1) pruned_wf_tree [OF wf(2) s2(2)] s2(3) _ r(1) iN, of ?ik] leaf W(2) bitmap_cong(1) [OF P(2)] li
    by auto
  have "pruned (dropR keep) s a s3 a"
    by (rule pruned_cong [OF pruned_trans [OF s2(2) s3(2)]]) (use dropR_split [OF keep(1) _ i(2,3)] in auto)
  moreover have "trunc_double keep a s = Some (a, s3)"
    using keep(1) r(1) s1(1) s2(1) s3(1) i(1) fl by (simp add: trunc_double_def Let_def)
  ultimately show ?thesis using s3(3) by blast
qed

lemma trunc_double_ok:
  assumes wf: "wf_fs s" "wf_tree s a" and W: "log_fits W s" "bitmap s \<subseteq> W" and keep: "keep \<le> MAXFILE"
    and in_W: "\<And>q. q \<in> {Root, RootE (last_leaf_idx keep)} \<Longrightarrow> pv s a q \<noteq> 0 \<Longrightarrow> pv s a q \<in> W"
  shows "\<exists>a' s'. trunc_double keep a s = Some (a', s') \<and> pruned (dropR keep) s a s' a' \<and> log_fits W s'"
proof (cases "a ! NDOUBLE_SLOT = 0")
  case True
  have "pruned (dropR keep) s a s a"
    by (rule pruned_none [OF wf(1) wf_tree_len [OF wf(2)]]) (use True in \<open>auto simp: dropR_def entry0_def\<close>)
  then show ?thesis using True W(1) by (auto simp: trunc_double_def)
next
  case False
  then show ?thesis
    using trunc_double_all [OF wf W False] trunc_double_part [OF wf W False _ _ keep] in_W [of Root] in_W [of "RootE (last_leaf_idx keep)"]
    by (cases "keep \<le> NDIRECT + NINDIRECT") (auto simp del: pv.simps(5))
qed

end
