(* ===== verification/Truncate.thy ===== *)
theory Truncate
  imports Itrunc Dir
begin

text \<open>
  \<open>itrunc_to\<close> and \<open>itrunc\<close> as a whole, on the volume: what a truncation leaves of the file, that
  other files do not notice it, and that it needs no more log space than an operation
  reserves.
\<close>

section \<open>Which places a truncation empties\<close>

definition dropped :: "nat \<Rightarrow> ptr \<Rightarrow> bool" where
  "dropped keep q \<longleftrightarrow> (dropD keep q \<or> dropI keep q) \<or> dropR keep q"

lemma dropped_data:
  "dropped keep (data_ptr bn) \<longleftrightarrow> keep \<le> bn"
proof -
  consider "bn < NDIRECT" | "NDIRECT \<le> bn" "bn < NDIRECT + NINDIRECT" | "NDIRECT + NINDIRECT \<le> bn" by linarith
  then show ?thesis
  proof cases
    case 3
    let ?x = "bn - NDIRECT - NINDIRECT"
    have "?x div NINDIRECT * NINDIRECT + ?x mod NINDIRECT = ?x" by (rule div_mult_mod_eq)
    then have "NDIRECT + NINDIRECT + ?x div NINDIRECT * NINDIRECT + ?x mod NINDIRECT = bn" using 3 by linarith
    then show ?thesis using 3 by (auto simp: data_ptr_def dropped_def dropD_def dropI_def dropR_def)
  qed (auto simp: data_ptr_def dropped_def dropD_def dropI_def dropR_def)
qed

lemma dropped_all: "valid_ptr q \<Longrightarrow> dropped 0 q"
  by (cases q) (auto simp: dropped_def dropD_def dropI_def dropR_def)

lemma pruned_fbyte:
  assumes wf: "wf_tree s a" and p: "pruned (dropped keep) s a s' a'"
  shows "fbyte s' a' k = (if k div BSIZE < keep then fbyte s a k else 0)"
proof (cases "k div BSIZE < MAXFILE")
  case True
  note v = data_ptr_valid [OF True]
  have "pv s' a' (data_ptr (k div BSIZE)) = (if keep \<le> k div BSIZE then 0 else pv s a (data_ptr (k div BSIZE)))"
    using prunedD(5) [OF p v] by (simp add: dropped_data)
  then show ?thesis
    using True prunedD(8) [OF p v] by (auto simp: fbyte_def Let_def dropped_data)
qed (simp add: fbyte_def)

text \<open>The blocks a truncation writes: the bitmap, at most three pointer blocks, the last kept
  data block and the block of the inode.\<close>

definition trunc_writes :: "nat \<Rightarrow> nat \<Rightarrow> nat list \<Rightarrow> fs \<Rightarrow> nat set" where
  "trunc_writes keep inum a s = bitmap s \<union> {iblock inum (sb s)} \<union>
     pv s a ` {Ind, Root, RootE (last_leaf_idx keep), data_ptr (keep - 1)}"

lemma trunc_steps:
  assumes wf: "wf_fs s" "wf_tree s a" and keep: "keep \<le> MAXFILE"
    and W: "log_fits W s" "trunc_writes keep inum a s \<subseteq> W"
  obtains a1 s1 a2 s2 a3 s3 where "trunc_direct [0..<NDIRECT] keep a s = Some (a1, s1)"
    "trunc_indirect keep a1 s1 = Some (a2, s2)" "trunc_double keep a2 s2 = Some (a3, s3)"
    "pruned (dropped keep) s a s3 a3" "log_fits W s3"
proof -
  have bm: "bitmap s \<subseteq> W" and pW: "\<And>q. q \<in> {Ind, Root, RootE (last_leaf_idx keep)} \<Longrightarrow> pv s a q \<in> W"
    using W(2) by (auto simp: trunc_writes_def simp del: pv.simps)
  have idx: "last_leaf_idx keep < NINDIRECT"
  proof -
    have "keep - (NDIRECT + NINDIRECT) \<le> NINDIRECT * NINDIRECT"
      using keep by (simp add: MAXFILE_def NDOUBLE_INDIRECT_def)
    then have "keep - (NDIRECT + NINDIRECT) + NINDIRECT - 1 < Suc NINDIRECT * NINDIRECT" using ni by (simp only: mult_Suc)
    then have "(keep - (NDIRECT + NINDIRECT) + NINDIRECT - 1) div NINDIRECT < Suc NINDIRECT" by (rule less_mult_imp_div_less)
    then show ?thesis unfolding last_leaf_idx_def using ni by linarith
  qed
  obtain a1 s1 where 1: "trunc_direct [0..<NDIRECT] keep a s = Some (a1, s1)" "pruned (dropD keep) s a s1 a1" "log_fits W s1"
    using trunc_direct_ok [OF wf W(1) bm] by blast
  note P = prunedD [OF 1(2)] and wf1 = pruned_wf_tree [OF wf(2) 1(2)]
  have bm1: "bitmap s1 \<subseteq> W" using bm bitmap_cong(1) [OF P(2)] by simp
  have i1: "a1 ! NDIRECT \<in> W" if "a1 ! NDIRECT \<noteq> 0" using P(5) [of Ind] that pW [of Ind] by (auto split: if_splits)
  obtain a2 s2 where 2: "trunc_indirect keep a1 s1 = Some (a2, s2)" "pruned (dropI keep) s1 a1 s2 a2" "log_fits W s2"
    using trunc_indirect_ok [OF P(1) wf1 1(3) bm1 i1] by blast
  note P2 = prunedD [OF 2(2)] and P12 = pruned_trans [OF 1(2) 2(2)] and wf2 = pruned_wf_tree [OF wf1 2(2)]
  have bm2: "bitmap s2 \<subseteq> W" using bm1 bitmap_cong(1) [OF P2(2)] by simp
  have "pv s2 a2 q \<in> W" if "q \<in> {Root, RootE (last_leaf_idx keep)}" "pv s2 a2 q \<noteq> 0" for q
    using prunedD(5) [OF P12, of q] that pW [of q] idx by (auto split: if_splits simp del: pv.simps)
  from trunc_double_ok [OF P2(1) wf2 2(3) bm2 keep this] obtain a3 s3 where
    3: "trunc_double keep a2 s2 = Some (a3, s3)" "pruned (dropR keep) s2 a2 s3 a3" "log_fits W s3" by blast
  have "pruned (dropped keep) s a s3 a3" using pruned_trans [OF P12 3(2)] by (simp add: dropped_def [abs_def])
  with 1(1) 2(1) 3(1,3) show thesis by (intro that)
qed

section \<open>The tail of the last kept block\<close>

lemma tail_block_pv: "idx < MAXFILE \<Longrightarrow> tail_block a idx s = Some (pv s a (data_ptr idx))"
  using data_ptr_valid [of idx]
  by (auto simp: tail_block_def data_ptr_def entry0_def Let_def not_le split: if_splits)

definition keep_blocks :: "nat \<Rightarrow> nat" where
  "keep_blocks n = (n + BSIZE - 1) div BSIZE"

lemma keep_blocks_le: "n \<le> MAXFILE * BSIZE \<Longrightarrow> keep_blocks n \<le> MAXFILE"
proof -
  assume n: "n \<le> MAXFILE * BSIZE"
  have "0 < BSIZE" by (simp add: BSIZE_def)
  with n have "n + BSIZE - 1 < Suc MAXFILE * BSIZE" by (simp only: mult_Suc)
  then have "keep_blocks n < Suc MAXFILE" unfolding keep_blocks_def by (rule less_mult_imp_div_less)
  then show ?thesis by linarith
qed

lemma keep_blocks_zero: "keep_blocks 0 = 0"
  by (simp add: keep_blocks_def BSIZE_def)

text \<open>The kept blocks end with the block of byte \<open>n - 1\<close>.\<close>

lemma in_kept_block: "k < n \<Longrightarrow> k div BSIZE < keep_blocks n"
proof -
  assume k: "k < n"
  have b: "0 < BSIZE" by (simp add: BSIZE_def)
  obtain i where i: "keep_blocks n = Suc i" "i * BSIZE < n" "n \<le> Suc i * BSIZE"
    using last_leaf [of n BSIZE] k b unfolding keep_blocks_def by auto
  then have "k < Suc i * BSIZE" using k by linarith
  then show ?thesis using i(1) less_mult_imp_div_less by metis
qed

lemma past_end_in_kept_block:
  assumes "n \<le> k" "k div BSIZE < keep_blocks n"
  shows "0 < n mod BSIZE" "keep_blocks n - 1 = n div BSIZE" "k div BSIZE = n div BSIZE" "n mod BSIZE \<le> k mod BSIZE"
proof -
  have b: "0 < BSIZE" by (simp add: BSIZE_def)
  have "0 < n" using assms(2) keep_blocks_zero by (cases n) auto
  then obtain i where i: "keep_blocks n = Suc i" "i * BSIZE < n" "n \<le> Suc i * BSIZE"
    using last_leaf [of n BSIZE] b unfolding keep_blocks_def by blast
  have "k div BSIZE \<le> i" using assms(2) i(1) by simp
  then have "k < Suc i * BSIZE" using div_less_iff_less_mult [OF b, of k "Suc i"] by simp
  then have n: "n < Suc i * BSIZE" using assms(1) by linarith
  have d: "n div BSIZE = i" "k div BSIZE = i"
    using div_nat_eqI [of BSIZE i n] div_nat_eqI [of BSIZE i k] i(2) n assms(1) \<open>k < Suc i * BSIZE\<close> by (auto simp: mult.commute)
  show "0 < n mod BSIZE"
  proof (rule ccontr)
    assume "\<not> 0 < n mod BSIZE"
    then have "n = n div BSIZE * BSIZE" using div_mult_mod_eq [of n BSIZE] by simp
    then show False using d(1) i(2) by simp
  qed
  show "keep_blocks n - 1 = n div BSIZE" "k div BSIZE = n div BSIZE" using i(1) d by auto
  have "n = i * BSIZE + n mod BSIZE" "k = i * BSIZE + k mod BSIZE"
    using div_mult_mod_eq [of n BSIZE] div_mult_mod_eq [of k BSIZE] d by auto
  then show "n mod BSIZE \<le> k mod BSIZE" using assms(1) by linarith
qed

lemma partial_kept_block:
  assumes "0 < n mod BSIZE"
  shows "keep_blocks n - 1 = n div BSIZE"
proof -
  have b: "0 < BSIZE" by (simp add: BSIZE_def)
  have "0 < n" using assms by (cases n) auto
  then obtain i where i: "keep_blocks n = Suc i" "i * BSIZE < n" "n \<le> Suc i * BSIZE"
    using last_leaf [of n BSIZE] b unfolding keep_blocks_def by blast
  have "n \<noteq> Suc i * BSIZE" using assms by (metis mod_mult_self2_is_0 less_irrefl)
  then have "n < Suc i * BSIZE" using i(3) by simp
  then have "n div BSIZE < keep_blocks n" unfolding i(1) by (rule less_mult_imp_div_less)
  then show ?thesis by (rule past_end_in_kept_block(2) [OF order_refl])
qed

text \<open>The state after the four steps, against the tree \<open>a\<close> before them.\<close>

lemma trunc_tail_ok:
  assumes wf: "wf_fs s" "wf_tree s a" and n: "n \<le> MAXFILE * BSIZE"
    and W: "log_fits W s" "pv s a (data_ptr (keep_blocks n - 1)) \<noteq> 0 \<Longrightarrow> 0 < keep_blocks n \<Longrightarrow> pv s a (data_ptr (keep_blocks n - 1)) \<in> W"
  shows "\<exists>s'. trunc_tail n cur (keep_blocks n) a s = Some s' \<and> log_fits W s' \<and> evolves s a s' a \<and>
    (\<forall>q. valid_ptr q \<longrightarrow> pv s' a q = pv s a q) \<and> (\<forall>c < sb_size (sb s). allocated s' c = allocated s c) \<and>
    (\<forall>k < n. fbyte s' a k = fbyte s a k) \<and>
    (n < cur \<longrightarrow> (\<forall>k. n \<le> k \<longrightarrow> k div BSIZE < keep_blocks n \<longrightarrow> fbyte s' a k = 0))"
proof (cases "n < cur \<and> 0 < keep_blocks n \<and> 0 < n mod BSIZE \<and> pv s a (data_ptr (keep_blocks n - 1)) \<noteq> 0")
  case True
  let ?bn = "keep_blocks n - 1" and ?m = "n mod BSIZE"
  have bn: "?bn < MAXFILE" using keep_blocks_le [OF n] True by linarith
  let ?b = "pv s a (data_ptr ?bn)" and ?x = "take ?m (blk s (pv s a (data_ptr (keep_blocks n - 1)))) @ replicate (BSIZE - ?m) 0"
  have bW: "?b \<in> W" using W(2) True by simp
  obtain s' where s': "blk_write ?b ?x s = Some s'" "log_fits W s'" using blk_write_fits [OF W(1) bW, of ?x] by blast
  have m: "?m < BSIZE" by (simp add: BSIZE_def)
  have lx: "length ?x = BSIZE" using m wf(1) by simp
  note D = data_write [OF wf bn refl _ blk_write_Some(1) [OF s'(1)] lx blk_write_Some(2) [OF s'(1)]]
  have run: "trunc_tail n cur (keep_blocks n) a s = Some s'" using True s'(1) tail_block_pv [OF bn] by (simp add: trunc_tail_def Let_def)
  have "fbyte s' a k = fbyte s a k" if k: "k < n" for k
  proof (cases "k div BSIZE = ?bn")
    case eq: True
    have e: "k div BSIZE = n div BSIZE" using eq partial_kept_block True by simp
    have "k mod BSIZE < ?m" using k div_mult_mod_eq [of k BSIZE] div_mult_mod_eq [of n BSIZE] unfolding e by linarith
    then show ?thesis using D(2) [of k] True eq bn m wf(1) by (simp add: nth_append fbyte_def Let_def)
  next
    case False
    then show ?thesis using D(2) True by simp
  qed
  moreover have "fbyte s' a k = 0" if "n \<le> k" "k div BSIZE < keep_blocks n" for k
  proof -
    note e = past_end_in_kept_block [OF that]
    have "k mod BSIZE < BSIZE" by (simp add: BSIZE_def)
    then have "k mod BSIZE - ?m < BSIZE - ?m" using e(4) by linarith
    then show ?thesis using e D(2) [of k] True m wf(1) by (simp add: nth_append)
  qed
  ultimately show ?thesis using run s'(2) D(1,3,4) True by auto
next
  case False
  have z: "fbyte s a k = 0" if "n < cur" "n \<le> k" "k div BSIZE < keep_blocks n" for k
    using past_end_in_kept_block [OF that(2,3)] False that by (auto simp: fbyte_def Let_def)
  have "trunc_tail n cur (keep_blocks n) a s = Some s"
    using False keep_blocks_le [OF n] tail_block_pv [of "keep_blocks n - 1" a s] by (auto simp: trunc_tail_def Let_def)
  then show ?thesis using W(1) z evolves_refl [OF wf] by auto
qed

section \<open>The whole volume\<close>

text \<open>A change to a tree that leaves foreign blocks and their allocation alone and adds nothing to
  the tree.\<close>

definition shrinks :: "fs \<Rightarrow> nat list \<Rightarrow> fs \<Rightarrow> nat list \<Rightarrow> bool" where
  "shrinks s a s' a' \<longleftrightarrow> sb s' = sb s \<and> (\<forall>c. foreign s a c \<longrightarrow> blk s' c = blk s c) \<and>
     (\<forall>c < sb_size (sb s). allocated s c \<longrightarrow> \<not> tree_block s a c \<longrightarrow> allocated s' c) \<and>
     (\<forall>c. tree_block s' a' c \<longrightarrow> tree_block s a c)"

lemma shrink_others:
  assumes inv: "fs_inv s" and i: "inode_live s i" and sh: "shrinks s (di_tree s i) s' a'"
  shows "\<And>j. j < sb_ninodes (sb s) \<Longrightarrow> read_dinode j s' = read_dinode j s"
    and "\<And>j k. inode_live s j \<Longrightarrow> j \<noteq> i \<Longrightarrow> fbyte s' (di_tree s j) k = fbyte s (di_tree s j) k"
    and "\<And>j. inode_live s j \<Longrightarrow> j \<noteq> i \<Longrightarrow> wf_tree s' (di_tree s j)"
    and "\<And>j c. inode_live s j \<Longrightarrow> j \<noteq> i \<Longrightarrow> tree_block s' (di_tree s j) c \<longleftrightarrow> tree_block s (di_tree s j) c"
    and "\<And>j c. inode_live s j \<Longrightarrow> j \<noteq> i \<Longrightarrow> tree_block s' (di_tree s j) c \<Longrightarrow> \<not> tree_block s' a' c"
proof -
  have sb': "sb s' = sb s" and bl: "\<And>c. foreign s (di_tree s i) c \<Longrightarrow> blk s' c = blk s c"
    and al: "\<And>c. c < sb_size (sb s) \<Longrightarrow> allocated s c \<Longrightarrow> \<not> tree_block s (di_tree s i) c \<Longrightarrow> allocated s' c"
    and sub: "\<And>c. tree_block s' a' c \<Longrightarrow> tree_block s (di_tree s i) c"
    using sh by (auto simp: shrinks_def)
  show "read_dinode j s' = read_dinode j s" if "j < sb_ninodes (sb s)" for j
  proof -
    have "foreign s (di_tree s i) (iblock j (sb s))"
      using iblock_meta [OF fs_invD(1) [OF inv] that] by (simp add: foreign_def)
    then show ?thesis using bl by (simp add: read_dinode_def sb')
  qed
  fix j assume j: "inode_live s j" "j \<noteq> i"
  have fr: "blk s' c = blk s c" if "tree_block s (di_tree s j) c" for c
    using bl [OF other_foreign [OF inv i j(1) _ that]] j(2) by simp
  note f = tree_frame [OF fr]
  show "fbyte s' (di_tree s j) k = fbyte s (di_tree s j) k" for k by (rule f(2))
  show tb: "tree_block s' (di_tree s j) c \<longleftrightarrow> tree_block s (di_tree s j) c" for c by (rule f(3))
  have other: "\<not> tree_block s (di_tree s i) c" if "tree_block s (di_tree s j) c" for c
    using fs_invD(3) [OF inv j(1) i j(2) that] .
  have "allocated s c" "c < sb_size (sb s)" if "tree_block s (di_tree s j) c" for c
    using that wf_treeD(2,3) [OF fs_invD(2) [OF inv j(1)]] by (auto simp: tree_block_def)
  then show "wf_tree s' (di_tree s j)"
    using wf_tree_frame [OF fs_invD(2) [OF inv j(1)] fr sb'] al other by blast
  show "\<not> tree_block s' a' c" if "tree_block s' (di_tree s j) c" for c
    using that tb other sub by blast
qed

text \<open>The steps before the inode is written back.\<close>

lemma itrunc_to_data:
  assumes wf: "wf_fs s" "wf_tree s a" and n: "n \<le> MAXFILE * BSIZE"
    and W: "log_fits W s" "trunc_writes (keep_blocks n) inum a s \<subseteq> W"
  obtains a1 s1 a2 s2 a3 s3 s4 where "trunc_direct [0..<NDIRECT] (keep_blocks n) a s = Some (a1, s1)"
    "trunc_indirect (keep_blocks n) a1 s1 = Some (a2, s2)" "trunc_double (keep_blocks n) a2 s2 = Some (a3, s3)"
    "trunc_tail n cur (keep_blocks n) a3 s3 = Some s4"
    "log_fits W s4" "wf_fs s4" "wf_tree s4 a3" "sb s4 = sb s"
    "\<And>q. valid_ptr q \<Longrightarrow> pv s4 a3 q = (if dropped (keep_blocks n) q then 0 else pv s a q)"
    "\<And>c. foreign s a c \<Longrightarrow> blk s4 c = blk s c"
    "\<And>c. c < sb_size (sb s) \<Longrightarrow> allocated s4 c \<longleftrightarrow> allocated s c \<and> \<not> (tree_block s a c \<and> \<not> tree_block s4 a3 c)"
    "\<And>k. k < n \<Longrightarrow> fbyte s4 a3 k = fbyte s a k" "\<And>k. n < cur \<Longrightarrow> n \<le> k \<Longrightarrow> fbyte s4 a3 k = 0"
proof -
  let ?keep = "keep_blocks n"
  obtain a1 s1 a2 s2 a3 s3 where 1: "trunc_direct [0..<NDIRECT] ?keep a s = Some (a1, s1)"
    "trunc_indirect ?keep a1 s1 = Some (a2, s2)" "trunc_double ?keep a2 s2 = Some (a3, s3)"
    and p: "pruned (dropped ?keep) s a s3 a3" and lf: "log_fits W s3"
    by (rule trunc_steps [OF wf keep_blocks_le [OF n] W])
  note P = prunedD [OF p] and wf3 = pruned_wf_tree [OF wf(2) p]
  have tail: "pv s3 a3 (data_ptr (?keep - 1)) \<in> W" if "0 < ?keep"
    using P(5) [OF data_ptr_valid, of "?keep - 1"] dropped_data [of ?keep "?keep - 1"] keep_blocks_le [OF n] that W(2)
    by (auto simp: trunc_writes_def)
  obtain s4 where 4: "trunc_tail n cur ?keep a3 s3 = Some s4" "log_fits W s4" "evolves s3 a3 s4 a3"
    "\<And>q. valid_ptr q \<Longrightarrow> pv s4 a3 q = pv s3 a3 q" "\<And>c. c < sb_size (sb s3) \<Longrightarrow> allocated s4 c = allocated s3 c"
    "\<And>k. k < n \<Longrightarrow> fbyte s4 a3 k = fbyte s3 a3 k"
    "\<And>k. n < cur \<Longrightarrow> n \<le> k \<Longrightarrow> k div BSIZE < ?keep \<Longrightarrow> fbyte s4 a3 k = 0"
    using trunc_tail_ok [OF P(1) wf3 n lf tail, of cur] by blast
  have pv4: "pv s4 a3 q = (if dropped ?keep q then 0 else pv s a q)" if "valid_ptr q" for q
    using 4(4) [OF that] P(5) [OF that] by simp
  show thesis
  proof (rule that [OF 1 4(1,2) evolves_wf(1,2) [OF 4(3)]])
    show "sb s4 = sb s" using evolves_wf(3) [OF 4(3)] P(2) by simp
    show "pv s4 a3 q = (if dropped ?keep q then 0 else pv s a q)" if "valid_ptr q" for q by (rule pv4 [OF that])
    show "blk s4 c = blk s c" if "foreign s a c" for c
      using P(7) [OF that] pruned_foreign [OF p that] 4(3) by (simp add: evolves_def)
    show "fbyte s4 a3 k = fbyte s a k" if "k < n" for k
      using 4(6) [OF that] pruned_fbyte [OF wf(2) p, of k] in_kept_block [OF that] by simp
    show "fbyte s4 a3 k = 0" if "n < cur" "n \<le> k" for k
    proof (cases "k div BSIZE < ?keep")
      case False
      then have "pv s4 a3 (data_ptr (k div BSIZE)) = 0" if "k div BSIZE < MAXFILE"
        using pv4 [OF data_ptr_valid [OF that]] dropped_data [of ?keep] by simp
      then show ?thesis by (auto simp: fbyte_def Let_def)
    qed (use 4(7) that in blast)
    fix c assume c: "c < sb_size (sb s)"
    have "(\<exists>q. valid_ptr q \<and> dropped ?keep q \<and> pv s a q = c \<and> c \<noteq> 0) \<longleftrightarrow> tree_block s a c \<and> \<not> tree_block s4 a3 c"
    proof
      assume "\<exists>q. valid_ptr q \<and> dropped ?keep q \<and> pv s a q = c \<and> c \<noteq> 0"
      then obtain q where q: "valid_ptr q" "dropped ?keep q" "pv s a q = c" "c \<noteq> 0" by blast
      have "r = q" if "valid_ptr r" "pv s a r = c" for r using wf_treeD(4) [OF wf(2) q(1) _ that(1)] q that(2) by auto
      then have "\<not> tree_block s4 a3 c" using pv4 q(2) by (auto simp: tree_block_def split: if_splits)
      then show "tree_block s a c \<and> \<not> tree_block s4 a3 c" using q by (auto simp: tree_block_def)
    next
      assume t: "tree_block s a c \<and> \<not> tree_block s4 a3 c"
      then obtain q where q: "valid_ptr q" "pv s a q = c" "c \<noteq> 0" by (auto simp: tree_block_def)
      have "dropped ?keep q"
      proof (rule ccontr)
        assume "\<not> dropped ?keep q"
        then have "pv s4 a3 q = c" using pv4 [OF q(1)] q(2) by simp
        then have "tree_block s4 a3 c" unfolding tree_block_def using q(1,3) by blast
        with t show False by blast
      qed
      then show "\<exists>q. valid_ptr q \<and> dropped ?keep q \<and> pv s a q = c \<and> c \<noteq> 0" using q by blast
    qed
    then show "allocated s4 c \<longleftrightarrow> allocated s c \<and> \<not> (tree_block s a c \<and> \<not> tree_block s4 a3 c)"
      using 4(5) [of c] P(6) [OF c] c P(2) by simp
  qed
qed

definition truncated :: "nat \<Rightarrow> nat \<Rightarrow> locked_inode \<Rightarrow> fs \<Rightarrow> locked_inode \<Rightarrow> fs \<Rightarrow> bool" where
  "truncated now n li s li' s' \<longleftrightarrow>
     (let a = i_addrs (li_state li); a' = i_addrs (li_state li') in
      fs_inv s' \<and> locked_ok s' li' \<and> sb s' = sb s \<and>
      li' = li\<lparr>li_state := (li_state li)\<lparr>i_mtime := now, i_ctime := now, i_addrs := a', i_size := n\<rparr>\<rparr> \<and>
      state_of_dinode (read_dinode (li_inum li) s') = li_state li' \<and>
      (\<forall>k < n. fbyte s' a' k = fbyte s a k) \<and>
      (n < i_size (li_state li) \<longrightarrow> (\<forall>k \<ge> n. fbyte s' a' k = 0)) \<and>
      (\<forall>c < sb_size (sb s). allocated s' c \<longleftrightarrow> allocated s c \<and> \<not> (tree_block s a c \<and> \<not> tree_block s' a' c)) \<and>
      (n = 0 \<longrightarrow> (\<forall>c. \<not> tree_block s' a' c)) \<and>
      (\<forall>j < sb_ninodes (sb s). j \<noteq> li_inum li \<longrightarrow> read_dinode j s' = read_dinode j s) \<and>
      (\<forall>j. inode_live s j \<longrightarrow> j \<noteq> li_inum li \<longrightarrow> (\<forall>k. fbyte s' (di_tree s j) k = fbyte s (di_tree s j) k)))"

lemma itrunc_to_truncated:
  assumes inv: "fs_inv s" and ok: "locked_ok s li" and now: "now < 2 ^ 32" and n: "n \<le> MAXFILE * BSIZE"
    and W: "log_fits W s" "trunc_writes (keep_blocks n) (li_inum li) (i_addrs (li_state li)) s \<subseteq> W"
  shows "\<exists>li' s'. itrunc_to now li n s = Some (li', s') \<and> truncated now n li s li' s' \<and> log_fits W s'"
proof -
  let ?i = "li_inum li" and ?st = "li_state li" and ?keep = "keep_blocks n"
  let ?a = "i_addrs ?st"
  have live: "inode_live s ?i" and a: "?a = di_tree s ?i" and st: "wf_state ?st" and ty: "i_typ ?st \<noteq> 0"
    using ok by (auto simp: locked_ok_def)
  have i: "0 < ?i" "?i < sb_ninodes (sb s)" using live by (auto simp: inode_live_def)
  note wf = fs_invD(1) [OF inv] locked_ok_tree [OF inv ok]
  have mb: "MAXFILE * BSIZE + BSIZE < 2 ^ 32" by (simp add: layout_simps)
  then have n32: "n < 2 ^ 32" "(n + BSIZE - 1) mod 2 ^ 32 = n + BSIZE - 1" using n by auto
  obtain a1 s1 a2 s2 a3 s3 s4 where run: "trunc_direct [0..<NDIRECT] ?keep ?a s = Some (a1, s1)"
    "trunc_indirect ?keep a1 s1 = Some (a2, s2)" "trunc_double ?keep a2 s2 = Some (a3, s3)"
    "trunc_tail n (i_size ?st) ?keep a3 s3 = Some s4"
    and 4: "log_fits W s4" "wf_fs s4" "wf_tree s4 a3" "sb s4 = sb s"
    "\<And>q. valid_ptr q \<Longrightarrow> pv s4 a3 q = (if dropped ?keep q then 0 else pv s ?a q)"
    "\<And>c. foreign s ?a c \<Longrightarrow> blk s4 c = blk s c"
    "\<And>c. c < sb_size (sb s) \<Longrightarrow> allocated s4 c \<longleftrightarrow> allocated s c \<and> \<not> (tree_block s ?a c \<and> \<not> tree_block s4 a3 c)"
    "\<And>k. k < n \<Longrightarrow> fbyte s4 a3 k = fbyte s ?a k" "\<And>k. n < i_size ?st \<Longrightarrow> n \<le> k \<Longrightarrow> fbyte s4 a3 k = 0"
    by (rule itrunc_to_data [OF wf n W, where cur = "i_size ?st"]) blast
  let ?li = "li\<lparr>li_state := ?st\<lparr>i_mtime := now, i_ctime := now, i_addrs := a3, i_size := n\<rparr>\<rparr>"
  let ?d = "dinode_of_state (li_state ?li)"
  have sub: "tree_block s ?a c" if "tree_block s4 a3 c" for c
    using that 4(5) by (auto simp: tree_block_def split: if_splits)
  have "shrinks s (di_tree s ?i) s4 a3" unfolding shrinks_def a [symmetric] using 4(4,6,7) sub by blast
  note O = shrink_others [OF inv live this]
  have "wf_state (?st\<lparr>i_addrs := a3, i_mtime := now, i_ctime := now, i_size := n\<rparr>)"
    by (rule wf_state_update [OF st wf_tree_len [OF 4(3)] tree_addrs_small [OF 4(2,3)] now n32(1)])
  moreover have "li_state ?li = ?st\<lparr>i_addrs := a3, i_mtime := now, i_ctime := now, i_size := n\<rparr>" by simp
  ultimately have st': "wf_state (li_state ?li)" by (simp only:)
  then have d: "wf_dinode ?d" by (simp add: wf_state_def)
  have dty: "di_typ ?d \<noteq> 0" and da: "di_addrs ?d = a3" using ty by (simp_all add: dinode_of_state_def)
  have "iblock ?i (sb s4) \<in> W" using W(2) 4(4) by (auto simp: trunc_writes_def)
  then obtain s5 where s5: "write_dinode ?i ?d s4 = Some s5" "log_fits W s5"
    using blk_write_fits [OF 4(1)] unfolding write_dinode_def by blast
  have i4: "?i < sb_ninodes (sb s4)" using i(2) 4(4) by simp
  note M = write_dinode_meta [OF 4(2) i4 d s5(1)] and T = write_dinode_tree [OF 4(2) i4 d s5(1)]
  have live4: "inode_live s4 j \<longleftrightarrow> inode_live s j" for j
    using O(1) by (auto simp: inode_live_def 4(4))
  have tr4: "di_tree s4 j = di_tree s j" if "inode_live s j" for j
    using O(1) that by (simp add: di_tree_def inode_live_def)
  have inv5: "fs_inv s5"
  proof (rule fs_inv_write_dinode [OF 4(2) i(1) i4 d s5(1)])
    show "wf_tree s4 (di_addrs ?d)" using 4(3) da by simp
    fix j assume j: "inode_live s4 j" "j \<noteq> ?i"
    show "wf_tree s4 (di_tree s4 j)" using O(3) j live4 tr4 by simp
    show "\<not> tree_block s4 (di_addrs ?d) b" if "tree_block s4 (di_tree s4 j) b" for b
      using O(5) [of j b] j live4 tr4 [of j] that da by simp
    fix k b assume k: "inode_live s4 k" "k \<noteq> ?i" "j \<noteq> k" "tree_block s4 (di_tree s4 j) b"
    then show "\<not> tree_block s4 (di_tree s4 k) b"
      using fs_invD(3) [OF inv, of j k b] O(4) [of j b] O(4) [of k b] j live4 tr4 [of j] tr4 [of k] by simp
  qed
  have rd: "read_dinode ?i s5 = ?d" using M(5) by simp
  have "locked_ok s5 ?li"
    using st' dty da ty i rd M(2) 4(4) by (simp add: locked_ok_def inode_live_def di_tree_def)
  moreover have "itrunc_to now li n s = Some (?li, s5)"
    using run s5(1) n32(2) by (simp add: itrunc_to_def Let_def keep_blocks_def iupdate_def)
  moreover have "state_of_dinode (read_dinode ?i s5) = li_state ?li" unfolding rd by (rule dinode_of_state_inverse)
  moreover have "allocated s5 c \<longleftrightarrow> allocated s c \<and> \<not> (tree_block s ?a c \<and> \<not> tree_block s5 a3 c)" if "c < sb_size (sb s)" for c
    using 4(7) [OF that] M(3) [of c] T(3) [OF 4(3)] that 4(4) by simp
  moreover have "read_dinode j s5 = read_dinode j s" if "j < sb_ninodes (sb s)" "j \<noteq> ?i" for j
    using O(1) [OF that(1)] M(5) that(2) by simp
  moreover have "fbyte s5 (di_tree s j) k = fbyte s (di_tree s j) k" if "inode_live s j" "j \<noteq> ?i" for j k
    using O(2,3) [OF that] T(2) [OF O(3) [OF that]] by simp
  moreover have "\<not> tree_block s5 a3 c" if "n = 0" for c
    using 4(5) dropped_all that T(3) [OF 4(3)] by (auto simp: tree_block_def keep_blocks_zero)
  ultimately show ?thesis
    using inv5 M(2) 4(4,8,9) T(2) [OF 4(3)] s5(2) by (auto simp: truncated_def Let_def)
qed

section \<open>Log space\<close>

lemma card_trunc_writes:
  assumes "sb_size (sb s) \<le> 4 * BPB"
  shows "finite (trunc_writes keep inum a s)" and "card (trunc_writes keep inum a s) < MAXOPBLOCKS"
proof -
  have "(sb_size (sb s) + BPB - 1) div BPB < 5"
    using assms by (intro less_mult_imp_div_less) (simp add: layout_simps)
  then have b: "card (bitmap s) \<le> 4" by (simp add: bitmap_def data_start_def)
  let ?P = "pv s a ` {Ind, Root, RootE (last_leaf_idx keep), data_ptr (keep - 1)}"
  have p: "card ?P \<le> 4"
    by (rule order_trans [OF card_image_le]) (auto simp: card_insert_if)
  show "finite (trunc_writes keep inum a s)" by (simp add: trunc_writes_def bitmap_def)
  have "card (trunc_writes keep inum a s) \<le> card (bitmap s) + 1 + card ?P"
    unfolding trunc_writes_def
    using card_Un_le [of "bitmap s \<union> {iblock inum (sb s)}" ?P] card_Un_le [of "bitmap s" "{iblock inum (sb s)}"]
    by (simp del: pv.simps image_insert)
  then show "card (trunc_writes keep inum a s) < MAXOPBLOCKS" using b p by (simp add: MAXOPBLOCKS_def)
qed

lemma room_fits:
  assumes "log_room MAXOPBLOCKS s" "length (lh_block (lh (flog s))) = LOGSIZE" "finite W" "card W < MAXOPBLOCKS"
  shows "log_fits W s"
proof -
  have "card (W - logged s) \<le> card W" by (rule card_mono [OF assms(3)]) auto
  then show ?thesis using assms by (auto simp: log_fits_def log_room_def)
qed

lemma itrunc_to_reserved:
  assumes "fs_inv s" "locked_ok s li" "now < 2 ^ 32" "n \<le> MAXFILE * BSIZE"
    and "log_room MAXOPBLOCKS s" "length (lh_block (lh (flog s))) = LOGSIZE" "sb_size (sb s) \<le> 4 * BPB"
  shows "\<exists>li' s'. itrunc_to now li n s = Some (li', s') \<and> truncated now n li s li' s'"
  using itrunc_to_truncated [OF assms(1-4) room_fits [OF assms(5,6) card_trunc_writes [OF assms(7)]] order_refl] by blast

section \<open>Properties\<close>

text \<open>C4. Truncation does exactly what it says and always returns. On a consistent volume of at most
  four bitmap blocks, with the log space an operation reserves, \<open>itrunc_to\<close> does not hit any of its
  assertions, whatever the size of the file and the new size. Afterwards the file has the new size, the
  bytes before it are unchanged, a shrunk file reads as zeros after it (so a later extension does not
  bring old bytes back), the inode on disk agrees, and every other inode and file is as before.\<close>

theorem truncate_exact:
  assumes "fs_inv s" "locked_ok s li" "now < 2 ^ 32" "n \<le> MAXFILE * BSIZE"
    and "log_room MAXOPBLOCKS s" "length (lh_block (lh (flog s))) = LOGSIZE" "sb_size (sb s) \<le> 4 * BPB"
  shows "\<exists>li' s'. itrunc_to now li n s = Some (li', s') \<and> fs_inv s' \<and> locked_ok s' li' \<and>
    li_inum li' = li_inum li \<and> i_size (li_state li') = n \<and> i_typ (li_state li') = i_typ (li_state li) \<and>
    state_of_dinode (read_dinode (li_inum li) s') = li_state li' \<and>
    (\<forall>k < n. fbyte s' (i_addrs (li_state li')) k = fbyte s (i_addrs (li_state li)) k) \<and>
    (n < i_size (li_state li) \<longrightarrow> (\<forall>k \<ge> n. fbyte s' (i_addrs (li_state li')) k = 0)) \<and>
    (\<forall>j < sb_ninodes (sb s). j \<noteq> li_inum li \<longrightarrow> read_dinode j s' = read_dinode j s) \<and>
    (\<forall>j. inode_live s j \<longrightarrow> j \<noteq> li_inum li \<longrightarrow> (\<forall>k. fbyte s' (di_tree s j) k = fbyte s (di_tree s j) k))"
proof -
  obtain li' s' where r: "itrunc_to now li n s = Some (li', s')" and t: "truncated now n li s li' s'"
    using itrunc_to_reserved [OF assms] by blast
  have li: "li' = li\<lparr>li_state := (li_state li)\<lparr>i_mtime := now, i_ctime := now, i_addrs := i_addrs (li_state li'), i_size := n\<rparr>\<rparr>"
    using t by (simp add: truncated_def Let_def)
  have "li_inum li' = li_inum li" "i_size (li_state li') = n" "i_typ (li_state li') = i_typ (li_state li)"
    by (subst li, simp)+
  then show ?thesis using r t by (auto simp: truncated_def Let_def)
qed

text \<open>C5. Emptying a file gives back exactly its blocks. After \<open>itrunc\<close> a block is allocated if and only
  if it was allocated before and was not one of the data or pointer blocks of the file: nothing leaks,
  no block is freed twice (which would be a panic) and no block of anything else is freed, for files
  with any mix of direct, indirect and double-indirect blocks and holes.\<close>

theorem itrunc_frees_exactly:
  assumes "fs_inv s" "locked_ok s li" "now < 2 ^ 32"
    and "log_room MAXOPBLOCKS s" "length (lh_block (lh (flog s))) = LOGSIZE" "sb_size (sb s) \<le> 4 * BPB"
  shows "\<exists>li' s'. itrunc now li s = Some (li', s') \<and> fs_inv s' \<and>
    (\<forall>c < sb_size (sb s). allocated s' c \<longleftrightarrow> allocated s c \<and> \<not> tree_block s (i_addrs (li_state li)) c) \<and>
    (\<forall>c. \<not> tree_block s' (i_addrs (li_state li')) c)"
proof -
  obtain li' s' where "itrunc_to now li 0 s = Some (li', s')" "truncated now 0 li s li' s'"
    using itrunc_to_reserved [OF assms(1-3) _ assms(4-6), of 0] by auto
  then show ?thesis unfolding itrunc_def by (auto simp: truncated_def Let_def)
qed

section \<open>Witnesses\<close>

text \<open>A file of three bytes on a small volume, in a new transaction.\<close>

lemma flog_frame:
  "pv (s\<lparr>flog := l\<rparr>) a q = pv s a q" "fbyte (s\<lparr>flog := l\<rparr>) a k = fbyte s a k"
  "fs_inv (s\<lparr>flog := l\<rparr>) = fs_inv s" "locked_ok (s\<lparr>flog := l\<rparr>) li = locked_ok s li"
proof -
  show p: "pv (s\<lparr>flog := l\<rparr>) a q = pv s a q" for a q by (cases q) (simp_all add: entry0_def entry_def)
  show "fbyte (s\<lparr>flog := l\<rparr>) a k = fbyte s a k" by (simp add: fbyte_def Let_def p)
  have d: "read_dinode i (s\<lparr>flog := l\<rparr>) = read_dinode i s" for i by (simp add: read_dinode_def)
  show "locked_ok (s\<lparr>flog := l\<rparr>) li = locked_ok s li" by (simp add: locked_ok_def inode_live_def di_tree_def d)
  show "fs_inv (s\<lparr>flog := l\<rparr>) = fs_inv s"
    by (simp add: fs_inv_def inode_live_def di_tree_def d wf_tree_def tree_block_def p wf_fs_def allocated_def
        bm_block_def data_start_def)
qed

lemma tiny_file:
  obtains li s where "fs_inv s" "locked_ok s li" "log_room MAXOPBLOCKS s" "length (lh_block (lh (flog s))) = LOGSIZE"
    "sb_size (sb s) \<le> 4 * BPB" "i_size (li_state li) = 3" "li_inum li = 1"
    "fbyte s (i_addrs (li_state li)) 0 = 1" "fbyte s (i_addrs (li_state li)) 1 = 2"
proof -
  obtain s1 li2 s2 where t: "ialloc 5 T_FILE 420 tiny_fs = Some (Some 1, s1)" "fs_inv s1" "locked_ok s1 new_li"
    "writei 6 new_li [1, 2, 3] 0 s1 = Some (3, li2, s2)" by (rule tiny_write)
  have z: "i_size (li_state new_li) = 0" "li_inum new_li = 1"
    by (simp_all add: new_li_def state_of_dinode_def new_file_def dinode_default_def)
  note V = writei_fs_inv [OF t(2,3) _ t(4)] and L = writei_locked_ok [OF t(2,3) _ _ t(4)]
  have sz: "sb_size (sb s2) = 100" using ialloc_Some(6) [OF tiny_inv _ _ _ t(1)] V(6) by (simp add: T_FILE_def tiny_fs_def tiny_sb_def)
  show thesis
    by (rule that [of "s2\<lparr>flog := flog tiny_fs\<rparr>" li2])
      (use V(1) V(5) L z sz tiny_room in \<open>auto simp: flog_frame log_room_def MAXOPBLOCKS_def tiny_fs_def BPB_def BSIZE_def
        log_state_zero_def log_header_zero_def\<close>)
qed

theorem truncate_exact_witness:
  "\<exists>li s li' s'. i_size (li_state li) = 3 \<and> fbyte s (i_addrs (li_state li)) 1 = 2 \<and>
     itrunc_to 7 li 1 s = Some (li', s') \<and> i_size (li_state li') = 1 \<and>
     fbyte s' (i_addrs (li_state li')) 0 = 1 \<and> fbyte s' (i_addrs (li_state li')) 1 = 0"
proof -
  obtain li s where f: "fs_inv s" "locked_ok s li" "log_room MAXOPBLOCKS s" "length (lh_block (lh (flog s))) = LOGSIZE"
    "sb_size (sb s) \<le> 4 * BPB" "i_size (li_state li) = 3" "li_inum li = 1"
    "fbyte s (i_addrs (li_state li)) 0 = 1" "fbyte s (i_addrs (li_state li)) 1 = 2" by (rule tiny_file)
  have n: "(7 :: nat) < 2 ^ 32" "1 \<le> MAXFILE * BSIZE" by (simp_all add: layout_simps)
  show ?thesis using truncate_exact [OF f(1,2) n f(3-5)] f by fastforce
qed

theorem itrunc_frees_exactly_witness:
  "\<exists>li s li' s'. i_size (li_state li) = 3 \<and> itrunc 7 li s = Some (li', s') \<and> fs_inv s' \<and>
     \<not> allocated s' (i_addrs (li_state li) ! 0)"
proof -
  obtain li s where f: "fs_inv s" "locked_ok s li" "log_room MAXOPBLOCKS s" "length (lh_block (lh (flog s))) = LOGSIZE"
    "sb_size (sb s) \<le> 4 * BPB" "i_size (li_state li) = 3" "li_inum li = 1"
    "fbyte s (i_addrs (li_state li)) 0 = 1" "fbyte s (i_addrs (li_state li)) 1 = 2" by (rule tiny_file)
  let ?b = "i_addrs (li_state li) ! 0"
  have p: "pv s (i_addrs (li_state li)) (Direct 0) = ?b" "valid_ptr (Direct 0)" by (simp_all add: NDIRECT_def)
  have "?b \<noteq> 0" using f(8) by (auto simp: fbyte_def data_ptr_def NDIRECT_def split: if_splits)
  then have b: "tree_block s (i_addrs (li_state li)) ?b" "?b < sb_size (sb s)"
    using p wf_treeD(2) [OF locked_ok_tree [OF f(1,2)] p(2)] unfolding tree_block_def by (metis, simp)
  have n: "(7 :: nat) < 2 ^ 32" by simp
  show ?thesis using itrunc_frees_exactly [OF f(1,2) n f(3-5)] f(6) b by blast
qed

end
