(* ===== verification/Kalloc.thy ===== *)
theory Kalloc
  imports Prelude
begin

text \<open>
  The physical frame allocator (\<open>kalloc.rs\<close>). Physical memory is the function \<open>pw\<close> from
  addresses of 8-byte words to their contents; free frames are linked through their first
  word, and the address 0 is the null pointer (\<open>NonNull::new\<close> gives \<open>None\<close> for it). The spin
  lock makes each operation one step. \<open>debug_assert!\<close> is compiled out; what it checks is part
  of the invariant \<open>kinv\<close>.
\<close>

definition PGSIZE :: nat where "PGSIZE = 4096"

record pmem =
  pw :: "nat \<Rightarrow> 64 word"
  free_head :: nat
  free_count :: nat

definition kalloc_new :: "(nat \<Rightarrow> 64 word) \<Rightarrow> pmem" where
  "kalloc_new w = \<lparr>pw = w, free_head = 0, free_count = 0\<rparr>"

definition push :: "nat \<Rightarrow> pmem \<Rightarrow> pmem" where
  "push pa m = m\<lparr>pw := (pw m)(pa := of_nat (free_head m)), free_head := pa\<rparr>"

definition pop :: "pmem \<Rightarrow> (nat \<times> pmem) option" where
  "pop m = (if free_head m = 0 then None
            else Some (free_head m, m\<lparr>free_head := unat (pw m (free_head m))\<rparr>))"

definition zero_frame :: "nat \<Rightarrow> pmem \<Rightarrow> pmem" where
  "zero_frame pa m = m\<lparr>pw := (\<lambda>a. if pa \<le> a \<and> a < pa + PGSIZE then 0 else pw m a)\<rparr>"

function add_range_loop :: "nat \<Rightarrow> nat \<Rightarrow> nat \<Rightarrow> pmem \<Rightarrow> nat \<times> pmem" where
  "add_range_loop pa e n m =
     (if pa + PGSIZE \<le> e then add_range_loop (pa + PGSIZE) e (n + 1) (push pa (zero_frame pa m)) else (n, m))"
  by pat_completeness auto

termination
  by (relation "measure (\<lambda>(pa, e, _, _). e - pa)") (auto simp: PGSIZE_def)

declare add_range_loop.simps [simp del]

definition add_range :: "nat \<Rightarrow> nat \<Rightarrow> pmem \<Rightarrow> pmem" where
  "add_range start en m =
     (let s = (start + PGSIZE - 1) div PGSIZE * PGSIZE;
          e = en div PGSIZE * PGSIZE;
          (n, m1) = add_range_loop s e 0 m
      in m1\<lparr>free_count := free_count m1 + n\<rparr>)"

definition alloc_zeroed :: "pmem \<Rightarrow> nat option \<times> pmem" where
  "alloc_zeroed m =
     (case pop m of
        None \<Rightarrow> (None, m)
      | Some (pa, m1) \<Rightarrow> (Some pa, zero_frame pa (m1\<lparr>free_count := free_count m1 - 1\<rparr>)))"

definition kfree :: "nat \<Rightarrow> pmem \<Rightarrow> pmem" where
  "kfree pa m = (let m1 = push pa m in m1\<lparr>free_count := free_count m1 + 1\<rparr>)"

section \<open>The free list\<close>

text \<open>The frames on the list, read off memory, and where the chain ends.\<close>

primrec chain :: "(nat \<Rightarrow> 64 word) \<Rightarrow> nat \<Rightarrow> nat \<Rightarrow> nat list" where
  "chain w 0 h = []"
| "chain w (Suc n) h = h # chain w n (unat (w h))"

primrec chain_end :: "(nat \<Rightarrow> 64 word) \<Rightarrow> nat \<Rightarrow> nat \<Rightarrow> nat" where
  "chain_end w 0 h = h"
| "chain_end w (Suc n) h = chain_end w n (unat (w h))"

definition frames :: "pmem \<Rightarrow> nat list" where
  "frames m = chain (pw m) (free_count m) (free_head m)"

text \<open>A frame: page aligned, not at address 0, and within the 48 bits of physical address
  that both page table formats keep.\<close>

definition frame_ok :: "nat \<Rightarrow> bool" where
  "frame_ok f \<longleftrightarrow> f \<noteq> 0 \<and> PGSIZE dvd f \<and> f < 2 ^ 48"

definition in_frame :: "nat \<Rightarrow> nat \<Rightarrow> bool" where
  "in_frame f a \<longleftrightarrow> f \<le> a \<and> a < f + PGSIZE"

definition kinv :: "pmem \<Rightarrow> bool" where
  "kinv m \<longleftrightarrow> distinct (frames m) \<and> (\<forall>f \<in> set (frames m). frame_ok f) \<and>
     chain_end (pw m) (free_count m) (free_head m) = 0"

lemma PGSIZE_pos [simp]: "0 < PGSIZE"
  by (simp add: PGSIZE_def)

lemma in_frame_base [simp]: "in_frame f f"
  by (simp add: in_frame_def)

lemma frames_disjoint:
  assumes "frame_ok f" "frame_ok g" "in_frame f a" "in_frame g a"
  shows "f = g"
proof -
  obtain x y where "f = PGSIZE * x" "g = PGSIZE * y" using assms by (auto simp: frame_ok_def dvd_def)
  then have "a div PGSIZE = x" "a div PGSIZE = y"
    using assms(3,4) unfolding in_frame_def by (auto simp: div_nat_eqI mult.commute)
  then show ?thesis using \<open>f = PGSIZE * x\<close> \<open>g = PGSIZE * y\<close> by simp
qed

lemma chain_cong:
  "(\<And>f. f \<in> set (chain w n h) \<Longrightarrow> w' f = w f) \<Longrightarrow> chain w' n h = chain w n h \<and> chain_end w' n h = chain_end w n h"
  by (induction n arbitrary: h) auto

lemma frames_cong:
  assumes "free_head m' = free_head m" "free_count m' = free_count m" "\<And>f. f \<in> set (frames m) \<Longrightarrow> pw m' f = pw m f"
  shows "frames m' = frames m" "kinv m' = kinv m"
  using chain_cong [of "pw m" "free_count m" "free_head m" "pw m'"] assms by (auto simp: frames_def kinv_def)

lemma unat_frame: "frame_ok f \<Longrightarrow> unat (of_nat f :: 64 word) = f"
  by (simp add: frame_ok_def unat_of_nat take_bit_eq_mod)

lemma kinv_head:
  assumes "kinv m"
  shows "free_head m = 0 \<longleftrightarrow> frames m = []"
  using assms by (cases "free_count m") (auto simp: kinv_def frames_def frame_ok_def)

lemma alloc_zeroed_Some:
  assumes inv: "kinv m" and a: "alloc_zeroed m = (Some f, m')"
  shows "frames m = f # frames m'" and "kinv m'" and "frame_ok f"
    and "\<And>x. pw m' x = (if in_frame f x then 0 else pw m x)"
proof -
  have h: "free_head m = f" "free_head m \<noteq> 0"
    and m': "m' = zero_frame f (m\<lparr>free_head := unat (pw m f), free_count := free_count m - 1\<rparr>)"
    using a by (auto simp: alloc_zeroed_def pop_def split: if_splits)
  then obtain n where n: "free_count m = Suc n" using inv by (cases "free_count m") (auto simp: kinv_def)
  let ?c = "chain (pw m) n (unat (pw m f))"
  have fr: "frames m = f # ?c" and en: "chain_end (pw m) n (unat (pw m f)) = 0"
    using h n inv by (auto simp: frames_def kinv_def)
  show pw: "\<And>x. pw m' x = (if in_frame f x then 0 else pw m x)" by (simp add: m' zero_frame_def in_frame_def)
  have ok: "frame_ok f" "\<And>g. g \<in> set ?c \<Longrightarrow> frame_ok g" "f \<notin> set ?c" "distinct ?c"
    using inv fr by (auto simp: kinv_def)
  then have "pw m' g = pw m g" if "g \<in> set ?c" for g
    using that frames_disjoint [of f g g] by (auto simp: pw)
  then have "chain (pw m') n (unat (pw m f)) = ?c" "chain_end (pw m') n (unat (pw m f)) = 0"
    using chain_cong [of "pw m" n "unat (pw m f)" "pw m'"] en by auto
  moreover have "free_head m' = unat (pw m f)" "free_count m' = n" using m' n by (auto simp: zero_frame_def)
  ultimately show "frames m = f # frames m'" "kinv m'" "frame_ok f"
    using ok fr by (auto simp: frames_def kinv_def)
qed

lemma alloc_zeroed_None:
  assumes "kinv m"
  shows "alloc_zeroed m = (None, m') \<longleftrightarrow> frames m = [] \<and> m' = m"
  using kinv_head [OF assms] by (auto simp: alloc_zeroed_def pop_def)

lemma kfree_frames:
  assumes inv: "kinv m" and f: "frame_ok f" "f \<notin> set (frames m)"
  shows "frames (kfree f m) = f # frames m" and "kinv (kfree f m)"
    and "\<And>x. x \<noteq> f \<Longrightarrow> pw (kfree f m) x = pw m x"
proof -
  have "free_head m = 0 \<or> frame_ok (free_head m)"
    using inv kinv_head [OF inv] by (cases "free_count m") (auto simp: kinv_def frames_def)
  then have h: "unat (of_nat (free_head m) :: 64 word) = free_head m" using unat_frame by auto
  have "pw (kfree f m) g = pw m g" if "g \<in> set (chain (pw m) (free_count m) (free_head m))" for g
    using that f(2) by (auto simp: frames_def kfree_def push_def)
  from chain_cong [OF this] have "chain (pw (kfree f m)) (free_count m) (free_head m) = frames m"
    "chain_end (pw (kfree f m)) (free_count m) (free_head m) = 0"
    using inv by (simp_all add: frames_def kinv_def)
  then show "frames (kfree f m) = f # frames m" "kinv (kfree f m)"
    using inv f h by (auto simp: kinv_def frames_def kfree_def push_def)
  show "\<And>x. x \<noteq> f \<Longrightarrow> pw (kfree f m) x = pw m x" by (simp add: kfree_def push_def)
qed

text \<open>A store outside the free frames.\<close>

definition store :: "nat \<Rightarrow> 64 word \<Rightarrow> pmem \<Rightarrow> pmem" where
  "store a v m = m\<lparr>pw := (pw m)(a := v)\<rparr>"

lemma store_frames:
  assumes "a \<notin> set (frames m)"
  shows "frames (store a v m) = frames m" and "kinv (store a v m) = kinv m"
proof -
  have "pw (store a v m) f = pw m f" if "f \<in> set (frames m)" for f using that assms by (auto simp: store_def)
  then show "frames (store a v m) = frames m" "kinv (store a v m) = kinv m"
    using frames_cong [of "store a v m" m] by (auto simp: store_def)
qed

lemma pw_store [simp]: "pw (store a v m) = (pw m)(a := v)"
  by (simp add: store_def)

section \<open>Adding a range\<close>

lemma add_range_loop_spec:
  assumes "kinv (m\<lparr>free_count := free_count m + n\<rparr>)" and "PGSIZE dvd pa" and "pa \<noteq> 0" and "e \<le> 2 ^ 48"
    and "\<forall>f \<in> set (frames (m\<lparr>free_count := free_count m + n\<rparr>)). f < pa"
    and "add_range_loop pa e n m = (n', m')"
  shows "kinv (m'\<lparr>free_count := free_count m' + n'\<rparr>) \<and>
    set (frames (m'\<lparr>free_count := free_count m' + n'\<rparr>)) =
      set (frames (m\<lparr>free_count := free_count m + n\<rparr>)) \<union> {f. PGSIZE dvd f \<and> pa \<le> f \<and> f + PGSIZE \<le> e}"
  using assms
proof (induction pa e n m rule: add_range_loop.induct)
  case (1 pa e n m)
  let ?g = "\<lambda>m n. m\<lparr>free_count := free_count m + n\<rparr>"
  show ?case
  proof (cases "pa + PGSIZE \<le> e")
    case False
    then show ?thesis using "1.prems" by (auto simp: add_range_loop.simps)
  next
    case True
    let ?m0 = "?g (zero_frame pa m) n"
    have pa: "frame_ok pa" using "1.prems"(2-4) True by (simp add: frame_ok_def PGSIZE_def)
    have "frame_ok f" if "f \<in> set (frames (?g m n))" for f using "1.prems"(1) that by (simp add: kinv_def)
    then have same: "pw ?m0 f = pw (?g m n) f" if "f \<in> set (frames (?g m n))" for f
      using that "1.prems"(5) by (force simp: zero_frame_def)
    have c: "free_head ?m0 = free_head (?g m n)" "free_count ?m0 = free_count (?g m n)" by (auto simp: zero_frame_def)
    have z: "frames ?m0 = frames (?g m n)" "kinv ?m0" using frames_cong [OF c same] "1.prems"(1) by auto
    have nin: "pa \<notin> set (frames ?m0)" using "1.prems"(5) z(1) by auto
    have eq: "?g (push pa (zero_frame pa m)) (n + 1) = kfree pa ?m0" by (simp add: kfree_def push_def)
    note K = kfree_frames [OF z(2) pa nin]
    have dv: "PGSIZE dvd pa + PGSIZE" using "1.prems"(2) by simp
    have lt: "\<forall>f \<in> set (frames (kfree pa ?m0)). f < pa + PGSIZE"
      using K(1) z(1) "1.prems"(5) by (auto intro: trans_less_add1)
    have r: "add_range_loop (pa + PGSIZE) e (n + 1) (push pa (zero_frame pa m)) = (n', m')"
      using "1.prems"(6) True by (simp add: add_range_loop.simps [of pa])
    have "kinv (?g m' n') \<and> set (frames (?g m' n')) = set (frames (kfree pa ?m0)) \<union>
        {f. PGSIZE dvd f \<and> pa + PGSIZE \<le> f \<and> f + PGSIZE \<le> e}"
      by (rule "1.IH" [OF True, unfolded eq, OF K(2) dv _ "1.prems"(4) lt r]) simp
    moreover have "{f. PGSIZE dvd f \<and> pa \<le> f \<and> f + PGSIZE \<le> e} =
        insert pa {f. PGSIZE dvd f \<and> pa + PGSIZE \<le> f \<and> f + PGSIZE \<le> e}"
    proof -
      have "f = pa \<or> pa + PGSIZE \<le> f" if d: "PGSIZE dvd f" and le: "pa \<le> f" for f
      proof -
        obtain x where x: "f = PGSIZE * x" using d by (rule dvdE)
        obtain y where y: "pa = PGSIZE * y" using "1.prems"(2) by (rule dvdE)
        show ?thesis using le x y by (cases "x = y") (auto simp: PGSIZE_def)
      qed
      then show ?thesis using "1.prems"(2) True by auto
    qed
    ultimately show ?thesis using K(1) z(1) by auto
  qed
qed

lemma kinv_new: "kinv (kalloc_new w)" "frames (kalloc_new w) = []"
  by (simp_all add: kalloc_new_def kinv_def frames_def)

lemma add_range_new:
  assumes "0 < start" and "en \<le> 2 ^ 48"
  shows "kinv (add_range start en (kalloc_new w))"
    and "set (frames (add_range start en (kalloc_new w))) = {f. PGSIZE dvd f \<and> start \<le> f \<and> f + PGSIZE \<le> en}"
proof -
  let ?s = "(start + PGSIZE - 1) div PGSIZE * PGSIZE" and ?e = "en div PGSIZE * PGSIZE"
  obtain n' m' where l: "add_range_loop ?s ?e 0 (kalloc_new w) = (n', m')" by fastforce
  have s: "?s \<noteq> 0" using assms(1) by (simp add: PGSIZE_def div_eq_0_iff)
  have e: "?e \<le> 2 ^ 48" using assms(2) div_times_less_eq_dividend [of en PGSIZE] by linarith
  have "PGSIZE dvd ?s" by simp
  note L = add_range_loop_spec [OF _ this s e _ l]
  have m: "add_range start en (kalloc_new w) = m'\<lparr>free_count := free_count m' + n'\<rparr>"
    using l by (simp add: add_range_def Let_def)
  show "kinv (add_range start en (kalloc_new w))" using L kinv_new [of w] by (simp add: m)
  have "?s \<le> f \<longleftrightarrow> start \<le> f" if d: "PGSIZE dvd f" for f
  proof -
    obtain x where "f = PGSIZE * x" using d by (auto simp: dvd_def)
    then show ?thesis unfolding PGSIZE_def by simp linarith
  qed
  moreover have "f + PGSIZE \<le> ?e \<longleftrightarrow> f + PGSIZE \<le> en" if d: "PGSIZE dvd f" for f
  proof -
    obtain x where "f = PGSIZE * x" using d by (auto simp: dvd_def)
    then show ?thesis using less_eq_div_iff_mult_less_eq [of 4096 "x + 1" en] unfolding PGSIZE_def by (simp add: mult.commute) linarith
  qed
  ultimately have "{f. PGSIZE dvd f \<and> ?s \<le> f \<and> f + PGSIZE \<le> ?e} = {f. PGSIZE dvd f \<and> start \<le> f \<and> f + PGSIZE \<le> en}" by auto
  then show "set (frames (add_range start en (kalloc_new w))) = {f. PGSIZE dvd f \<and> start \<le> f \<and> f + PGSIZE \<le> en}"
    using L kinv_new [of w] by (simp add: m)
qed

section \<open>The interface\<close>

text \<open>What a client of a frame allocator relies on: a frame handed out leaves the pool, a frame
  given back enters it, and nothing else moves.\<close>

locale frame_pool =
  fixes alloc :: "'s \<Rightarrow> nat option \<times> 's"
    and free :: "nat \<Rightarrow> 's \<Rightarrow> 's"
    and pool :: "'s \<Rightarrow> nat list"
    and inv :: "'s \<Rightarrow> bool"
    and ok :: "nat \<Rightarrow> bool"
  assumes alloc_Some: "inv s \<Longrightarrow> alloc s = (Some f, s') \<Longrightarrow> inv s' \<and> ok f \<and> pool s = f # pool s'"
    and alloc_None: "inv s \<Longrightarrow> alloc s = (None, s') \<Longrightarrow> pool s = [] \<and> s' = s"
    and free_pool: "inv s \<Longrightarrow> ok f \<Longrightarrow> f \<notin> set (pool s) \<Longrightarrow> inv (free f s) \<and> pool (free f s) = f # pool s"
begin

definition owned :: "nat list \<Rightarrow> 's \<Rightarrow> nat set \<Rightarrow> bool" where
  "owned held s S \<longleftrightarrow> inv s \<and> distinct (held @ pool s) \<and> set (held @ pool s) = S \<and> (\<forall>f \<in> set held. ok f)"

lemma owned_alloc: "owned held s S \<Longrightarrow> alloc s = (Some f, s') \<Longrightarrow> owned (f # held) s' S"
  using alloc_Some by (auto simp: owned_def)

lemma owned_free: "owned held s S \<Longrightarrow> f \<in> set held \<Longrightarrow> owned (remove1 f held) (free f s) S"
proof -
  assume o: "owned held s S" and f: "f \<in> set held"
  then have "f \<notin> set (pool s)" "inv s" "ok f" by (auto simp: owned_def)
  then have "inv (free f s)" "pool (free f s) = f # pool s" using free_pool by auto
  then show "owned (remove1 f held) (free f s) S" using o f by (auto simp: owned_def distinct_remove1 set_remove1_eq)
qed

lemma alloc_fails_only_when_empty: "owned held s S \<Longrightarrow> alloc s = (None, s') \<Longrightarrow> set held = S"
  using alloc_None by (auto simp: owned_def)

end

interpretation kf: frame_pool alloc_zeroed kfree frames kinv frame_ok
proof (unfold_locales, goal_cases)
  case (1 s f s')
  then show ?case using alloc_zeroed_Some by blast
next
  case (2 s s')
  then show ?case using alloc_zeroed_None by blast
next
  case (3 s f)
  then show ?case using kfree_frames by blast
qed

text \<open>A history of requests. A client frees only what it holds, the safety contract of \<open>free\<close>;
  a held frame may be overwritten in any way.\<close>

datatype kop = KAlloc | KFree nat | KStore nat "64 word"

fun kop_step :: "kop \<Rightarrow> nat list \<times> pmem \<Rightarrow> nat list \<times> pmem" where
  "kop_step KAlloc (held, m) =
     (case alloc_zeroed m of (Some f, m') \<Rightarrow> (f # held, m') | (None, m') \<Rightarrow> (held, m'))"
| "kop_step (KFree f) (held, m) = (if f \<in> set held then (remove1 f held, kfree f m) else (held, m))"
| "kop_step (KStore a v) (held, m) =
     (if \<exists>f \<in> set held. in_frame f a then (held, store a v m) else (held, m))"

definition krun :: "kop list \<Rightarrow> pmem \<Rightarrow> nat list \<times> pmem" where
  "krun ops m = fold kop_step ops ([], m)"

lemma kop_step_owned: "kf.owned (fst hm) (snd hm) S \<Longrightarrow> kf.owned (fst (kop_step op hm)) (snd (kop_step op hm)) S"
proof (induction op hm rule: kop_step.induct)
  case (1 held m)
  obtain r m' where a: "alloc_zeroed m = (r, m')" by fastforce
  show ?case
  proof (cases r)
    case None
    then have "m' = m" using a alloc_zeroed_None [of m m'] "1.prems" by (simp add: kf.owned_def)
    then show ?thesis using "1.prems" a None by simp
  next
    case (Some f)
    then show ?thesis using kf.owned_alloc [of held m S f m'] "1.prems" a by simp
  qed
next
  case (2 f held m)
  then show ?case using kf.owned_free [of held m S f] by auto
next
  case (3 a v held m)
  show ?case
  proof (cases "\<exists>f \<in> set held. in_frame f a")
    case True
    then obtain f where f: "f \<in> set held" "in_frame f a" by blast
    have o: "kinv m" "distinct (held @ frames m)" "frame_ok f"
      using "3.prems" f by (auto simp: kf.owned_def)
    have "a \<notin> set (frames m)"
    proof
      assume a: "a \<in> set (frames m)"
      then have "frame_ok a" using o(1) by (simp add: kinv_def)
      then have "f = a" using frames_disjoint [OF o(3) _ f(2), of a] by simp
      then show False using o(2) f(1) a by auto
    qed
    from store_frames [OF this] show ?thesis using "3.prems" True by (simp add: kf.owned_def)
  qed (use "3.prems" in auto)
qed

lemma krun_owned: "kf.owned held m S \<Longrightarrow> case fold kop_step ops (held, m) of (h, m') \<Rightarrow> kf.owned h m' S"
proof (induction ops arbitrary: held m)
  case (Cons op ops)
  obtain h1 m1 where "kop_step op (held, m) = (h1, m1)" by fastforce
  then show ?case using Cons.IH [of h1 m1] kop_step_owned [of "(held, m)" S op] Cons.prems by simp
qed simp

section \<open>Properties\<close>

text \<open>C11. No frame is lost, forged or handed out twice. Whatever requests are served after boot
  has donated the range, with clients writing anything into the frames they hold (the free
  list lives inside the free frames), the frames held and the frames free are together
  exactly the page-aligned frames of the range, without overlap; and an allocation fails
  only when every frame is held.\<close>

theorem frames_conserved:
  assumes "0 < start" and "en \<le> 2 ^ 48" and "krun ops (add_range start en (kalloc_new w)) = (held, m)"
  shows "distinct (held @ frames m) \<and>
    set (held @ frames m) = {f. PGSIZE dvd f \<and> start \<le> f \<and> f + PGSIZE \<le> en} \<and>
    (fst (alloc_zeroed m) = None \<longrightarrow> set held = {f. PGSIZE dvd f \<and> start \<le> f \<and> f + PGSIZE \<le> en})"
proof -
  let ?S = "{f. PGSIZE dvd f \<and> start \<le> f \<and> f + PGSIZE \<le> en}"
  note R = add_range_new [OF assms(1,2), of w]
  have "kf.owned [] (add_range start en (kalloc_new w)) ?S"
    using R by (simp add: kf.owned_def kinv_def)
  from krun_owned [OF this, of ops] have o: "kf.owned held m ?S" using assms(3) by (simp add: krun_def)
  then show ?thesis using kf.alloc_fails_only_when_empty [OF o] by (cases "alloc_zeroed m") (auto simp: kf.owned_def)
qed

theorem frames_conserved_witness:
  "set (fst (krun [KAlloc, KStore 8200 7, KAlloc] (add_range 8000 20480 (kalloc_new (\<lambda>_. 1)))) @
        frames (snd (krun [KAlloc, KStore 8200 7, KAlloc] (add_range 8000 20480 (kalloc_new (\<lambda>_. 1))))))
     = {f. PGSIZE dvd f \<and> 8000 \<le> f \<and> f + PGSIZE \<le> 20480}"
proof -
  let ?r = "krun [KAlloc, KStore 8200 7, KAlloc] (add_range 8000 20480 (kalloc_new (\<lambda>_. 1)))"
  have "?r = (fst ?r, snd ?r)" by simp
  from frames_conserved [OF _ _ this] show ?thesis by simp
qed

text \<open>A frame handed out is zero, also when its last holder left data in it, and allocating
  touches nothing outside that frame; freeing and allocating again gives the same frame.\<close>

lemma alloc_zeroed_is_zero:
  assumes "kinv m" and "alloc_zeroed m = (Some f, m')"
  shows "frame_ok f \<and> (\<forall>a. pw m' a = (if in_frame f a then 0 else pw m a)) \<and> f \<notin> set (frames m') \<and>
    fst (alloc_zeroed (kfree f m')) = Some f"
proof -
  note A = alloc_zeroed_Some [OF assms]
  have n: "f \<notin> set (frames m')" using A(1) assms(1) by (auto simp: kinv_def)
  note F = kfree_frames [OF A(2,3) n]
  have "fst (alloc_zeroed (kfree f m')) = Some f"
    using A(3) by (simp add: alloc_zeroed_def pop_def kfree_def push_def frame_ok_def)
  then show ?thesis using A(3,4) n by simp
qed

end
