(* ===== verification/Radix.thy ===== *)
theory Radix
  imports Kalloc
begin

text \<open>
  Radix page tables in physical memory, for both architectures. A table is a frame of 512
  entries; an index path names a table by the entries taken from the root. The locale
  \<open>radix\<close> fixes what the two formats differ in (which entries are valid, where they point,
  how a branch is built) together with the walk and the mapping loop, assumed to satisfy the
  equations of the source. Its lemmas show what the walk and the loop do to the leaf
  entries, seen as a function of the virtual address.
\<close>

datatype vm_error = Oom | Remap | Misaligned | OutOfRange

text \<open>The 9-bit index of an address at a level, level 0 being the last.\<close>

definition pte_index :: "nat \<Rightarrow> nat \<Rightarrow> nat" where
  "pte_index level va = (va div 2 ^ (12 + 9 * level)) mod 512"

definition idx_path :: "nat list \<Rightarrow> nat \<Rightarrow> nat list" where
  "idx_path levels va = map (\<lambda>l. pte_index l va) levels"

definition ipath :: "nat \<Rightarrow> nat list \<Rightarrow> bool" where
  "ipath n p \<longleftrightarrow> length p \<le> n \<and> (\<forall>i \<in> set p. i < 512)"

lemma pte_index_less [simp]: "pte_index l va < 512"
  by (simp add: pte_index_def)

lemma pte_index_alt: "pte_index l u = u div PGSIZE div 512 ^ l mod 512"
proof -
  have "(2 :: nat) ^ (9 * l) = 512 ^ l" by (simp add: power_mult)
  then show ?thesis by (simp add: pte_index_def PGSIZE_def power_add div_mult2_eq)
qed

lemma digits_eq:
  fixes p q :: nat
  assumes "p < b ^ n" and "q < b ^ n" and "\<And>l. l < n \<Longrightarrow> p div b ^ l mod b = q div b ^ l mod b"
  shows "p = q"
  using assms
proof (induction n arbitrary: p q)
  case (Suc n)
  have "p div b = q div b"
  proof (rule Suc.IH)
    show "p div b < b ^ n" "q div b < b ^ n" using Suc.prems(1,2) by (auto simp: less_mult_imp_div_less mult.commute)
    show "p div b div b ^ l mod b = q div b div b ^ l mod b" if "l < n" for l
      using Suc.prems(3) [of "Suc l"] that by (simp add: div_mult2_eq)
  qed
  moreover have "p mod b = q mod b" using Suc.prems(3) [of 0] by simp
  ultimately show ?case by (metis div_mod_decomp)
qed simp

lemma idx_path_simps [simp]:
  "idx_path [] va = []" "idx_path (l # ls) va = pte_index l va # idx_path ls va" "length (idx_path ls va) = length ls"
  by (simp_all add: idx_path_def)

lemma ipath_idx: "length ls \<le> n \<Longrightarrow> ipath n (idx_path ls va)"
  by (auto simp: ipath_def idx_path_def)

lemma entry_in_frame: "i < 512 \<Longrightarrow> in_frame x (x + 8 * i)"
  by (simp add: in_frame_def PGSIZE_def)

lemma entry_slot:
  assumes "frame_ok x" "frame_ok y" "i < 512" "j < 512" "x + 8 * i = y + 8 * j"
  shows "x = y \<and> i = j"
proof -
  have "x = y" using frames_disjoint [OF assms(1,2) entry_in_frame [OF assms(3)]] entry_in_frame [OF assms(4), of y] assms(5)
    by simp
  then show ?thesis using assms(5) by simp
qed

locale radix =
  fixes valid :: "64 word \<Rightarrow> bool"
    and target :: "64 word \<Rightarrow> nat"
    and branch :: "nat \<Rightarrow> 64 word"
    and is_branch :: "64 word \<Rightarrow> bool"
    and levels :: "nat list"
    and maxva :: nat
    and leafw :: "'p \<Rightarrow> nat \<Rightarrow> 64 word"
    and wl :: "bool \<Rightarrow> nat list \<Rightarrow> nat \<Rightarrow> nat \<Rightarrow> pmem \<Rightarrow> nat option \<times> pmem"
    and wlk :: "bool \<Rightarrow> nat \<Rightarrow> nat \<Rightarrow> pmem \<Rightarrow> nat option \<times> pmem"
    and mp :: "'p \<Rightarrow> nat \<Rightarrow> nat \<Rightarrow> nat \<Rightarrow> nat \<Rightarrow> pmem \<Rightarrow> (vm_error + unit) \<times> pmem"
  assumes valid0: "\<not> valid 0"
    and branch: "frame_ok f \<Longrightarrow> valid (branch f) \<and> target (branch f) = f \<and> is_branch (branch f)"
    and wl_nil: "wl al [] va t m = (Some (t + 8 * pte_index 0 va), m)"
    and wl_cons: "wl al (l # ls) va t m =
      (let p = t + 8 * pte_index l va; pte = pw m p in
       if valid pte then wl al ls va (target pte) m
       else if al then
         (case alloc_zeroed m of
            (None, m1) \<Rightarrow> (None, m1)
          | (Some new_pa, m1) \<Rightarrow> wl al ls va new_pa (store p (branch new_pa) m1))
       else (None, m))"
    and wlk_eq: "wlk al r va m = (if maxva \<le> va then (None, m) else wl al levels va r m)"
    and mp_eq: "mp perm r va pa en m =
      (if va < en then
         (case wlk True r va m of
            (None, m1) \<Rightarrow> (Inl Oom, m1)
          | (Some p, m1) \<Rightarrow>
              if valid (pw m1 p) then (Inl Remap, m1)
              else mp perm r (va + PGSIZE) (pa + PGSIZE) en (store p (leafw perm pa) m1))
       else (Inr (), m))"
    and addr_inj: "v < maxva \<Longrightarrow> v' < maxva \<Longrightarrow> idx_path levels v = idx_path levels v' \<Longrightarrow>
      pte_index 0 v = pte_index 0 v' \<Longrightarrow> v div PGSIZE = v' div PGSIZE"
begin

abbreviation depth :: nat where "depth \<equiv> length levels"

primrec node :: "(nat \<Rightarrow> 64 word) \<Rightarrow> nat \<Rightarrow> nat list \<Rightarrow> nat option" where
  "node w t [] = Some t"
| "node w t (i # js) = (if valid (w (t + 8 * i)) then node w (target (w (t + 8 * i))) js else None)"

text \<open>The tables form a tree of frames outside the free pool: no frame is reached along two
  paths, and the entries above the last level are branches.\<close>

definition tree :: "nat \<Rightarrow> pmem \<Rightarrow> bool" where
  "tree r m \<longleftrightarrow> kinv m \<and>
     (\<forall>p x. ipath depth p \<longrightarrow> node (pw m) r p = Some x \<longrightarrow> frame_ok x \<and> x \<notin> set (frames m)) \<and>
     (\<forall>p q x. ipath depth p \<longrightarrow> ipath depth q \<longrightarrow> node (pw m) r p = Some x \<longrightarrow> node (pw m) r q = Some x \<longrightarrow> p = q) \<and>
     (\<forall>p x i. ipath depth p \<longrightarrow> length p < depth \<longrightarrow> node (pw m) r p = Some x \<longrightarrow> i < 512 \<longrightarrow>
        valid (pw m (x + 8 * i)) \<longrightarrow> is_branch (pw m (x + 8 * i)))"

text \<open>The last-level entry of an index path, and of an address; 0 where a table is missing.\<close>

definition leaf :: "(nat \<Rightarrow> 64 word) \<Rightarrow> nat \<Rightarrow> nat list \<Rightarrow> nat \<Rightarrow> 64 word" where
  "leaf w r p i = (case node w r p of None \<Rightarrow> 0 | Some x \<Rightarrow> w (x + 8 * i))"

definition entry_of :: "pmem \<Rightarrow> nat \<Rightarrow> nat \<Rightarrow> 64 word" where
  "entry_of m r va = leaf (pw m) r (idx_path levels va) (pte_index 0 va)"

definition table_of :: "pmem \<Rightarrow> nat \<Rightarrow> nat \<Rightarrow> bool" where
  "table_of m r x \<longleftrightarrow> (\<exists>p. ipath depth p \<and> node (pw m) r p = Some x)"

text \<open>Memory that belongs neither to the tree nor to the pool.\<close>

definition outside :: "pmem \<Rightarrow> nat \<Rightarrow> nat \<Rightarrow> bool" where
  "outside m r a \<longleftrightarrow> (\<forall>f. in_frame f a \<longrightarrow> frame_ok f \<longrightarrow> f \<notin> set (frames m) \<and> \<not> table_of m r f)"

text \<open>The frames of the pool and of the tree together.\<close>

definition held :: "pmem \<Rightarrow> nat \<Rightarrow> nat set" where
  "held m r = set (frames m) \<union> {x. table_of m r x}"

lemma treeD:
  assumes "tree r m"
  shows "kinv m"
    and "\<And>p x. ipath depth p \<Longrightarrow> node (pw m) r p = Some x \<Longrightarrow> frame_ok x \<and> x \<notin> set (frames m)"
    and "\<And>p q x. ipath depth p \<Longrightarrow> ipath depth q \<Longrightarrow> node (pw m) r p = Some x \<Longrightarrow> node (pw m) r q = Some x \<Longrightarrow> p = q"
    and "\<And>p x i. ipath depth p \<Longrightarrow> length p < depth \<Longrightarrow> node (pw m) r p = Some x \<Longrightarrow> i < 512 \<Longrightarrow>
      valid (pw m (x + 8 * i)) \<Longrightarrow> is_branch (pw m (x + 8 * i))"
  using assms unfolding tree_def by blast+

lemma node_append: "node w t (p @ q) = (case node w t p of None \<Rightarrow> None | Some x \<Rightarrow> node w x q)"
  by (induction p arbitrary: t) auto

lemma node_cong:
  assumes "\<And>q' j s y. q = q' @ j # s \<Longrightarrow> node w t q' = Some y \<Longrightarrow> w' (y + 8 * j) = w (y + 8 * j)"
  shows "node w' t q = node w t q"
  using assms
proof (induction q arbitrary: t)
  case (Cons i js)
  have e: "w' (t + 8 * i) = w (t + 8 * i)" using Cons.prems [of "[]" i js t] by simp
  show ?case
  proof (cases "valid (w (t + 8 * i))")
    case True
    have "node w' (target (w (t + 8 * i))) js = node w (target (w (t + 8 * i))) js"
    proof (rule Cons.IH)
      fix q' j s y
      assume "js = q' @ j # s" "node w (target (w (t + 8 * i))) q' = Some y"
      then show "w' (y + 8 * j) = w (y + 8 * j)" using Cons.prems [of "i # q'" j s y] True by simp
    qed
    then show ?thesis using e by simp
  qed (use e in simp)
qed simp

lemma ipath_prefix: "ipath n (p @ q) \<Longrightarrow> ipath n p"
  by (auto simp: ipath_def)

text \<open>A store into one entry changes only the paths through that entry.\<close>

lemma node_store:
  assumes tr: "tree r m" and p: "ipath depth p" "node (pw m) r p = Some x" and i: "i < 512"
    and q: "ipath depth q" "\<not> (\<exists>s. q = p @ i # s)"
  shows "node ((pw m)(x + 8 * i := v)) r q = node (pw m) r q"
proof (rule node_cong)
  fix q' j s y
  assume d: "q = q' @ j # s" and y: "node (pw m) r q' = Some y"
  have q': "ipath depth q'" "j < 512" using q(1) d by (auto simp: ipath_def)
  have "y + 8 * j \<noteq> x + 8 * i"
  proof
    assume "y + 8 * j = x + 8 * i"
    then have "y = x" "j = i"
      using entry_slot [of y x j i] treeD(2) [OF tr q'(1) y] treeD(2) [OF tr p] q'(2) i by auto
    then show False using treeD(3) [OF tr q'(1) p(1) y] p(2) d q(2) by auto
  qed
  then show "((pw m)(x + 8 * i := v)) (y + 8 * j) = pw m (y + 8 * j)" by simp
qed

lemma store_tree_frames:
  assumes tr: "tree r m" and p: "ipath depth p" "node (pw m) r p = Some x" and i: "i < 512"
  shows "frames (store (x + 8 * i) v m) = frames m" and "kinv (store (x + 8 * i) v m)"
proof -
  have x: "frame_ok x" "x \<notin> set (frames m)" using treeD(2) [OF tr p] by auto
  have "x + 8 * i \<notin> set (frames m)"
  proof
    assume a: "x + 8 * i \<in> set (frames m)"
    then have "frame_ok (x + 8 * i)" using treeD(1) [OF tr] by (simp add: kinv_def)
    then have "x = x + 8 * i" using frames_disjoint [OF x(1) _ entry_in_frame [OF i], of "x + 8 * i"] by simp
    then show False using x(2) a by simp
  qed
  from store_frames [OF this] show "frames (store (x + 8 * i) v m) = frames m" "kinv (store (x + 8 * i) v m)"
    using treeD(1) [OF tr] by auto
qed

end

section \<open>Leaf stores and new tables\<close>

context radix
begin

lemma leaf_store:
  assumes tr: "tree r m" and p: "ipath depth p" "length p = depth" "node (pw m) r p = Some x" and i: "i < 512"
  shows "\<And>q. ipath depth q \<Longrightarrow> node (pw (store (x + 8 * i) v m)) r q = node (pw m) r q"
    and "tree r (store (x + 8 * i) v m)"
    and "\<And>q j. ipath depth q \<Longrightarrow> length q = depth \<Longrightarrow> j < 512 \<Longrightarrow>
      leaf (pw (store (x + 8 * i) v m)) r q j = (if q = p \<and> j = i then v else leaf (pw m) r q j)"
proof -
  let ?m = "store (x + 8 * i) v m"
  show nd: "node (pw ?m) r q = node (pw m) r q" if q: "ipath depth q" for q
  proof -
    have "\<not> (\<exists>s. q = p @ i # s)" using q p(2) by (auto simp: ipath_def)
    then show ?thesis using node_store [OF tr p(1,3) i q] by simp
  qed
  have other: "pw ?m (y + 8 * j) = pw m (y + 8 * j)"
    if q: "ipath depth q" "node (pw m) r q = Some y" "j < 512" "\<not> (q = p \<and> j = i)" for q y j
  proof -
    have "y + 8 * j \<noteq> x + 8 * i"
      using entry_slot [of y x j i] treeD(2) [OF tr q(1,2)] treeD(2) [OF tr p(1,3)] q(3,4) i
        treeD(3) [OF tr q(1) p(1) q(2)] p(3) by auto
    then show ?thesis by simp
  qed
  note F = store_tree_frames [OF tr p(1,3) i, of v]
  show "tree r ?m"
    unfolding tree_def
  proof (intro conjI allI impI)
    show "kinv ?m" by (rule F(2))
  next
    fix q y assume "ipath depth q" "node (pw ?m) r q = Some y"
    then show "frame_ok y" "y \<notin> set (frames ?m)" using treeD(2) [OF tr] nd F(1) by auto
  next
    fix q q' y assume "ipath depth q" "ipath depth q'" "node (pw ?m) r q = Some y" "node (pw ?m) r q' = Some y"
    then show "q = q'" using treeD(3) [OF tr] nd by metis
  next
    fix q y j assume q: "ipath depth q" "length q < depth" "node (pw ?m) r q = Some y" "j < 512" "valid (pw ?m (y + 8 * j))"
    then have "node (pw m) r q = Some y" "q \<noteq> p" using nd p(2) by auto
    then show "is_branch (pw ?m (y + 8 * j))" using other [of q y j] q treeD(4) [OF tr, of q y j] by auto
  qed
  show "leaf (pw ?m) r q j = (if q = p \<and> j = i then v else leaf (pw m) r q j)"
    if q: "ipath depth q" "length q = depth" "j < 512" for q j
  proof (cases "q = p \<and> j = i")
    case True
    then show ?thesis using nd [OF q(1)] p(3) by (simp add: leaf_def)
  next
    case False
    then show ?thesis using nd [OF q(1)] other [OF q(1) _ q(3) False] by (auto simp: leaf_def split: option.split)
  qed
qed

definition keeps :: "nat \<Rightarrow> pmem \<Rightarrow> pmem \<Rightarrow> bool" where
  "keeps r m m' \<longleftrightarrow> tree r m' \<and>
     (\<forall>q j. ipath depth q \<longrightarrow> length q = depth \<longrightarrow> j < 512 \<longrightarrow> leaf (pw m') r q j = leaf (pw m) r q j) \<and>
     set (frames m') \<subseteq> set (frames m) \<and>
     (\<forall>a. outside m r a \<longrightarrow> pw m' a = pw m a \<and> outside m' r a) \<and> held m' r = held m r"

lemma keeps_refl: "tree r m \<Longrightarrow> keeps r m m"
  by (simp add: keeps_def)

lemma keeps_trans: "keeps r m m1 \<Longrightarrow> keeps r m1 m2 \<Longrightarrow> keeps r m m2"
  unfolding keeps_def by (auto simp del: fun_upd_apply)

lemma alloc_tree:
  assumes tr: "tree r m" and a: "alloc_zeroed m = (Some f, m1)"
  shows "\<And>q. ipath depth q \<Longrightarrow> node (pw m1) r q = node (pw m) r q"
    and "\<And>q y j. ipath depth q \<Longrightarrow> node (pw m) r q = Some y \<Longrightarrow> y \<noteq> f \<and> (j < 512 \<longrightarrow> pw m1 (y + 8 * j) = pw m (y + 8 * j))"
    and "tree r m1" and "frame_ok f" and "f \<in> set (frames m)" and "f \<notin> set (frames m1)"
    and "set (frames m1) \<subseteq> set (frames m)" and "\<And>j. j < 512 \<Longrightarrow> pw m1 (f + 8 * j) = 0"
proof -
  note A = alloc_zeroed_Some [OF treeD(1) [OF tr] a]
  show f: "frame_ok f" "f \<in> set (frames m)" "f \<notin> set (frames m1)" "set (frames m1) \<subseteq> set (frames m)"
    using A(1,3) treeD(1) [OF tr] by (auto simp: kinv_def)
  show other: "y \<noteq> f \<and> (j < 512 \<longrightarrow> pw m1 (y + 8 * j) = pw m (y + 8 * j))"
    if q: "ipath depth q" "node (pw m) r q = Some y" for q y j
  proof -
    have y: "frame_ok y" "y \<notin> set (frames m)" using treeD(2) [OF tr q] by auto
    then have "y \<noteq> f" using f(2) by auto
    then have "j < 512 \<Longrightarrow> \<not> in_frame f (y + 8 * j)"
      using frames_disjoint [OF y(1) f(1) entry_in_frame] by blast
    then show ?thesis using A(4) \<open>y \<noteq> f\<close> by simp
  qed
  show nd: "node (pw m1) r q = node (pw m) r q" if q: "ipath depth q" for q
  proof (rule node_cong)
    fix q' j s y assume "q = q' @ j # s" "node (pw m) r q' = Some y"
    moreover from this have "ipath depth q'" "j < 512" using q by (auto simp: ipath_def)
    ultimately show "pw m1 (y + 8 * j) = pw m (y + 8 * j)" using other by blast
  qed
  show "\<And>j. j < 512 \<Longrightarrow> pw m1 (f + 8 * j) = 0" using A(4) entry_in_frame by simp
  show "tree r m1"
    unfolding tree_def
  proof (intro conjI allI impI)
    show "kinv m1" by (rule A(2))
  next
    fix q y assume "ipath depth q" "node (pw m1) r q = Some y"
    then show "frame_ok y" "y \<notin> set (frames m1)" using treeD(2) [OF tr] nd f(4) by auto
  next
    fix q q' y assume "ipath depth q" "ipath depth q'" "node (pw m1) r q = Some y" "node (pw m1) r q' = Some y"
    then show "q = q'" using treeD(3) [OF tr] nd by metis
  next
    fix q y j assume q: "ipath depth q" "length q < depth" "node (pw m1) r q = Some y" "j < 512" "valid (pw m1 (y + 8 * j))"
    then show "is_branch (pw m1 (y + 8 * j))" using nd [OF q(1)] other [OF q(1), of y j] treeD(4) [OF tr, of q y j] by auto
  qed
qed

text \<open>A fresh table hung into an empty entry.\<close>

lemma add_table_node:
  assumes tr: "tree r m" and a: "alloc_zeroed m = (Some f, m1)"
    and p: "ipath depth p" "length p < depth" "node (pw m) r p = Some x" and i: "i < 512" and e: "\<not> valid (pw m (x + 8 * i))"
    and q: "ipath depth q"
  shows "node (pw (store (x + 8 * i) (branch f) m1)) r q =
    (if q = p @ [i] then Some f else if \<exists>s. q = p @ i # s then None else node (pw m) r q)"
proof -
  note A = alloc_tree [OF tr a]
  let ?w = "pw (store (x + 8 * i) (branch f) m1)"
  have px: "node (pw m1) r p = Some x" using A(1) [OF p(1)] p(3) by simp
  note N = node_store [OF A(3) p(1) px i]
  show ?thesis
  proof (cases "\<exists>s. q = p @ i # s")
    case False
    then show ?thesis using N [OF q] A(1) [OF q] by auto
  next
    case True
    then obtain s where s: "q = p @ i # s" by blast
    have "node ?w r p = Some x" using N [OF p(1), of "branch f"] px by simp
    moreover have "?w (x + 8 * i) = branch f" by simp
    ultimately have "node ?w r q = node ?w f s" using s branch [OF A(4)] by (simp add: node_append)
    also have "\<dots> = (if s = [] then Some f else None)"
    proof (cases s)
      case (Cons j s')
      have j: "j < 512" using q s Cons by (auto simp: ipath_def)
      have "f + 8 * j \<noteq> x + 8 * i"
        using entry_slot [of f x j i] A(2) [OF p(1,3)] A(4) treeD(2) [OF tr p(1,3)] i j by auto
      then show ?thesis using A(8) [OF j] Cons valid0 by simp
    qed simp
    finally show ?thesis using s by auto
  qed
qed

end

section \<open>The walk\<close>

context radix
begin

lemma add_table_tree:
  assumes tr: "tree r m" and a: "alloc_zeroed m = (Some f, m1)"
    and p: "ipath depth p" "length p < depth" "node (pw m) r p = Some x" and i: "i < 512" and e: "\<not> valid (pw m (x + 8 * i))"
  shows "tree r (store (x + 8 * i) (branch f) m1)"
proof -
  note A = alloc_tree [OF tr a] and N = add_table_node [OF tr a p i e]
  let ?m = "store (x + 8 * i) (branch f) m1"
  have px: "node (pw m1) r p = Some x" using A(1) [OF p(1)] p(3) by simp
  note F = store_tree_frames [OF A(3) p(1) px i, of "branch f"]
  have old: "node (pw m) r q = Some y" if "ipath depth q" "node (pw ?m) r q = Some y" "q \<noteq> p @ [i]" for q y
    using that N [of q] by (auto split: if_splits)
  have new: "node (pw ?m) r q = Some f" if "ipath depth q" "q = p @ [i]" for q using that N [of q] by simp
  have nof: "node (pw m) r q \<noteq> Some f" if "ipath depth q" for q using A(2) [OF that, of f] by blast
  show ?thesis
    unfolding tree_def
  proof (intro conjI allI impI)
    show "kinv ?m" by (rule F(2))
  next
    fix q y assume q: "ipath depth q" "node (pw ?m) r q = Some y"
    show "frame_ok y" "y \<notin> set (frames ?m)"
      using A(4,6,7) old [OF q] new [OF q(1)] treeD(2) [OF tr q(1), of y] q(2) F(1) by (cases "q = p @ [i]"; auto)+
  next
    fix q q' y assume q: "ipath depth q" "ipath depth q'" "node (pw ?m) r q = Some y" "node (pw ?m) r q' = Some y"
    show "q = q'"
    proof (cases "q = p @ [i] \<or> q' = p @ [i]")
      case True
      then have "y = f" using new q by auto
      then show ?thesis using old [OF q(1,3)] old [OF q(2,4)] nof q by blast
    next
      case False
      then show ?thesis using old [OF q(1,3)] old [OF q(2,4)] treeD(3) [OF tr q(1,2)] by blast
    qed
  next
    fix q y j assume q: "ipath depth q" "length q < depth" "node (pw ?m) r q = Some y" "j < 512" "valid (pw ?m (y + 8 * j))"
    show "is_branch (pw ?m (y + 8 * j))"
    proof (cases "y + 8 * j = x + 8 * i")
      case True
      then show ?thesis using branch [OF A(4)] by simp
    next
      case ne: False
      then have v: "valid (pw m1 (y + 8 * j))" "pw ?m (y + 8 * j) = pw m1 (y + 8 * j)" using q(5) by auto
      have "q \<noteq> p @ [i]"
      proof
        assume "q = p @ [i]"
        then have "y = f" using new [OF q(1)] q(3) by simp
        then show False using v(1) A(8) [OF q(4)] valid0 by simp
      qed
      then have o: "node (pw m) r q = Some y" using old q by blast
      then have "pw m1 (y + 8 * j) = pw m (y + 8 * j)" using A(2) [OF q(1) o] q(4) by blast
      then show ?thesis using v treeD(4) [OF tr q(1,2) o q(4)] by simp
    qed
  qed
qed

lemma add_table_keeps:
  assumes tr: "tree r m" and a: "alloc_zeroed m = (Some f, m1)"
    and p: "ipath depth p" "length p < depth" "node (pw m) r p = Some x" and i: "i < 512" and e: "\<not> valid (pw m (x + 8 * i))"
  shows "keeps r m (store (x + 8 * i) (branch f) m1)"
proof -
  note A = alloc_tree [OF tr a] and N = add_table_node [OF tr a p i e]
  let ?m = "store (x + 8 * i) (branch f) m1"
  have px: "node (pw m1) r p = Some x" using A(1) [OF p(1)] p(3) by simp
  note F = store_tree_frames [OF A(3) p(1) px i, of "branch f"]
  have x: "frame_ok x" "table_of m r x" using treeD(2) [OF tr p(1,3)] p by (auto simp: table_of_def)
  have "leaf (pw ?m) r q j = leaf (pw m) r q j" if q: "ipath depth q" "length q = depth" "j < 512" for q j
  proof (cases "\<exists>s. q = p @ i # s")
    case True
    then have o: "node (pw m) r q = None" using p(3) e by (auto simp: node_append)
    have "f + 8 * j \<noteq> x + 8 * i" using entry_slot [of f x j i] A(2) [OF p(1,3)] A(4) x(1) i q(3) by auto
    then show ?thesis using o N [OF q(1)] True A(8) [OF q(3)] by (auto simp: leaf_def)
  next
    case False
    then have o: "node (pw ?m) r q = node (pw m) r q" using N [OF q(1)] by auto
    have "pw ?m (y + 8 * j) = pw m (y + 8 * j)" if y: "node (pw m) r q = Some y" for y
    proof -
      have "q \<noteq> p" using p(2) q(2) by auto
      then have "y \<noteq> x" using treeD(3) [OF tr q(1) p(1) y] p(3) by auto
      then have "y + 8 * j \<noteq> x + 8 * i" using entry_slot [of y x j i] treeD(2) [OF tr q(1) y] x(1) i q(3) by auto
      then show ?thesis using A(2) [OF q(1) y, of j] q(3) by simp
    qed
    then show ?thesis using o by (simp add: leaf_def split: option.split)
  qed
  moreover have "pw ?m b = pw m b \<and> outside ?m r b" if b: "outside m r b" for b
  proof
    have "b \<noteq> x + 8 * i" using b x entry_in_frame [OF i, of x] by (auto simp: outside_def)
    moreover have "\<not> in_frame f b" using b A(4,5) by (auto simp: outside_def)
    ultimately show "pw ?m b = pw m b" using alloc_zeroed_Some(4) [OF treeD(1) [OF tr] a] by simp
    have "table_of ?m r g \<Longrightarrow> table_of m r g \<or> g = f" for g using N by (auto simp: table_of_def split: if_splits)
    then show "outside ?m r b" using b A(5,7) F(1) by (auto simp: outside_def)
  qed
  moreover have "held ?m r = held m r"
  proof -
    have ip: "ipath depth (p @ [i])" using p i by (auto simp: ipath_def)
    have "table_of ?m r y \<longleftrightarrow> table_of m r y \<or> y = f" for y
    proof
      assume "table_of ?m r y"
      then show "table_of m r y \<or> y = f" using N by (auto simp: table_of_def split: if_splits)
    next
      assume "table_of m r y \<or> y = f"
      then show "table_of ?m r y"
      proof
        assume "table_of m r y"
        then obtain q where q: "ipath depth q" "node (pw m) r q = Some y" by (auto simp: table_of_def)
        have "\<not> (\<exists>s. q = p @ i # s)" using q(2) p(3) e by (auto simp: node_append)
        then show ?thesis using N [OF q(1)] q by (auto simp: table_of_def)
      qed (use N [OF ip] ip in \<open>auto simp: table_of_def\<close>)
    qed
    then show ?thesis using F(1) alloc_zeroed_Some(1) [OF treeD(1) [OF tr] a] by (auto simp: held_def)
  qed
  ultimately show ?thesis using add_table_tree [OF assms] F(1) A(7) by (simp add: keeps_def)
qed

lemma wl_alloc:
  assumes "tree r m" and "node (pw m) r pre = Some t" and "ipath depth pre" and "length pre + length ls = depth"
    and "wl True ls va t m = (res, m')"
  shows "keeps r m m' \<and> (\<forall>a. res = Some a \<longrightarrow>
    (\<exists>y. node (pw m') r (pre @ idx_path ls va) = Some y \<and> a = y + 8 * pte_index 0 va))"
  using assms
proof (induction ls arbitrary: pre t m)
  case Nil
  then show ?case by (auto simp: wl_nil keeps_refl)
next
  case (Cons l ls)
  let ?i = "pte_index l va"
  let ?a = "t + 8 * ?i"
  have i: "?i < 512" and lt: "length pre < depth" using Cons.prems(4) by auto
  have pre': "ipath depth (pre @ [?i])" "length (pre @ [?i]) + length ls = depth"
    using Cons.prems(3,4) by (auto simp: ipath_def)
  show ?case
  proof (cases "valid (pw m ?a)")
    case True
    have "node (pw m) r (pre @ [?i]) = Some (target (pw m ?a))" using Cons.prems(2) True by (simp add: node_append)
    moreover have "wl True ls va (target (pw m ?a)) m = (res, m')" using Cons.prems(5) True by (simp add: wl_cons)
    ultimately show ?thesis using Cons.IH [OF Cons.prems(1) _ pre'] by simp
  next
    case False
    obtain r1 m1 where al: "alloc_zeroed m = (r1, m1)" by fastforce
    show ?thesis
    proof (cases r1)
      case None
      then have "m1 = m" using al alloc_zeroed_None [OF treeD(1) [OF Cons.prems(1)], of m1] by simp
      moreover have "res = None" "m' = m1" using Cons.prems(5) False al None by (simp_all add: wl_cons Let_def)
      ultimately show ?thesis using keeps_refl [OF Cons.prems(1)] by simp
    next
      case (Some f)
      let ?m2 = "store ?a (branch f) m1"
      note al' = al [unfolded Some]
      note K = add_table_keeps [OF Cons.prems(1) al' Cons.prems(3) lt Cons.prems(2) i False]
      have n: "node (pw ?m2) r (pre @ [?i]) = Some f"
        using add_table_node [OF Cons.prems(1) al' Cons.prems(3) lt Cons.prems(2) i False pre'(1)] by simp
      have w: "wl True ls va f ?m2 = (res, m')" using Cons.prems(5) False al' by (simp add: wl_cons Let_def)
      have t: "tree r ?m2" using K by (simp add: keeps_def)
      show ?thesis using Cons.IH [OF t n pre' w] keeps_trans [OF K] by simp
    qed
  qed
qed

lemma wl_lookup:
  "wl False ls va t m = (map_option (\<lambda>y. y + 8 * pte_index 0 va) (node (pw m) t (idx_path ls va)), m)"
  by (induction ls arbitrary: t) (auto simp: wl_nil wl_cons)

end

section \<open>Mapping\<close>

context radix
begin

text \<open>What the first pages \<open>[va, k)\<close> of a range mapped to \<open>pa\<close> leave behind.\<close>

definition mapped :: "'p \<Rightarrow> nat \<Rightarrow> nat \<Rightarrow> nat \<Rightarrow> nat \<Rightarrow> pmem \<Rightarrow> pmem \<Rightarrow> bool" where
  "mapped perm r va k pa m m' \<longleftrightarrow> tree r m' \<and> set (frames m') \<subseteq> set (frames m) \<and>
     (\<forall>v < maxva. entry_of m' r v =
        (if va \<le> v \<and> v < k then leafw perm (pa + (v div PGSIZE * PGSIZE - va)) else entry_of m r v)) \<and>
     (\<forall>v < maxva. va \<le> v \<longrightarrow> v < k \<longrightarrow> \<not> valid (entry_of m r v)) \<and>
     (\<forall>a. outside m r a \<longrightarrow> pw m' a = pw m a \<and> outside m' r a) \<and> held m' r = held m r"

lemma keeps_entry: "keeps r m m' \<Longrightarrow> entry_of m' r v = entry_of m r v"
  unfolding keeps_def entry_of_def by (metis ipath_idx idx_path_simps(3) order_refl pte_index_less)

lemma entry_at_node: "node (pw m) r (idx_path levels va) = Some y \<Longrightarrow> entry_of m r va = pw m (y + 8 * pte_index 0 va)"
  by (simp add: entry_of_def leaf_def)

lemma entry_store:
  assumes tr: "tree r m" and y: "node (pw m) r (idx_path levels va) = Some y" and va: "va < maxva"
  shows "tree r (store (y + 8 * pte_index 0 va) v m)"
    and "\<And>u. u < maxva \<Longrightarrow> entry_of (store (y + 8 * pte_index 0 va) v m) r u =
      (if u div PGSIZE = va div PGSIZE then v else entry_of m r u)"
    and "frames (store (y + 8 * pte_index 0 va) v m) = frames m"
    and "\<And>a. outside m r a \<Longrightarrow> pw (store (y + 8 * pte_index 0 va) v m) a = pw m a \<and>
      outside (store (y + 8 * pte_index 0 va) v m) r a"
    and "held (store (y + 8 * pte_index 0 va) v m) r = held m r"
proof -
  let ?m = "store (y + 8 * pte_index 0 va) v m" and ?p = "idx_path levels va"
  have p: "ipath depth ?p" "length ?p = depth" using ipath_idx [of levels depth va] by auto
  note L = leaf_store [OF tr p y pte_index_less [of 0 va], where v = v]
  show "tree r ?m" by (rule L(2))
  show fr: "frames ?m = frames m" using store_tree_frames(1) [OF tr p(1) y] by simp
  show "entry_of ?m r u = (if u div PGSIZE = va div PGSIZE then v else entry_of m r u)" if u: "u < maxva" for u
  proof -
    have q: "ipath depth (idx_path levels u)" "length (idx_path levels u) = depth" using ipath_idx [of levels depth u] by auto
    have "u div PGSIZE = va div PGSIZE \<Longrightarrow> idx_path levels u = ?p \<and> pte_index 0 u = pte_index 0 va"
    proof -
      assume d: "u div PGSIZE = va div PGSIZE"
      have "pte_index l u = pte_index l va" for l
      proof -
        have "x div 2 ^ (12 + 9 * l) = x div PGSIZE div 2 ^ (9 * l)" for x :: nat
          by (simp add: PGSIZE_def power_add div_mult2_eq)
        then show ?thesis using d by (simp add: pte_index_def)
      qed
      then show ?thesis by (simp add: idx_path_def)
    qed
    then have "idx_path levels u = ?p \<and> pte_index 0 u = pte_index 0 va \<longleftrightarrow> u div PGSIZE = va div PGSIZE"
      using addr_inj [OF u va] by blast
    then show ?thesis using L(3) [OF q pte_index_less [of 0 u]] by (simp add: entry_of_def)
  qed
  have tab: "table_of ?m r g = table_of m r g" for g using L(1) by (auto simp: table_of_def)
  then show "held ?m r = held m r" using fr by (simp add: held_def)
  show "pw ?m a = pw m a \<and> outside ?m r a" if a: "outside m r a" for a
  proof -
    have "frame_ok y" "table_of m r y" using treeD(2) [OF tr p(1) y] p(1) y by (auto simp: table_of_def)
    then have "a \<noteq> y + 8 * pte_index 0 va" using a entry_in_frame [OF pte_index_less [of 0 va], of y] by (auto simp: outside_def)
    then show ?thesis using a tab fr by (simp add: outside_def)
  qed
qed

lemma mapped_refl: "tree r m \<Longrightarrow> mapped perm r va va pa m m"
  by (auto simp: mapped_def)

lemma mapped_keeps:
  assumes "keeps r m m1" and "mapped perm r va k pa m1 m'"
  shows "mapped perm r va k pa m m'"
  using assms(2) keeps_entry [OF assms(1)] assms(1) unfolding mapped_def keeps_def by (auto 0 3)

lemma page_step:
  assumes "PGSIZE dvd va" shows "v div PGSIZE = va div PGSIZE \<longleftrightarrow> va \<le> v \<and> v < va + PGSIZE"
proof -
  obtain x where x: "va = PGSIZE * x" using assms by (rule dvdE)
  have "v div PGSIZE = x \<longleftrightarrow> PGSIZE * x \<le> v \<and> v < PGSIZE * x + PGSIZE"
  proof
    assume "v div PGSIZE = x"
    moreover have "v = PGSIZE * (v div PGSIZE) + v mod PGSIZE" "v mod PGSIZE < PGSIZE" by simp_all
    ultimately show "PGSIZE * x \<le> v \<and> v < PGSIZE * x + PGSIZE" by (metis le_add1 add_less_cancel_left)
  qed (simp add: div_nat_eqI)
  then show ?thesis using x by simp
qed

lemma mapped_step:
  assumes tr: "tree r m" and y: "node (pw m) r (idx_path levels va) = Some y" and va: "va < maxva" "PGSIZE dvd va"
    and inv: "\<not> valid (entry_of m r va)" and k: "va + PGSIZE \<le> k"
    and rest: "mapped perm r (va + PGSIZE) k (pa + PGSIZE) (store (y + 8 * pte_index 0 va) (leafw perm pa) m) m'"
  shows "mapped perm r va k pa m m'"
proof -
  note E = entry_store [OF tr y va(1), where v = "leafw perm pa"]
  let ?m1 = "store (y + 8 * pte_index 0 va) (leafw perm pa) m"
  have Rt: "tree r m'" "set (frames m') \<subseteq> set (frames ?m1)"
    and Re: "\<And>v. v < maxva \<Longrightarrow> entry_of m' r v = (if va + PGSIZE \<le> v \<and> v < k
        then leafw perm (pa + PGSIZE + (v div PGSIZE * PGSIZE - (va + PGSIZE))) else entry_of ?m1 r v)"
    and Ri: "\<And>v. v < maxva \<Longrightarrow> va + PGSIZE \<le> v \<Longrightarrow> v < k \<Longrightarrow> \<not> valid (entry_of ?m1 r v)"
    and Ro: "\<And>a. outside ?m1 r a \<Longrightarrow> pw m' a = pw ?m1 a \<and> outside m' r a" and Rh: "held m' r = held ?m1 r"
    using rest by (simp_all add: mapped_def)
  have same: "entry_of m r v = entry_of m r va" if "va \<le> v" "v < va + PGSIZE" "v < maxva" for v
  proof -
    have d: "v div PGSIZE = va div PGSIZE" using page_step [OF va(2), of v] that by simp
    have "entry_of m r v = entry_of (store (y + 8 * pte_index 0 va) (entry_of m r va) m) r v"
    proof -
      have "store (y + 8 * pte_index 0 va) (entry_of m r va) m = m"
        by (simp add: entry_at_node [OF y] store_def)
      then show ?thesis by simp
    qed
    then show ?thesis using entry_store(2) [OF tr y va(1) that(3), of "entry_of m r va"] d by simp
  qed
  have "entry_of m' r v = (if va \<le> v \<and> v < k then leafw perm (pa + (v div PGSIZE * PGSIZE - va)) else entry_of m r v)"
    if v: "v < maxva" for v
  proof (cases "va \<le> v \<and> v < va + PGSIZE")
    case True
    then have d: "v div PGSIZE = va div PGSIZE" using page_step [OF va(2)] by simp
    then have "v div PGSIZE * PGSIZE = va" using va(2) by simp
    then show ?thesis using True Re [OF v] E(2) [OF v] d k by simp
  next
    case False
    then have d: "v div PGSIZE \<noteq> va div PGSIZE" using page_step [OF va(2)] by blast
    have "va + PGSIZE \<le> v div PGSIZE * PGSIZE" if "va \<le> v"
    proof -
      obtain x where x: "va = PGSIZE * x" using va(2) by (rule dvdE)
      have "x < v div PGSIZE" using that x d by (metis PGSIZE_pos div_le_mono le_neq_implies_less nonzero_mult_div_cancel_left less_numeral_extra(3))
      then have "PGSIZE * (x + 1) \<le> PGSIZE * (v div PGSIZE)" by (intro mult_le_mono2) simp
      then show ?thesis using x by (simp add: mult.commute)
    qed
    then have e1: "va \<le> v \<Longrightarrow> pa + PGSIZE + (v div PGSIZE * PGSIZE - (va + PGSIZE)) = pa + (v div PGSIZE * PGSIZE - va)" by simp
    have e2: "va + PGSIZE \<le> v \<longleftrightarrow> va \<le> v" using False by auto
    have e3: "entry_of ?m1 r v = entry_of m r v" using E(2) [OF v] d by simp
    show ?thesis unfolding Re [OF v] e2 e3 by (cases "va \<le> v \<and> v < k") (simp_all only: e1 simp_thms if_True if_False)
  qed
  moreover have "\<not> valid (entry_of m r v)" if v: "v < maxva" "va \<le> v" "v < k" for v
  proof (cases "v < va + PGSIZE")
    case True
    show ?thesis using same [OF v(2) True v(1)] inv by (simp only: not_False_eq_True)
  next
    case False
    then show ?thesis using Ri [OF v(1) _ v(3)] E(2) [OF v(1)] page_step [OF va(2), of v] by simp
  qed
  moreover have "pw m' a = pw m a \<and> outside m' r a" if "outside m r a" for a
    using Ro [of a] E(4) [OF that] by simp
  ultimately show ?thesis using Rt E(3,5) Rh by (simp add: mapped_def)
qed

lemma mp_spec:
  assumes "tree r m" and "PGSIZE dvd va" and "PGSIZE dvd en" and "en \<le> maxva" and "va \<le> en"
    and "mp perm r va pa en m = (res, m')"
  shows "\<exists>k. va \<le> k \<and> k \<le> en \<and> PGSIZE dvd k \<and> mapped perm r va k pa m m' \<and>
    (res = Inr () \<longrightarrow> k = en) \<and> (res = Inl Remap \<longrightarrow> k < en \<and> valid (entry_of m r k))"
  using assms
proof (induction "en - va" arbitrary: va pa m rule: less_induct)
  case less
  show ?case
  proof (cases "va < en")
    case False
    then have "va = en" using less.prems(5) by simp
    then show ?thesis using less.prems mapped_refl [OF less.prems(1)] by (auto simp: mp_eq)
  next
    case True
    have va: "va < maxva" using True less.prems(4) by simp
    obtain q m1 where w: "wl True levels va r m = (q, m1)" by fastforce
    have W: "wlk True r va m = (q, m1)" using w va by (simp add: wlk_eq)
    have n0: "node (pw m) r [] = Some r" "ipath depth []" "length ([] :: nat list) + length levels = depth" by (auto simp: ipath_def)
    note K = wl_alloc [OF less.prems(1) n0 w]
    then have kp: "keeps r m m1" and tr1: "tree r m1" by (auto simp: keeps_def)
    show ?thesis
    proof (cases q)
      case None
      then have "res = Inl Oom" "m' = m1" using less.prems(6) True W by (auto simp: mp_eq [of perm])
      then show ?thesis using less.prems(2,5) mapped_keeps [OF kp mapped_refl [OF tr1]] by (intro exI [of _ va]) auto
    next
      case (Some p)
      then obtain y where y: "node (pw m1) r (idx_path levels va) = Some y" "p = y + 8 * pte_index 0 va" using K by auto
      have en: "entry_of m r va = pw m1 p" using entry_at_node [OF y(1)] keeps_entry [OF kp] y(2) by simp
      show ?thesis
      proof (cases "valid (pw m1 p)")
        case v: True
        then have "res = Inl Remap" "m' = m1" using less.prems(6) True W Some by (auto simp: mp_eq [of perm])
        then show ?thesis using less.prems(2,5) True mapped_keeps [OF kp mapped_refl [OF tr1]] en v
          by (intro exI [of _ va]) auto
      next
        case False
        let ?m2 = "store p (leafw perm pa) m1"
        have r: "mp perm r (va + PGSIZE) (pa + PGSIZE) en ?m2 = (res, m')"
          using less.prems(6) True W Some False by (simp add: mp_eq [of perm r va])
        have tr2: "tree r ?m2" using entry_store(1) [OF tr1 y(1) va] y(2) by simp
        have le: "va + PGSIZE \<le> en"
        proof -
          obtain a b where "va = PGSIZE * a" "en = PGSIZE * b" using less.prems(2,3) by (meson dvdE)
          then show ?thesis using True by (auto simp: PGSIZE_def)
        qed
        have "en - (va + PGSIZE) < en - va" using True by (simp add: PGSIZE_def)
        moreover have "PGSIZE dvd va + PGSIZE" using less.prems(2) by simp
        ultimately obtain k where k: "va + PGSIZE \<le> k" "k \<le> en" "PGSIZE dvd k"
          "mapped perm r (va + PGSIZE) k (pa + PGSIZE) ?m2 m'" "res = Inr () \<longrightarrow> k = en"
          "res = Inl Remap \<longrightarrow> k < en \<and> valid (entry_of ?m2 r k)"
          using less.hyps [OF _ tr2 _ less.prems(3,4) le r] by blast
        have ne: "\<not> valid (entry_of m1 r va)" using False en keeps_entry [OF kp] by simp
        have "mapped perm r va k pa m1 m'"
          using mapped_step [OF tr1 y(1) va less.prems(2) ne k(1)] k(4) y(2) by simp
        from mapped_keeps [OF kp this] have "mapped perm r va k pa m m'" .
        moreover have "entry_of ?m2 r k = entry_of m r k" if "k < en"
          using entry_store(2) [OF tr1 y(1) va, of k "leafw perm pa"] keeps_entry [OF kp, of k] that less.prems(4) k(1) y(2)
            page_step [OF less.prems(2), of k] by auto
        ultimately show ?thesis using k by (intro exI [of _ k]) auto
      qed
    qed
  qed
qed

end

section \<open>Progress\<close>

context radix
begin

lemma wl_progress:
  assumes "tree r m" and "node (pw m) r pre = Some t" and "ipath depth pre" and "length pre + length ls = depth"
    and "length ls \<le> length (frames m)"
  shows "\<exists>a m'. wl True ls va t m = (Some a, m') \<and> length (frames m) \<le> length (frames m') + length ls"
  using assms
proof (induction ls arbitrary: pre t m)
  case Nil
  then show ?case by (simp add: wl_nil)
next
  case (Cons l ls)
  let ?i = "pte_index l va"
  let ?a = "t + 8 * ?i"
  have lt: "length pre < depth" using Cons.prems(4) by simp
  have pre': "ipath depth (pre @ [?i])" "length (pre @ [?i]) + length ls = depth"
    using Cons.prems(3,4) by (auto simp: ipath_def)
  show ?case
  proof (cases "valid (pw m ?a)")
    case True
    have "node (pw m) r (pre @ [?i]) = Some (target (pw m ?a))" using Cons.prems(2) True by (simp add: node_append)
    from Cons.IH [OF Cons.prems(1) this pre'] show ?thesis using Cons.prems(5) True by (fastforce simp: wl_cons)
  next
    case False
    obtain r1 m1 where al: "alloc_zeroed m = (r1, m1)" by fastforce
    have "r1 \<noteq> None" using al alloc_zeroed_None [OF treeD(1) [OF Cons.prems(1)], of m1] Cons.prems(5) by auto
    then obtain f where f: "r1 = Some f" by blast
    note al' = al [unfolded f]
    let ?m2 = "store ?a (branch f) m1"
    have t: "tree r ?m2"
      by (rule add_table_tree [OF Cons.prems(1) al' Cons.prems(3) lt Cons.prems(2) pte_index_less False])
    have n: "node (pw ?m2) r (pre @ [?i]) = Some f"
      using add_table_node [OF Cons.prems(1) al' Cons.prems(3) lt Cons.prems(2) pte_index_less False pre'(1)] by simp
    have "node (pw m1) r pre = Some t" using alloc_tree(1) [OF Cons.prems(1) al' Cons.prems(3)] Cons.prems(2) by simp
    then have fr: "frames ?m2 = frames m1"
      using store_tree_frames(1) [OF alloc_tree(3) [OF Cons.prems(1) al'] Cons.prems(3)] by simp
    have fl: "length (frames m) = Suc (length (frames m1))"
      using alloc_zeroed_Some(1) [OF treeD(1) [OF Cons.prems(1)] al'] by simp
    have "length ls \<le> length (frames ?m2)" using fr fl Cons.prems(5) by simp
    from Cons.IH [OF t n pre' this] obtain a m' where "wl True ls va f ?m2 = (Some a, m')"
      "length (frames ?m2) \<le> length (frames m') + length ls" by blast
    then show ?thesis using False al' fr fl by (simp add: wl_cons Let_def)
  qed
qed

lemma mp_progress:
  assumes "tree r m" and "PGSIZE dvd va" and "PGSIZE dvd en" and "en \<le> maxva" and "va \<le> en"
    and "\<And>v. va \<le> v \<Longrightarrow> v < en \<Longrightarrow> \<not> valid (entry_of m r v)"
    and "depth * ((en - va) div PGSIZE) \<le> length (frames m)"
  shows "fst (mp perm r va pa en m) = Inr ()"
  using assms
proof (induction "en - va" arbitrary: va pa m rule: less_induct)
  case less
  show ?case
  proof (cases "va < en")
    case False
    then show ?thesis by (simp add: mp_eq)
  next
    case True
    have va: "va < maxva" using True less.prems(4) by simp
    have le: "va + PGSIZE \<le> en"
    proof -
      obtain a b where "va = PGSIZE * a" "en = PGSIZE * b" using less.prems(2,3) by (meson dvdE)
      then show ?thesis using True by (auto simp: PGSIZE_def)
    qed
    have "en - va = PGSIZE + (en - (va + PGSIZE))" using le by simp
    then have dv: "(en - va) div PGSIZE = Suc ((en - (va + PGSIZE)) div PGSIZE)"
      by (metis PGSIZE_pos div_add_self1 add.commute plus_1_eq_Suc not_less_zero)
    have n0: "node (pw m) r [] = Some r" "ipath depth []" "length ([] :: nat list) + length levels = depth" by (auto simp: ipath_def)
    have "length levels \<le> length (frames m)" using less.prems(7) dv by simp
    from wl_progress [OF less.prems(1) n0 this] obtain p m1 where w: "wl True levels va r m = (Some p, m1)"
      and fl: "length (frames m) \<le> length (frames m1) + depth" by blast
    note K = wl_alloc [OF less.prems(1) n0 w]
    then have kp: "keeps r m m1" and tr1: "tree r m1" by (auto simp: keeps_def)
    from K obtain y where y: "node (pw m1) r (idx_path levels va) = Some y" "p = y + 8 * pte_index 0 va" by auto
    have nv: "\<not> valid (pw m1 p)" using less.prems(6) [of va] True entry_at_node [OF y(1)] keeps_entry [OF kp, of va] y(2) by simp
    let ?m2 = "store p (leafw perm pa) m1"
    note E = entry_store [OF tr1 y(1) va, where v = "leafw perm pa", folded y(2)]
    have "fst (mp perm r (va + PGSIZE) (pa + PGSIZE) en ?m2) = Inr ()"
    proof (rule less.hyps [OF _ E(1) _ less.prems(3,4) le])
      show "en - (va + PGSIZE) < en - va" using True by (simp add: PGSIZE_def)
      show "PGSIZE dvd va + PGSIZE" using less.prems(2) by simp
      show "\<not> valid (entry_of ?m2 r v)" if "va + PGSIZE \<le> v" "v < en" for v
        using E(2) [of v] that less.prems(4) less.prems(6) [of v] keeps_entry [OF kp, of v] page_step [OF less.prems(2), of v] by simp
      show "depth * ((en - (va + PGSIZE)) div PGSIZE) \<le> length (frames ?m2)"
        using E(3) fl less.prems(7) dv by simp
    qed
    then show ?thesis using True w nv va by (simp add: mp_eq [of perm r va] wlk_eq)
  qed
qed

lemma new_tree:
  assumes inv: "kinv m" and a: "alloc_zeroed m = (Some r, m')"
  shows "tree r m'" and "entry_of m' r v = 0 \<or> \<not> valid (entry_of m' r v)" and "table_of m' r x \<longleftrightarrow> x = r"
proof -
  note A = alloc_zeroed_Some [OF inv a]
  have z: "pw m' (r + 8 * i) = 0" if "i < 512" for i using A(4) entry_in_frame [OF that] by simp
  have nd: "node (pw m') r p = (if p = [] then Some r else None)" if "ipath depth p" for p
    using that z valid0 by (cases p) (auto simp: ipath_def)
  have r: "frame_ok r" "r \<notin> set (frames m')" using A(1,3) inv by (auto simp: kinv_def)
  show "tree r m'"
    unfolding tree_def using nd A(2) r z valid0 by (auto split: if_splits)
  have "ipath depth (idx_path levels v)" using ipath_idx [of levels depth v] by simp
  then show "entry_of m' r v = 0 \<or> \<not> valid (entry_of m' r v)"
    using nd z [OF pte_index_less] by (auto simp: entry_of_def leaf_def split: if_splits)
  have "ipath depth []" by (simp add: ipath_def)
  then show "table_of m' r x \<longleftrightarrow> x = r" using nd unfolding table_of_def by (metis node.simps(1) option.distinct(1) option.inject)
qed

end

section \<open>Other address spaces\<close>

context radix
begin

text \<open>A change confined to one tree and the pool does not touch another tree.\<close>

lemma tree_cong:
  assumes tr: "tree r m" and k: "kinv m'" and fr: "\<And>x. table_of m r x \<Longrightarrow> x \<notin> set (frames m')"
    and ent: "\<And>x i. table_of m r x \<Longrightarrow> i < 512 \<Longrightarrow> pw m' (x + 8 * i) = pw m (x + 8 * i)"
  shows "tree r m'" and "entry_of m' r v = entry_of m r v" and "table_of m' r x = table_of m r x"
proof -
  have ent': "pw m' (x + 8 * i) = pw m (x + 8 * i)" if "ipath depth q" "node (pw m) r q = Some x" "i < 512" for q x i
    using ent [of x i] that by (auto simp: table_of_def)
  have nd: "node (pw m') r q = node (pw m) r q" if q: "ipath depth q" for q
  proof (rule node_cong)
    fix q' j s y assume "q = q' @ j # s" "node (pw m) r q' = Some y"
    moreover from this have "ipath depth q'" "j < 512" using q by (auto simp: ipath_def)
    ultimately show "pw m' (y + 8 * j) = pw m (y + 8 * j)" using ent' by blast
  qed
  show "tree r m'"
    unfolding tree_def
  proof (intro conjI allI impI)
    show "kinv m'" by (rule k)
  next
    fix q y assume "ipath depth q" "node (pw m') r q = Some y"
    then show "frame_ok y" "y \<notin> set (frames m')" using treeD(2) [OF tr] nd fr [of y] by (auto simp: table_of_def)
  next
    fix q q' y assume "ipath depth q" "ipath depth q'" "node (pw m') r q = Some y" "node (pw m') r q' = Some y"
    then show "q = q'" using treeD(3) [OF tr] nd by metis
  next
    fix q y j assume q: "ipath depth q" "length q < depth" "node (pw m') r q = Some y" "j < 512" "valid (pw m' (y + 8 * j))"
    then show "is_branch (pw m' (y + 8 * j))" using nd [OF q(1)] ent' [OF q(1), of y j] treeD(4) [OF tr, of q y j] by auto
  qed
  have p: "ipath depth (idx_path levels v)" using ipath_idx [of levels depth v] by simp
  show "entry_of m' r v = entry_of m r v"
    using nd [OF p] ent' [OF p _ pte_index_less] by (simp add: entry_of_def leaf_def split: option.split)
  show "table_of m' r x = table_of m r x" using nd by (auto simp: table_of_def)
qed

lemma other_tree:
  assumes tr: "tree r2 m" and dj: "\<And>x. table_of m r1 x \<Longrightarrow> \<not> table_of m r2 x"
    and k: "kinv m'" and fr: "set (frames m') \<subseteq> set (frames m)"
    and o: "\<And>a. outside m r1 a \<Longrightarrow> pw m' a = pw m a \<and> outside m' r1 a"
  shows "tree r2 m'" and "entry_of m' r2 v = entry_of m r2 v" and "\<And>x. table_of m' r1 x \<Longrightarrow> \<not> table_of m' r2 x"
    and "table_of m' r2 x = table_of m r2 x"
proof -
  have tab: "frame_ok x \<and> x \<notin> set (frames m)" if "table_of m r2 x" for x
    using treeD(2) [OF tr] that by (auto simp: table_of_def)
  have out: "outside m r1 (x + 8 * i)" if x: "table_of m r2 x" and i: "i < 512" for x i
    using tab [OF x] x frames_disjoint [OF _ _ _ entry_in_frame [OF i]] dj by (fastforce simp: outside_def)
  have ent: "pw m' (x + 8 * i) = pw m (x + 8 * i)" if "table_of m r2 x" "i < 512" for x i
    using o [OF out [OF that]] by simp
  have fr': "x \<notin> set (frames m')" if "table_of m r2 x" for x using tab [OF that] fr by blast
  show "tree r2 m'" by (rule tree_cong(1) [OF tr k fr' ent])
  show "entry_of m' r2 v = entry_of m r2 v" by (rule tree_cong(2) [OF tr k fr' ent])
  have T: "table_of m' r2 x = table_of m r2 x" for x by (rule tree_cong(3) [OF tr k fr' ent])
  then show "table_of m' r2 x = table_of m r2 x" .
  show "\<not> table_of m' r2 x" if t: "table_of m' r1 x" for x
  proof
    assume "table_of m' r2 x"
    then have x: "table_of m r2 x" using T by blast
    have "outside m' r1 x" using o [OF out [OF x, of 0]] by simp
    then show False using t tab [OF x] by (auto simp: outside_def)
  qed
qed

text \<open>One page: either it is mapped, or the call fails and no entry changes.\<close>

lemma mp_page:
  assumes tr: "tree r m" and va: "PGSIZE dvd va" "va < maxva" and mp: "mp perm r va pa (va + PGSIZE) m = (res, m')"
  shows "res = Inr () \<and> mapped perm r va (va + PGSIZE) pa m m' \<or> res \<noteq> Inr () \<and> keeps r m m'"
proof -
  obtain q m1 where w: "wl True levels va r m = (q, m1)" by fastforce
  have W: "wlk True r va m = (q, m1)" using w va by (simp add: wlk_eq)
  have n0: "node (pw m) r [] = Some r" "ipath depth []" "length ([] :: nat list) + length levels = depth" by (auto simp: ipath_def)
  note K = wl_alloc [OF tr n0 w]
  then have kp: "keeps r m m1" and tr1: "tree r m1" by (auto simp: keeps_def)
  show ?thesis
  proof (cases "\<exists>p. q = Some p \<and> \<not> valid (pw m1 p)")
    case False
    then have "res \<noteq> Inr () \<and> m' = m1" using mp W by (cases q) (auto simp: mp_eq [of perm])
    then show ?thesis using kp by simp
  next
    case True
    then obtain p where p: "q = Some p" "\<not> valid (pw m1 p)" by blast
    then obtain y where y: "node (pw m1) r (idx_path levels va) = Some y" "p = y + 8 * pte_index 0 va" using K by auto
    have "(res, m') = (Inr (), store p (leafw perm pa) m1)"
      using mp W p by (simp add: mp_eq [of perm r va] mp_eq [of perm r "va + PGSIZE"])
    moreover have "mapped perm r va (va + PGSIZE) pa m1 (store p (leafw perm pa) m1)"
      using mapped_step [OF tr1 y(1) va(2,1) _ order_refl] mapped_refl [OF entry_store(1) [OF tr1 y(1) va(2)]]
        entry_at_node [OF y(1)] p(2) y(2) by simp
    ultimately show ?thesis using mapped_keeps [OF kp] by blast
  qed
qed

end

section \<open>Tearing a tree down\<close>

text \<open>\<open>table_drop\<close>: the recursive release of a tree. \<open>user_leaf\<close> says which entries own the page
  they map, \<open>descend\<close> which lead to a table.\<close>

locale table_drop =
  fixes valid :: "64 word \<Rightarrow> bool"
    and target :: "64 word \<Rightarrow> nat"
    and user_leaf :: "nat \<Rightarrow> 64 word \<Rightarrow> bool"
    and descend :: "64 word \<Rightarrow> bool"
    and fs :: "nat \<Rightarrow> nat \<Rightarrow> pmem \<Rightarrow> pmem"
    and fstep :: "nat \<Rightarrow> nat \<Rightarrow> nat \<Rightarrow> pmem \<Rightarrow> pmem"
  assumes fs_eq: "fs lvl t m = kfree t (fold (fstep lvl t) [0..<512] m)"
    and fstep_eq: "fstep lvl t i m =
      (let e = pw m (t + 8 * i) in
       if \<not> valid e then m
       else store (t + 8 * i) 0
         (if user_leaf lvl e then kfree (target e) m
          else if 0 < lvl \<and> descend e then fs (lvl - 1) (target e) m
          else m))"
begin

text \<open>The frames of the tree in the order they are released.\<close>

primrec po :: "nat \<Rightarrow> (nat \<Rightarrow> 64 word) \<Rightarrow> nat \<Rightarrow> nat list" where
  "po 0 w t = concat (map (\<lambda>i. if valid (w (t + 8 * i)) \<and> user_leaf 0 (w (t + 8 * i)) then [target (w (t + 8 * i))] else []) [0..<512]) @ [t]"
| "po (Suc l) w t = concat (map (\<lambda>i.
      if \<not> valid (w (t + 8 * i)) then []
      else if user_leaf (Suc l) (w (t + 8 * i)) then [target (w (t + 8 * i))]
      else if descend (w (t + 8 * i)) then po l w (target (w (t + 8 * i))) else []) [0..<512]) @ [t]"

definition sub :: "nat \<Rightarrow> (nat \<Rightarrow> 64 word) \<Rightarrow> 64 word \<Rightarrow> nat list" where
  "sub lvl w e = (if \<not> valid e then [] else if user_leaf lvl e then [target e]
     else if 0 < lvl \<and> descend e then po (lvl - 1) w (target e) else [])"

lemma po_alt: "po lvl w t = concat (map (\<lambda>i. sub lvl w (w (t + 8 * i))) [0..<512]) @ [t]"
proof (cases lvl)
  case 0
  have "(if valid (w (t + 8 * i)) \<and> user_leaf 0 (w (t + 8 * i)) then [target (w (t + 8 * i))] else []) =
      sub 0 w (w (t + 8 * i))" for i by (simp add: sub_def)
  then show ?thesis unfolding 0 po.simps by (simp only:)
next
  case (Suc l)
  have "(if \<not> valid (w (t + 8 * i)) then []
      else if user_leaf (Suc l) (w (t + 8 * i)) then [target (w (t + 8 * i))]
      else if descend (w (t + 8 * i)) then po l w (target (w (t + 8 * i))) else []) = sub (Suc l) w (w (t + 8 * i))" for i
    by (simp add: sub_def)
  then show ?thesis unfolding Suc po.simps by (simp only:)
qed

declare po.simps [simp del]

lemma po_root: "t \<in> set (po lvl w t)"
  by (simp add: po_alt)

lemma sub_in_po: "i < 512 \<Longrightarrow> f \<in> set (sub lvl w (w (t + 8 * i))) \<Longrightarrow> f \<in> set (po lvl w t)"
  by (auto simp: po_alt)

lemma in_po: "f \<in> set (po lvl w t) \<longleftrightarrow> f = t \<or> (\<exists>i < 512. f \<in> set (sub lvl w (w (t + 8 * i))))"
  by (auto simp: po_alt)

lemma in_sub: "f \<in> set (sub lvl w e) \<longleftrightarrow> valid e \<and> (user_leaf lvl e \<and> f = target e \<or>
    \<not> user_leaf lvl e \<and> 0 < lvl \<and> descend e \<and> f \<in> set (po (lvl - 1) w (target e)))"
  by (simp add: sub_def)

lemma po_cong:
  "(\<And>f a. f \<in> set (po lvl w t) \<Longrightarrow> in_frame f a \<Longrightarrow> w' a = w a) \<Longrightarrow> po lvl w' t = po lvl w t"
proof (induction lvl arbitrary: t)
  case (0 t)
  have e: "w' (t + 8 * i) = w (t + 8 * i)" if "i < 512" for i
    using "0.prems" [OF po_root entry_in_frame [OF that]] .
  have "map (\<lambda>i. sub 0 w' (w' (t + 8 * i))) [0..<512] = map (\<lambda>i. sub 0 w (w (t + 8 * i))) [0..<512]"
    by (rule map_cong [OF refl]) (simp add: e sub_def)
  then show ?case by (simp only: po_alt)
next
  case (Suc l t)
  have e: "w' (t + 8 * i) = w (t + 8 * i)" if "i < 512" for i
    using Suc.prems [OF po_root entry_in_frame [OF that]] .
  have "sub (Suc l) w' (w (t + 8 * i)) = sub (Suc l) w (w (t + 8 * i))" if i: "i < 512" for i
  proof (cases "valid (w (t + 8 * i)) \<and> \<not> user_leaf (Suc l) (w (t + 8 * i)) \<and> descend (w (t + 8 * i))")
    case True
    then have s: "sub (Suc l) w (w (t + 8 * i)) = po l w (target (w (t + 8 * i)))" by (simp add: sub_def)
    have "po l w' (target (w (t + 8 * i))) = po l w (target (w (t + 8 * i)))"
    proof (rule Suc.IH)
      fix f a assume "f \<in> set (po l w (target (w (t + 8 * i))))" "in_frame f a"
      then show "w' a = w a" using Suc.prems [OF sub_in_po [OF i]] s by simp
    qed
    then show ?thesis using True by (simp add: sub_def)
  qed (auto simp: sub_def)
  then have "map (\<lambda>i. sub (Suc l) w' (w' (t + 8 * i))) [0..<512] = map (\<lambda>i. sub (Suc l) w (w (t + 8 * i))) [0..<512]"
    by (intro map_cong [OF refl]) (simp add: e)
  then show ?case by (simp only: po_alt)
qed

lemma sub_cong:
  "(\<And>f a. f \<in> set (sub lvl w e) \<Longrightarrow> in_frame f a \<Longrightarrow> w' a = w a) \<Longrightarrow> sub lvl w' e = sub lvl w e"
  using po_cong [of "lvl - 1" w "target e" w'] by (auto simp: sub_def)

text \<open>What a release step promises: it frees exactly the frames \<open>fl\<close> and writes nowhere else.\<close>

definition frees :: "nat list \<Rightarrow> pmem \<Rightarrow> pmem \<Rightarrow> bool" where
  "frees fl m m' \<longleftrightarrow> kinv m' \<and> frames m' = rev fl @ frames m \<and>
     (\<forall>a. (\<forall>f \<in> set fl. \<not> in_frame f a) \<longrightarrow> pw m' a = pw m a)"

lemma frees_one: "kinv m \<Longrightarrow> frame_ok f \<Longrightarrow> f \<notin> set (frames m) \<Longrightarrow> frees [f] m (kfree f m)"
  unfolding frees_def using kfree_frames [of m f] by auto (metis in_frame_base)

lemma frees_none: "kinv m \<Longrightarrow> frees [] m m"
  by (simp add: frees_def)

lemma frees_step:
  assumes t: "frame_ok t" and i: "i < 512" and e: "valid (pw m (t + 8 * i))"
    and s: "frees (sub lvl (pw m) (pw m (t + 8 * i))) m m1"
    and d: "t \<notin> set (sub lvl (pw m) (pw m (t + 8 * i)))" "t \<notin> set (frames m)"
  shows "kinv (store (t + 8 * i) 0 m1)"
    and "frames (store (t + 8 * i) 0 m1) = rev (sub lvl (pw m) (pw m (t + 8 * i))) @ frames m"
    and "\<And>a. a \<noteq> t + 8 * i \<Longrightarrow> (\<forall>f \<in> set (sub lvl (pw m) (pw m (t + 8 * i))). \<not> in_frame f a) \<Longrightarrow>
      pw (store (t + 8 * i) 0 m1) a = pw m a"
proof -
  let ?fl = "sub lvl (pw m) (pw m (t + 8 * i))"
  have k: "kinv m1" "frames m1 = rev ?fl @ frames m" using s by (auto simp: frees_def)
  have "t + 8 * i \<notin> set (frames m1)"
  proof
    assume a: "t + 8 * i \<in> set (frames m1)"
    then have "frame_ok (t + 8 * i)" using k(1) by (simp add: kinv_def)
    then have "t = t + 8 * i" using frames_disjoint [OF t _ entry_in_frame [OF i], of "t + 8 * i"] by simp
    then show False using a d k(2) by auto
  qed
  from store_frames [OF this] show "kinv (store (t + 8 * i) 0 m1)"
    "frames (store (t + 8 * i) 0 m1) = rev ?fl @ frames m" using k by auto
  show "\<And>a. a \<noteq> t + 8 * i \<Longrightarrow> (\<forall>f \<in> set ?fl. \<not> in_frame f a) \<Longrightarrow> pw (store (t + 8 * i) 0 m1) a = pw m a"
    using s by (simp add: frees_def)
qed

text \<open>The loop over the entries of one table, given what releasing a subtable does.\<close>

lemma fstep_loop:
  assumes IH: "\<And>u m. 0 < lvl \<Longrightarrow> kinv m \<Longrightarrow> distinct (po (lvl - 1) (pw m) u @ frames m) \<Longrightarrow>
      (\<forall>f \<in> set (po (lvl - 1) (pw m) u). frame_ok f) \<Longrightarrow> frees (po (lvl - 1) (pw m) u) m (fs (lvl - 1) u m)"
    and "kinv m" and t: "frame_ok t" and "\<forall>i \<in> set is'. i < 512" and "distinct is'"
    and "distinct (concat (map (\<lambda>i. sub lvl (pw m) (pw m (t + 8 * i))) is') @ t # frames m)"
    and "\<forall>f \<in> set (concat (map (\<lambda>i. sub lvl (pw m) (pw m (t + 8 * i))) is')). frame_ok f"
  shows "kinv (fold (fstep lvl t) is' m) \<and>
    frames (fold (fstep lvl t) is' m) = rev (concat (map (\<lambda>i. sub lvl (pw m) (pw m (t + 8 * i))) is')) @ frames m \<and>
    (\<forall>a. \<not> in_frame t a \<longrightarrow> (\<forall>f \<in> set (concat (map (\<lambda>i. sub lvl (pw m) (pw m (t + 8 * i))) is')). \<not> in_frame f a) \<longrightarrow>
       pw (fold (fstep lvl t) is' m) a = pw m a)"
  using assms(2,4-7)
proof (induction is' arbitrary: m)
  case (Cons i js)
  let ?s = "\<lambda>j. sub lvl (pw m) (pw m (t + 8 * j))"
  let ?m1 = "fstep lvl t i m"
  have i: "i < 512" "\<forall>j \<in> set js. j < 512" "i \<notin> set js" using Cons.prems(2,3) by auto
  have d: "distinct (?s i)" "t \<notin> set (?s i)" "t \<notin> set (frames m)" "set (?s i) \<inter> set (frames m) = {}"
    "\<forall>f \<in> set (?s i). frame_ok f" using Cons.prems(4,5) by auto
  have m1: "kinv ?m1 \<and> frames ?m1 = rev (?s i) @ frames m \<and>
      (\<forall>a. a \<noteq> t + 8 * i \<longrightarrow> (\<forall>f \<in> set (?s i). \<not> in_frame f a) \<longrightarrow> pw ?m1 a = pw m a)"
  proof (cases "valid (pw m (t + 8 * i))")
    case False
    then show ?thesis using Cons.prems(1) by (simp add: fstep_eq sub_def)
  next
    case v: True
    let ?e = "pw m (t + 8 * i)"
    let ?m0 = "if user_leaf lvl ?e then kfree (target ?e) m else if 0 < lvl \<and> descend ?e then fs (lvl - 1) (target ?e) m else m"
    have "frees (?s i) m ?m0"
    proof (cases "user_leaf lvl ?e")
      case True
      then show ?thesis using v d frees_one [OF Cons.prems(1), of "target ?e"] by (simp add: sub_def)
    next
      case False
      moreover have "distinct (frames m)" using Cons.prems(1) by (simp add: kinv_def)
      ultimately show ?thesis using v d IH [of m "target ?e"] Cons.prems(1) frees_none by (auto simp: sub_def)
    qed
    from frees_step [OF t i(1) v this d(2,3)] show ?thesis using v by (simp add: fstep_eq Let_def)
  qed
  have keep: "pw ?m1 a = pw m a" if "f \<in> set (?s j)" "j \<in> set js" "in_frame f a" for f j a
  proof -
    have f: "frame_ok f" "f \<noteq> t" "f \<notin> set (?s i)" using that Cons.prems(4,5) by auto
    then have "a \<noteq> t + 8 * i" using frames_disjoint [OF f(1) t that(3)] entry_in_frame [OF i(1), of t] by auto
    moreover have "\<forall>g \<in> set (?s i). \<not> in_frame g a" using frames_disjoint [OF f(1) _ that(3)] d(5) f(3) by blast
    ultimately show ?thesis using m1 by blast
  qed
  have ent: "pw ?m1 (t + 8 * j) = pw m (t + 8 * j)" if "j \<in> set js" for j
  proof -
    have j: "j < 512" "j \<noteq> i" using that i by auto
    then have "\<forall>g \<in> set (?s i). \<not> in_frame g (t + 8 * j)"
      using frames_disjoint [OF t _ entry_in_frame [OF j(1)]] d(2,5) by blast
    then show ?thesis using m1 j(2) by simp
  qed
  have same: "sub lvl (pw ?m1) (pw ?m1 (t + 8 * j)) = ?s j" if "j \<in> set js" for j
    unfolding ent [OF that] by (rule sub_cong) (rule keep [OF _ that])
  then have mp: "map (\<lambda>j. sub lvl (pw ?m1) (pw ?m1 (t + 8 * j))) js = map ?s js" by (intro map_cong [OF refl])
  have "distinct (concat (map ?s js) @ t # frames ?m1)" using Cons.prems(4) m1 by auto
  moreover have "\<forall>f \<in> set (concat (map ?s js)). frame_ok f" using Cons.prems(5) by auto
  ultimately have "kinv (fold (fstep lvl t) js ?m1) \<and>
    frames (fold (fstep lvl t) js ?m1) = rev (concat (map ?s js)) @ frames ?m1 \<and>
    (\<forall>a. \<not> in_frame t a \<longrightarrow> (\<forall>f \<in> set (concat (map ?s js)). \<not> in_frame f a) \<longrightarrow>
       pw (fold (fstep lvl t) js ?m1) a = pw ?m1 a)"
    using Cons.IH [of ?m1, unfolded mp] m1 i(2) Cons.prems(3) by simp
  moreover have "a \<noteq> t + 8 * i" if "\<not> in_frame t a" for a using that entry_in_frame [OF i(1), of t] by auto
  ultimately show ?case using m1 by (auto simp: ball_Un)
qed simp

lemma fs_frees:
  assumes "kinv m" and "distinct (po lvl (pw m) t @ frames m)" and "\<forall>f \<in> set (po lvl (pw m) t). frame_ok f"
  shows "frees (po lvl (pw m) t) m (fs lvl t m)"
  using assms
proof (induction lvl arbitrary: t m rule: less_induct)
  case (less lvl)
  let ?c = "concat (map (\<lambda>i. sub lvl (pw m) (pw m (t + 8 * i))) [0..<512])"
  let ?m1 = "fold (fstep lvl t) [0..<512] m"
  have t: "frame_ok t" using less.prems(3) po_root by blast
  have d: "distinct (?c @ t # frames m)" "\<forall>f \<in> set ?c. frame_ok f"
    using less.prems(2,3) unfolding po_alt by auto
  have L: "kinv ?m1 \<and> frames ?m1 = rev ?c @ frames m \<and>
    (\<forall>a. \<not> in_frame t a \<longrightarrow> (\<forall>f \<in> set ?c. \<not> in_frame f a) \<longrightarrow> pw ?m1 a = pw m a)"
    by (rule fstep_loop [OF _ less.prems(1) t _ _ d]) (use less.IH in auto)
  have "t \<notin> set (frames ?m1)" using L d(1) by auto
  note K = kfree_frames [OF conjunct1 [OF L] t this]
  have m': "fs lvl t m = kfree t ?m1" by (rule fs_eq)
  show ?case
    unfolding frees_def m'
  proof (intro conjI allI impI)
    show "kinv (kfree t ?m1)" by (rule K(2))
    show "frames (kfree t ?m1) = rev (po lvl (pw m) t) @ frames m" using K(1) L unfolding po_alt by simp
    fix a assume a: "\<forall>f \<in> set (po lvl (pw m) t). \<not> in_frame f a"
    then have "\<not> in_frame t a" "\<forall>f \<in> set ?c. \<not> in_frame f a" unfolding po_alt by auto
    moreover from this have "a \<noteq> t" by auto
    ultimately show "pw (kfree t ?m1) a = pw m a" using K(3) L by simp
  qed
qed

end

end
