(* ===== verification/Sv39.thy ===== *)
theory Sv39
  imports Radix
begin

text \<open>
  The RISC-V page table (\<open>hal-riscv64/src/pagetable.rs\<close>): entry codec, walk, map, unmap,
  translate and the destructor. An address of a table is its physical address; the frame
  allocator behind \<open>FrameAllocator\<close> is \<open>Kalloc\<close>, which boot also installs as the
  \<open>FREE_FRAME\<close> callback. A result is paired with the memory it leaves, also on failure.
\<close>

unbundle bit_operations_syntax

section \<open>Entries\<close>

type_synonym pte = "64 word"
type_synonym pte_perm = "32 word"

definition PTE_V :: pte where "PTE_V = push_bit 0 1"
definition PTE_R :: pte where "PTE_R = push_bit 1 1"
definition PTE_W :: pte where "PTE_W = push_bit 2 1"
definition PTE_X :: pte where "PTE_X = push_bit 3 1"
definition PTE_U :: pte where "PTE_U = push_bit 4 1"

definition PERM_READ :: pte_perm where "PERM_READ = push_bit 0 1"
definition PERM_WRITE :: pte_perm where "PERM_WRITE = push_bit 1 1"
definition PERM_EXEC :: pte_perm where "PERM_EXEC = push_bit 2 1"
definition PERM_USER :: pte_perm where "PERM_USER = push_bit 3 1"

definition pte_is_valid :: "pte \<Rightarrow> bool" where
  "pte_is_valid e \<longleftrightarrow> e AND PTE_V \<noteq> 0"

definition pte_is_leaf :: "pte \<Rightarrow> bool" where
  "pte_is_leaf e \<longleftrightarrow> pte_is_valid e \<and> e AND (PTE_R OR PTE_W OR PTE_X) \<noteq> 0"

definition pte_pa :: "pte \<Rightarrow> pte" where
  "pte_pa e = push_bit 12 (drop_bit 10 e AND (push_bit 44 1 - 1))"

definition flags_perm :: "pte \<Rightarrow> pte_perm" where
  "flags_perm e =
     (if e AND PTE_R \<noteq> 0 then PERM_READ else 0) OR (if e AND PTE_W \<noteq> 0 then PERM_WRITE else 0) OR
     (if e AND PTE_X \<noteq> 0 then PERM_EXEC else 0) OR (if e AND PTE_U \<noteq> 0 then PERM_USER else 0)"

definition leaf_bits :: "pte_perm \<Rightarrow> pte" where
  "leaf_bits perm = PTE_V OR
     (if perm AND PERM_READ \<noteq> 0 then PTE_R else 0) OR (if perm AND PERM_WRITE \<noteq> 0 then PTE_W else 0) OR
     (if perm AND PERM_EXEC \<noteq> 0 then PTE_X else 0) OR (if perm AND PERM_USER \<noteq> 0 then PTE_U else 0)"

definition make_leaf :: "nat \<Rightarrow> pte_perm \<Rightarrow> pte" where
  "make_leaf pa perm = push_bit 10 (drop_bit 12 (of_nat pa)) OR leaf_bits perm"

definition make_branch :: "nat \<Rightarrow> pte" where
  "make_branch pa = push_bit 10 (drop_bit 12 (of_nat pa)) OR PTE_V"

section \<open>Operations\<close>

definition MAXVA :: nat where "MAXVA = 2 ^ 38"

text \<open>\<open>(1..=2).rev()\<close>, the levels above the last.\<close>

definition sv_levels :: "nat list" where "sv_levels = rev [1..<3]"

primrec walk_levels :: "bool \<Rightarrow> nat list \<Rightarrow> nat \<Rightarrow> nat \<Rightarrow> pmem \<Rightarrow> nat option \<times> pmem" where
  "walk_levels alloc [] va table m = (Some (table + 8 * pte_index 0 va), m)"
| "walk_levels alloc (level # ls) va table m =
     (let pte_ptr = table + 8 * pte_index level va; e = pw m pte_ptr in
      if pte_is_valid e then walk_levels alloc ls va (unat (pte_pa e)) m
      else if alloc then
        (case alloc_zeroed m of
           (None, m1) \<Rightarrow> (None, m1)
         | (Some new_pa, m1) \<Rightarrow> walk_levels alloc ls va new_pa (store pte_ptr (make_branch new_pa) m1))
      else (None, m))"

definition walk_pt :: "bool \<Rightarrow> nat \<Rightarrow> nat \<Rightarrow> pmem \<Rightarrow> nat option \<times> pmem" where
  "walk_pt alloc root va m = (if MAXVA \<le> va then (None, m) else walk_levels alloc sv_levels va root m)"

definition pt_new :: "pmem \<Rightarrow> (vm_error + nat) \<times> pmem" where
  "pt_new m = (case alloc_zeroed m of (None, m1) \<Rightarrow> (Inl Oom, m1) | (Some pa, m1) \<Rightarrow> (Inr pa, m1))"

function map_loop :: "pte_perm \<Rightarrow> nat \<Rightarrow> nat \<Rightarrow> nat \<Rightarrow> nat \<Rightarrow> pmem \<Rightarrow> (vm_error + unit) \<times> pmem" where
  "map_loop perm root va pa en m =
     (if va < en then
        (case walk_pt True root va m of
           (None, m1) \<Rightarrow> (Inl Oom, m1)
         | (Some p, m1) \<Rightarrow>
             if pte_is_valid (pw m1 p) then (Inl Remap, m1)
             else map_loop perm root (va + PGSIZE) (pa + PGSIZE) en (store p (make_leaf pa perm) m1))
      else (Inr (), m))"
  by pat_completeness auto

termination
  by (relation "measure (\<lambda>(_, _, va, _, en, _). en - va)") (auto simp: PGSIZE_def)

declare map_loop.simps [simp del]

definition pt_map :: "nat \<Rightarrow> nat \<Rightarrow> nat \<Rightarrow> nat \<Rightarrow> pte_perm \<Rightarrow> pmem \<Rightarrow> (vm_error + unit) \<times> pmem" where
  "pt_map root va pa sz perm m =
     (if va mod PGSIZE \<noteq> 0 \<or> pa mod PGSIZE \<noteq> 0 \<or> sz mod PGSIZE \<noteq> 0 \<or> sz = 0 then (Inl Misaligned, m)
      else if 2 ^ 64 \<le> va + sz then (Inl OutOfRange, m)
      else if MAXVA < va + sz then (Inl OutOfRange, m)
      else map_loop perm root va pa (va + sz) m)"

definition unmap_page :: "nat \<Rightarrow> nat \<Rightarrow> pmem \<Rightarrow> nat option \<times> pmem" where
  "unmap_page root va m =
     (if MAXVA \<le> va \<or> va mod PGSIZE \<noteq> 0 then (None, m)
      else (case walk_pt False root va m of
          (None, m1) \<Rightarrow> (None, m1)
        | (Some p, m1) \<Rightarrow>
            let e = pw m1 p in
            if \<not> pte_is_valid e \<or> \<not> pte_is_leaf e then (None, m1)
            else (Some (unat (pte_pa e)), store p 0 m1)))"

primrec translate_levels :: "nat list \<Rightarrow> nat \<Rightarrow> nat \<Rightarrow> pmem \<Rightarrow> (nat \<times> pte_perm) option" where
  "translate_levels [] va table m =
     (let e = pw m (table + 8 * pte_index 0 va) in
      if \<not> pte_is_valid e then None else Some (unat (pte_pa e OR (of_nat va AND 0xfff)), flags_perm e))"
| "translate_levels (level # ls) va table m =
     (let e = pw m (table + 8 * pte_index level va) in
      if \<not> pte_is_valid e then None
      else if pte_is_leaf e then
        Some (unat (pte_pa e) + va mod 2 ^ (12 + 9 * level), flags_perm e)
      else translate_levels ls va (unat (pte_pa e)) m)"

definition translate :: "nat \<Rightarrow> nat \<Rightarrow> pmem \<Rightarrow> (nat \<times> pte_perm) option" where
  "translate root va m = (if MAXVA \<le> va then None else translate_levels sv_levels va root m)"

text \<open>The destructor: user leaves, then the tables, children first.\<close>

primrec free_subtree :: "nat \<Rightarrow> nat \<Rightarrow> pmem \<Rightarrow> pmem" where
  "free_subtree 0 pt_pa' m = kfree pt_pa' (fold (\<lambda>i m.
     let e = pw m (pt_pa' + 8 * i) in
     if \<not> pte_is_valid e then m
     else store (pt_pa' + 8 * i) 0
       (if pte_is_leaf e then (if e AND PTE_U \<noteq> 0 then kfree (unat (pte_pa e)) m else m) else m)) [0..<512] m)"
| "free_subtree (Suc level) pt_pa' m = kfree pt_pa' (fold (\<lambda>i m.
     let e = pw m (pt_pa' + 8 * i) in
     if \<not> pte_is_valid e then m
     else store (pt_pa' + 8 * i) 0
       (if pte_is_leaf e then (if e AND PTE_U \<noteq> 0 then kfree (unat (pte_pa e)) m else m)
        else free_subtree level (unat (pte_pa e)) m)) [0..<512] m)"

definition pt_drop :: "nat \<Rightarrow> pmem \<Rightarrow> pmem" where
  "pt_drop root m = (if root \<noteq> 0 then free_subtree 2 root m else m)"

definition satp_value :: "nat \<Rightarrow> 64 word" where
  "satp_value root = push_bit 60 8 OR drop_bit 12 (of_nat root)"

section \<open>The entry codec\<close>

lemma bit_test: "(w :: 'a::len word) AND push_bit n 1 \<noteq> 0 \<longleftrightarrow> bit w n"
  by (simp add: push_bit_eq_mult and_exp_eq_0_iff_not_bit)

lemmas pte_bits = PTE_V_def PTE_R_def PTE_W_def PTE_X_def PTE_U_def
lemmas perm_bits = PERM_READ_def PERM_WRITE_def PERM_EXEC_def PERM_USER_def

lemma pte_is_valid_bit: "pte_is_valid e \<longleftrightarrow> bit e 0"
  using bit_test [of e 0] by (simp add: pte_is_valid_def PTE_V_def)

lemma bit_frame:
  assumes "PGSIZE dvd pa" and "pa < 2 ^ 48"
  shows "bit (of_nat pa :: 64 word) k \<longleftrightarrow> 12 \<le> k \<and> k < 48 \<and> bit pa k"
proof -
  have "\<not> bit pa k" if "k < 12"
  proof -
    obtain x where "pa = 4096 * x" using assms(1) unfolding PGSIZE_def by (rule dvdE)
    then have "pa = push_bit 12 x" by (simp add: push_bit_eq_mult)
    then show ?thesis using that by (simp add: bit_push_bit_iff)
  qed
  moreover have "\<not> bit pa k" if "48 \<le> k"
  proof -
    have "pa = take_bit 48 pa" using assms(2) by (simp add: take_bit_nat_eq_self)
    then show ?thesis using that by (metis bit_take_bit_iff not_less)
  qed
  ultimately show ?thesis by (auto simp: bit_of_nat_iff) (meson not_le)+
qed

lemma bit_pte_pa: "bit (pte_pa e) k \<longleftrightarrow> 12 \<le> k \<and> k < 56 \<and> bit e (k - 2)"
proof -
  have "pte_pa e = push_bit 12 (drop_bit 10 e AND mask 44)"
    by (simp only: pte_pa_def mask_eq_exp_minus_1 push_bit_eq_mult mult_1_left)
  then have "bit (pte_pa e) k \<longleftrightarrow> 12 \<le> k \<and> k < 64 \<and> bit e (10 + (k - 12)) \<and> k - 12 < 44"
    by (auto simp only: bit_push_bit_iff bit_and_iff bit_drop_bit_eq comp_def bit_mask_iff) auto
  then show ?thesis by (auto simp: bit_imp_le_length)
qed

lemma bit_small_flags:
  assumes "\<And>k. 10 \<le> k \<Longrightarrow> \<not> bit x k" and "PGSIZE dvd pa" and "pa < 2 ^ 48"
  shows "unat (pte_pa (push_bit 10 (drop_bit 12 (of_nat pa)) OR x)) = pa"
proof -
  have "pte_pa (push_bit 10 (drop_bit 12 (of_nat pa)) OR x) = of_nat pa"
  proof (rule bit_eqI)
    fix k
    have nx: "12 \<le> k \<Longrightarrow> \<not> bit x (k - 2)" using assms(1) [of "k - 2"] by simp
    show "bit (pte_pa (push_bit 10 (drop_bit 12 (of_nat pa)) OR x)) k = bit (of_nat pa :: pte) k"
      using nx bit_frame [OF assms(2,3), of k]
      by (auto simp: bit_pte_pa bit_push_bit_iff bit_drop_bit_eq bit_or_iff)
  qed
  moreover have "unat (of_nat pa :: pte) = pa" using assms(3) by (simp add: unat_of_nat take_bit_nat_eq_self)
  ultimately show ?thesis by simp
qed

lemma bit_one_at: "bit (push_bit n 1 :: 'a::len word) k \<longleftrightarrow> k = n \<and> n < LENGTH('a)"
  by (auto simp: bit_exp_iff)

lemma bit_flag: "bit (if c then push_bit n 1 else 0 :: 'a::len word) k \<longleftrightarrow> c \<and> k = n \<and> n < LENGTH('a)"
  by (cases c) (auto simp: bit_exp_iff)

lemma leaf_bits_bit:
  "bit (leaf_bits perm) k \<longleftrightarrow> k = 0 \<or> bit perm 0 \<and> k = 1 \<or> bit perm 1 \<and> k = 2 \<or> bit perm 2 \<and> k = 3 \<or> bit perm 3 \<and> k = 4"
  unfolding leaf_bits_def perm_bits bit_test pte_bits bit_or_iff bit_flag bit_one_at by simp

lemma flags_perm_bit:
  "bit (flags_perm e) k \<longleftrightarrow> bit e 1 \<and> k = 0 \<or> bit e 2 \<and> k = 1 \<or> bit e 3 \<and> k = 2 \<or> bit e 4 \<and> k = 3"
  unfolding flags_perm_def perm_bits bit_test pte_bits bit_or_iff bit_flag bit_one_at by simp

lemma make_leaf_low: "k < 10 \<Longrightarrow> bit (make_leaf pa perm) k = bit (leaf_bits perm) k"
  by (auto simp: make_leaf_def bit_or_iff bit_push_bit_iff)

lemma make_leaf_valid: "pte_is_valid (make_leaf pa perm)"
  by (simp add: pte_is_valid_bit make_leaf_low leaf_bits_bit)

lemma make_leaf_pa: "PGSIZE dvd pa \<Longrightarrow> pa < 2 ^ 48 \<Longrightarrow> unat (pte_pa (make_leaf pa perm)) = pa"
  unfolding make_leaf_def by (rule bit_small_flags) (auto simp: leaf_bits_bit)

lemma make_leaf_perm: "flags_perm (make_leaf pa perm) = perm AND mask 4"
  by (rule bit_eqI) (auto simp: flags_perm_bit make_leaf_low leaf_bits_bit bit_and_iff bit_mask_iff numeral_eq_Suc less_Suc_eq)

lemma pte_is_leaf_bits: "pte_is_leaf e \<longleftrightarrow> bit e 0 \<and> (bit e 1 \<or> bit e 2 \<or> bit e 3)"
proof -
  have "e AND (PTE_R OR PTE_W OR PTE_X) = 0 \<longleftrightarrow> e AND PTE_R = 0 \<and> e AND PTE_W = 0 \<and> e AND PTE_X = 0"
    by (simp only: bit.conj_disj_distrib or_eq_0_iff)
  then show ?thesis using bit_test [of e] by (auto simp only: pte_is_leaf_def pte_is_valid_bit pte_bits)
qed

lemma make_branch_codec:
  assumes "frame_ok f"
  shows "pte_is_valid (make_branch f) \<and> unat (pte_pa (make_branch f)) = f \<and> \<not> pte_is_leaf (make_branch f)"
proof -
  have b: "bit (make_branch f) k \<longleftrightarrow> k = 0" if "k < 10" for k
    using that bit_one_at [of 0 k, where ?'a = 64] by (auto simp: make_branch_def bit_or_iff bit_push_bit_iff PTE_V_def)
  have "unat (pte_pa (make_branch f)) = f"
    unfolding make_branch_def
    by (rule bit_small_flags) (use assms bit_one_at [of 0, where ?'a = 64] in \<open>auto simp: frame_ok_def PTE_V_def\<close>)
  then show ?thesis using b by (simp add: pte_is_valid_bit pte_is_leaf_bits)
qed

lemma sv_levels_list: "sv_levels = [2, 1]"
  by (simp add: sv_levels_def upt_conv_Cons)

lemma length_sv_levels [simp]: "length sv_levels = 2"
  by (simp add: sv_levels_list)

lemma sv_addr_inj:
  assumes "v < MAXVA" "v' < MAXVA" "idx_path sv_levels v = idx_path sv_levels v'" "pte_index 0 v = pte_index 0 v'"
  shows "v div PGSIZE = v' div PGSIZE"
proof -
  let ?p = "v div PGSIZE" and ?q = "v' div PGSIZE"
  have "?p div 512 ^ l mod 512 = ?q div 512 ^ l mod 512" if "l < 3" for l
  proof -
    have "l = 0 \<or> l = 1 \<or> l = 2" using that by auto
    then have "pte_index l v = pte_index l v'" using assms(3,4) by (auto simp: sv_levels_list)
    then show ?thesis by (simp add: pte_index_alt)
  qed
  moreover have "?p < 512 ^ 3" "?q < 512 ^ 3" using assms(1,2) by (simp_all add: MAXVA_def PGSIZE_def less_mult_imp_div_less)
  ultimately show ?thesis using digits_eq [of ?p 512 3 ?q] by blast
qed

interpretation sv: radix pte_is_valid "\<lambda>e. unat (pte_pa e)" make_branch "\<lambda>e. \<not> pte_is_leaf e" sv_levels MAXVA
    "\<lambda>perm pa. make_leaf pa perm" walk_levels walk_pt map_loop
proof (unfold_locales, goal_cases)
  case 1 show ?case by (simp add: pte_is_valid_def)
next
  case (2 f) then show ?case by (rule make_branch_codec)
next
  case 3 show ?case by simp
next
  case 4 show ?case by simp
next
  case 5 show ?case by (simp add: walk_pt_def)
next
  case (6 perm r va pa en m) show ?case by (rule map_loop.simps)
next
  case (7 v v') then show ?case by (rule sv_addr_inj)
qed

section \<open>Translation\<close>

lemma and_offset: "(of_nat va AND 0xfff :: 64 word) = of_nat (va mod PGSIZE)"
proof -
  have "(of_nat va AND 0xfff :: 64 word) = take_bit 12 (of_nat va)" by (simp add: take_bit_eq_mask mask_eq_exp_minus_1)
  also have "\<dots> = of_nat (take_bit 12 va)" by (simp add: take_bit_of_nat)
  finally show ?thesis by (simp add: take_bit_eq_mod PGSIZE_def)
qed

lemma or_offset:
  assumes "PGSIZE dvd f" and "f < 2 ^ 48" and "unat (e :: 64 word) = f"
  shows "unat (e OR (of_nat va AND 0xfff)) = f + va mod PGSIZE"
proof -
  have e: "e = of_nat f" using assms(3) by auto
  note m = and_offset [of va]
  have "\<not> bit (of_nat (va mod PGSIZE) :: 64 word) k" if "12 \<le> k" for k
  proof -
    have "va mod PGSIZE = take_bit 12 va" by (simp add: take_bit_eq_mod PGSIZE_def)
    then show ?thesis using that by (simp add: bit_of_nat_iff bit_take_bit_iff)
  qed
  then have "e AND of_nat (va mod PGSIZE) = 0"
    using bit_frame [OF assms(1,2)] by (intro bit_eqI) (auto simp: bit_and_iff e not_le)
  from disjunctive_add_eq_or [OF this] have "e OR (of_nat va AND 0xfff) = of_nat (f + va mod PGSIZE)"
    unfolding m e by simp
  moreover have "unat (of_nat (f + va mod PGSIZE) :: 64 word) = f + va mod PGSIZE"
  proof -
    have "va mod PGSIZE < 4096" by (simp add: PGSIZE_def)
    then have "f + va mod PGSIZE < 2 ^ 64" using assms(2) by simp
    then have "f + va mod PGSIZE < 2 ^ LENGTH(64)" by simp
    then show ?thesis unfolding unat_of_nat by (rule mod_less)
  qed
  ultimately show ?thesis by (simp only:)
qed

definition decode :: "pte \<Rightarrow> nat \<Rightarrow> (nat \<times> pte_perm) option" where
  "decode e va = (if pte_is_valid e then Some (unat (pte_pa e OR (of_nat va AND 0xfff)), flags_perm e) else None)"

lemma translate_entry:
  assumes tr: "sv.tree root m" and va: "va < MAXVA"
  shows "translate root va m = decode (sv.entry_of m root va) va"
proof -
  let ?e2 = "pw m (root + 8 * pte_index 2 va)"
  let ?e1 = "pw m (unat (pte_pa ?e2) + 8 * pte_index 1 va)"
  have p: "ipath 2 []" "ipath 2 [pte_index 2 va]" by (simp_all add: ipath_def)
  have n2: "pte_is_valid ?e2 \<Longrightarrow> \<not> pte_is_leaf ?e2"
    using sv.treeD(4) [OF tr, of "[]" root "pte_index 2 va"] p by simp
  have n1: "pte_is_valid ?e2 \<Longrightarrow> pte_is_valid ?e1 \<Longrightarrow> \<not> pte_is_leaf ?e1"
    using sv.treeD(4) [OF tr, of "[pte_index 2 va]" "unat (pte_pa ?e2)" "pte_index 1 va"] p by simp
  have e: "sv.entry_of m root va = (if pte_is_valid ?e2 \<and> pte_is_valid ?e1
      then pw m (unat (pte_pa ?e1) + 8 * pte_index 0 va) else 0)"
    unfolding sv.entry_of_def sv.leaf_def by (simp add: sv_levels_list)
  show ?thesis unfolding e translate_def using va n1 n2 sv.valid0
    by (auto simp: decode_def Let_def sv_levels_list)
qed

lemma decode_leaf:
  assumes "PGSIZE dvd pa" and "pa < 2 ^ 48"
  shows "decode (make_leaf pa perm) va = Some (pa + va mod PGSIZE, perm AND mask 4)"
  using or_offset [OF assms make_leaf_pa [OF assms]] make_leaf_valid make_leaf_perm by (simp add: decode_def)

lemma mapped_translate:
  assumes tr: "sv.tree root m" and mp: "sv.mapped perm root va k pa m m'" and al: "PGSIZE dvd va" "PGSIZE dvd pa"
    and lim: "pa + (k - va) \<le> 2 ^ 48" and v: "v < MAXVA"
  shows "translate root v m' = (if va \<le> v \<and> v < k then Some (pa + (v - va), perm AND mask 4) else translate root v m)"
proof -
  have tr': "sv.tree root m'" and e: "sv.entry_of m' root v =
      (if va \<le> v \<and> v < k then make_leaf (pa + (v div PGSIZE * PGSIZE - va)) perm else sv.entry_of m root v)"
    using mp v by (auto simp: sv.mapped_def)
  show ?thesis
  proof (cases "va \<le> v \<and> v < k")
    case True
    have le: "va \<le> v div PGSIZE * PGSIZE" "v div PGSIZE * PGSIZE \<le> v"
      using div_le_mono [of va v PGSIZE] True al(1) by (auto simp: dvd_def)
    have d: "PGSIZE dvd pa + (v div PGSIZE * PGSIZE - va)" using al by simp
    have d2: "pa + (v div PGSIZE * PGSIZE - va) < 2 ^ 48" using le lim True by linarith
    have "v = v div PGSIZE * PGSIZE + v mod PGSIZE" by simp
    then have "pa + (v div PGSIZE * PGSIZE - va) + v mod PGSIZE = pa + (v - va)" using le by linarith
    then show ?thesis using True e decode_leaf [OF d d2, of perm v] by (simp only: translate_entry [OF tr' v] simp_thms if_True)
  next
    case False
    then show ?thesis using e by (simp only: translate_entry [OF tr' v] translate_entry [OF tr v] if_False)
  qed
qed

section \<open>Teardown\<close>

definition sv_free_entry :: "nat \<Rightarrow> nat \<Rightarrow> nat \<Rightarrow> pmem \<Rightarrow> pmem" where
  "sv_free_entry lvl t i m =
     (let e = pw m (t + 8 * i) in
      if \<not> pte_is_valid e then m
      else store (t + 8 * i) 0
        (if pte_is_leaf e \<and> e AND PTE_U \<noteq> 0 then kfree (unat (pte_pa e)) m
         else if 0 < lvl \<and> \<not> pte_is_leaf e then free_subtree (lvl - 1) (unat (pte_pa e)) m
         else m))"

lemma free_subtree_eq: "free_subtree lvl t m = kfree t (fold (sv_free_entry lvl t) [0..<512] m)"
proof (cases lvl)
  case 0
  have "(\<lambda>i m. let e = pw m (t + 8 * i) in if \<not> pte_is_valid e then m
      else store (t + 8 * i) 0 (if pte_is_leaf e then (if e AND PTE_U \<noteq> 0 then kfree (unat (pte_pa e)) m else m) else m)) =
    sv_free_entry 0 t" by (intro ext) (auto simp: sv_free_entry_def Let_def)
  then show ?thesis unfolding 0 free_subtree.simps by (simp only:)
next
  case (Suc l)
  have "(\<lambda>i m. let e = pw m (t + 8 * i) in if \<not> pte_is_valid e then m
      else store (t + 8 * i) 0 (if pte_is_leaf e then (if e AND PTE_U \<noteq> 0 then kfree (unat (pte_pa e)) m else m)
        else free_subtree l (unat (pte_pa e)) m)) = sv_free_entry (Suc l) t"
    by (intro ext) (auto simp: sv_free_entry_def Let_def)
  then show ?thesis unfolding Suc free_subtree.simps by (simp only:)
qed

interpretation svd: table_drop pte_is_valid "\<lambda>e. unat (pte_pa e)" "\<lambda>lvl e. pte_is_leaf e \<and> e AND PTE_U \<noteq> 0"
    "\<lambda>e. \<not> pte_is_leaf e" free_subtree sv_free_entry
proof (unfold_locales, goal_cases)
  case 1 show ?case by (rule free_subtree_eq)
next
  case 2 show ?case by (rule sv_free_entry_def)
qed

section \<open>Properties\<close>

lemma pt_map_loop:
  assumes "pt_map root va pa sz perm m = (res, m')" and "\<not> (res = Inl Misaligned \<or> res = Inl OutOfRange)"
  shows "map_loop perm root va pa (va + sz) m = (res, m')" "PGSIZE dvd va" "PGSIZE dvd pa" "PGSIZE dvd va + sz"
    "va + sz \<le> MAXVA"
  using assms by (auto simp: pt_map_def mod_eq_0_iff_dvd split: if_splits)

lemma map_loop_result:
  "fst (map_loop perm root va pa en m) \<in> {Inr (), Inl Oom, Inl Remap}"
proof (induction perm root va pa en m rule: map_loop.induct)
  case (1 perm root va pa en m)
  obtain q m1 where w: "walk_pt True root va m = (q, m1)" by fastforce
  show ?case
  proof (cases "va < en \<and> (\<exists>p. q = Some p \<and> \<not> pte_is_valid (pw m1 p))")
    case True
    then obtain p where "va < en" "q = Some p" "\<not> pte_is_valid (pw m1 p)" by blast
    then have "fst (map_loop perm root (va + PGSIZE) (pa + PGSIZE) en (store p (make_leaf pa perm) m1)) \<in> {Inr (), Inl Oom, Inl Remap}"
      by (intro "1.IH") (simp_all add: w)
    then show ?thesis using \<open>va < en\<close> \<open>q = Some p\<close> \<open>\<not> pte_is_valid (pw m1 p)\<close> w by (simp add: map_loop.simps [of perm root va])
  next
    case False
    then show ?thesis using w by (auto simp: map_loop.simps [of perm root va] split: option.splits)
  qed
qed

lemma unat_or_zero: "va mod PGSIZE = 0 \<Longrightarrow> (e :: 64 word) OR (of_nat va AND 0xfff) = e"
  by (simp add: and_offset)

text \<open>C9. Mapping a range makes exactly that range visible. After a successful \<open>map\<close> every address
  of the range translates to the corresponding physical address with the requested
  permissions, was unmapped before, and every other address translates as it did; the page
  table is again a tree of private frames.\<close>

theorem pt_map_translates:
  assumes "sv.tree root m" and "pa + sz \<le> 2 ^ 48" and "pt_map root va pa sz perm m = (Inr (), m')"
  shows "sv.tree root m' \<and>
    (\<forall>v < MAXVA. translate root v m' =
       (if va \<le> v \<and> v < va + sz then Some (pa + (v - va), perm AND mask 4) else translate root v m)) \<and>
    (\<forall>v. va \<le> v \<and> v < va + sz \<longrightarrow> translate root v m = None)"
proof -
  note P = pt_map_loop [OF assms(3), simplified]
  obtain mp: "sv.mapped perm root va (va + sz) pa m m'"
    using sv.mp_spec [OF assms(1) P(2,4,5) le_add1 P(1)] by blast
  have "translate root v m = None" if "va \<le> v" "v < va + sz" for v
  proof -
    have v: "v < MAXVA" using that P(5) by simp
    then show ?thesis using mp that by (simp add: translate_entry [OF assms(1) v] decode_def sv.mapped_def)
  qed
  moreover have "pa + (va + sz - va) \<le> 2 ^ 48" using assms(2) by simp
  note mapped_translate [OF assms(1) mp P(2,3) this]
  moreover have "sv.tree root m'" using mp by (simp add: sv.mapped_def)
  ultimately show ?thesis by blast
qed

text \<open>Failure of \<open>map\<close> is understood. A misaligned or out-of-range request changes nothing;
  otherwise a prefix of the range is mapped and nothing else, a \<open>Remap\<close> error points at an
  address that was already mapped, and with two free frames per page and an unmapped range
  the call does not fail.\<close>

lemma pt_map_error:
  assumes "sv.tree root m" and "pa + sz \<le> 2 ^ 48" and "pt_map root va pa sz perm m = (res, m')"
  shows "(res = Inl Misaligned \<or> res = Inl OutOfRange \<longrightarrow> m' = m) \<and>
    (\<exists>k. va \<le> k \<and> k \<le> va + sz \<and> (\<forall>v < MAXVA. translate root v m' =
       (if va \<le> v \<and> v < k then Some (pa + (v - va), perm AND mask 4) else translate root v m)) \<and>
       (res = Inl Remap \<longrightarrow> translate root k m \<noteq> None)) \<and>
    (2 * (sz div PGSIZE) \<le> length (frames m) \<and> (\<forall>v. va \<le> v \<and> v < va + sz \<longrightarrow> translate root v m = None) \<longrightarrow>
       res = Inr () \<or> res = Inl Misaligned \<or> res = Inl OutOfRange)"
proof (cases "res = Inl Misaligned \<or> res = Inl OutOfRange")
  case True
  then have "m' = m" using assms(3) map_loop_result [of perm root va pa "va + sz" m] by (auto simp: pt_map_def split: if_splits)
  then show ?thesis using True by (auto intro!: exI [of _ va])
next
  case False
  note P = pt_map_loop [OF assms(3) False]
  from sv.mp_spec [OF assms(1) P(2,4,5) le_add1 P(1)] obtain k where k: "va \<le> k" "k \<le> va + sz"
    "sv.mapped perm root va k pa m m'" "res = Inl Remap \<longrightarrow> k < va + sz \<and> pte_is_valid (sv.entry_of m root k)" by blast
  have "pa + (k - va) \<le> 2 ^ 48" using k assms(2) by simp
  note T = mapped_translate [OF assms(1) k(3) P(2,3) this]
  have "translate root k m \<noteq> None" if "res = Inl Remap"
    using k(4) that P(5) by (simp add: translate_entry [OF assms(1)] decode_def)
  moreover have "res = Inr ()" if f: "2 * (sz div PGSIZE) \<le> length (frames m)"
    "\<forall>v. va \<le> v \<and> v < va + sz \<longrightarrow> translate root v m = None"
  proof -
    have "\<not> pte_is_valid (sv.entry_of m root v)" if "va \<le> v" "v < va + sz" for v
      using f(2) that P(5) translate_entry [OF assms(1), of v] by (auto simp: decode_def split: if_splits)
    moreover have "length sv_levels * ((va + sz - va) div PGSIZE) \<le> length (frames m)" using f(1) by simp
    ultimately have "fst (map_loop perm root va pa (va + sz) m) = Inr ()"
      using sv.mp_progress [OF assms(1) P(2,4,5) le_add1] by blast
    then show ?thesis using P(1) by simp
  qed
  ultimately show ?thesis using False k(1,2) T by blast
qed

text \<open>C8. Address spaces are isolated. Whatever \<open>map\<close> does in one address space, successful or
  not, every address of another one, whose tables are disjoint from the first's, translates
  as before, its page table stays well formed and the two stay disjoint; memory that is
  neither a table of the first nor in the pool is not written.\<close>

theorem pt_map_isolated:
  assumes "sv.tree root m" and "sv.tree other m" and "\<And>x. sv.table_of m root x \<Longrightarrow> \<not> sv.table_of m other x"
    and "pt_map root va pa sz perm m = (res, m')"
  shows "sv.tree other m' \<and> (\<forall>v. translate other v m' = translate other v m) \<and>
    (\<forall>x. sv.table_of m' root x \<longrightarrow> \<not> sv.table_of m' other x) \<and>
    (\<forall>a. sv.outside m root a \<longrightarrow> pw m' a = pw m a)"
proof (cases "res = Inl Misaligned \<or> res = Inl OutOfRange")
  case True
  then have "m' = m" using assms(4) map_loop_result [of perm root va pa "va + sz" m] by (auto simp: pt_map_def split: if_splits)
  then show ?thesis using assms(2,3) by blast
next
  case False
  note P = pt_map_loop [OF assms(4) False]
  from sv.mp_spec [OF assms(1) P(2,4,5) le_add1 P(1)] obtain k where "sv.mapped perm root va k pa m m'" by blast
  then have k: "kinv m'" "set (frames m') \<subseteq> set (frames m)"
    and o: "\<And>a. sv.outside m root a \<Longrightarrow> pw m' a = pw m a \<and> sv.outside m' root a"
    by (auto simp: sv.mapped_def sv.tree_def)
  note O = sv.other_tree [OF assms(2,3) k o]
  have "translate other v m' = translate other v m" for v
    using O(2) [of v] translate_entry [OF O(1), of v] translate_entry [OF assms(2), of v]
    by (cases "v < MAXVA") (simp_all add: translate_def)
  then show ?thesis using O(1,3) o by blast
qed

text \<open>What \<open>unmap_page\<close> does to the entries.\<close>

lemma unmap_cases:
  assumes tr: "sv.tree root m" and u: "unmap_page root va m = (res, m')"
  obtains (none) "res = None" "m' = m" "va < MAXVA \<Longrightarrow> PGSIZE dvd va \<Longrightarrow> \<not> pte_is_leaf (sv.entry_of m root va)"
  | (some) "res = Some (unat (pte_pa (sv.entry_of m root va)))" "va < MAXVA" "PGSIZE dvd va"
      "pte_is_leaf (sv.entry_of m root va)" "sv.tree root m'" "frames m' = frames m" "sv.held m' root = sv.held m root"
      "\<And>v. v < MAXVA \<Longrightarrow> sv.entry_of m' root v = (if v div PGSIZE = va div PGSIZE then 0 else sv.entry_of m root v)"
      "\<And>a. sv.outside m root a \<Longrightarrow> pw m' a = pw m a \<and> sv.outside m' root a"
proof (cases "MAXVA \<le> va \<or> va mod PGSIZE \<noteq> 0")
  case True
  then show ?thesis using u none by (auto simp: unmap_page_def mod_eq_0_iff_dvd)
next
  case False
  then have va: "va < MAXVA" "PGSIZE dvd va" by auto
  have w: "walk_pt False root va m = (map_option (\<lambda>y. y + 8 * pte_index 0 va) (sv.node (pw m) root (idx_path sv_levels va)), m)"
    using va(1) sv.wl_lookup [of sv_levels va root m] by (simp add: walk_pt_def)
  show ?thesis
  proof (cases "sv.node (pw m) root (idx_path sv_levels va)")
    case None
    then have "sv.entry_of m root va = 0" unfolding sv.entry_of_def sv.leaf_def by simp
    then show ?thesis using u False w None sv.valid0 none by (auto simp: unmap_page_def pte_is_leaf_def)
  next
    case (Some y)
    let ?p = "y + 8 * pte_index 0 va"
    note E = sv.entry_store [OF tr Some va(1), where v = 0]
    have e: "sv.entry_of m root va = pw m ?p" using sv.entry_at_node [OF Some] .
    show ?thesis
    proof (cases "pte_is_leaf (pw m ?p)")
      case n: False
      then have "(res, m') = (None, m)" using u False w Some by (auto simp: unmap_page_def Let_def)
      then show ?thesis using n e none by auto
    next
      case v: True
      then have r: "res = Some (unat (pte_pa (pw m ?p)))" "m' = store ?p 0 m"
        using u False w Some by (auto simp: unmap_page_def Let_def pte_is_leaf_def)
      show ?thesis
        by (rule some) (use v r(1) e va E(1-3,5) E(4) in \<open>simp_all add: r(2)\<close>)
    qed
  qed
qed

text \<open>\<open>unmap_page\<close> removes exactly one page. For a mapped page it returns the physical page
  that was mapped and makes every address of the page, and no other, untranslatable; for an
  unmapped address it changes nothing. The tables stay in place.\<close>

lemma unmap_page_removes:
  assumes "sv.tree root m" and "unmap_page root va m = (res, m')"
  shows "(\<forall>pa. res = Some pa \<longrightarrow> PGSIZE dvd va \<and> sv.tree root m' \<and> frames m' = frames m \<and>
      (\<exists>perm. translate root va m = Some (pa, perm)) \<and>
      (\<forall>v < MAXVA. translate root v m' = (if v div PGSIZE = va div PGSIZE then None else translate root v m))) \<and>
    (res = None \<longrightarrow> m' = m) \<and>
    (va < MAXVA \<and> PGSIZE dvd va \<and> pte_is_leaf (sv.entry_of m root va) \<longrightarrow> res \<noteq> None)"
  using assms
proof (cases rule: unmap_cases)
  case none
  then show ?thesis by blast
next
  case some
  note T = translate_entry [OF assms(1)] and T' = translate_entry [OF some(5)]
  have "translate root va m = Some (unat (pte_pa (sv.entry_of m root va)), flags_perm (sv.entry_of m root va))"
    using some(4) unat_or_zero [of va] some(3) by (simp add: T [OF some(2)] decode_def pte_is_leaf_def mod_eq_0_iff_dvd [symmetric])
  moreover have "translate root v m' = (if v div PGSIZE = va div PGSIZE then None else translate root v m)" if "v < MAXVA" for v
    using some(8) [OF that] sv.valid0 by (simp add: T [OF that] T' [OF that] decode_def)
  ultimately show ?thesis using some(1,3,5,6) by auto
qed

text \<open>What the destructor owns: the tables, and the pages mapped for the user.\<close>

definition idx_list :: "nat list \<Rightarrow> bool" where
  "idx_list p \<longleftrightarrow> (\<forall>i \<in> set p. i < 512)"

definition user_page :: "nat \<Rightarrow> (nat \<Rightarrow> pte) \<Rightarrow> nat \<Rightarrow> nat \<Rightarrow> bool" where
  "user_page l w t f \<longleftrightarrow> (\<exists>p i x. length p = l \<and> idx_list p \<and> i < 512 \<and> sv.node w t p = Some x \<and>
     pte_is_leaf (w (x + 8 * i)) \<and> w (x + 8 * i) AND PTE_U \<noteq> 0 \<and> f = unat (pte_pa (w (x + 8 * i))))"

definition table_page :: "nat \<Rightarrow> (nat \<Rightarrow> pte) \<Rightarrow> nat \<Rightarrow> nat \<Rightarrow> bool" where
  "table_page l w t f \<longleftrightarrow> (\<exists>p. length p \<le> l \<and> idx_list p \<and> sv.node w t p = Some f)"

lemma idx_list_Cons [simp]: "idx_list (i # p) \<longleftrightarrow> i < 512 \<and> idx_list p" "idx_list []"
  by (auto simp: idx_list_def)

lemma table_page_Suc:
  "table_page (Suc l) w t f \<longleftrightarrow>
     f = t \<or> (\<exists>i < 512. pte_is_valid (w (t + 8 * i)) \<and> table_page l w (unat (pte_pa (w (t + 8 * i)))) f)"
proof
  assume "table_page (Suc l) w t f"
  then obtain p where "length p \<le> Suc l" "idx_list p" "sv.node w t p = Some f" by (auto simp: table_page_def)
  then show "f = t \<or> (\<exists>i < 512. pte_is_valid (w (t + 8 * i)) \<and> table_page l w (unat (pte_pa (w (t + 8 * i)))) f)"
    by (cases p) (auto simp: table_page_def split: if_splits)
next
  assume "f = t \<or> (\<exists>i < 512. pte_is_valid (w (t + 8 * i)) \<and> table_page l w (unat (pte_pa (w (t + 8 * i)))) f)"
  then show "table_page (Suc l) w t f"
  proof (elim disjE exE conjE)
    assume "f = t"
    then show ?thesis unfolding table_page_def by (intro exI [of _ "[]"]) simp
  next
    fix i assume "i < 512" "pte_is_valid (w (t + 8 * i))" "table_page l w (unat (pte_pa (w (t + 8 * i)))) f"
    then obtain p where "length p \<le> l" "idx_list p" "sv.node w (unat (pte_pa (w (t + 8 * i)))) p = Some f"
      by (auto simp: table_page_def)
    then show ?thesis using \<open>i < 512\<close> \<open>pte_is_valid (w (t + 8 * i))\<close>
      unfolding table_page_def by (intro exI [of _ "i # p"]) simp
  qed
qed

lemma user_page_Suc:
  "user_page (Suc l) w t f \<longleftrightarrow>
     (\<exists>i < 512. pte_is_valid (w (t + 8 * i)) \<and> user_page l w (unat (pte_pa (w (t + 8 * i)))) f)"
proof
  assume "user_page (Suc l) w t f"
  then obtain p i x where p: "length p = Suc l" "idx_list p" "i < 512" "sv.node w t p = Some x"
    "pte_is_leaf (w (x + 8 * i))" "w (x + 8 * i) AND PTE_U \<noteq> 0" "f = unat (pte_pa (w (x + 8 * i)))"
    unfolding user_page_def by blast
  then obtain j q where q: "p = j # q" by (cases p) auto
  have "user_page l w (unat (pte_pa (w (t + 8 * j)))) f"
    unfolding user_page_def using p q by (intro exI [of _ q] exI [of _ i] exI [of _ x]) (auto split: if_splits)
  then show "\<exists>i < 512. pte_is_valid (w (t + 8 * i)) \<and> user_page l w (unat (pte_pa (w (t + 8 * i)))) f"
    using p q by (intro exI [of _ j]) (auto split: if_splits)
next
  assume "\<exists>i < 512. pte_is_valid (w (t + 8 * i)) \<and> user_page l w (unat (pte_pa (w (t + 8 * i)))) f"
  then obtain j q i x where "j < 512" "pte_is_valid (w (t + 8 * j))" "length q = l" "idx_list q" "i < 512"
    "sv.node w (unat (pte_pa (w (t + 8 * j)))) q = Some x"
    "pte_is_leaf (w (x + 8 * i))" "w (x + 8 * i) AND PTE_U \<noteq> 0" "f = unat (pte_pa (w (x + 8 * i)))"
    unfolding user_page_def by blast
  then show "user_page (Suc l) w t f"
    unfolding user_page_def by (intro exI [of _ "j # q"] exI [of _ i] exI [of _ x]) simp
qed

lemma po_set:
  assumes "\<And>p x i. length p < l \<Longrightarrow> idx_list p \<Longrightarrow> sv.node w t p = Some x \<Longrightarrow> i < 512 \<Longrightarrow>
    pte_is_valid (w (x + 8 * i)) \<Longrightarrow> \<not> pte_is_leaf (w (x + 8 * i))"
  shows "f \<in> set (svd.po l w t) \<longleftrightarrow> table_page l w t f \<or> user_page l w t f"
  using assms
proof (induction l arbitrary: t)
  case 0
  have tp: "table_page 0 w t f \<longleftrightarrow> f = t" by (auto simp: table_page_def)
  have up: "user_page 0 w t f \<longleftrightarrow> (\<exists>i < 512. pte_is_leaf (w (t + 8 * i)) \<and> w (t + 8 * i) AND PTE_U \<noteq> 0 \<and>
      f = unat (pte_pa (w (t + 8 * i))))" by (auto simp: user_page_def)
  have "pte_is_leaf e \<Longrightarrow> pte_is_valid e" for e by (simp add: pte_is_leaf_def)
  then show ?case unfolding tp up by (subst svd.in_po) (auto simp: svd.in_sub)
next
  case (Suc l)
  have nl: "pte_is_valid (w (t + 8 * i)) \<Longrightarrow> \<not> pte_is_leaf (w (t + 8 * i))" if "i < 512" for i
    using Suc.prems [of "[]" t i] that by simp
  have IH: "f \<in> set (svd.po l w (unat (pte_pa (w (t + 8 * i))))) \<longleftrightarrow>
      table_page l w (unat (pte_pa (w (t + 8 * i)))) f \<or> user_page l w (unat (pte_pa (w (t + 8 * i)))) f"
    if i: "i < 512" "pte_is_valid (w (t + 8 * i))" for i
  proof (rule Suc.IH)
    fix p x j
    assume "length p < l" "idx_list p" "sv.node w (unat (pte_pa (w (t + 8 * i)))) p = Some x" "j < 512" "pte_is_valid (w (x + 8 * j))"
    then show "\<not> pte_is_leaf (w (x + 8 * j))" using Suc.prems [of "i # p" x j] i by simp
  qed
  have "f \<in> set (svd.po (Suc l) w t) \<longleftrightarrow> f = t \<or>
      (\<exists>i < 512. pte_is_valid (w (t + 8 * i)) \<and> f \<in> set (svd.po l w (unat (pte_pa (w (t + 8 * i))))))"
    using nl by (auto simp: svd.in_po [of f "Suc l"] svd.in_sub)
  also have "\<dots> \<longleftrightarrow> table_page (Suc l) w t f \<or> user_page (Suc l) w t f"
    using IH by (auto simp: table_page_Suc user_page_Suc)
  finally show ?case .
qed

text \<open>C10. Dropping an address space returns each of its frames once. When its tables and the
  user pages it maps are distinct frames outside the pool, the destructor adds exactly these
  to the pool, none twice and none forgotten, leaves kernel-owned leaves (trampoline, trap
  frame) alone and writes no other memory.\<close>

theorem pt_drop_frees:
  assumes "sv.tree root m" and "root \<noteq> 0" and "distinct (svd.po 2 (pw m) root @ frames m)"
    and "\<And>f. user_page 2 (pw m) root f \<Longrightarrow> frame_ok f"
  shows "kinv (pt_drop root m) \<and> distinct (frames (pt_drop root m)) \<and>
    set (frames (pt_drop root m)) = set (frames m) \<union> {f. table_page 2 (pw m) root f \<or> user_page 2 (pw m) root f} \<and>
    (\<forall>a. (\<forall>f. table_page 2 (pw m) root f \<or> user_page 2 (pw m) root f \<longrightarrow> \<not> in_frame f a) \<longrightarrow>
       pw (pt_drop root m) a = pw m a)"
proof -
  have ip: "ipath 2 p \<longleftrightarrow> length p \<le> 2 \<and> idx_list p" for p by (simp add: ipath_def idx_list_def)
  have br: "\<not> pte_is_leaf (pw m (x + 8 * i))" if "length p < 2" "idx_list p" "sv.node (pw m) root p = Some x" "i < 512"
      "pte_is_valid (pw m (x + 8 * i))" for p x i
    using sv.treeD(4) [OF assms(1), of p x i] that ip [of p] by simp
  have S: "f \<in> set (svd.po 2 (pw m) root) \<longleftrightarrow> table_page 2 (pw m) root f \<or> user_page 2 (pw m) root f" for f
    by (rule po_set) (rule br)
  have "\<forall>f \<in> set (svd.po 2 (pw m) root). frame_ok f"
    using S assms(4) sv.treeD(2) [OF assms(1)] ip by (auto simp: table_page_def)
  from svd.fs_frees [OF sv.treeD(1) [OF assms(1)] assms(3) this]
  have F: "svd.frees (svd.po 2 (pw m) root) m (pt_drop root m)" using assms(2) by (simp add: pt_drop_def)
  then have "frames (pt_drop root m) = rev (svd.po 2 (pw m) root) @ frames m" by (simp add: svd.frees_def)
  moreover from this have "distinct (frames (pt_drop root m))" using assms(3) by auto
  moreover have "set (svd.po 2 (pw m) root) = {f. table_page 2 (pw m) root f \<or> user_page 2 (pw m) root f}"
    using S by blast
  ultimately show ?thesis using F unfolding svd.frees_def by (simp add: Un_commute)
qed

section \<open>Witnesses\<close>

text \<open>A pool of eight frames, a new page table in it, and one page mapped.\<close>

definition demo_pool :: pmem where
  "demo_pool = add_range 4096 36864 (kalloc_new (\<lambda>_. 0))"

lemma demo_pool_inv: "kinv demo_pool" "length (frames demo_pool) = 8"
proof -
  have "(0 :: nat) < 4096" "(36864 :: nat) \<le> 2 ^ 48" by simp_all
  note R = add_range_new [OF this, of "\<lambda>_. 0"]
  show k: "kinv demo_pool" using R(1) by (simp add: demo_pool_def)
  have "{f. PGSIZE dvd f \<and> 4096 \<le> f \<and> f + PGSIZE \<le> 36864} = (\<lambda>i. PGSIZE * i) ` {1..8}"
  proof (intro set_eqI iffI)
    fix f assume f: "f \<in> {f. PGSIZE dvd f \<and> 4096 \<le> f \<and> f + PGSIZE \<le> 36864}"
    then obtain i where "f = PGSIZE * i" by (auto simp: dvd_def)
    then show "f \<in> (\<lambda>i. PGSIZE * i) ` {1..8}" using f by (auto simp: PGSIZE_def)
  qed (auto simp: PGSIZE_def)
  then have "set (frames demo_pool) = (\<lambda>i. PGSIZE * i) ` {1..8}" using R(2) by (simp add: demo_pool_def)
  moreover have "inj_on (\<lambda>i. PGSIZE * i) {1..8}" by (auto simp: inj_on_def PGSIZE_def)
  ultimately have "card (set (frames demo_pool)) = 8" by (simp add: card_image)
  then show "length (frames demo_pool) = 8" using k distinct_card [of "frames demo_pool"] by (simp add: kinv_def)
qed

lemma demo_root:
  obtains r m where "alloc_zeroed demo_pool = (Some r, m)" "sv.tree r m" "length (frames m) = 7"
    "\<And>v. \<not> pte_is_valid (sv.entry_of m r v)"
proof -
  obtain x m where a: "alloc_zeroed demo_pool = (x, m)" by fastforce
  moreover have "x \<noteq> None" using a alloc_zeroed_None [OF demo_pool_inv(1), of m] demo_pool_inv(2) by auto
  ultimately obtain r where r: "alloc_zeroed demo_pool = (Some r, m)" by auto
  have "length (frames m) = 7" using alloc_zeroed_Some(1) [OF demo_pool_inv(1) r] demo_pool_inv(2) by simp
  moreover have "\<not> pte_is_valid (sv.entry_of m r v)" for v
    using sv.new_tree(2) [OF demo_pool_inv(1) r, of v] sv.valid0 by auto
  ultimately show ?thesis using that [OF r sv.new_tree(1) [OF demo_pool_inv(1) r]] by blast
qed

lemma demo_map:
  obtains r m m' where "alloc_zeroed demo_pool = (Some r, m)" "sv.tree r m" "length (frames m) = 7"
    "pt_map r 4096 8192 4096 11 m = (Inr (), m')"
proof -
  obtain r m where d: "alloc_zeroed demo_pool = (Some r, m)" "sv.tree r m" "length (frames m) = 7"
    "\<And>v. \<not> pte_is_valid (sv.entry_of m r v)" by (rule demo_root) blast
  have "fst (map_loop 11 r 4096 8192 8192 m) = Inr ()"
    by (rule sv.mp_progress [OF d(2)]) (use d(3,4) in \<open>simp_all add: PGSIZE_def MAXVA_def\<close>)
  then have "fst (pt_map r 4096 8192 4096 11 m) = Inr ()" by (simp add: pt_map_def PGSIZE_def MAXVA_def)
  then show ?thesis using that [OF d(1-3)] by (cases "pt_map r 4096 8192 4096 11 m") simp
qed

theorem pt_map_translates_witness:
  "\<exists>r m m'. pt_map r 4096 8192 4096 11 m = (Inr (), m') \<and> translate r 4100 m' = Some (8196, 11 AND mask 4)"
proof -
  obtain r m m' where d: "sv.tree r m" "pt_map r 4096 8192 4096 11 m = (Inr (), m')" by (rule demo_map) blast
  have "translate r 4100 m' = Some (8196, 11 AND mask 4)"
    using pt_map_translates [OF d(1) _ d(2)] by (auto simp: MAXVA_def)
  then show ?thesis using d(2) by blast
qed

theorem pt_map_isolated_witness:
  "\<exists>r r2 m m'. r \<noteq> r2 \<and> fst (pt_map r 4096 8192 4096 11 m) = Inr () \<and>
     translate r2 4096 (snd (pt_map r 4096 8192 4096 11 m)) = translate r2 4096 m"
proof -
  obtain r m where d: "alloc_zeroed demo_pool = (Some r, m)" "sv.tree r m" "length (frames m) = 7"
    "\<And>v. \<not> pte_is_valid (sv.entry_of m r v)" by (rule demo_root) blast
  obtain x m1 where a: "alloc_zeroed m = (x, m1)" by fastforce
  have k: "kinv m" using d(2) by (rule sv.treeD(1))
  have "x \<noteq> None" using a alloc_zeroed_None [OF k, of m1] d(3) by auto
  then obtain r2 where r2: "alloc_zeroed m = (Some r2, m1)" using a by auto
  note A = sv.alloc_tree [OF d(2) r2] and N = sv.new_tree [OF k r2]
  have nt: "\<not> sv.table_of m1 r2 y" if "sv.table_of m1 r y" for y
    using that A(1,2) N(3) unfolding sv.table_of_def by metis
  have "sv.table_of m1 r r" unfolding sv.table_of_def by (intro exI [of _ "[]"]) (simp add: ipath_def)
  then have "r \<noteq> r2" using nt N(3) by blast
  have fl: "length (frames m1) = 6" using alloc_zeroed_Some(1) [OF k r2] d(3) by simp
  have ne: "\<not> pte_is_valid (sv.entry_of m1 r v)" for v
  proof -
    have p: "ipath 2 (idx_path sv_levels v)" by (rule ipath_idx) simp
    have "sv.entry_of m1 r v = sv.entry_of m r v"
      using A(1) [of "idx_path sv_levels v"] A(2) [of "idx_path sv_levels v" _ "pte_index 0 v"] p
      unfolding sv.entry_of_def sv.leaf_def by (auto split: option.split)
    then show ?thesis using d(4) by simp
  qed
  have "fst (map_loop 11 r 4096 8192 8192 m1) = Inr ()"
    by (rule sv.mp_progress [OF A(3)]) (use fl ne in \<open>simp_all add: PGSIZE_def MAXVA_def\<close>)
  then have ok: "fst (pt_map r 4096 8192 4096 11 m1) = Inr ()" by (simp add: pt_map_def PGSIZE_def MAXVA_def)
  obtain res m' where p: "pt_map r 4096 8192 4096 11 m1 = (res, m')" by fastforce
  have "translate r2 4096 m' = translate r2 4096 m1" using pt_map_isolated [OF A(3) N(1) nt p] by blast
  then show ?thesis using ok p \<open>r \<noteq> r2\<close> by (metis snd_conv)
qed

theorem pt_drop_frees_witness:
  "\<exists>r m. length (frames m) = 7 \<and> r \<notin> set (frames m) \<and> r \<in> set (frames (pt_drop r m))"
proof -
  obtain r m where d: "alloc_zeroed demo_pool = (Some r, m)" "sv.tree r m" "length (frames m) = 7"
    "\<And>v. \<not> pte_is_valid (sv.entry_of m r v)" by (rule demo_root) blast
  note A = alloc_zeroed_Some [OF demo_pool_inv(1) d(1)]
  have "pw m (r + 8 * i) = 0" if "i < 512" for i using A(4) entry_in_frame [OF that] by simp
  then have "svd.sub 2 (pw m) (pw m (r + 8 * i)) = []" if "i < 512" for i
    using that sv.valid0 unfolding svd.sub_def by simp
  then have po: "svd.po 2 (pw m) r = [r]" by (subst svd.po_alt) (simp add: concat_eq_Nil_conv)
  have r: "r \<notin> set (frames m)" "r \<noteq> 0" "distinct (frames m)" "frame_ok r"
    using A(1,3) demo_pool_inv(1) by (auto simp: kinv_def frame_ok_def)
  have br: "\<not> pte_is_leaf (pw m (x + 8 * i))" if "length p < 2" "idx_list p" "sv.node (pw m) r p = Some x" "i < 512"
      "pte_is_valid (pw m (x + 8 * i))" for p x i
    using sv.treeD(4) [OF d(2), of p x i] that by (simp add: ipath_def idx_list_def)
  have S: "f = r \<longleftrightarrow> table_page 2 (pw m) r f \<or> user_page 2 (pw m) r f" for f
    using po_set [of 2 "pw m" r f] br po by auto
  have d1: "distinct (svd.po 2 (pw m) r @ frames m)" using po r by simp
  have ok: "frame_ok f" if "user_page 2 (pw m) r f" for f using that S [of f] r(4) by blast
  have "set (frames (pt_drop r m)) = set (frames m) \<union> {f. table_page 2 (pw m) r f \<or> user_page 2 (pw m) r f}"
    using pt_drop_frees [OF d(2) r(2) d1 ok] by blast
  then show ?thesis using d(3) r(1) S by blast
qed

end
