(* ===== verification/Arm64.thy ===== *)
theory Arm64
  imports Sv39
begin

text \<open>
  The aarch64 page table (\<open>hal-aarch64/src/pagetable.rs\<close>): four levels of long descriptors.
  The walk, the mapping loop and the destructor have the shape of the RISC-V ones and are
  further instances of the locales \<open>radix\<close> and \<open>table_drop\<close>; what differs is the descriptor:
  access rights are spread over AP, PXN and UXN, and a user page is marked by nG.
\<close>

unbundle bit_operations_syntax

section \<open>Descriptors\<close>

definition DESC_VALID :: pte where "DESC_VALID = push_bit 0 1"
definition DESC_TABLE :: pte where "DESC_TABLE = push_bit 1 1"
definition DESC_AF :: pte where "DESC_AF = push_bit 10 1"
definition DESC_SH_IS :: pte where "DESC_SH_IS = push_bit 8 1 OR push_bit 9 1"
definition DESC_NG :: pte where "DESC_NG = push_bit 11 1"
definition DESC_PXN :: pte where "DESC_PXN = push_bit 53 1"
definition DESC_UXN :: pte where "DESC_UXN = push_bit 54 1"
definition AP_KERNEL_RW :: pte where "AP_KERNEL_RW = 0"
definition AP_USER_RW :: pte where "AP_USER_RW = push_bit 6 1"
definition AP_KERNEL_RO :: pte where "AP_KERNEL_RO = push_bit 7 1"
definition AP_USER_RO :: pte where "AP_USER_RO = push_bit 6 1 OR push_bit 7 1"
definition ATTRIDX_MMIO :: pte where "ATTRIDX_MMIO = 0"
definition ATTRIDX_RAM :: pte where "ATTRIDX_RAM = push_bit 2 1"
definition PA_MASK :: pte where "PA_MASK = 0x0000FFFFFFFFF000"

definition arm_make_branch :: "nat \<Rightarrow> pte" where
  "arm_make_branch next_pa = DESC_VALID OR DESC_TABLE OR (of_nat next_pa AND PA_MASK)"

definition arm_leaf_bits :: "pte_perm \<Rightarrow> bool \<Rightarrow> pte" where
  "arm_leaf_bits perm is_mmio =
     (let user = (perm AND PERM_USER \<noteq> 0); exec = (perm AND PERM_EXEC \<noteq> 0); wr = (perm AND PERM_WRITE \<noteq> 0) in
      DESC_VALID OR DESC_TABLE OR DESC_AF OR
      (if is_mmio then ATTRIDX_MMIO else ATTRIDX_RAM OR DESC_SH_IS) OR
      (case (user, wr) of
         (False, True) \<Rightarrow> AP_KERNEL_RW
       | (False, False) \<Rightarrow> AP_KERNEL_RO
       | (True, True) \<Rightarrow> AP_USER_RW
       | (True, False) \<Rightarrow> AP_USER_RO) OR
      (if user then DESC_PXN OR (if \<not> exec then DESC_UXN else 0) OR DESC_NG
       else DESC_UXN OR (if \<not> exec then DESC_PXN else 0)))"

definition arm_make_leaf :: "nat \<Rightarrow> pte_perm \<Rightarrow> bool \<Rightarrow> pte" where
  "arm_make_leaf pa perm is_mmio = arm_leaf_bits perm is_mmio OR (of_nat pa AND PA_MASK)"

definition decode_perm :: "pte \<Rightarrow> pte_perm" where
  "decode_perm e =
     (let ap = drop_bit 6 e AND 3; writable = (ap = 0 \<or> ap = 1); user = (ap = 1 \<or> ap = 3);
          exec_for_caller = (if user then e AND DESC_UXN = 0 else e AND DESC_PXN = 0)
      in PERM_READ OR (if writable then PERM_WRITE else 0) OR (if user then PERM_USER else 0) OR
         (if exec_for_caller then PERM_EXEC else 0))"

definition arm_valid :: "pte \<Rightarrow> bool" where
  "arm_valid e \<longleftrightarrow> e AND DESC_VALID \<noteq> 0"

definition arm_target :: "pte \<Rightarrow> nat" where
  "arm_target e = unat (e AND PA_MASK)"

section \<open>Operations\<close>

definition ARM_MAXVA :: nat where "ARM_MAXVA = 2 ^ 47"
definition ARM_KERNBASE :: nat where "ARM_KERNBASE = 0x40000000"

text \<open>The loop \<open>0..3\<close> with \<open>shift = 12 + 9 * (3 - level)\<close>: levels 3, 2, 1 counted from the end.\<close>

definition arm_levels :: "nat list" where "arm_levels = map (\<lambda>level. 3 - level) [0..<3]"

primrec arm_walk_levels :: "bool \<Rightarrow> nat list \<Rightarrow> nat \<Rightarrow> nat \<Rightarrow> pmem \<Rightarrow> nat option \<times> pmem" where
  "arm_walk_levels alloc [] va table m = (Some (table + 8 * pte_index 0 va), m)"
| "arm_walk_levels alloc (level # ls) va table m =
     (let pte_ptr = table + 8 * pte_index level va; e = pw m pte_ptr in
      if e AND DESC_VALID = 0 then
        (if \<not> alloc then (None, m)
         else (case alloc_zeroed m of
             (None, m1) \<Rightarrow> (None, m1)
           | (Some new_pa, m1) \<Rightarrow> arm_walk_levels alloc ls va new_pa (store pte_ptr (arm_make_branch new_pa) m1)))
      else arm_walk_levels alloc ls va (arm_target e) m)"

definition arm_walk :: "bool \<Rightarrow> nat \<Rightarrow> nat \<Rightarrow> pmem \<Rightarrow> nat option \<times> pmem" where
  "arm_walk alloc root va m = (if ARM_MAXVA \<le> va then (None, m) else arm_walk_levels alloc arm_levels va root m)"

function arm_map_loop :: "pte_perm \<times> bool \<Rightarrow> nat \<Rightarrow> nat \<Rightarrow> nat \<Rightarrow> nat \<Rightarrow> pmem \<Rightarrow> (vm_error + unit) \<times> pmem" where
  "arm_map_loop pm root va pa en m =
     (if va < en then
        (case arm_walk True root va m of
           (None, m1) \<Rightarrow> (Inl Oom, m1)
         | (Some p, m1) \<Rightarrow>
             if pw m1 p AND DESC_VALID \<noteq> 0 then (Inl Remap, m1)
             else arm_map_loop pm root (va + PGSIZE) (pa + PGSIZE) en (store p (arm_make_leaf pa (fst pm) (snd pm)) m1))
      else (Inr (), m))"
  by pat_completeness auto

termination
  by (relation "measure (\<lambda>(_, _, va, _, en, _). en - va)") (auto simp: PGSIZE_def)

declare arm_map_loop.simps [simp del]

definition arm_map :: "nat \<Rightarrow> nat \<Rightarrow> nat \<Rightarrow> nat \<Rightarrow> pte_perm \<Rightarrow> pmem \<Rightarrow> (vm_error + unit) \<times> pmem" where
  "arm_map root va pa sz perm m =
     (if va mod PGSIZE \<noteq> 0 \<or> pa mod PGSIZE \<noteq> 0 \<or> sz mod PGSIZE \<noteq> 0 \<or> sz = 0 then (Inl Misaligned, m)
      else if 2 ^ 64 \<le> va + sz then (Inl OutOfRange, m)
      else if ARM_MAXVA < va + sz then (Inl OutOfRange, m)
      else (let is_mmio = (pa < ARM_KERNBASE) in arm_map_loop (perm, is_mmio) root va pa (va + sz) m))"

primrec arm_translate_levels :: "nat list \<Rightarrow> nat \<Rightarrow> nat \<Rightarrow> pmem \<Rightarrow> (nat \<times> pte_perm) option" where
  "arm_translate_levels [] va table m =
     (let e = pw m (table + 8 * pte_index 0 va) in
      if e AND DESC_VALID = 0 then None
      else Some (unat ((e AND PA_MASK) OR (of_nat va AND 0xfff)), decode_perm e))"
| "arm_translate_levels (level # ls) va table m =
     (let e = pw m (table + 8 * pte_index level va) in
      if e AND DESC_VALID = 0 then None else arm_translate_levels ls va (arm_target e) m)"

definition arm_translate :: "nat \<Rightarrow> nat \<Rightarrow> pmem \<Rightarrow> (nat \<times> pte_perm) option" where
  "arm_translate root va m = (if ARM_MAXVA \<le> va then None else arm_translate_levels arm_levels va root m)"

definition arm_unmap_page :: "nat \<Rightarrow> nat \<Rightarrow> pmem \<Rightarrow> nat option \<times> pmem" where
  "arm_unmap_page root va m =
     (if ARM_MAXVA \<le> va \<or> va mod PGSIZE \<noteq> 0 then (None, m)
      else (case arm_walk False root va m of
          (None, m1) \<Rightarrow> (None, m1)
        | (Some p, m1) \<Rightarrow>
            let e = pw m1 p in
            if e AND DESC_VALID = 0 then (None, m1) else (Some (arm_target e), store p 0 m1)))"

primrec arm_free_subtree :: "nat \<Rightarrow> nat \<Rightarrow> pmem \<Rightarrow> pmem" where
  "arm_free_subtree 0 pt_pa' m = kfree pt_pa' (fold (\<lambda>i m.
     let e = pw m (pt_pa' + 8 * i) in
     if e AND DESC_VALID = 0 then m
     else store (pt_pa' + 8 * i) 0 (if e AND DESC_NG \<noteq> 0 then kfree (arm_target e) m else m)) [0..<512] m)"
| "arm_free_subtree (Suc d) pt_pa' m = kfree pt_pa' (fold (\<lambda>i m.
     let e = pw m (pt_pa' + 8 * i) in
     if e AND DESC_VALID = 0 then m
     else store (pt_pa' + 8 * i) 0 (arm_free_subtree d (arm_target e) m)) [0..<512] m)"

definition arm_drop :: "nat \<Rightarrow> pmem \<Rightarrow> pmem" where
  "arm_drop root m = (if root \<noteq> 0 then arm_free_subtree 3 root m else m)"

section \<open>The descriptor codec\<close>

lemma bit_PA_MASK: "bit PA_MASK k \<longleftrightarrow> 12 \<le> k \<and> k < 48"
proof -
  have m: "PA_MASK = push_bit 12 (mask 36)" by (simp add: PA_MASK_def mask_eq_exp_minus_1 push_bit_eq_mult)
  show ?thesis unfolding m bit_push_bit_iff bit_mask_iff by auto
qed

lemma and_pa_mask:
  assumes "\<And>k. 12 \<le> k \<Longrightarrow> k < 48 \<Longrightarrow> \<not> bit x k" and "PGSIZE dvd pa" and "pa < 2 ^ 48"
  shows "(x OR (of_nat pa AND PA_MASK)) AND PA_MASK = of_nat pa"
  by (rule bit_eqI) (use assms(1) bit_frame [OF assms(2,3)] in \<open>auto simp: bit_and_iff bit_or_iff bit_PA_MASK\<close>)

lemma arm_leaf_bit:
  "bit (arm_leaf_bits perm mmio) k \<longleftrightarrow> k = 0 \<or> k = 1 \<or> k = 10 \<or> \<not> mmio \<and> (k = 2 \<or> k = 8 \<or> k = 9) \<or>
     bit perm 3 \<and> k = 6 \<or> \<not> bit perm 1 \<and> k = 7 \<or> bit perm 3 \<and> k = 11 \<or>
     (bit perm 3 \<or> \<not> bit perm 2) \<and> k = 53 \<or> (\<not> bit perm 3 \<or> \<not> bit perm 2) \<and> k = 54"
  unfolding arm_leaf_bits_def perm_bits bit_test Let_def
    DESC_VALID_def DESC_TABLE_def DESC_AF_def DESC_SH_IS_def DESC_NG_def DESC_PXN_def DESC_UXN_def
    AP_KERNEL_RW_def AP_USER_RW_def AP_KERNEL_RO_def AP_USER_RO_def ATTRIDX_MMIO_def ATTRIDX_RAM_def
  by (cases "bit perm 3"; cases "bit perm 1"; cases "bit perm 2"; cases mmio)
    (simp_all only: bit_or_iff bit_one_at bit_0_eq bot_apply if_True if_False not_True_eq_False not_False_eq_True
      case_prod_conv bool.case, auto)

lemma and_three:
  "(x :: pte) AND 3 = (if bit x 0 then (if bit x 1 then 3 else 1) else (if bit x 1 then 2 else 0))"
proof -
  have "x AND 3 = x AND mask 2" by (simp add: mask_eq_exp_minus_1)
  also have "\<dots> = (if bit x 0 then push_bit 0 1 else 0) OR (if bit x 1 then push_bit 1 1 else 0)"
    by (rule bit_eqI) (auto simp only: bit_and_iff bit_or_iff bit_mask_iff bit_flag, auto simp: less_2_cases_iff)
  finally show ?thesis by auto
qed

lemma decode_perm_bits:
  "bit (decode_perm e) k \<longleftrightarrow> k = 0 \<or> \<not> bit e 7 \<and> k = 1 \<or> bit e 6 \<and> k = 3 \<or>
     (if bit e 6 then \<not> bit e 54 else \<not> bit e 53) \<and> k = 2"
proof -
  have ap: "drop_bit 6 e AND 3 = (if bit e 6 then (if bit e 7 then 3 else 1) else (if bit e 7 then 2 else 0))"
    unfolding and_three by (simp add: bit_drop_bit_eq)
  have w: "(drop_bit 6 e AND 3 = 0 \<or> drop_bit 6 e AND 3 = 1) \<longleftrightarrow> \<not> bit e 7" unfolding ap by simp
  have u: "(drop_bit 6 e AND 3 = 1 \<or> drop_bit 6 e AND 3 = 3) \<longleftrightarrow> bit e 6" unfolding ap by simp
  have "e AND DESC_UXN = 0 \<longleftrightarrow> \<not> bit e 54" "e AND DESC_PXN = 0 \<longleftrightarrow> \<not> bit e 53"
    using bit_test [of e 54] bit_test [of e 53] by (auto simp only: DESC_UXN_def DESC_PXN_def)
  then show ?thesis unfolding decode_perm_def Let_def w u perm_bits bit_or_iff bit_flag bit_one_at by auto
qed

lemma arm_valid_bit: "arm_valid e \<longleftrightarrow> bit e 0"
  using bit_test [of e 0] by (simp add: arm_valid_def DESC_VALID_def)

lemma arm_leaf_codec:
  assumes "PGSIZE dvd pa" and "pa < 2 ^ 48"
  shows "arm_valid (arm_make_leaf pa perm mmio)" and "arm_make_leaf pa perm mmio AND PA_MASK = of_nat pa"
    and "decode_perm (arm_make_leaf pa perm mmio) = (perm OR PERM_READ) AND mask 4"
proof -
  have low: "bit (arm_make_leaf pa perm mmio) k = bit (arm_leaf_bits perm mmio) k" if "k < 12 \<or> 48 \<le> k" for k
    using that by (auto simp: arm_make_leaf_def bit_or_iff bit_and_iff bit_PA_MASK)
  show "arm_valid (arm_make_leaf pa perm mmio)" by (simp add: arm_valid_bit low arm_leaf_bit)
  show "arm_make_leaf pa perm mmio AND PA_MASK = of_nat pa"
    unfolding arm_make_leaf_def by (rule and_pa_mask [OF _ assms]) (auto simp: arm_leaf_bit)
  show "decode_perm (arm_make_leaf pa perm mmio) = (perm OR PERM_READ) AND mask 4"
  proof (rule bit_eqI)
    fix k
    have "bit (decode_perm (arm_make_leaf pa perm mmio)) k \<longleftrightarrow>
        k = 0 \<or> bit perm 1 \<and> k = 1 \<or> bit perm 3 \<and> k = 3 \<or> bit perm 2 \<and> k = 2"
      unfolding decode_perm_bits by (auto simp: low arm_leaf_bit)
    also have "\<dots> \<longleftrightarrow> k < 4 \<and> (bit perm k \<or> k = 0)"
      by (auto simp: less_Suc_eq numeral_eq_Suc)
    finally show "bit (decode_perm (arm_make_leaf pa perm mmio)) k = bit ((perm OR PERM_READ) AND mask 4) k"
      using bit_one_at [of 0 k, where ?'a = 32] by (auto simp: bit_and_iff bit_or_iff bit_mask_iff PERM_READ_def)
  qed
qed

lemma arm_branch_codec: "frame_ok f \<Longrightarrow> arm_valid (arm_make_branch f) \<and> arm_target (arm_make_branch f) = f \<and> True"
proof -
  assume "frame_ok f"
  then have f: "PGSIZE dvd f" "f < 2 ^ 48" by (auto simp: frame_ok_def)
  have "(DESC_VALID OR DESC_TABLE OR (of_nat f AND PA_MASK)) AND PA_MASK = of_nat f"
    unfolding or.assoc [symmetric] by (rule and_pa_mask [OF _ f]) (simp only: DESC_VALID_def DESC_TABLE_def bit_or_iff bit_one_at, auto)
  moreover have "bit (arm_make_branch f) 0" by (simp add: arm_make_branch_def bit_or_iff DESC_VALID_def)
  moreover have "unat (of_nat f :: pte) = f" using f(2) by (simp add: unat_of_nat take_bit_nat_eq_self)
  ultimately show ?thesis by (simp add: arm_valid_bit arm_target_def arm_make_branch_def)
qed

lemma arm_levels_list: "arm_levels = [3, 2, 1]"
  by (simp add: arm_levels_def upt_conv_Cons)

lemma length_arm_levels [simp]: "length arm_levels = 3"
  by (simp add: arm_levels_list)

lemma arm_addr_inj:
  assumes "v < ARM_MAXVA" "v' < ARM_MAXVA" "idx_path arm_levels v = idx_path arm_levels v'" "pte_index 0 v = pte_index 0 v'"
  shows "v div PGSIZE = v' div PGSIZE"
proof -
  let ?p = "v div PGSIZE" and ?q = "v' div PGSIZE"
  have "?p div 512 ^ l mod 512 = ?q div 512 ^ l mod 512" if "l < 4" for l
  proof -
    have "l = 0 \<or> l = 1 \<or> l = 2 \<or> l = 3" using that by auto
    then have "pte_index l v = pte_index l v'" using assms(3,4) by (auto simp: arm_levels_list)
    then show ?thesis by (simp add: pte_index_alt)
  qed
  moreover have "?p < 512 ^ 4" "?q < 512 ^ 4" using assms(1,2) by (simp_all add: ARM_MAXVA_def PGSIZE_def less_mult_imp_div_less)
  ultimately show ?thesis using digits_eq [of ?p 512 4 ?q] by blast
qed

interpretation arm: radix arm_valid arm_target arm_make_branch "\<lambda>_. True" arm_levels ARM_MAXVA
    "\<lambda>pm pa. arm_make_leaf pa (fst pm) (snd pm)" arm_walk_levels arm_walk arm_map_loop
proof (unfold_locales, goal_cases)
  case 1 show ?case by (simp add: arm_valid_def)
next
  case (2 f) then show ?case by (rule arm_branch_codec)
next
  case 3 show ?case by simp
next
  case 4 show ?case by (simp add: arm_valid_def Let_def)
next
  case 5 show ?case by (simp add: arm_walk_def)
next
  case (6 perm r va pa en m) show ?case unfolding arm_valid_def by (rule arm_map_loop.simps)
next
  case (7 v v') then show ?case by (rule arm_addr_inj)
qed

definition arm_free_entry :: "nat \<Rightarrow> nat \<Rightarrow> nat \<Rightarrow> pmem \<Rightarrow> pmem" where
  "arm_free_entry lvl t i m =
     (let e = pw m (t + 8 * i) in
      if \<not> arm_valid e then m
      else store (t + 8 * i) 0
        (if lvl = 0 \<and> e AND DESC_NG \<noteq> 0 then kfree (arm_target e) m
         else if 0 < lvl \<and> True then arm_free_subtree (lvl - 1) (arm_target e) m
         else m))"

lemma arm_free_subtree_eq: "arm_free_subtree lvl t m = kfree t (fold (arm_free_entry lvl t) [0..<512] m)"
proof (cases lvl)
  case 0
  have "(\<lambda>i m. let e = pw m (t + 8 * i) in if e AND DESC_VALID = 0 then m
      else store (t + 8 * i) 0 (if e AND DESC_NG \<noteq> 0 then kfree (arm_target e) m else m)) = arm_free_entry 0 t"
    by (intro ext) (simp add: arm_free_entry_def arm_valid_def Let_def)
  then show ?thesis unfolding 0 arm_free_subtree.simps by (simp only:)
next
  case (Suc l)
  have "(\<lambda>i m. let e = pw m (t + 8 * i) in if e AND DESC_VALID = 0 then m
      else store (t + 8 * i) 0 (arm_free_subtree l (arm_target e) m)) = arm_free_entry (Suc l) t"
    by (intro ext) (simp add: arm_free_entry_def arm_valid_def Let_def)
  then show ?thesis unfolding Suc arm_free_subtree.simps by (simp only:)
qed

interpretation armd: table_drop arm_valid arm_target "\<lambda>lvl e. lvl = 0 \<and> e AND DESC_NG \<noteq> 0"
    "\<lambda>_. True" arm_free_subtree arm_free_entry
proof (unfold_locales, goal_cases)
  case 1 show ?case by (rule arm_free_subtree_eq)
next
  case 2 show ?case by (rule arm_free_entry_def)
qed

section \<open>Properties\<close>

definition arm_decode :: "pte \<Rightarrow> nat \<Rightarrow> (nat \<times> pte_perm) option" where
  "arm_decode e va = (if arm_valid e then Some (unat ((e AND PA_MASK) OR (of_nat va AND 0xfff)), decode_perm e) else None)"

lemma unat_small: "n < 2 ^ 48 \<Longrightarrow> unat (of_nat n :: pte) = n"
  by (simp add: unat_of_nat)

lemma arm_translate_levels_node:
  "arm_translate_levels ls va t m = (case arm.node (pw m) t (idx_path ls va) of
     None \<Rightarrow> None | Some x \<Rightarrow> arm_decode (pw m (x + 8 * pte_index 0 va)) va)"
  by (induction ls arbitrary: t) (auto simp: arm_decode_def arm_valid_def Let_def)

lemma arm_translate_entry:
  "va < ARM_MAXVA \<Longrightarrow> arm_translate root va m = arm_decode (arm.entry_of m root va) va"
  unfolding arm.entry_of_def arm.leaf_def
  by (auto simp: arm_translate_def arm_translate_levels_node arm_decode_def arm_valid_def split: option.split)

text \<open>C35. The aarch64 table honours the same contract. After a successful \<open>map\<close> exactly the range
  translates to the physical range; the descriptor keeps write, execute and user rights as
  requested and always grants read; every other address translates as before.\<close>

theorem arm_map_translates:
  assumes "arm.tree root m" and "pa + sz \<le> 2 ^ 48" and "arm_map root va pa sz perm m = (Inr (), m')"
  shows "arm.tree root m' \<and> (\<forall>v < ARM_MAXVA. arm_translate root v m' =
    (if va \<le> v \<and> v < va + sz then Some (pa + (v - va), (perm OR PERM_READ) AND mask 4) else arm_translate root v m))"
proof -
  have P: "arm_map_loop (perm, pa < ARM_KERNBASE) root va pa (va + sz) m = (Inr (), m')" "PGSIZE dvd va" "PGSIZE dvd pa"
    "PGSIZE dvd va + sz" "va + sz \<le> ARM_MAXVA"
    using assms(3) by (auto simp: arm_map_def Let_def mod_eq_0_iff_dvd split: if_splits)
  have mp: "arm.mapped (perm, pa < ARM_KERNBASE) root va (va + sz) pa m m'"
    using arm.mp_spec [OF assms(1) P(2,4,5) le_add1 P(1)] by blast
  have "arm_translate root v m' = (if va \<le> v \<and> v < va + sz then Some (pa + (v - va), (perm OR PERM_READ) AND mask 4)
      else arm_translate root v m)" if v: "v < ARM_MAXVA" for v
  proof (cases "va \<le> v \<and> v < va + sz")
    case True
    let ?q = "pa + (v div PGSIZE * PGSIZE - va)"
    have le: "va \<le> v div PGSIZE * PGSIZE" "v div PGSIZE * PGSIZE \<le> v"
      using div_le_mono [of va v PGSIZE] True P(2) by (auto simp: dvd_def)
    have "?q < pa + sz" using le True by linarith
    then have d: "PGSIZE dvd ?q" "?q < 2 ^ 48" using P(2,3) assms(2) by simp_all
    have "v = v div PGSIZE * PGSIZE + v mod PGSIZE" by simp
    then have eq: "?q + v mod PGSIZE = pa + (v - va)" using le by linarith
    have "arm.entry_of m' root v = arm_make_leaf ?q perm (pa < ARM_KERNBASE)" using mp v True by (simp add: arm.mapped_def)
    moreover note L = arm_leaf_codec [OF d, of perm "pa < ARM_KERNBASE"]
    moreover have "unat (of_nat ?q OR (of_nat v AND 0xfff) :: pte) = pa + (v - va)"
      using or_offset [OF d unat_small [OF d(2)], of v] eq by (simp only:)
    ultimately show ?thesis using True by (simp add: arm_translate_entry [OF v] arm_decode_def)
  next
    case False
    then have "arm.entry_of m' root v = arm.entry_of m root v" using mp v by (auto simp: arm.mapped_def)
    then show ?thesis using False by (simp only: arm_translate_entry [OF v] if_False)
  qed
  then show ?thesis using mp by (auto simp: arm.mapped_def)
qed

theorem arm_map_translates_witness:
  "\<exists>r m m'. arm_map r 4096 8192 4096 8 m = (Inr (), m') \<and> arm_translate r 4100 m' = Some (8196, (8 OR PERM_READ) AND mask 4)"
proof -
  obtain r m where d: "alloc_zeroed demo_pool = (Some r, m)" "length (frames m) = 7" by (rule demo_root) blast
  note T = arm.new_tree [OF demo_pool_inv(1) d(1)]
  have "\<not> arm_valid (arm.entry_of m r v)" for v using T(2) [of v] arm.valid0 by auto
  then have "fst (arm_map_loop (8, True) r 4096 8192 8192 m) = Inr ()"
    by (intro arm.mp_progress [OF T(1)]) (use d(2) in \<open>simp_all add: PGSIZE_def ARM_MAXVA_def\<close>)
  then have "fst (arm_map r 4096 8192 4096 8 m) = Inr ()" by (simp add: arm_map_def PGSIZE_def ARM_MAXVA_def ARM_KERNBASE_def)
  then obtain m' where m: "arm_map r 4096 8192 4096 8 m = (Inr (), m')" by (cases "arm_map r 4096 8192 4096 8 m") simp
  have "arm_translate r 4100 m' = Some (8196, (8 OR PERM_READ) AND mask 4)"
    using arm_map_translates [OF T(1) _ m] by (auto simp: ARM_MAXVA_def)
  then show ?thesis using m by blast
qed

end
