(* ===== verification/Heap.thy ===== *)
theory Heap
  imports Prelude "HOL-Library.Monad_Syntax"
begin

text \<open>
  The kernel heap of \<open>heap.rs\<close>: a first-fit allocator over a static arena, whose free blocks form an
  address-ordered linked list inside the arena. Memory is a function from addresses to words; the
  pointer-chasing loops are partial functions, so a cyclic list would show up as \<open>None\<close>. The abstract
  heap is the list of the segments that tile the arena. The two entry points refine operations on
  that list, which gives termination, disjointness of live blocks and exact accounting.
\<close>

section \<open>State\<close>

definition HEAP_SIZE :: nat where "HEAP_SIZE = 16 * 1024 * 1024"
definition UNIT :: nat where "UNIT = 16"
definition HDR :: nat where "HDR = 16"
definition MIN_FREE :: nat where "MIN_FREE = 32"

text \<open>\<open>HeapState\<close> and the memory of the arena. A \<open>FreeNode\<close> at \<open>a\<close> has its size at \<open>a\<close> and its next
  pointer at \<open>a + 8\<close>; 0 is the null pointer.\<close>

record heap_state =
  hhead :: nat
  hinit :: bool
  hused :: nat
  hpeak :: nat
  hmem :: "nat \<Rightarrow> nat"

definition heap_new :: "(nat \<Rightarrow> nat) \<Rightarrow> heap_state" where
  "heap_new w = \<lparr>hhead = 0, hinit = False, hused = 0, hpeak = 0, hmem = w\<rparr>"

definition hset :: "nat \<Rightarrow> nat \<Rightarrow> heap_state \<Rightarrow> heap_state" where
  "hset a v h = h\<lparr>hmem := (hmem h)(a := v)\<rparr>"

text \<open>For the alignments of a \<open>Layout\<close>, which are powers of two.\<close>

definition round_up :: "nat \<Rightarrow> nat \<Rightarrow> nat" where
  "round_up n a = (n + a - 1) div a * a"

section \<open>Allocation\<close>

definition heap_setup :: "nat \<Rightarrow> heap_state \<Rightarrow> heap_state" where
  "heap_setup base h =
     (if hinit h then h
      else (hset (base + 8) 0 (hset base HEAP_SIZE h))\<lparr>hhead := base, hinit := True\<rparr>)"

text \<open>Payload placement in the free block at \<open>b\<close>.\<close>

definition place :: "nat \<Rightarrow> nat \<Rightarrow> nat" where
  "place align b =
     (let p = round_up (b + HDR) align; front = p - HDR - b in
      if front \<noteq> 0 \<and> front < MIN_FREE then round_up (b + MIN_FREE + HDR) align else p)"

definition hlink :: "nat \<Rightarrow> nat \<Rightarrow> heap_state \<Rightarrow> heap_state" where
  "hlink prev x h = (if prev = 0 then h\<lparr>hhead := x\<rparr> else hset (prev + 8) x h)"

text \<open>Carving the block out of the free block at \<open>b\<close>, payload at \<open>p\<close>, end of payload at \<open>e\<close>.\<close>

definition carve :: "nat \<Rightarrow> nat \<Rightarrow> nat \<Rightarrow> nat \<Rightarrow> heap_state \<Rightarrow> heap_state" where
  "carve prev b p e0 h =
     (let s = hmem h b; nxt = hmem h (b + 8); hdr = p - HDR; front = hdr - b;
          e = (if b + s - e0 < MIN_FREE then b + s else e0);
          (tail_node, h) = (if e < b + s then (e, hset (e + 8) nxt (hset e (b + s - e) h)) else (nxt, h));
          (first, h) = (if MIN_FREE \<le> front then (b, hset (b + 8) tail_node (hset b front h)) else (tail_node, h));
          h = hlink prev first h;
          block = e - hdr;
          h = hset hdr block h;
          used = hused h + block
      in h\<lparr>hused := used, hpeak := max (hpeak h) used\<rparr>)"

partial_function (option) alloc_scan :: "nat \<Rightarrow> nat \<Rightarrow> nat \<Rightarrow> nat \<Rightarrow> heap_state \<Rightarrow> (nat \<times> heap_state) option" where
  "alloc_scan align psz prev cur h =
     (if cur = 0 then Some (0, h)
      else if round_up (place align cur + psz) UNIT \<le> cur + hmem h cur
        then Some (place align cur, carve prev cur (place align cur) (round_up (place align cur + psz) UNIT) h)
      else alloc_scan align psz cur (hmem h (cur + 8)) h)"

definition heap_alloc :: "nat \<Rightarrow> nat \<Rightarrow> nat \<Rightarrow> heap_state \<Rightarrow> (nat \<times> heap_state) option" where
  "heap_alloc base align sz h =
     (let h = heap_setup base h
      in alloc_scan (max align UNIT) (round_up (max sz 1) UNIT) 0 (hhead h) h)"

section \<open>Deallocation\<close>

partial_function (option) dealloc_find :: "nat \<Rightarrow> nat \<Rightarrow> nat \<Rightarrow> heap_state \<Rightarrow> (nat \<times> nat) option" where
  "dealloc_find hdr prev cur h =
     (if cur \<noteq> 0 \<and> cur < hdr then dealloc_find hdr cur (hmem h (cur + 8)) h else Some (prev, cur))"

text \<open>Insertion of the block at \<open>hdr\<close> between \<open>prev\<close> and \<open>cur\<close>, then the joins with the right and the left neighbour.\<close>

definition absorb :: "nat \<Rightarrow> nat \<Rightarrow> heap_state \<Rightarrow> heap_state" where
  "absorb a b h = (let h' = hset a (hmem h a + hmem h b) h in hset (a + 8) (hmem h' (b + 8)) h')"

definition merge_right :: "nat \<Rightarrow> nat \<Rightarrow> heap_state \<Rightarrow> heap_state" where
  "merge_right hdr cur h = (if cur \<noteq> 0 \<and> hdr + hmem h hdr = cur then absorb hdr cur h else h)"

definition merge_left :: "nat \<Rightarrow> nat \<Rightarrow> heap_state \<Rightarrow> heap_state" where
  "merge_left hdr prev h = (if prev \<noteq> 0 \<and> prev + hmem h prev = hdr then absorb prev hdr h else h)"

definition heap_dealloc :: "nat \<Rightarrow> heap_state \<Rightarrow> heap_state option" where
  "heap_dealloc ptr h =
     (if ptr = 0 then Some h
      else let hdr = ptr - HDR; sz = hmem h hdr in
        if hused h < sz then None
        else let h = hset hdr sz (h\<lparr>hused := hused h - sz\<rparr>) in
          do { (prev, cur) \<leftarrow> dealloc_find hdr 0 (hhead h) h;
               let h = hlink prev hdr (hset (hdr + 8) cur h);
               let h = merge_right hdr cur h;
               Some (merge_left hdr prev h) })"

definition heap_stats :: "heap_state \<Rightarrow> nat \<times> nat" where
  "heap_stats h = (hused h, hpeak h)"

section \<open>The abstract heap\<close>

text \<open>A segment is its address, its size and whether it is free.\<close>

type_synonym seg = "nat \<times> nat \<times> bool"

fun tiled :: "nat \<Rightarrow> seg list \<Rightarrow> nat \<Rightarrow> bool" where
  "tiled a [] e \<longleftrightarrow> a = e"
| "tiled a ((b, s, f) # L) e \<longleftrightarrow> b = a \<and> tiled (a + s) L e"

fun frees :: "seg list \<Rightarrow> (nat \<times> nat) list" where
  "frees [] = []"
| "frees ((b, s, f) # L) = (if f then (b, s) # frees L else frees L)"

fun no_adjacent :: "seg list \<Rightarrow> bool" where
  "no_adjacent ((_, _, f) # (b, s, g) # L) \<longleftrightarrow> \<not> (f \<and> g) \<and> no_adjacent ((b, s, g) # L)"
| "no_adjacent _ \<longleftrightarrow> True"

definition live_size :: "seg list \<Rightarrow> nat" where
  "live_size L = sum_list (map (\<lambda>(_, s, f). if f then 0 else s) L)"

text \<open>What is left of a free segment when a block is carved out of it.\<close>

definition carve_segs :: "nat \<Rightarrow> nat \<Rightarrow> nat \<Rightarrow> nat \<Rightarrow> seg list" where
  "carve_segs align psz b s =
     (let p = place align b; e0 = p + psz; e = (if b + s - e0 < MIN_FREE then b + s else e0); hdr = p - HDR in
      (if hdr = b then [] else [(b, hdr - b, True)]) @ [(hdr, e - hdr, False)] @
      (if e < b + s then [(e, b + s - e, True)] else []))"

fun alloc_segs :: "nat \<Rightarrow> nat \<Rightarrow> seg list \<Rightarrow> (nat \<times> seg list) option" where
  "alloc_segs align psz [] = None"
| "alloc_segs align psz ((b, s, f) # L) =
     (if f \<and> place align b + psz \<le> b + s then Some (place align b, carve_segs align psz b s @ L)
      else map_option (\<lambda>(p, L'). (p, (b, s, f) # L')) (alloc_segs align psz L))"

text \<open>Freeing a segment joins it with a free neighbour on either side.\<close>

definition seg_free :: "seg \<Rightarrow> bool" where "seg_free x = snd (snd x)"

definition right_part :: "seg list \<Rightarrow> nat \<times> seg list" where
  "right_part L = (case L of (c, t, True) # R \<Rightarrow> (t, R) | _ \<Rightarrow> (0, L))"

definition join_segs :: "seg list \<Rightarrow> nat \<Rightarrow> nat \<Rightarrow> seg list \<Rightarrow> seg list" where
  "join_segs L1 b s L2 =
     (let (t, R) = right_part L2 in
      if L1 \<noteq> [] \<and> seg_free (last L1)
      then butlast L1 @ (fst (last L1), fst (snd (last L1)) + (s + t), True) # R
      else L1 @ (b, s + t, True) # R)"

definition free_segs :: "nat \<Rightarrow> seg list \<Rightarrow> seg list" where
  "free_segs hdr L =
     (case dropWhile (\<lambda>x. fst x \<noteq> hdr) L of
        [] \<Rightarrow> L
      | (b, s, _) # L2 \<Rightarrow> join_segs (takeWhile (\<lambda>x. fst x \<noteq> hdr) L) b s L2)"

section \<open>The free list in memory\<close>

text \<open>The nodes \<open>F\<close>, in order, from \<open>x\<close> to \<open>y\<close>.\<close>

fun fchain :: "(nat \<Rightarrow> nat) \<Rightarrow> nat \<Rightarrow> (nat \<times> nat) list \<Rightarrow> nat \<Rightarrow> bool" where
  "fchain m x [] y \<longleftrightarrow> x = y"
| "fchain m x ((a, s) # F) y \<longleftrightarrow> x = a \<and> a \<noteq> 0 \<and> m a = s \<and> fchain m (m (a + 8)) F y"

definition last_addr :: "(nat \<times> nat) list \<Rightarrow> nat" where
  "last_addr F = (if F = [] then 0 else fst (last F))"

lemma fchain_append: "fchain m x (F @ G) y \<longleftrightarrow> (\<exists>z. fchain m x F z \<and> fchain m z G y)"
  by (induction F arbitrary: x) auto

lemma fchain_cong:
  "(\<And>a s. (a, s) \<in> set F \<Longrightarrow> m' a = m a \<and> m' (a + 8) = m (a + 8)) \<Longrightarrow> fchain m' x F y = fchain m x F y"
  by (induction F arbitrary: x) force+

text \<open>Redirecting the last next pointer, or the head.\<close>

lemma fchain_relink:
  assumes c: "fchain m x F y" and same: "\<And>a s. (a, s) \<in> set F \<Longrightarrow> m' a = m a"
    and nx: "\<And>a s. (a, s) \<in> set F \<Longrightarrow> a \<noteq> last_addr F \<Longrightarrow> m' (a + 8) = m (a + 8)"
    and d: "distinct (map fst F)" and l: "F \<noteq> [] \<Longrightarrow> m' (last_addr F + 8) = z"
  shows "fchain m' (if F = [] then z else x) F z"
proof (cases F rule: rev_cases)
  case (snoc G p)
  obtain a s where p: "p = (a, s)" by fastforce
  have la: "last_addr F = a" using snoc p by (simp add: last_addr_def)
  have "fchain m' x G a = fchain m x G a"
  proof (rule fchain_cong)
    fix b t assume g: "(b, t) \<in> set G"
    then have "b \<noteq> a" using d by (force simp: snoc p)
    then show "m' b = m b \<and> m' (b + 8) = m (b + 8)" using same [of b t] nx [of b t] g la by (simp add: snoc)
  qed
  then show ?thesis using c l same [of a s] la by (auto simp: snoc p fchain_append)
qed simp

section \<open>Tilings\<close>

definition segs_ok :: "seg list \<Rightarrow> bool" where
  "segs_ok L \<longleftrightarrow> (\<forall>(b, s, f) \<in> set L. 32 \<le> s \<and> 16 dvd s)"

lemma segs_ok_simps [simp]:
  "segs_ok []" "segs_ok ((b, s, f) # L) \<longleftrightarrow> 32 \<le> s \<and> 16 dvd s \<and> segs_ok L" "segs_ok (L1 @ L2) \<longleftrightarrow> segs_ok L1 \<and> segs_ok L2"
  by (simp_all add: segs_ok_def ball_Un)

lemma tiled_append: "tiled a (L1 @ L2) e \<longleftrightarrow> (\<exists>c. tiled a L1 c \<and> tiled c L2 e)"
  by (induction L1 arbitrary: a) auto

lemma tiled_le: "tiled a L e \<Longrightarrow> a \<le> e"
  by (induction L arbitrary: a) (fastforce dest: add_leD1)+

lemma tiled_range: "tiled a L e \<Longrightarrow> (b, s, f) \<in> set L \<Longrightarrow> a \<le> b \<and> b + s \<le> e"
proof (induction L arbitrary: a)
  case (Cons x L)
  obtain c t g where x: "x = (c, t, g)" by (cases x)
  then have t: "c = a" "tiled (a + t) L e" using Cons.prems(1) by auto
  consider "b = a \<and> s = t" | "(b, s, f) \<in> set L" using Cons.prems(2) x t(1) by auto
  then show ?case
  proof cases
    case 1
    then show ?thesis using tiled_le [OF t(2)] by simp
  next
    case 2
    then show ?thesis using Cons.IH [OF t(2)] by simp
  qed
qed simp

lemma tiled_dvd: "tiled a L e \<Longrightarrow> segs_ok L \<Longrightarrow> 16 dvd a \<Longrightarrow> (b, s, f) \<in> set L \<Longrightarrow> 16 dvd b"
  by (induction L arbitrary: a) fastforce+

lemma frees_append [simp]: "frees (L1 @ L2) = frees L1 @ frees L2"
  by (induction L1) auto

lemma in_frees: "(b, s) \<in> set (frees L) \<longleftrightarrow> (b, s, True) \<in> set L"
  by (induction L) (auto split: if_splits)

lemma last_free: "frees L \<noteq> [] \<Longrightarrow> (last_addr (frees L), snd (last (frees L)), True) \<in> set L"
  using in_frees [of "fst (last (frees L))" "snd (last (frees L))" L] by (simp add: last_addr_def)

lemma live_size_simps [simp]:
  "live_size [] = 0" "live_size ((b, s, f) # L) = (if f then 0 else s) + live_size L" "live_size (L1 @ L2) = live_size L1 + live_size L2"
  by (simp_all add: live_size_def)

lemma tiled_sum: "tiled a L e \<Longrightarrow> e = a + sum_list (map (fst \<circ> snd) L)"
  by (induction L arbitrary: a) fastforce+

lemma tiled_unique: "tiled a L c \<Longrightarrow> tiled a L d \<Longrightarrow> d = c"
  using tiled_sum by metis

lemma frees_sorted:
  "tiled a L e \<Longrightarrow> segs_ok L \<Longrightarrow> sorted_wrt (<) (map fst (frees L)) \<and> (\<forall>x \<in> set (frees L). a \<le> fst x)"
proof (induction L arbitrary: a)
  case (Cons x L)
  obtain c t g where x: "x = (c, t, g)" by (cases x)
  have IH: "sorted_wrt (<) (map fst (frees L)) \<and> (\<forall>x \<in> set (frees L). a + t \<le> fst x)"
    using Cons.IH [of "a + t"] Cons.prems x by simp
  moreover have "32 \<le> t" "c = a" using Cons.prems x by auto
  ultimately show ?case using x by (cases g) fastforce+
qed simp

lemma sorted_distinct: "sorted_wrt (<) xs \<Longrightarrow> distinct (xs :: nat list)"
  by (induction xs) auto

text \<open>The parts of a tiling around one segment.\<close>

lemma tiled_mid:
  assumes "tiled a (L1 @ (b, s, f) # L2) e" "segs_ok (L1 @ (b, s, f) # L2)"
  shows "\<And>c t g. (c, t, g) \<in> set L1 \<Longrightarrow> a \<le> c \<and> c + t \<le> b \<and> 32 \<le> t"
    and "\<And>c t g. (c, t, g) \<in> set L2 \<Longrightarrow> b + s \<le> c \<and> c + t \<le> e \<and> 32 \<le> t" and "a \<le> b" "b + s \<le> e"
proof -
  have t: "tiled a L1 b" "tiled (b + s) L2 e" using assms(1) by (auto simp: tiled_append)
  have ok: "segs_ok L1" "segs_ok L2" using assms(2) by auto
  show "\<And>c t g. (c, t, g) \<in> set L1 \<Longrightarrow> a \<le> c \<and> c + t \<le> b \<and> 32 \<le> t"
    using tiled_range [OF t(1)] ok(1) by (fastforce simp: segs_ok_def)
  show "\<And>c t g. (c, t, g) \<in> set L2 \<Longrightarrow> b + s \<le> c \<and> c + t \<le> e \<and> 32 \<le> t"
    using tiled_range [OF t(2)] ok(2) by (fastforce simp: segs_ok_def)
  show "a \<le> b" "b + s \<le> e" using tiled_le [OF t(1)] tiled_le [OF t(2)] by auto
qed

section \<open>The invariant\<close>

definition hcore :: "nat \<Rightarrow> heap_state \<Rightarrow> seg list \<Rightarrow> bool" where
  "hcore base h L \<longleftrightarrow> hinit h \<and> 0 < base \<and> 16 dvd base \<and> tiled base L (base + HEAP_SIZE) \<and> segs_ok L \<and>
     fchain (hmem h) (hhead h) (frees L) 0 \<and> (\<forall>(b, s, f) \<in> set L. \<not> f \<longrightarrow> hmem h b = s) \<and>
     hused h = live_size L \<and> hused h \<le> hpeak h"

definition hinv :: "nat \<Rightarrow> heap_state \<Rightarrow> seg list \<Rightarrow> bool" where
  "hinv base h L \<longleftrightarrow> hcore base h L \<and> no_adjacent L"

lemma hcoreD:
  assumes "hcore base h L"
  shows "hinit h" "0 < base" "16 dvd base" "tiled base L (base + HEAP_SIZE)" "segs_ok L"
    "fchain (hmem h) (hhead h) (frees L) 0" "\<And>b s. (b, s, False) \<in> set L \<Longrightarrow> hmem h b = s"
    "hused h = live_size L" "hused h \<le> hpeak h"
  using assms by (auto simp: hcore_def)

lemma hinvD:
  assumes "hinv base h L"
  shows "hcore base h L" "no_adjacent L"
  using assms by (auto simp: hinv_def)

lemma heap_setup_inv:
  assumes "0 < base" "16 dvd base"
  shows "hinv base (heap_setup base (heap_new w)) [(base, HEAP_SIZE, True)]"
  using assms by (simp add: hinv_def hcore_def heap_setup_def heap_new_def hset_def HEAP_SIZE_def)

lemma heap_setup_done: "hinit h \<Longrightarrow> heap_setup base h = h"
  by (simp add: heap_setup_def)

text \<open>Replacing the segments \<open>N\<close> between \<open>b\<close> and \<open>b + s\<close> by the segments \<open>M\<close>: it is enough to look at the
  memory between them, the pointer to it and the free nodes of \<open>M\<close>.\<close>

lemma replace_segs:
  assumes inv: "hcore base h (L1 @ N @ L2)" and tn: "tiled b N (b + s)"
    and tl: "tiled b M (b + s)" "segs_ok M"
    and y: "fchain (hmem h) (hhead h) (frees L1) y" and z: "fchain (hmem h) z (frees L2) 0" and t1: "tiled base L1 b"
    and out: "\<And>a. a < b \<or> b + s \<le> a \<Longrightarrow> a \<noteq> last_addr (frees L1) + 8 \<or> last_addr (frees L1) = 0 \<Longrightarrow> hmem h' a = hmem h a"
    and ch: "fchain (hmem h') x (frees M) z"
    and hd: "hhead h' = (if frees L1 = [] then x else hhead h)" "frees L1 \<noteq> [] \<Longrightarrow> hmem h' (last_addr (frees L1) + 8) = x"
    and us: "\<And>c t. (c, t, False) \<in> set M \<Longrightarrow> hmem h' c = t"
    and ac: "hinit h'" "hused h' = live_size (L1 @ M @ L2)" "hused h' \<le> hpeak h'"
  shows "hcore base h' (L1 @ M @ L2)"
proof -
  note I = hcoreD [OF inv]
  have ok: "segs_ok L1" "segs_ok L2" using I(5) by auto
  have t2: "tiled (b + s) L2 (base + HEAP_SIZE)"
    using I(4) tiled_unique [OF t1] tiled_unique [OF tn] by (auto simp: tiled_append)
  note t = t1 t2
  have T: "\<And>c t g. (c, t, g) \<in> set L1 \<Longrightarrow> base \<le> c \<and> c + t \<le> b \<and> 32 \<le> t"
    "\<And>c t g. (c, t, g) \<in> set L2 \<Longrightarrow> b + s \<le> c \<and> c + t \<le> base + HEAP_SIZE \<and> 32 \<le> t"
    using tiled_range [OF t1] tiled_range [OF t2] ok by (fastforce simp: segs_ok_def)+
  have la: "\<exists>t. (last_addr (frees L1), t, True) \<in> set L1" if "frees L1 \<noteq> []"
    using last_free [OF that] by blast
  have sep: "c \<noteq> last_addr (frees L1) + 8" if c: "(c, t, g) \<in> set (L1 @ L2)" "last_addr (frees L1) \<noteq> 0" for c t g
  proof
    assume e: "c = last_addr (frees L1) + 8"
    then obtain t' where l: "(last_addr (frees L1), t', True) \<in> set L1" using la c(2) by (auto simp: last_addr_def split: if_splits)
    have "16 dvd c" "16 dvd last_addr (frees L1)" using c(1) l tiled_dvd [OF I(4,5,3)] by auto
    then show False using e by presburger
  qed
  have keep: "hmem h' c = hmem h c" if "(c, t, g) \<in> set (L1 @ L2)" for c t g
  proof (rule out)
    show "c < b \<or> b + s \<le> c" using that T(1) [of c t g] T(2) [of c t g] by force
    show "c \<noteq> last_addr (frees L1) + 8 \<or> last_addr (frees L1) = 0" using sep [OF that] by blast
  qed
  have nxt2: "hmem h' (c + 8) = hmem h (c + 8)" if "(c, t, g) \<in> set L2" for c t g
  proof (rule out)
    show "c + 8 < b \<or> b + s \<le> c + 8" using T(2) [OF that] by simp
    have "last_addr (frees L1) < b" if "last_addr (frees L1) \<noteq> 0" using la T(1) that by (fastforce simp: last_addr_def split: if_splits)
    then show "c + 8 \<noteq> last_addr (frees L1) + 8 \<or> last_addr (frees L1) = 0" 
      using T(2) [OF that] by (cases "last_addr (frees L1) = 0") auto
  qed
  have nxt1: "hmem h' (c + 8) = hmem h (c + 8)" if "(c, t, g) \<in> set L1" "c \<noteq> last_addr (frees L1)" for c t g
    by (rule out) (use T(1) [OF that(1)] that(2) in auto)
  have c1: "fchain (hmem h') (hhead h') (frees L1) x"
    unfolding hd(1)
  proof (rule fchain_relink [OF y])
    show "hmem h' a = hmem h a" if "(a, t) \<in> set (frees L1)" for a t using keep [of a t True] that by (simp add: in_frees)
    show "hmem h' (a + 8) = hmem h (a + 8)" if "(a, t) \<in> set (frees L1)" "a \<noteq> last_addr (frees L1)" for a t
      using nxt1 [of a t True] that by (simp add: in_frees)
    show "distinct (map fst (frees L1))" using frees_sorted [OF t(1) ok(1)] sorted_distinct by blast
    show "hmem h' (last_addr (frees L1) + 8) = x" if "frees L1 \<noteq> []" by (rule hd(2) [OF that])
  qed
  have c2: "fchain (hmem h') z (frees L2) 0"
  proof -
    have "hmem h' a = hmem h a \<and> hmem h' (a + 8) = hmem h (a + 8)" if "(a, t) \<in> set (frees L2)" for a t
      using keep [of a t True] nxt2 [of a t True] that by (simp add: in_frees)
    then have "fchain (hmem h') z (frees L2) 0 = fchain (hmem h) z (frees L2) 0" by (intro fchain_cong)
    then show ?thesis using z by simp
  qed
  have "fchain (hmem h') (hhead h') (frees (L1 @ M @ L2)) 0" using c1 c2 ch by (auto simp: fchain_append)
  moreover have "hmem h' c = t" if "(c, t, False) \<in> set (L1 @ M @ L2)" for c t
    using that us keep [of c t False] I(7) [of c t] by auto
  moreover have "tiled base (L1 @ M @ L2) (base + HEAP_SIZE)" using t tl(1) by (auto simp: tiled_append)
  ultimately show ?thesis using I(2,3) ac tl(2) ok unfolding hcore_def by auto
qed

section \<open>Allocation refines the carving of a segment\<close>

lemma round_up_props:
  assumes "0 < a"
  shows "n \<le> round_up n a" "a dvd round_up n a" "a dvd n \<Longrightarrow> round_up n a = n"
proof -
  have "n + a - 1 = (n + a - 1) div a * a + (n + a - 1) mod a" by simp
  moreover have "(n + a - 1) mod a < a" using assms by simp
  ultimately show "n \<le> round_up n a" unfolding round_up_def by linarith
  show "a dvd round_up n a" by (simp add: round_up_def)
  assume "a dvd n"
  then obtain k where "n = a * k" by (auto simp: dvd_def)
  moreover have "(a * k + a - 1) div a = k" using assms by (intro div_nat_eqI) (simp_all add: algebra_simps)
  ultimately show "round_up n a = n" by (simp add: round_up_def mult.commute)
qed

lemma place_props:
  assumes "16 dvd align" "0 < align" "16 dvd b"
  shows "align dvd place align b" "16 dvd place align b" "b + 16 \<le> place align b"
    "place align b - 16 = b \<or> b + 32 \<le> place align b - 16"
proof -
  let ?p = "round_up (b + HDR) align" and ?q = "round_up (b + MIN_FREE + HDR) align"
  have p: "b + 16 \<le> ?p" "align dvd ?p" using round_up_props [OF assms(2)] by (auto simp: HDR_def)
  have q: "b + 48 \<le> ?q" "align dvd ?q" using round_up_props(1) [OF assms(2), of "b + MIN_FREE + HDR"] round_up_props(2) [OF assms(2)] by (auto simp: HDR_def MIN_FREE_def)
  have d: "16 dvd ?p - 16 - b" using p assms by (intro dvd_diff_nat) (auto intro: dvd_trans)
  show "align dvd place align b" using p(2) q(2) by (simp add: place_def Let_def)
  then show "16 dvd place align b" using assms(1) dvd_trans by blast
  show "b + 16 \<le> place align b" using p(1) q(1) by (simp add: place_def Let_def)
  show "place align b - 16 = b \<or> b + 32 \<le> place align b - 16"
    using p(1) q(1) by (auto simp: place_def Let_def HDR_def MIN_FREE_def)
qed

lemma no_adjacent_Cons: "no_adjacent (x # L) \<longleftrightarrow> no_adjacent L \<and> (L \<noteq> [] \<longrightarrow> \<not> (seg_free x \<and> seg_free (hd L)))"
proof (cases L)
  case (Cons y R)
  obtain a s f b t g where "x = (a, s, f)" "y = (b, t, g)" by (cases x, cases y)
  then show ?thesis using Cons by (auto simp: seg_free_def)
qed (cases x, simp)

lemma no_adjacent_append:
  "no_adjacent (A @ B) \<longleftrightarrow> no_adjacent A \<and> no_adjacent B \<and> (A \<noteq> [] \<longrightarrow> B \<noteq> [] \<longrightarrow> \<not> (seg_free (last A) \<and> seg_free (hd B)))"
  by (induction A) (auto simp: no_adjacent_Cons)

lemma no_adjacent_replace:
  assumes "no_adjacent (L1 @ (b, s, True) # L2)" "no_adjacent M" "M \<noteq> []"
  shows "no_adjacent (L1 @ M @ L2)"
  using assms no_adjacent_append [of L1 "(b, s, True) # L2"] no_adjacent_append [of "[(b, s, True)]" L2]
  by (auto simp: no_adjacent_append seg_free_def)

lemma carve_segs_ok:
  assumes al: "16 dvd align" "0 < align" "16 dvd b" "16 dvd s" and ps: "16 dvd psz" "16 \<le> psz" and fit: "place align b + psz \<le> b + s"
  shows "tiled b (carve_segs align psz b s) (b + s)" "segs_ok (carve_segs align psz b s)" "no_adjacent (carve_segs align psz b s)"
    "carve_segs align psz b s \<noteq> []"
proof -
  let ?p = "place align b"
  define e where "e = (if b + s - (?p + psz) < 32 then b + s else ?p + psz)"
  note P = place_props [OF al(1-3)]
  have e: "?p + psz \<le> e" "e \<le> b + s" "e < b + s \<longrightarrow> 32 \<le> b + s - e" using fit by (auto simp: e_def)
  have de: "16 dvd e" using P(2) ps(1) al by (auto simp: e_def)
  have h: "16 dvd ?p - 16" "b \<le> ?p - 16" using P by (auto intro: dvd_diff_nat)
  have M: "carve_segs align psz b s = (if ?p - 16 = b then [] else [(b, ?p - 16 - b, True)]) @ [(?p - 16, e - (?p - 16), False)] @
      (if e < b + s then [(e, b + s - e, True)] else [])"
    by (simp add: carve_segs_def Let_def e_def HDR_def MIN_FREE_def)
  show "tiled b (carve_segs align psz b s) (b + s)" unfolding M using h(2) e by auto
  have "16 dvd ?p - 16 - b" "16 dvd e - (?p - 16)" "16 dvd b + s - e"
    using h(1) de al P(2) by (auto intro!: dvd_diff_nat)
  then show "segs_ok (carve_segs align psz b s)" unfolding M using P(3,4) e ps(2) by auto
  show "no_adjacent (carve_segs align psz b s)" "carve_segs align psz b s \<noteq> []" unfolding M by auto
qed

lemma hset_simps [simp]: "hmem (hset a v h) = (hmem h)(a := v)" "hhead (hset a v h) = hhead h" "hused (hset a v h) = hused h"
  "hpeak (hset a v h) = hpeak h" "hinit (hset a v h) = hinit h"
  by (simp_all add: hset_def)

lemma last_addr_zero:
  assumes "tiled base L e" "0 < base"
  shows "last_addr (frees L) = 0 \<longleftrightarrow> frees L = []"
proof -
  have "0 < fst x" if x: "x \<in> set (frees L)" for x
    using x in_frees [of "fst x" "snd x" L] tiled_range [OF assms(1), of "fst x" "snd x" True] assms(2) by simp
  then have "frees L \<noteq> [] \<Longrightarrow> 0 < fst (last (frees L))" by simp
  then show ?thesis by (auto simp: last_addr_def)
qed

lemma carve_inv:
  assumes inv: "hinv base h (L1 @ (b, s, True) # L2)" and al: "16 dvd align" "0 < align"
    and ps: "16 dvd psz" "16 \<le> psz" and fit: "place align b + psz \<le> b + s"
  shows "hinv base (carve (last_addr (frees L1)) b (place align b) (place align b + psz) h) (L1 @ carve_segs align psz b s @ L2)"
proof -
  let ?p = "place align b" and ?q = "last_addr (frees L1)"
  let ?hdr = "?p - 16"
  define e where "e = (if b + s - (?p + psz) < 32 then b + s else ?p + psz)"
  note I = hcoreD [OF hinvD(1) [OF inv]]
  note T = tiled_mid [OF I(4,5)]
  have db: "16 dvd b" "16 dvd s" using tiled_dvd [OF I(4,5,3), of b s True] I(5) by auto
  note P = place_props [OF al db(1)]
  have e: "?p + psz \<le> e" "e \<le> b + s" "e < b + s \<longrightarrow> e + 32 \<le> b + s" using fit by (auto simp: e_def)
  have t1: "tiled base L1 b" using I(4) by (auto simp: tiled_append)
  obtain x where c1: "fchain (hmem h) (hhead h) (frees L1) x" and c2: "fchain (hmem h) x ((b, s) # frees L2) 0"
    using I(6) by (auto simp: fchain_append)
  have mb: "hmem h b = s" and c2': "fchain (hmem h) (hmem h (b + 8)) (frees L2) 0" using c2 by auto
  have q: "?q = 0 \<longleftrightarrow> frees L1 = []" by (rule last_addr_zero [OF t1 I(2)])
  have qb: "?q + 32 \<le> b" if "frees L1 \<noteq> []"
    using T(1) [OF last_free [OF that]] by simp
  define tl where "tl = (if e < b + s then e else hmem h (b + 8))"
  define fst' where "fst' = (if ?hdr = b then tl else b)"
  define m1 where "m1 = (if e < b + s then (hmem h)(e := b + s - e, e + 8 := hmem h (b + 8)) else hmem h)"
  define m2 where "m2 = (if ?hdr = b then m1 else m1(b := ?hdr - b, b + 8 := tl))"
  define m3 where "m3 = (if ?q = 0 then m2 else m2(?q + 8 := fst'))"
  define h' where "h' = carve ?q b ?p (?p + psz) h"
  have h': "hmem h' = m3(?hdr := e - ?hdr)" "hhead h' = (if ?q = 0 then fst' else hhead h)" "hinit h' = hinit h"
    "hused h' = hused h + (e - ?hdr)" "hpeak h' = max (hpeak h) (hused h + (e - ?hdr))"
    using P(3,4) unfolding h'_def carve_def m3_def m2_def m1_def fst'_def tl_def e_def hlink_def
    by (auto simp: mb Let_def HDR_def MIN_FREE_def)
  have M: "carve_segs align psz b s = (if ?hdr = b then [] else [(b, ?hdr - b, True)]) @ [(?hdr, e - ?hdr, False)] @
      (if e < b + s then [(e, b + s - e, True)] else [])"
    by (simp add: carve_segs_def Let_def e_def HDR_def MIN_FREE_def)
  note C = carve_segs_ok [OF al db ps fit]
  have ne: "b \<noteq> 0" using T(3) I(2) by simp
  have R: "b \<le> ?hdr" "?hdr = b \<or> b + 32 \<le> ?hdr" "?hdr + 32 \<le> e" using P(3,4) e(1) ps(2) by linarith+
  have m1: "m1 a = hmem h a" if "e < b + s \<Longrightarrow> a \<noteq> e \<and> a \<noteq> e + 8" for a using that by (auto simp: m1_def)
  have m2: "m2 a = m1 a" if "?hdr \<noteq> b \<Longrightarrow> a \<noteq> b \<and> a \<noteq> b + 8" for a using that by (auto simp: m2_def)
  have m3: "m3 a = m2 a" if "?q \<noteq> 0 \<Longrightarrow> a \<noteq> ?q + 8" for a using that by (auto simp: m3_def)
  have m4: "hmem h' a = m3 a" if "a \<noteq> ?hdr" for a using that by (simp add: h')
  have far: "hmem h' a = hmem h a" if a: "a < b \<or> b + s \<le> a" "a \<noteq> ?q + 8 \<or> ?q = 0" for a
  proof -
    have "hmem h' a = m3 a" by (rule m4) (use a R e(2) in linarith)
    also have "\<dots> = m2 a" by (rule m3) (use a(2) in blast)
    also have "\<dots> = m1 a" by (rule m2) (use a(1) R e(2) in linarith)
    also have "\<dots> = hmem h a" by (rule m1) (use a(1) R(1,3) e(3) in linarith)
    finally show ?thesis .
  qed
  have q8: "?q + 8 < b" if "?q \<noteq> 0" using qb q that by fastforce
  have at: "hmem h' ?hdr = e - ?hdr" by (simp add: h')
  have at_e: "hmem h' e = b + s - e" "hmem h' (e + 8) = hmem h (b + 8)" if "e < b + s"
  proof -
    have "hmem h' a = m1 a" if "e \<le> a" for a
    proof -
      have "hmem h' a = m3 a" by (rule m4) (use R that in linarith)
      also have "\<dots> = m2 a" by (rule m3) (use q8 R that in fastforce)
      also have "\<dots> = m1 a" by (rule m2) (use R that in linarith)
      finally show ?thesis .
    qed
    then show "hmem h' e = b + s - e" "hmem h' (e + 8) = hmem h (b + 8)" using \<open>e < b + s\<close> by (simp_all add: m1_def)
  qed
  have at_b: "hmem h' b = ?hdr - b" "hmem h' (b + 8) = tl" if "?hdr \<noteq> b"
  proof -
    have "hmem h' a = m2 a" if "b \<le> a" "a \<le> b + 8" for a
    proof -
      have "hmem h' a = m3 a" by (rule m4) (use R that \<open>?hdr \<noteq> b\<close> in linarith)
      also have "\<dots> = m2 a" by (rule m3) (use q8 that in fastforce)
      finally show ?thesis .
    qed
    then show "hmem h' b = ?hdr - b" "hmem h' (b + 8) = tl" using that by (simp_all add: m2_def)
  qed
  have tail: "fchain (hmem h') tl (if e < b + s then [(e, b + s - e)] else []) (hmem h (b + 8))"
    using at_e R ne by (auto simp: tl_def)
  have inv': "hcore base h (L1 @ [(b, s, True)] @ L2)" using hinvD(1) [OF inv] by simp
  have "hcore base h' (L1 @ carve_segs align psz b s @ L2)"
  proof (rule replace_segs [OF inv' _ C(1,2) c1 c2' t1 far])
    show "tiled b [(b, s, True)] (b + s)" by simp
    have "frees (carve_segs align psz b s) = (if ?hdr = b then [] else [(b, ?hdr - b)]) @ (if e < b + s then [(e, b + s - e)] else [])"
      unfolding M by simp
    then show "fchain (hmem h') fst' (frees (carve_segs align psz b s)) (hmem h (b + 8))"
      using tail at_b ne by (cases "?hdr = b") (simp_all add: fst'_def)
    show "hhead h' = (if frees L1 = [] then fst' else hhead h)" using h'(2) q by simp
    show "hmem h' (?q + 8) = fst'" if "frees L1 \<noteq> []"
    proof -
      have "?q \<noteq> 0" "?q + 8 \<noteq> ?hdr" using that q qb [OF that] R(1) by auto
      then show ?thesis unfolding h' m3_def by simp
    qed
    show "hmem h' c = t" if "(c, t, False) \<in> set (carve_segs align psz b s)" for c t
      using that at unfolding M by (auto split: if_splits)
    show "hinit h'" using h'(3) I(1) by simp
    show "hused h' = live_size (L1 @ carve_segs align psz b s @ L2)" using h'(4) I(8) unfolding M by auto
    show "hused h' \<le> hpeak h'" using h'(4,5) by simp
  qed
  then show ?thesis using no_adjacent_replace [OF hinvD(2) [OF inv] C(3,4)] by (simp add: hinv_def h'_def)
qed

lemma alloc_scan_refines:
  assumes "hinv base h (L1 @ L2)" "fchain (hmem h) (hhead h) (frees L1) cur" "fchain (hmem h) cur (frees L2) 0"
    and al: "16 dvd align" "0 < align" and ps: "16 dvd psz" "16 \<le> psz"
  shows "\<exists>p h'. alloc_scan align psz (last_addr (frees L1)) cur h = Some (p, h') \<and>
    (case alloc_segs align psz L2 of None \<Rightarrow> p = 0 \<and> h' = h | Some (q, L') \<Rightarrow> p = q \<and> hinv base h' (L1 @ L'))"
  using assms(1-3)
proof (induction L2 arbitrary: L1 cur)
  case Nil
  then show ?case by (subst alloc_scan.simps) simp
next
  case (Cons x L2)
  obtain b s f where x: "x = (b, s, f)" by (cases x)
  have nxt: ?case
    if c: "fchain (hmem h) (hhead h) (frees (L1 @ [x])) cur'" "fchain (hmem h) cur' (frees L2) 0"
      and s: "alloc_scan align psz (last_addr (frees L1)) cur h = alloc_scan align psz (last_addr (frees (L1 @ [x]))) cur' h"
      and a: "alloc_segs align psz (x # L2) = map_option (\<lambda>(p, L'). (p, x # L')) (alloc_segs align psz L2)" for cur'
  proof -
    have "hinv base h ((L1 @ [x]) @ L2)" using Cons.prems(1) by simp
    from Cons.IH [OF this c] show ?thesis unfolding s a by (cases "alloc_segs align psz L2") (auto split: prod.splits)
  qed
  show ?case
  proof (cases f)
    case False
    then show ?thesis by (intro nxt [of cur]) (use Cons.prems x in simp_all)
  next
    case True
    then have c: "cur = b" "b \<noteq> 0" "hmem h b = s" "fchain (hmem h) (hmem h (b + 8)) (frees L2) 0" using Cons.prems(3) x by auto
    have "16 dvd b" using tiled_dvd [of base "L1 @ x # L2" _ b s f] hcoreD(3-5) [OF hinvD(1) [OF Cons.prems(1)]] x by auto
    then have r: "round_up (place align b + psz) UNIT = place align b + psz"
      using place_props(2) [OF al] ps(1) by (intro round_up_props(3)) (auto simp: UNIT_def)
    show ?thesis
    proof (cases "place align b + psz \<le> b + s")
      case fit: True
      have "hinv base (carve (last_addr (frees L1)) b (place align b) (place align b + psz) h) (L1 @ carve_segs align psz b s @ L2)"
        by (rule carve_inv [OF _ al ps fit]) (use Cons.prems(1) x True in simp)
      then show ?thesis using c fit r x True by (subst alloc_scan.simps) simp
    next
      case nofit: False
      have la: "last_addr (frees (L1 @ [x])) = b" using x True by (simp add: last_addr_def)
      show ?thesis
      proof (rule nxt [of "hmem h (b + 8)"])
        show "alloc_scan align psz (last_addr (frees L1)) cur h = alloc_scan align psz (last_addr (frees (L1 @ [x]))) (hmem h (b + 8)) h"
          unfolding la using c nofit r by (subst alloc_scan.simps) simp
      qed (use Cons.prems(2) c x True nofit in \<open>auto simp: fchain_append\<close>)
    qed
  qed
qed

lemma max_align: "16 dvd max (2 ^ k) (16 :: nat)" "(2 :: nat) ^ k dvd max (2 ^ k) 16"
  "0 < max (2 ^ k) (16 :: nat)"
proof -
  show "0 < max (2 ^ k) (16 :: nat)" by (simp add: less_max_iff_disj)
  show "16 dvd max (2 ^ k) (16 :: nat)"
  proof (cases "4 \<le> k")
    case True
    then have "(2 :: nat) ^ 4 dvd 2 ^ k" by (rule le_imp_power_dvd)
    then show ?thesis by (simp add: max_def)
  next
    case False
    then have "(2 :: nat) ^ k < 2 ^ 4" by (intro power_strict_increasing) auto
    then show ?thesis by (simp add: max_def)
  qed
  show "(2 :: nat) ^ k dvd max (2 ^ k) 16"
  proof (cases "4 \<le> k")
    case False
    then have "(2 :: nat) ^ k dvd 2 ^ 4" by (intro le_imp_power_dvd) simp
    then show ?thesis by (simp add: max_def)
  next
    case True
    then have "(2 :: nat) ^ 4 \<le> 2 ^ k" by (intro power_increasing) auto
    then show ?thesis by (simp add: max_def)
  qed
qed

lemma heap_alloc_segs:
  assumes inv: "hinv base (heap_setup base h) L" and al: "align = 2 ^ k"
  shows "\<exists>p h'. heap_alloc base align sz h = Some (p, h') \<and>
    (case alloc_segs (max align 16) (round_up (max sz 1) 16) L of
       None \<Rightarrow> p = 0 \<and> h' = heap_setup base h | Some (q, L') \<Rightarrow> p = q \<and> hinv base h' L')"
proof -
  let ?a = "max align 16" and ?s = "round_up (max sz 1) 16"
  have "16 dvd ?a" "0 < ?a" using max_align [of k] al by simp_all
  moreover have "16 dvd ?s" using round_up_props(2) [of 16] by auto
  moreover have "16 \<le> ?s" using round_up_props(1) [of 16 "max sz 1"] \<open>16 dvd ?s\<close> by (intro dvd_imp_le) auto
  ultimately show ?thesis
    using alloc_scan_refines [of base "heap_setup base h" "[]" L "hhead (heap_setup base h)" ?a ?s, unfolded append_Nil] inv hcoreD(6) [OF hinvD(1) [OF inv]]
    by (simp add: heap_alloc_def Let_def UNIT_def last_addr_def)
qed

section \<open>Deallocation refines the joining of segments\<close>

lemma dealloc_find_spec:
  assumes "fchain (hmem h) cur F y" "\<And>a s. (a, s) \<in> set F \<Longrightarrow> a < hdr" "y = 0 \<or> hdr \<le> y"
  shows "dealloc_find hdr prev cur h = Some (if F = [] then prev else last_addr F, y)"
  using assms
proof (induction F arbitrary: prev cur)
  case Nil
  then show ?case by (subst dealloc_find.simps) auto
next
  case (Cons x F)
  obtain a s where x: "x = (a, s)" by fastforce
  then have c: "cur = a" "a \<noteq> 0" "a < hdr" "fchain (hmem h) (hmem h (a + 8)) F y" using Cons.prems(1,2) by auto
  then have "dealloc_find hdr prev cur h = dealloc_find hdr a (hmem h (a + 8)) h" by (subst dealloc_find.simps) simp
  moreover have "dealloc_find hdr a (hmem h (a + 8)) h = Some (if F = [] then a else last_addr F, y)"
    by (rule Cons.IH [OF c(4)]) (use Cons.prems(2,3) in auto)
  ultimately show ?case using x by (simp add: last_addr_def)
qed

lemma fchain_last: "fchain m x F y \<Longrightarrow> F \<noteq> [] \<Longrightarrow> m (last_addr F + 8) = y"
  by (induction F arbitrary: x) (auto simp: last_addr_def split: if_splits)

lemma free_segs_split:
  assumes "\<And>x. x \<in> set L1 \<Longrightarrow> fst x \<noteq> b"
  shows "free_segs b (L1 @ (b, s, f) # L2) = join_segs L1 b s L2"
proof -
  have "takeWhile (\<lambda>x. fst x \<noteq> b) (L1 @ (b, s, f) # L2) = L1" "dropWhile (\<lambda>x. fst x \<noteq> b) (L1 @ (b, s, f) # L2) = (b, s, f) # L2"
    using assms by (simp_all add: takeWhile_tail dropWhile_append)
  then show ?thesis by (simp add: free_segs_def)
qed

lemma right_part_cases:
  obtains (join) c t R where "L = (c, t, True) # R" "right_part L = (t, R)"
  | (keep) "right_part L = (0, L)" "L = [] \<or> \<not> seg_free (hd L)"
proof (cases L)
  case (Cons x R)
  obtain c t g where "x = (c, t, g)" by (cases x)
  then show ?thesis using that Cons by (cases g) (auto simp: right_part_def seg_free_def)
qed (use that in \<open>simp add: right_part_def\<close>)

lemma left_part_cases:
  obtains (join) A a u where "L = A @ [(a, u, True)]" | (keep) "L = [] \<or> \<not> seg_free (last L)"
proof (cases L rule: rev_cases)
  case (snoc A x)
  obtain a u g where "x = (a, u, g)" by (cases x)
  then show ?thesis using that snoc by (cases g) (auto simp: seg_free_def)
qed (use that in simp)

lemma hlink_simps [simp]: "hmem (hlink q x h) = (if q = 0 then hmem h else (hmem h)(q + 8 := x))"
  "hhead (hlink q x h) = (if q = 0 then x else hhead h)" "hused (hlink q x h) = hused h" "hpeak (hlink q x h) = hpeak h"
  "hinit (hlink q x h) = hinit h"
  by (simp_all add: hlink_def)

lemma heap_dealloc_steps:
  assumes "0 < b" "hmem h b = s" "s \<le> hused h" "dealloc_find b 0 (hhead h) (h\<lparr>hused := hused h - s\<rparr>) = Some (prev, cur)"
  shows "heap_dealloc (b + 16) h =
    Some (merge_left b prev (merge_right b cur (hlink prev b (hset (b + 8) cur (h\<lparr>hused := hused h - s\<rparr>)))))"
proof -
  have "hset b s (h\<lparr>hused := hused h - s\<rparr>) = h\<lparr>hused := hused h - s\<rparr>" using assms(2) by (auto simp: hset_def)
  then show ?thesis using assms by (simp add: heap_dealloc_def HDR_def Let_def)
qed

text \<open>The block becomes a free node of its own.\<close>

lemma insert_core:
  assumes inv: "hcore base h (L1 @ (b, s, False) # L2)" and c1: "fchain (hmem h) (hhead h) (frees L1) y"
    and c2: "fchain (hmem h) y (frees L2) 0"
  shows "hcore base (hlink (last_addr (frees L1)) b (hset (b + 8) y (h\<lparr>hused := hused h - s\<rparr>))) (L1 @ (b, s, True) # L2)"
proof -
  let ?q = "last_addr (frees L1)" and ?h = "hlink (last_addr (frees L1)) b (hset (b + 8) y (h\<lparr>hused := hused h - s\<rparr>))"
  note I = hcoreD [OF inv]
  note T = tiled_mid [OF I(4,5)]
  have t1: "tiled base L1 b" using I(4) by (auto simp: tiled_append)
  have q: "?q = 0 \<longleftrightarrow> frees L1 = []" by (rule last_addr_zero [OF t1 I(2)])
  have qb: "?q + 32 \<le> b" if "frees L1 \<noteq> []" using T(1) [OF last_free [OF that]] by simp
  have s: "32 \<le> s" "hmem h b = s" "b \<noteq> 0" using I(5) I(7) [of b s] T(3) I(2) by auto
  have inv': "hcore base h (L1 @ [(b, s, False)] @ L2)" using inv by simp
  have "hcore base ?h (L1 @ [(b, s, True)] @ L2)"
  proof (rule replace_segs [OF inv' _ _ _ c1 c2 t1, where s = s and x = b])
    show "fchain (hmem ?h) b (frees [(b, s, True)]) y" using q qb s by auto
    show "hmem ?h a = hmem h a" if "a < b \<or> b + s \<le> a" "a \<noteq> ?q + 8 \<or> ?q = 0" for a using that s(1) by auto
  qed (use I s q in auto)
  then show ?thesis by simp
qed

text \<open>Two neighbouring free segments become one.\<close>

lemma absorb_core:
  assumes inv: "hcore base h (L1 @ (a, u, True) # (b, s, True) # L2)"
  shows "hcore base (absorb a b h) (L1 @ (a, u + s, True) # L2)"
proof -
  note I = hcoreD [OF inv]
  note T = tiled_mid [OF I(4,5)]
  have t: "tiled base L1 a" "b = a + u" using I(4) by (auto simp: tiled_append)
  have q: "last_addr (frees L1) = 0 \<longleftrightarrow> frees L1 = []" by (rule last_addr_zero [OF t(1) I(2)])
  have qb: "last_addr (frees L1) + 32 \<le> a" if "frees L1 \<noteq> []" using T(1) [OF last_free [OF that]] by simp
  have c: "fchain (hmem h) (hhead h) (frees L1) a" "hmem h a = u" "hmem h b = s" "fchain (hmem h) (hmem h (b + 8)) (frees L2) 0" "a \<noteq> 0"
    using I(6) by (auto simp: fchain_append)
  have s: "32 \<le> s" "32 \<le> u" using I(5) by auto
  have inv': "hcore base h (L1 @ [(a, u, True), (b, s, True)] @ L2)" using inv by simp
  have "hcore base (absorb a b h) (L1 @ [(a, u + s, True)] @ L2)"
  proof (rule replace_segs [OF inv' _ _ _ c(1,4) t(1), where s = "u + s" and x = a])
    show "fchain (hmem (absorb a b h)) a (frees [(a, u + s, True)]) (hmem h (b + 8))" using c t(2) s by (simp add: absorb_def Let_def)
    show "hmem (absorb a b h) c = hmem h c" if "c < a \<or> a + (u + s) \<le> c" "c \<noteq> last_addr (frees L1) + 8 \<or> last_addr (frees L1) = 0" for c
      using that s by (auto simp: absorb_def Let_def)
    show "hmem (absorb a b h) (last_addr (frees L1) + 8) = a" if "frees L1 \<noteq> []"
      using fchain_last [OF c(1) that] qb [OF that] by (simp add: absorb_def Let_def)
    show "hhead (absorb a b h) = (if frees L1 = [] then a else hhead h)" using c(1) by (auto simp: absorb_def Let_def)
  qed (use I s t in \<open>auto simp: absorb_def Let_def\<close>)
  then show ?thesis by simp
qed

lemma merge_right_core:
  assumes inv: "hcore base h (L1 @ (b, s, True) # L2)"
  shows "hcore base (merge_right b (hmem h (b + 8)) h) (L1 @ (b, s + fst (right_part L2), True) # snd (right_part L2))"
proof -
  note I = hcoreD [OF inv]
  note T = tiled_mid [OF I(4,5)]
  have c: "hmem h b = s" "fchain (hmem h) (hmem h (b + 8)) (frees L2) 0" using I(6) by (auto simp: fchain_append)
  show ?thesis
  proof (cases rule: right_part_cases [of L2])
    case (join c t R)
    have "c = b + s" using I(4) join(1) by (auto simp: tiled_append)
    then show ?thesis using c join absorb_core [of base h L1 b s c t R] inv by (simp add: merge_right_def)
  next
    case keep
    have "hmem h (b + 8) = 0 \<or> b + s \<noteq> hmem h (b + 8)"
    proof (cases L2)
      case (Cons x R)
      obtain d t where x: "x = (d, t, False)" using keep(2) Cons by (cases x) (auto simp: seg_free_def)
      show ?thesis
      proof (cases "frees R")
        case Nil
        then show ?thesis using c(2) Cons x by simp
      next
        case (Cons p F)
        obtain a v where p: "p = (a, v)" by fastforce
        then have "(a, v, True) \<in> set R" using Cons in_frees [of a v R] by simp
        moreover have "tiled (b + s + t) R (base + HEAP_SIZE)" "32 \<le> t" using I(4,5) \<open>L2 = x # R\<close> x by (auto simp: tiled_append)
        ultimately have "b + s < a" using tiled_range [of "b + s + t" R] by fastforce
        then show ?thesis using c(2) \<open>L2 = x # R\<close> x Cons p by simp
      qed
    qed (use c in simp)
    then show ?thesis using keep c inv by (auto simp: merge_right_def)
  qed
qed

lemma merge_left_core:
  assumes inv: "hcore base h (L1 @ (b, s, True) # L2)"
  shows "hcore base (merge_left b (last_addr (frees L1)) h)
    (if L1 \<noteq> [] \<and> seg_free (last L1) then butlast L1 @ (fst (last L1), fst (snd (last L1)) + s, True) # L2 else L1 @ (b, s, True) # L2)"
proof -
  note I = hcoreD [OF inv]
  have t1: "tiled base L1 b" using I(4) by (auto simp: tiled_append)
  show ?thesis
  proof (cases rule: left_part_cases [of L1])
    case (join A a u)
    have "hmem h a = u" "a \<noteq> 0" using I(6) join by (auto simp: fchain_append)
    moreover have "a + u = b" using t1 join by (auto simp: tiled_append)
    ultimately show ?thesis using join absorb_core [of base h A a u b s L2] inv by (simp add: merge_left_def last_addr_def seg_free_def)
  next
    case keep
    have "last_addr (frees L1) = 0 \<or> last_addr (frees L1) + hmem h (last_addr (frees L1)) \<noteq> b"
    proof (cases L1 rule: rev_cases)
      case (snoc A x)
      obtain a u where x: "x = (a, u, False)" using keep snoc by (cases x) (auto simp: seg_free_def)
      have tA: "tiled base A a" "a + u = b" "32 \<le> u" using t1 I(5) snoc x by (auto simp: tiled_append)
      show ?thesis
      proof (cases "frees A" rule: rev_cases)
        case Nil
        then show ?thesis using snoc x by (simp add: last_addr_def)
      next
        case (snoc F p)
        obtain c v where p: "p = (c, v)" by fastforce
        then have "(c, v, True) \<in> set A" using snoc in_frees [of c v A] by simp
        then have "c + v \<le> a" using tiled_range [OF tA(1)] by blast
        moreover have "hmem h c = v" using I(6) \<open>L1 = A @ [x]\<close> x snoc p by (auto simp: fchain_append)
        ultimately show ?thesis using \<open>L1 = A @ [x]\<close> x snoc p tA by (simp add: last_addr_def)
      qed
    qed (simp add: last_addr_def)
    then show ?thesis using keep inv by (auto simp: merge_left_def)
  qed
qed

lemma join_segs_no_adjacent:
  assumes "no_adjacent (L1 @ (b, s, False) # L2)"
  shows "no_adjacent (join_segs L1 b s L2)"
proof -
  have A: "no_adjacent L1" "no_adjacent L2" using assms no_adjacent_append [of L1] no_adjacent_append [of "[(b, s, False)]" L2] by auto
  have R: "no_adjacent (snd (right_part L2))" "snd (right_part L2) = [] \<or> \<not> seg_free (hd (snd (right_part L2)))"
  proof (atomize (full), cases rule: right_part_cases [of L2])
    case (join c t R)
    then show "no_adjacent (snd (right_part L2)) \<and> (snd (right_part L2) = [] \<or> \<not> seg_free (hd (snd (right_part L2))))"
      using A(2) no_adjacent_append [of "[(c, t, True)]" R] by (auto simp: seg_free_def)
  qed (use A(2) in simp)
  then have one: "no_adjacent ((x, v, True) # snd (right_part L2))" for x v
    using no_adjacent_append [of "[(x, v, True)]" "snd (right_part L2)"] by auto
  show ?thesis
  proof (cases rule: left_part_cases [of L1])
    case (join B a u)
    then have "no_adjacent B" "B = [] \<or> \<not> seg_free (last B)" using A(1) no_adjacent_append [of B "[(a, u, True)]"] by (auto simp: seg_free_def)
    then show ?thesis using join one by (auto simp: join_segs_def no_adjacent_append seg_free_def Let_def split: prod.splits)
  next
    case keep
    then show ?thesis using A(1) one by (auto simp: join_segs_def no_adjacent_append seg_free_def Let_def split: prod.splits)
  qed
qed

lemma heap_dealloc_segs:
  assumes inv: "hinv base h L" and b: "(b, s, False) \<in> set L"
  shows "\<exists>h'. heap_dealloc (b + 16) h = Some h' \<and> hinv base h' (free_segs b L) \<and> hused h' + s = hused h"
proof -
  note I = hcoreD [OF hinvD(1) [OF inv]]
  obtain L1 L2 where L: "L = L1 @ (b, s, False) # L2" using split_list [OF b] by blast
  note T = tiled_mid [OF I(4,5) [unfolded L]]
  have t: "tiled base L1 b" "tiled (b + s) L2 (base + HEAP_SIZE)" using I(4) L by (auto simp: tiled_append)
  obtain y where c: "fchain (hmem h) (hhead h) (frees L1) y" "fchain (hmem h) y (frees L2) 0" using I(6) L by (auto simp: fchain_append)
  let ?h = "h\<lparr>hused := hused h - s\<rparr>"
  have y: "y = 0 \<or> b \<le> y"
  proof (cases "frees L2")
    case (Cons p F)
    obtain a v where p: "p = (a, v)" by fastforce
    then have "(a, v, True) \<in> set L2" using Cons in_frees [of a v L2] by simp
    then show ?thesis using T(2) c(2) Cons p by fastforce
  qed (use c in simp)
  have lt: "a < b" if "(a, v) \<in> set (frees L1)" for a v using T(1) [of a v True] that by (simp add: in_frees)
  have "dealloc_find b 0 (hhead h) ?h = Some (if frees L1 = [] then 0 else last_addr (frees L1), y)"
    by (rule dealloc_find_spec) (use c lt y in auto)
  then have f: "dealloc_find b 0 (hhead h) ?h = Some (last_addr (frees L1), y)" by (simp add: last_addr_def split: if_splits)
  have s: "hmem h b = s" "s \<le> hused h" "0 < b" using I(7) [OF b] I(8) L T(3) I(2) by auto
  define h1 where "h1 = hlink (last_addr (frees L1)) b (hset (b + 8) y ?h)"
  have h1: "hcore base h1 (L1 @ (b, s, True) # L2)" unfolding h1_def by (rule insert_core [OF _ c]) (use hinvD(1) [OF inv] L in simp)
  have "last_addr (frees L1) + 8 \<noteq> b + 8 \<or> last_addr (frees L1) = 0" using T(1) [OF last_free]
    by (cases "frees L1 = []") (simp add: last_addr_def, fastforce)
  then have y1: "hmem h1 (b + 8) = y" by (auto simp: h1_def)
  let ?h3 = "merge_left b (last_addr (frees L1)) (merge_right b y h1)"
  have "hcore base ?h3 (join_segs L1 b s L2)"
    using merge_left_core [OF merge_right_core [OF h1]] by (simp add: y1 join_segs_def Let_def split_beta)
  moreover have "free_segs b L = join_segs L1 b s L2" unfolding L by (rule free_segs_split) (use T(1) in force)
  moreover have "no_adjacent (join_segs L1 b s L2)" by (rule join_segs_no_adjacent) (use hinvD(2) [OF inv] L in simp)
  moreover have "heap_dealloc (b + 16) h = Some ?h3" using heap_dealloc_steps [OF s(3,1,2) f] by (simp add: h1_def)
  moreover have "hused ?h3 + s = hused h"
    using s(2) by (simp add: h1_def merge_left_def merge_right_def absorb_def Let_def)
  ultimately show ?thesis by (auto simp: hinv_def)
qed

section \<open>Clients\<close>

text \<open>The segments in use, and how allocation and deallocation change them.\<close>

definition lives :: "seg list \<Rightarrow> (nat \<times> nat) set" where "lives L = {(b, s). (b, s, False) \<in> set L}"

lemma lives_simps [simp]:
  "lives [] = {}" "lives ((b, s, f) # L) = (if f then lives L else insert (b, s) (lives L))" "lives (L1 @ L2) = lives L1 \<union> lives L2"
  by (auto simp: lives_def)

lemma alloc_segs_lives:
  assumes "alloc_segs align psz L = Some (p, L')" "tiled base L e" "segs_ok L" "16 dvd base" "16 dvd align" "0 < align"
  shows "align dvd p \<and> base + 16 \<le> p \<and> (\<exists>s. lives L' = insert (p - 16, s) (lives L) \<and> psz + 16 \<le> s)"
  using assms(1-4)
proof (induction L arbitrary: L' base)
  case (Cons x L)
  obtain b s f where x: "x = (b, s, f)" by (cases x)
  have b: "b = base" "16 dvd base + s" "tiled (base + s) L e" "segs_ok L" using Cons.prems x by auto
  show ?case
  proof (cases "f \<and> place align b + psz \<le> b + s")
    case True
    then have L': "p = place align b" "L' = carve_segs align psz b s @ L" using Cons.prems(1) x by auto
    note P = place_props [OF assms(5,6), of b]
    let ?e = "if b + s - (p + psz) < MIN_FREE then b + s else p + psz"
    have "lives (carve_segs align psz b s) = {(p - 16, ?e - (p - 16))}" using L'(1) by (simp add: carve_segs_def Let_def HDR_def)
    moreover have "psz + 16 \<le> ?e - (p - 16)" using P(3) True L'(1) b(1) Cons.prems(4) by auto
    ultimately show ?thesis using L' P b x True Cons.prems(4) by auto
  next
    case False
    then obtain L'' where L': "alloc_segs align psz L = Some (p, L'')" "L' = x # L''" using Cons.prems(1) x by auto
    from Cons.IH [OF L'(1) b(3,4,2)] show ?thesis using L'(2) x by auto
  qed
qed simp

lemma free_segs_lives:
  assumes inv: "hinv base h L" and b: "(b, s) \<in> lives L"
  shows "lives (free_segs b L) = lives L - {(b, s)}"
proof -
  note I = hcoreD [OF hinvD(1) [OF inv]]
  obtain L1 L2 where L: "L = L1 @ (b, s, False) # L2" using split_list [of "(b, s, False)" L] b by (auto simp: lives_def)
  note T = tiled_mid [OF I(4,5) [unfolded L]]
  have "free_segs b L = join_segs L1 b s L2" unfolding L by (rule free_segs_split) (use T(1) in force)
  moreover have "lives (join_segs L1 b s L2) = lives L1 \<union> lives L2"
  proof -
    have "lives (snd (right_part L2)) = lives L2" by (cases rule: right_part_cases [of L2]) auto
    moreover have "lives (butlast L1) = lives L1" if "L1 \<noteq> []" "seg_free (last L1)"
      using that by (cases rule: left_part_cases [of L1]) auto
    ultimately show ?thesis by (auto simp: join_segs_def split_beta Let_def)
  qed
  moreover have "(b, s) \<notin> lives L1 \<union> lives L2"
    using T(1) [of b s False] T(2) [of b s False] I(5) L by (auto simp: lives_def)
  ultimately show ?thesis unfolding L by auto
qed

lemma lives_disjoint:
  assumes "tiled a L e" "segs_ok L" "(b, s) \<in> lives L" "(c, t) \<in> lives L" "b < c"
  shows "b + s \<le> c"
proof -
  obtain L1 L2 where L: "L = L1 @ (b, s, False) # L2" using split_list [of "(b, s, False)" L] assms(3) by (auto simp: lives_def)
  note T = tiled_mid [OF assms(1,2) [unfolded L]]
  have "(c, t, False) \<in> set L1 \<union> set L2" using assms(4,5) L by (auto simp: lives_def)
  then show ?thesis using T(1) [of c t False] T(2) [of c t False] assms(5) by auto
qed

text \<open>The kernel as the client of its heap: any sequence of allocations, writes into live payloads and
  deallocations of live payloads. The second argument maps each live payload to the alignment and size
  that were asked for.\<close>

type_synonym live_map = "nat \<Rightarrow> (nat \<times> nat) option"

inductive heap_run :: "nat \<Rightarrow> heap_state \<Rightarrow> live_map \<Rightarrow> bool" for base :: nat where
  start: "heap_run base (heap_new w) (\<lambda>_. None)"
| allocated: "heap_run base h A \<Longrightarrow> heap_alloc base (2 ^ k) sz h = Some (p, h') \<Longrightarrow> p \<noteq> 0 \<Longrightarrow> heap_run base h' (A(p \<mapsto> (2 ^ k, sz)))"
| refused: "heap_run base h A \<Longrightarrow> heap_alloc base (2 ^ k) sz h = Some (0, h') \<Longrightarrow> heap_run base h' A"
| freed: "heap_run base h A \<Longrightarrow> A p \<noteq> None \<Longrightarrow> heap_dealloc p h = Some h' \<Longrightarrow> heap_run base h' (A(p := None))"
| stored: "heap_run base h A \<Longrightarrow> A p = Some (al, sz) \<Longrightarrow> (\<forall>a. a \<notin> {p..<p + sz} \<longrightarrow> m a = hmem h a) \<Longrightarrow> heap_run base (h\<lparr>hmem := m\<rparr>) A"

definition run_inv :: "nat \<Rightarrow> heap_state \<Rightarrow> live_map \<Rightarrow> seg list \<Rightarrow> bool" where
  "run_inv base h A L \<longleftrightarrow> hinv base (heap_setup base h) L \<and> (hinit h \<or> A = Map.empty) \<and>
     (\<forall>p al sz. A p = Some (al, sz) \<longrightarrow> al dvd p \<and> 16 \<le> p \<and> (\<exists>s. (p - 16, s) \<in> lives L \<and> sz + 16 \<le> s)) \<and>
     (\<forall>b s. (b, s) \<in> lives L \<longrightarrow> A (b + 16) \<noteq> None)"

lemma run_invD:
  assumes "run_inv base h A L"
  shows "hinv base (heap_setup base h) L" "hinit h \<or> A = Map.empty"
    "\<And>p al sz. A p = Some (al, sz) \<Longrightarrow> al dvd p \<and> 16 \<le> p \<and> (\<exists>s. (p - 16, s) \<in> lives L \<and> sz + 16 \<le> s)"
    "\<And>b s. (b, s) \<in> lives L \<Longrightarrow> A (b + 16) \<noteq> None"
  using assms by (auto simp: run_inv_def)

lemma alloc_cases [consumes 1, case_names none some]:
  assumes inv: "hinv base (heap_setup base h) L"
  obtains (none) h' where "heap_alloc base (2 ^ k) sz h = Some (0, h')" "h' = heap_setup base h"
      "alloc_segs (max (2 ^ k) 16) (round_up (max sz 1) 16) L = None"
  | (some) p h' L' s where "heap_alloc base (2 ^ k) sz h = Some (p, h')" "hinv base h' L'" "2 ^ k dvd p" "base + 16 \<le> p"
      "lives L' = insert (p - 16, s) (lives L)" "sz + 16 \<le> s"
      "alloc_segs (max (2 ^ k) 16) (round_up (max sz 1) 16) L = Some (p, L')"
proof -
  note I = hcoreD [OF hinvD(1) [OF inv]]
  let ?a = "max (2 ^ k) (16 :: nat)" and ?s = "round_up (max sz 1) 16"
  obtain p h' where h': "heap_alloc base (2 ^ k) sz h = Some (p, h')"
    and c: "case alloc_segs ?a ?s L of None \<Rightarrow> p = 0 \<and> h' = heap_setup base h | Some (q, L') \<Rightarrow> p = q \<and> hinv base h' L'"
    using heap_alloc_segs [OF inv refl, of k sz] by blast
  show thesis
  proof (cases "alloc_segs ?a ?s L")
    case None
    then show thesis using none h' c by simp
  next
    case (Some r)
    then obtain L' where r: "r = (p, L')" "hinv base h' L'" using c by (cases r) auto
    obtain s where s: "?a dvd p" "base + 16 \<le> p" "lives L' = insert (p - 16, s) (lives L)" "?s + 16 \<le> s"
      using alloc_segs_lives [OF Some [unfolded r(1)] I(4,5,3) max_align(1) max_align(3)] by blast
    have "2 ^ k dvd p" using max_align(2) s(1) by (rule dvd_trans)
    moreover have "sz + 16 \<le> s" using round_up_props(1) [of 16 "max sz 1"] s(4) by simp
    ultimately show thesis by (intro some [OF h' r(2) _ s(2,3) _ Some [unfolded r(1)]])
  qed
qed

lemma run_inv_alloc:
  assumes inv: "run_inv base h A L" and a: "heap_alloc base (2 ^ k) sz h = Some (p, h')"
  shows "\<exists>L'. run_inv base h' (if p = 0 then A else A(p \<mapsto> (2 ^ k, sz))) L'"
proof -
  note R = run_invD [OF inv]
  from R(1) show ?thesis
  proof (cases rule: alloc_cases [where k = k and sz = sz])
    case (none h2)
    then have e: "p = 0" "h' = heap_setup base h" using a by auto
    have "hinit h'" using e hcoreD(1) [OF hinvD(1) [OF R(1)]] by simp
    then show ?thesis using inv e by (auto simp: run_inv_def heap_setup_done)
  next
    case (some q h2 L' s)
    then have e: "q = p" "h2 = h'" "p \<noteq> 0" using a by auto
    have i: "hinit h'" using hcoreD(1) [OF hinvD(1) [OF some(2)]] e by simp
    have "run_inv base h' (A(p \<mapsto> (2 ^ k, sz))) L'"
      using some R(3,4) i e unfolding run_inv_def by (auto simp: heap_setup_done) blast
    then show ?thesis using e by auto
  qed
qed

lemma run_inv_free:
  assumes inv: "run_inv base h A L" and a: "A p \<noteq> None"
  shows "\<exists>h' L'. heap_dealloc p h = Some h' \<and> run_inv base h' (A(p := None)) L'"
proof -
  note R = run_invD [OF inv]
  obtain al sz where p: "A p = Some (al, sz)" using a by auto
  obtain s where s: "16 \<le> p" "(p - 16, s) \<in> lives L" using R(3) [OF p] by blast
  have i: "hinv base h L" using R(1,2) a by (auto simp: heap_setup_done)
  have "(p - 16, s, False) \<in> set L" using s(2) by (simp add: lives_def)
  from heap_dealloc_segs [OF i this] obtain h' where h': "heap_dealloc p h = Some h'" "hinv base h' (free_segs (p - 16) L)"
    using s(1) by auto
  note F = free_segs_lives [OF i s(2)]
  have ih: "hinit h'" using hcoreD(1) [OF hinvD(1) [OF h'(2)]] .
  have "run_inv base h' (A(p := None)) (free_segs (p - 16) L)"
    unfolding run_inv_def F
  proof (intro conjI allI impI)
    show "hinv base (heap_setup base h') (free_segs (p - 16) L)" using h'(2) ih by (simp add: heap_setup_done)
    show "hinit h' \<or> A(p := None) = Map.empty" using ih by simp
    fix q al sz assume q: "(A(p := None)) q = Some (al, sz)"
    then have q': "q \<noteq> p" "A q = Some (al, sz)" by (auto split: if_splits)
    then show "al dvd q" "16 \<le> q" using R(3) by auto
    then have "q - 16 \<noteq> p - 16" using q'(1) s(1) by auto
    then show "\<exists>sa. (q - 16, sa) \<in> lives L - {(p - 16, s)} \<and> sz + 16 \<le> sa" using R(3) [OF q'(2)] by auto
  next
    fix b t assume b: "(b, t) \<in> lives L - {(p - 16, s)}"
    have "b \<noteq> p - 16"
    proof
      assume "b = p - 16"
      moreover have "lives L \<subseteq> {(b, s). hmem h b = s}" using hcoreD(7) [OF hinvD(1) [OF i]] by (auto simp: lives_def)
      ultimately show False using b s(2) by auto
    qed
    then show "(A(p := None)) (b + 16) \<noteq> None" using R(4) [of b t] b s(1) by auto
  qed
  then show ?thesis using h'(1) by blast
qed

text \<open>A write into a live payload meets neither a header nor a free node.\<close>

lemma run_inv_store:
  assumes inv: "run_inv base h A L" and a: "A p = Some (al, sz)" and m: "\<And>a. a \<notin> {p..<p + sz} \<Longrightarrow> m a = hmem h a"
  shows "run_inv base (h\<lparr>hmem := m\<rparr>) A L"
proof -
  note R = run_invD [OF inv]
  obtain s where s: "16 \<le> p" "(p - 16, s) \<in> lives L" "sz + 16 \<le> s" using R(3) [OF a] by blast
  have i: "hinv base h L" and ih: "hinit h" using R(1,2) a by (auto simp: heap_setup_done)
  note I = hcoreD [OF hinvD(1) [OF i]]
  obtain L1 L2 where L: "L = L1 @ (p - 16, s, False) # L2" using split_list [of "(p - 16, s, False)" L] s(2) by (auto simp: lives_def)
  note T = tiled_mid [OF I(4,5) [unfolded L]]
  have same: "m c = hmem h c \<and> (f \<or> c \<noteq> p - 16 \<longrightarrow> m (c + 8) = hmem h (c + 8))" if c: "(c, t, f) \<in> set L" for c t f
  proof -
    consider "c = p - 16" "\<not> f" | "(c, t, f) \<in> set L1" | "(c, t, f) \<in> set L2" using c L by auto
    then show ?thesis
    proof cases
      case 1
      then show ?thesis using m [of c] s(1) by auto
    next
      case 2
      then have "c + 8 < p" using T(1) [OF 2] s(1) by linarith
      then show ?thesis using m [of c] m [of "c + 8"] by simp
    next
      case 3
      then have "p + sz \<le> c" using T(2) [OF 3] s by linarith
      then show ?thesis using m [of c] m [of "c + 8"] by simp
    qed
  qed
  have "fchain m (hhead h) (frees L) 0 = fchain (hmem h) (hhead h) (frees L) 0"
  proof (rule fchain_cong)
    fix a t assume "(a, t) \<in> set (frees L)"
    then show "m a = hmem h a \<and> m (a + 8) = hmem h (a + 8)" using same [of a t True] by (simp add: in_frees)
  qed
  moreover have "m c = t" if "(c, t, False) \<in> set L" for c t using same [OF that] I(7) [OF that] by simp
  ultimately have "hinv base (h\<lparr>hmem := m\<rparr>) L" using i unfolding hinv_def hcore_def by auto
  then show ?thesis using inv ih by (simp add: run_inv_def heap_setup_done)
qed

lemma heap_run_inv:
  assumes "heap_run base h A" "0 < base" "16 dvd base"
  shows "\<exists>L. run_inv base h A L"
  using assms(1)
proof induction
  case (start w)
  have "run_inv base (heap_new w) Map.empty [(base, HEAP_SIZE, True)]"
    using heap_setup_inv [OF assms(2,3)] by (simp add: run_inv_def)
  then show ?case by blast
next
  case (allocated h A k sz p h')
  then obtain L where L: "run_inv base h A L" by blast
  show ?case using run_inv_alloc [OF L allocated.hyps(2)] allocated.hyps(3) by (simp add: fun_upd_def)
next
  case (refused h A k sz h')
  then obtain L where L: "run_inv base h A L" by blast
  show ?case using run_inv_alloc [OF L refused.hyps(2)] by simp
next
  case (freed h A p h')
  then obtain L where L: "run_inv base h A L" by blast
  show ?case using run_inv_free [OF L freed.hyps(2)] freed.hyps(3) by (simp add: fun_upd_def)
next
  case (stored h A p al sz m)
  then obtain L where "run_inv base h A L" by blast
  from run_inv_store [OF this, of p al sz m] have "run_inv base (h\<lparr>hmem := m\<rparr>) A L" using stored.hyps(2,3) by blast
  then show ?case by blast
qed

lemma all_free_single:
  assumes "tiled a L e" "lives L = {}" "no_adjacent L" "a < e"
  shows "L = [(a, e - a, True)]"
proof (cases L)
  case (Cons x R)
  obtain b s f where x: "x = (b, s, f)" by (cases x)
  have f: "f" "b = a" "tiled (a + s) R e" using assms(1,2) Cons x by (auto split: if_splits)
  have "R = []"
  proof (cases R)
    case (Cons y R')
    obtain c t g where "y = (c, t, g)" by (cases y)
    then show ?thesis using assms(2,3) f \<open>L = x # R\<close> x Cons by (auto split: if_splits)
  qed
  then show ?thesis using Cons x f by auto
qed (use assms in simp)

section \<open>Properties\<close>

text \<open>C15. The heap never hangs and never trips its accounting assertion: in every state the kernel can
  bring the heap to, an allocation of any size and any power-of-two alignment returns, and so does the
  deallocation of any live payload. Both walk a linked list in memory that the kernel writes next to.\<close>

theorem heap_calls_return:
  assumes "heap_run base h A" "0 < base" "16 dvd base"
  shows "(\<exists>p h'. heap_alloc base (2 ^ k) sz h = Some (p, h')) \<and> (A q \<noteq> None \<longrightarrow> (\<exists>h'. heap_dealloc q h = Some h'))"
proof -
  obtain L where L: "run_inv base h A L" using heap_run_inv [OF assms] by blast
  from run_invD(1) [OF L] have "\<exists>p h'. heap_alloc base (2 ^ k) sz h = Some (p, h')"
    by (cases rule: alloc_cases [where k = k and sz = sz]) auto
  then show ?thesis using run_inv_free [OF L] by blast
qed

text \<open>C14. Live payloads never overlap: after any run of allocations, deallocations and writes into live
  payloads, every live payload has the alignment that was asked for, lies inside the arena behind its
  header, and shares no byte with another live payload.\<close>

theorem live_payloads_disjoint:
  assumes "heap_run base h A" "0 < base" "16 dvd base" "A p = Some (al, sz)"
  shows "al dvd p \<and> base + 16 \<le> p \<and> p + sz \<le> base + HEAP_SIZE \<and>
    (\<forall>q al' sz'. A q = Some (al', sz') \<longrightarrow> p \<noteq> q \<longrightarrow> {p..<p + sz} \<inter> {q..<q + sz'} = {})"
proof -
  obtain L where L: "run_inv base h A L" using heap_run_inv [OF assms(1-3)] by blast
  note R = run_invD [OF L]
  note I = hcoreD [OF hinvD(1) [OF R(1)]]
  obtain s where s: "al dvd p" "16 \<le> p" "(p - 16, s) \<in> lives L" "sz + 16 \<le> s" using R(3) [OF assms(4)] by blast
  have "(p - 16, s, False) \<in> set L" using s(3) by (simp add: lives_def)
  from tiled_range [OF I(4) this] have "base \<le> p - 16 \<and> p - 16 + s \<le> base + HEAP_SIZE" .
  moreover have "{p..<p + sz} \<inter> {q..<q + sz'} = {}" if q: "A q = Some (al', sz')" "p \<noteq> q" for q al' sz'
  proof -
    obtain t where t: "16 \<le> q" "(q - 16, t) \<in> lives L" "sz' + 16 \<le> t" using R(3) [OF q(1)] by blast
    have "p - 16 + s \<le> q - 16 \<or> q - 16 + t \<le> p - 16"
      using lives_disjoint [OF I(4,5) s(3) t(2)] lives_disjoint [OF I(4,5) t(2) s(3)] q(2) s(2) t(1) by linarith
    then have "p + sz \<le> q \<or> q + sz' \<le> p" using s(2,4) t(1,3) by linarith
    then show ?thesis by auto
  qed
  ultimately show ?thesis using s by auto
qed

text \<open>C16. Freed memory comes back whole: once every payload has been freed, in whatever order, the free
  list of an initialised heap is again the single block that covers the arena, no bytes are accounted as
  used, and a request for everything but one header succeeds.\<close>

theorem heap_coalesces:
  assumes "heap_run base h Map.empty" "0 < base" "16 dvd base" "hinit h"
  shows "hhead h = base \<and> hmem h base = HEAP_SIZE \<and> hmem h (base + 8) = 0 \<and> hused h = 0 \<and>
    (\<exists>h'. heap_alloc base (2 ^ 4) (HEAP_SIZE - 16) h = Some (base + 16, h'))"
proof -
  obtain L where L: "run_inv base h Map.empty L" using heap_run_inv [OF assms(1-3)] by blast
  note R = run_invD [OF L]
  have i: "hinv base h L" using R(1) assms(4) by (simp add: heap_setup_done)
  note I = hcoreD [OF hinvD(1) [OF i]]
  have "lives L = {}" using R(4) by fastforce
  from all_free_single [OF I(4) this hinvD(2) [OF i]] have L: "L = [(base, HEAP_SIZE, True)]" by (simp add: HEAP_SIZE_def)
  have "round_up (HEAP_SIZE - 16) 16 = HEAP_SIZE - 16" by (simp add: HEAP_SIZE_def round_up_def)
  moreover have "place 16 base = base + 16" using round_up_props(3) [of 16 "base + 16"] assms(3) by (simp add: place_def HDR_def Let_def)
  ultimately have "alloc_segs (max (2 ^ 4) 16) (round_up (max (HEAP_SIZE - 16) 1) 16) L \<noteq> None"
    and p: "fst (the (alloc_segs (max (2 ^ 4) 16) (round_up (max (HEAP_SIZE - 16) 1) 16) L)) = base + 16"
    unfolding L by (simp_all add: HEAP_SIZE_def)
  with R(1) have "\<exists>h'. heap_alloc base (2 ^ 4) (HEAP_SIZE - 16) h = Some (base + 16, h')"
    by (cases rule: alloc_cases [where k = 4 and sz = "HEAP_SIZE - 16"]) auto
  then show ?thesis using I(6,8) by (simp add: L)
qed

text \<open>A run that allocates a page-sized payload at 4096-byte alignment.\<close>

definition demo_heap :: heap_state where
  "demo_heap = heap_setup 4096 (heap_new (\<lambda>_. 0))"

lemma demo_run: "heap_run 4096 demo_heap Map.empty"
proof -
  have "heap_alloc 4096 (2 ^ 0) (HEAP_SIZE + 1) (heap_new (\<lambda>_. 0)) = Some (0, demo_heap)"
    by (simp add: heap_alloc_def demo_heap_def heap_setup_def heap_new_def hset_def Let_def HEAP_SIZE_def UNIT_def HDR_def MIN_FREE_def
        round_up_def place_def alloc_scan.simps)
  from heap_run.refused [OF heap_run.start this] show ?thesis .
qed

definition demo_heap2 :: heap_state where
  "demo_heap2 = carve 0 4096 8192 12288 demo_heap"

lemma demo_run2: "heap_run 4096 demo_heap2 [8192 \<mapsto> (4096, 4096)]"
proof -
  have "heap_alloc 4096 (2 ^ 12) 4096 demo_heap = Some (8192, demo_heap2)"
    by (simp add: heap_alloc_def demo_heap2_def demo_heap_def heap_setup_def heap_new_def hset_def Let_def HEAP_SIZE_def UNIT_def HDR_def MIN_FREE_def
        round_up_def place_def alloc_scan.simps)
  from heap_run.allocated [OF demo_run this] show ?thesis by simp
qed

theorem heap_calls_return_witness:
  "(\<exists>p h'. heap_alloc 4096 (2 ^ 5) 100 demo_heap2 = Some (p, h')) \<and> (\<exists>h'. heap_dealloc 8192 demo_heap2 = Some h')"
  using heap_calls_return [OF demo_run2, of 5 100 8192] by simp

text \<open>A second allocation is served from the gap that the alignment of the first left below it.\<close>

definition demo_heap3 :: heap_state where
  "demo_heap3 = carve 0 4096 4112 4224 demo_heap2"

lemma demo_run3: "heap_run 4096 demo_heap3 [8192 \<mapsto> (4096, 4096), 4112 \<mapsto> (16, 100)]"
proof -
  have "heap_alloc 4096 (2 ^ 4) 100 demo_heap2 = Some (4112, demo_heap3)"
    by (simp add: heap_alloc_def demo_heap3_def demo_heap2_def carve_def demo_heap_def heap_setup_def heap_new_def hset_def Let_def
        HEAP_SIZE_def UNIT_def HDR_def MIN_FREE_def round_up_def place_def alloc_scan.simps)
  from heap_run.allocated [OF demo_run2 this] show ?thesis by simp
qed

theorem live_payloads_disjoint_witness:
  "heap_run 4096 demo_heap3 [8192 \<mapsto> (4096, 4096), 4112 \<mapsto> (16, 100)] \<and>
   4112 + 100 \<le> 4096 + HEAP_SIZE \<and> {4112..<4112 + 100} \<inter> {8192..<8192 + 4096 :: nat} = {}"
proof -
  let ?A = "[8192 \<mapsto> (4096, 4096), 4112 \<mapsto> (16, 100)] :: live_map"
  have "4112 + 100 \<le> 4096 + HEAP_SIZE \<and>
    (\<forall>q al sz. ?A q = Some (al, sz) \<longrightarrow> 4112 \<noteq> q \<longrightarrow> {4112..<4112 + 100} \<inter> {q..<q + sz} = {})"
    using live_payloads_disjoint [OF demo_run3, of 4112 16 100] by simp
  then have "4112 + 100 \<le> 4096 + HEAP_SIZE" and "{4112..<4112 + 100} \<inter> {8192..<8192 + 4096 :: nat} = {}"
    by (blast, simp only: fun_upd_apply) (elim conjE allE [where x = 8192] allE [where x = 4096], simp)
  with demo_run3 show ?thesis by blast
qed

theorem heap_coalesces_witness: "hhead demo_heap = 4096 \<and> (\<exists>h'. heap_alloc 4096 (2 ^ 4) (HEAP_SIZE - 16) demo_heap = Some (4112, h'))"
  using heap_coalesces [OF demo_run] by (simp add: demo_heap_def heap_setup_def)

end
