(* ===== verification/Cpu.thy ===== *)
theory Cpu
  imports Prelude
begin

unbundle bit_operations_syntax

text \<open>
  Per-hart state (\<open>cpu.rs\<close>) and the interrupt-aware spin lock (\<open>sync.rs\<close>). A hart is a
  record of its interrupt-enable bit and the fields of \<open>Cpu\<close>; \<open>push_off\<close> and \<open>pop_off\<close> are
  the nested interrupt disabling. The lock is a step relation over all harts, one step per
  atomic access (interrupts off, compare-exchange, store of \<open>locked\<close>, interrupts back), so
  every interleaving of the harts is a run. The properties: nested disabling restores the
  interrupt state it found, a lock has one holder, and a hart holding a lock has
  interrupts off.
\<close>

section \<open>The per-CPU record\<close>

definition MAX_CPUS :: nat where "MAX_CPUS = 8"

record cpu =
  intr :: bool
  noff :: nat
  intena :: bool
  current_proc :: "nat option"
  user_target :: "nat option"

definition cpu_new :: cpu where
  "cpu_new = \<lparr>intr = False, noff = 0, intena = False, current_proc = None, user_target = None\<rparr>"

definition init_this_hart :: "nat \<Rightarrow> 64 word \<Rightarrow> 64 word" where
  "init_this_hart i active = active OR push_bit i 1"

definition push_off :: "cpu \<Rightarrow> cpu" where
  "push_off c = (
     let enabled = intr c; c = c\<lparr>intr := False\<rparr>;
         c = (if noff c = 0 then c\<lparr>intena := enabled\<rparr> else c)
     in c\<lparr>noff := noff c + 1\<rparr>)"

text \<open>The two debug assertions of \<open>pop_off\<close> are panics.\<close>

definition pop_off :: "cpu \<Rightarrow> cpu option" where
  "pop_off c = (
     if intr c then None
     else let prev = noff c; c' = c\<lparr>noff := prev - 1\<rparr> in
       if prev < 1 then None
       else Some (if prev = 1 \<and> intena c' then c'\<lparr>intr := True\<rparr> else c'))"

definition set_current_proc :: "nat option \<Rightarrow> cpu \<Rightarrow> cpu" where
  "set_current_proc p c = c\<lparr>current_proc := p\<rparr>"

definition set_user_target :: "nat \<Rightarrow> cpu \<Rightarrow> cpu" where
  "set_user_target p c = c\<lparr>user_target := Some p\<rparr>"

definition take_user_target :: "cpu \<Rightarrow> nat option \<times> cpu" where
  "take_user_target c = (user_target c, c\<lparr>user_target := None\<rparr>)"

datatype off_op = PushOff | PopOff

fun off_run :: "off_op list \<Rightarrow> cpu \<Rightarrow> cpu option" where
  "off_run [] c = Some c"
| "off_run (PushOff # ops) c = off_run ops (push_off c)"
| "off_run (PopOff # ops) c = do { c \<leftarrow> pop_off c; off_run ops c }"

section \<open>The spin lock\<close>

text \<open>Where a hart is inside \<open>SpinLock::lock\<close> and the guard's \<open>Drop\<close>: running, spinning for a
  lock, or past the store of \<open>false\<close> and before \<open>pop_off\<close>.\<close>

datatype lock_pc = Run | Spin nat | Popping

record lock_state =
  harts :: "nat \<Rightarrow> cpu"
  pc :: "nat \<Rightarrow> lock_pc"
  locked :: "nat \<Rightarrow> bool"
  guards :: "nat \<Rightarrow> nat list"

definition lock_init :: lock_state where
  "lock_init = \<lparr>harts = (\<lambda>_. cpu_new), pc = (\<lambda>_. Run), locked = (\<lambda>_. False), guards = (\<lambda>_. [])\<rparr>"

definition lock_enter :: "nat \<Rightarrow> nat \<Rightarrow> lock_state \<Rightarrow> lock_state" where
  "lock_enter h l s = s\<lparr>harts := (harts s)(h := push_off (harts s h)), pc := (pc s)(h := Spin l)\<rparr>"

definition lock_cas :: "nat \<Rightarrow> nat \<Rightarrow> lock_state \<Rightarrow> lock_state" where
  "lock_cas h l s =
     (if locked s l then s
      else s\<lparr>locked := (locked s)(l := True), pc := (pc s)(h := Run),
             guards := (guards s)(h := l # guards s h)\<rparr>)"

definition guard_drop :: "nat \<Rightarrow> nat \<Rightarrow> lock_state \<Rightarrow> lock_state" where
  "guard_drop h l s =
     s\<lparr>locked := (locked s)(l := False), pc := (pc s)(h := Popping),
       guards := (guards s)(h := remove1 l (guards s h))\<rparr>"

definition guard_pop :: "nat \<Rightarrow> lock_state \<Rightarrow> lock_state option" where
  "guard_pop h s = map_option
     (\<lambda>c. s\<lparr>harts := (harts s)(h := c), pc := (pc s)(h := Run)\<rparr>) (pop_off (harts s h))"

text \<open>One step of some hart. Code outside any lock (and only there) may switch interrupts.\<close>

inductive lock_step :: "lock_state \<Rightarrow> lock_state \<Rightarrow> bool" where
  enter: "pc s h = Run \<Longrightarrow> lock_step s (lock_enter h l s)"
| cas: "pc s h = Spin l \<Longrightarrow> lock_step s (lock_cas h l s)"
| unlock: "pc s h = Run \<Longrightarrow> l \<in> set (guards s h) \<Longrightarrow> lock_step s (guard_drop h l s)"
| pop: "pc s h = Popping \<Longrightarrow> guard_pop h s = Some s' \<Longrightarrow> lock_step s s'"
| switch: "pc s h = Run \<Longrightarrow> guards s h = [] \<Longrightarrow>
    lock_step s (s\<lparr>harts := (harts s)(h := (harts s h)\<lparr>intr := v\<rparr>)\<rparr>)"

inductive lock_reach :: "lock_state \<Rightarrow> bool" where
  init: "lock_reach lock_init"
| more: "lock_reach s \<Longrightarrow> lock_step s s' \<Longrightarrow> lock_reach s'"

section \<open>Nested interrupt disabling\<close>

lemma push_off_simps [simp]:
  "intr (push_off c) = False" "noff (push_off c) = noff c + 1"
  "intena (push_off c) = (if noff c = 0 then intr c else intena c)"
  by (simp_all add: push_off_def Let_def)

lemma pop_off_Some:
  "pop_off c = Some c' \<longleftrightarrow> \<not> intr c \<and> 0 < noff c \<and>
     c' = c\<lparr>noff := noff c - 1, intr := noff c = 1 \<and> intena c\<rparr>"
  by (auto simp: pop_off_def Let_def)

text \<open>\<open>saved v c\<close>: the interrupt state found by the outermost \<open>push_off\<close> is \<open>v\<close>.\<close>

definition saved :: "bool \<Rightarrow> cpu \<Rightarrow> bool" where
  "saved v c \<longleftrightarrow> (if noff c = 0 then intr c = v else \<not> intr c \<and> intena c = v)"

lemma saved_push: "saved v c \<Longrightarrow> saved v (push_off c)"
  by (simp add: saved_def split: if_splits)

lemma saved_pop: "saved v c \<Longrightarrow> pop_off c = Some c' \<Longrightarrow> saved v c'"
  by (auto simp: saved_def pop_off_Some split: if_splits)

lemma saved_run: "saved v c \<Longrightarrow> off_run ops c = Some c' \<Longrightarrow> saved v c'"
proof (induction ops c rule: off_run.induct)
  case (2 ops c)
  then show ?case using saved_push by simp
next
  case (3 ops c)
  then obtain c1 where "pop_off c = Some c1" "off_run ops c1 = Some c'"
    by (auto split: bind_splits)
  with 3 show ?case using saved_pop by blast
qed simp

text \<open>Any nesting of \<open>push_off\<close> and \<open>pop_off\<close> that brings the depth counter of a hart back
  to zero leaves its interrupt-enable bit as the first \<open>push_off\<close> found it.\<close>

lemma push_pop_off_restores:
  assumes "noff c = 0" and "off_run ops c = Some c'" and "noff c' = 0"
  shows "intr c' = intr c"
  using saved_run [of "intr c" c ops c'] assms by (simp add: saved_def)

section \<open>Mutual exclusion\<close>

definition depth :: "lock_state \<Rightarrow> nat \<Rightarrow> nat" where
  "depth s h = length (guards s h) + (if pc s h = Run then 0 else 1)"

definition lock_inv :: "lock_state \<Rightarrow> bool" where
  "lock_inv s \<longleftrightarrow>
     (\<forall>h. noff (harts s h) = depth s h \<and> distinct (guards s h) \<and>
          (0 < depth s h \<longrightarrow> \<not> intr (harts s h))) \<and>
     (\<forall>h l. l \<in> set (guards s h) \<longrightarrow> locked s l) \<and>
     (\<forall>h h' l. l \<in> set (guards s h) \<longrightarrow> l \<in> set (guards s h') \<longrightarrow> h = h')"

lemma lock_inv_init: "lock_inv lock_init"
  by (simp add: lock_inv_def lock_init_def depth_def cpu_new_def)

lemma lock_inv_enter: "lock_inv s \<Longrightarrow> pc s h = Run \<Longrightarrow> lock_inv (lock_enter h l s)"
  by (simp add: lock_inv_def lock_enter_def depth_def)

lemma lock_inv_cas: "lock_inv s \<Longrightarrow> pc s h = Spin l \<Longrightarrow> lock_inv (lock_cas h l s)"
  unfolding lock_inv_def lock_cas_def depth_def by (auto simp: Let_def)

lemma lock_inv_drop:
  assumes inv: "lock_inv s" and pc: "pc s h = Run" and l: "l \<in> set (guards s h)"
  shows "lock_inv (guard_drop h l s)"
proof -
  let ?s = "guard_drop h l s"
  have d: "distinct (guards s k)" for k using inv by (simp add: lock_inv_def)
  have own: "h = k" if "l \<in> set (guards s k)" for k using inv l that unfolding lock_inv_def by blast
  have harts: "harts ?s = harts s" by (simp add: guard_drop_def)
  have g: "set (guards ?s k) = set (guards s k) - {l}" for k
    using d [of k] own [of k] by (auto simp: guard_drop_def)
  have "length (remove1 l (guards s h)) + 1 = length (guards s h)"
    using length_pos_if_in_set [OF l] l by (simp add: length_remove1)
  then have dep: "depth ?s k = depth s k" for k using pc by (simp add: depth_def guard_drop_def)
  have "distinct (guards ?s k)" for k using d [of k] d [of h] by (simp add: guard_drop_def)
  moreover have "locked ?s m" if "m \<in> set (guards ?s k)" for k m
    using that inv unfolding g by (auto simp: guard_drop_def lock_inv_def)
  ultimately show ?thesis using inv unfolding lock_inv_def harts dep g by blast
qed

lemma lock_inv_pop:
  assumes inv: "lock_inv s" and pc: "pc s h = Popping" and s': "guard_pop h s = Some s'"
  shows "lock_inv s'"
proof -
  have n: "noff (harts s h) = Suc (length (guards s h))"
    using inv pc by (simp add: lock_inv_def depth_def)
  obtain c where c: "pop_off (harts s h) = Some c"
    "s' = s\<lparr>harts := (harts s)(h := c), pc := (pc s)(h := Run)\<rparr>"
    using s' by (auto simp: guard_pop_def)
  have "c = (harts s h)\<lparr>noff := length (guards s h), intr := guards s h = [] \<and> intena (harts s h)\<rparr>"
    using c(1) n by (auto simp: pop_off_Some)
  then show ?thesis using inv pc c(2) by (auto simp: lock_inv_def depth_def)
qed

lemma lock_inv_step: "lock_step s s' \<Longrightarrow> lock_inv s \<Longrightarrow> lock_inv s'"
proof (induction rule: lock_step.induct)
  case (switch s h v)
  then show ?case by (auto simp: lock_inv_def depth_def)
qed (simp_all add: lock_inv_enter lock_inv_cas lock_inv_drop lock_inv_pop)

lemma lock_inv_reach: "lock_reach s \<Longrightarrow> lock_inv s"
  by (induction rule: lock_reach.induct) (use lock_inv_init lock_inv_step in blast)+

text \<open>C40. In every interleaving of the harts, two harts never hold the same spin lock, a hart
  that holds a lock or spins for one has interrupts disabled (so a trap handler cannot deadlock
  on a lock its own hart holds), and the guard's \<open>pop_off\<close> never panics.\<close>

theorem spinlock_safe:
  assumes "lock_reach s"
  shows "(l \<in> set (guards s h) \<longrightarrow> l \<in> set (guards s h') \<longrightarrow> h = h') \<and>
    (guards s h \<noteq> [] \<or> pc s h \<noteq> Run \<longrightarrow> \<not> intr (harts s h)) \<and>
    (pc s h = Popping \<longrightarrow> guard_pop h s \<noteq> None)"
proof -
  have inv: "lock_inv s" using assms by (rule lock_inv_reach)
  have "pop_off (harts s h) \<noteq> None" if "pc s h = Popping"
  proof -
    have "\<not> intr (harts s h)" "0 < noff (harts s h)" using inv that by (simp_all add: lock_inv_def depth_def)
    then show ?thesis by (simp add: pop_off_def Let_def)
  qed
  moreover have "0 < depth s h" if "guards s h \<noteq> [] \<or> pc s h \<noteq> Run"
    using that by (auto simp: depth_def)
  ultimately show ?thesis using inv by (simp add: lock_inv_def guard_pop_def)
qed

theorem spinlock_safe_witness:
  "lock_reach (lock_cas 0 7 (lock_enter 0 7 lock_init)) \<and>
   guards (lock_cas 0 7 (lock_enter 0 7 lock_init)) 0 = [7] \<and>
   \<not> intr (harts (lock_cas 0 7 (lock_enter 0 7 lock_init)) 0)"
proof -
  let ?s = "lock_enter 0 7 lock_init"
  have "lock_reach ?s"
    by (rule lock_reach.more [OF lock_reach.init]) (rule lock_step.enter, simp add: lock_init_def)
  then have r: "lock_reach (lock_cas 0 7 ?s)"
    by (rule lock_reach.more) (rule lock_step.cas, simp add: lock_enter_def)
  have g: "guards (lock_cas 0 7 ?s) 0 = [7]"
    by (simp add: lock_cas_def lock_enter_def lock_init_def)
  show ?thesis using r g spinlock_safe [OF r, of 7 0 0] by simp
qed

end
