(* ===== verification/Executor.thy ===== *)
theory Executor
  imports Cpu
begin

unbundle bit_operations_syntax

text \<open>
  The per-CPU async executor (\<open>executor.rs\<close>): task identifiers, home-CPU choice, insertion of
  a task, wake-ups and the two halves of one iteration of \<open>run\<close> (what happens before and
  after the future is polled). The future itself is an opaque identifier; the poll happens
  between the two halves, where any other step of any hart may run. The properties: task
  identifiers round-trip, a new task goes to the least loaded active hart, and a slot is never
  given to two tasks, polled ones included.
\<close>

section \<open>Task identifiers\<close>

type_synonym tid = "32 word"

definition SLOT_MASK :: "32 word" where "SLOT_MASK = push_bit 24 1 - 1"

definition make_tid :: "nat \<Rightarrow> nat \<Rightarrow> tid" where
  "make_tid c slot = push_bit 24 (of_nat c) OR of_nat slot"

definition tid_cpu :: "tid \<Rightarrow> nat" where "tid_cpu t = unat (drop_bit 24 t)"
definition tid_slot :: "tid \<Rightarrow> nat" where "tid_slot t = unat (t AND SLOT_MASK)"

section \<open>State\<close>

record task =
  tproc :: "nat option"
  tfut :: nat

record per_cpu_exec =
  tasks :: "task option list"
  ready :: "tid list"
  next_slot :: nat
  free_slots :: "nat list"

definition exec_new :: per_cpu_exec where
  "exec_new = \<lparr>tasks = [], ready = [], next_slot = 0, free_slots = []\<rparr>"

text \<open>\<open>running h\<close> is the local variable \<open>task\<close> of \<open>run\<close> on hart \<open>h\<close> while its future is polled;
  \<open>task_ids\<close> holds \<open>Proc::task_id\<close> of every process and \<open>ipis\<close> the doorbells rung.\<close>

record world =
  execs :: "nat \<Rightarrow> per_cpu_exec"
  cpus :: "nat \<Rightarrow> cpu"
  task_ids :: "nat \<Rightarrow> tid"
  ipis :: "nat list"
  running :: "nat \<Rightarrow> (tid \<times> task) option"

definition world_new :: world where
  "world_new = \<lparr>execs = (\<lambda>_. exec_new), cpus = (\<lambda>_. cpu_new), task_ids = (\<lambda>_. 0), ipis = [],
     running = (\<lambda>_. None)\<rparr>"

abbreviation upd_exec :: "nat \<Rightarrow> (per_cpu_exec \<Rightarrow> per_cpu_exec) \<Rightarrow> world \<Rightarrow> world" where
  "upd_exec c f w \<equiv> w\<lparr>execs := (execs w)(c := f (execs w c))\<rparr>"

section \<open>Choosing the home CPU\<close>

definition trailing_zeros :: "64 word \<Rightarrow> nat" where
  "trailing_zeros w = (case filter (bit w) [0..<64] of [] \<Rightarrow> 64 | i # _ \<Rightarrow> i)"

definition pick_step :: "64 word \<Rightarrow> world \<Rightarrow> nat \<Rightarrow> nat \<times> nat \<Rightarrow> nat \<times> nat" where
  "pick_step active w c bl =
     (if active AND push_bit c 1 = 0 then bl
      else let l = length (ready (execs w c)) in if l < snd bl then (c, l) else bl)"

definition pick_home_cpu :: "64 word \<Rightarrow> world \<Rightarrow> nat option" where
  "pick_home_cpu active w =
     (if active = 0 then Some 0
      else let best = trailing_zeros active in
        if best < MAX_CPUS
        then Some (fst (fold (pick_step active w) [best + 1..<MAX_CPUS]
               (best, length (ready (execs w best)))))
        else None)"

section \<open>Inserting and waking tasks\<close>

definition take_slot :: "per_cpu_exec \<Rightarrow> nat \<times> per_cpu_exec" where
  "take_slot e =
     (if free_slots e = [] then (next_slot e, e\<lparr>next_slot := next_slot e + 1\<rparr>)
      else (last (free_slots e), e\<lparr>free_slots := butlast (free_slots e)\<rparr>))"

definition put_task :: "nat \<Rightarrow> task \<Rightarrow> task option list \<Rightarrow> task option list" where
  "put_task slot t ts = (ts @ replicate (slot + 1 - length ts) None)[slot := Some t]"

definition insert_task :: "nat \<Rightarrow> task \<Rightarrow> world \<Rightarrow> (tid \<times> world) option" where
  "insert_task home t w =
     (if MAX_CPUS \<le> home then None
      else let (slot, e) = take_slot (execs w home) in
        if unat SLOT_MASK < slot then None
        else let tid = make_tid home slot;
                 w = (case tproc t of None \<Rightarrow> w | Some p \<Rightarrow> w\<lparr>task_ids := (task_ids w)(p := tid)\<rparr>);
                 e = e\<lparr>tasks := put_task slot t (tasks e)\<rparr>;
                 e = e\<lparr>ready := ready e @ [tid]\<rparr>
             in Some (tid, w\<lparr>execs := (execs w)(home := e)\<rparr>))"

definition spawn :: "64 word \<Rightarrow> nat \<Rightarrow> nat \<Rightarrow> world \<Rightarrow> (tid \<times> world) option" where
  "spawn active p future w = do {
     home \<leftarrow> pick_home_cpu active w;
     insert_task home \<lparr>tproc = Some p, tfut = future\<rparr> w
   }"

definition spawn_kernel_on :: "nat \<Rightarrow> nat \<Rightarrow> world \<Rightarrow> (tid \<times> world) option" where
  "spawn_kernel_on c future w = insert_task c \<lparr>tproc = None, tfut = future\<rparr> w"

definition wake :: "nat \<Rightarrow> tid \<Rightarrow> world \<Rightarrow> world option" where
  "wake me i w =
     (let home = tid_cpu i in
      if MAX_CPUS \<le> home then None
      else let w = upd_exec home (\<lambda>e. e\<lparr>ready := ready e @ [i]\<rparr>) w in
        Some (if home \<noteq> me then w\<lparr>ipis := ipis w @ [home]\<rparr> else w))"

section \<open>One iteration of the run loop\<close>

datatype run_event = Wfi | Forward | Stale | Polling tid task

definition run_pop :: "nat \<Rightarrow> world \<Rightarrow> (run_event \<times> world) option" where
  "run_pop me w =
     (case ready (execs w me) of
        [] \<Rightarrow> Some (Wfi, w)
      | i # rest \<Rightarrow>
          let w = upd_exec me (\<lambda>e. e\<lparr>ready := rest\<rparr>) w in
          if tid_cpu i \<noteq> me
          then if MAX_CPUS \<le> tid_cpu i then None
               else Some (Forward, upd_exec (tid_cpu i) (\<lambda>e. e\<lparr>ready := ready e @ [i]\<rparr>) w)
          else let slot = tid_slot i; ts = tasks (execs w me) in
            case (if slot < length ts then ts ! slot else None) of
              None \<Rightarrow> Some (Stale, w)
            | Some t \<Rightarrow> Some (Polling i t,
                (upd_exec me (\<lambda>e. e\<lparr>tasks := ts[slot := None]\<rparr>) w)
                  \<lparr>cpus := (cpus w)(me := set_current_proc (tproc t) (cpus w me)),
                   running := (running w)(me := Some (i, t))\<rparr>))"

definition run_done :: "nat \<Rightarrow> tid \<Rightarrow> task \<Rightarrow> bool \<Rightarrow> world \<Rightarrow> (nat option \<times> world) option" where
  "run_done me i t pending w = do {
     w \<leftarrow> (if pending
          then if tid_slot i < length (tasks (execs w me))
               then Some (upd_exec me (\<lambda>e. e\<lparr>tasks := (tasks e)[tid_slot i := Some t]\<rparr>) w)
               else None
          else Some ((upd_exec me (\<lambda>e. e\<lparr>free_slots := free_slots e @ [tid_slot i]\<rparr>) w)
                       \<lparr>cpus := (cpus w)(me := set_current_proc None (cpus w me))\<rparr>));
     let (target, c) = take_user_target (cpus w me);
     Some (target, w\<lparr>cpus := (cpus w)(me := c), running := (running w)(me := None)\<rparr>)
   }"

text \<open>One step of the executor on some hart: any code may insert or wake a task at any time,
  and a hart alternates between the two halves of the loop. While a future is polled it may
  leave a process to return to in \<open>user_target\<close>.\<close>

inductive exec_step :: "world \<Rightarrow> world \<Rightarrow> bool" where
  ins: "insert_task home t w = Some (i, w') \<Longrightarrow> exec_step w w'"
| wak: "wake me i w = Some w' \<Longrightarrow> exec_step w w'"
| pop: "running w h = None \<Longrightarrow> run_pop h w = Some (ev, w') \<Longrightarrow> exec_step w w'"
| target: "running w h \<noteq> None \<Longrightarrow>
    exec_step w (w\<lparr>cpus := (cpus w)(h := set_user_target p (cpus w h))\<rparr>)"
| fin: "running w h = Some (i, t) \<Longrightarrow> run_done h i t pending w = Some (r, w') \<Longrightarrow> exec_step w w'"

inductive exec_reach :: "world \<Rightarrow> bool" where
  init: "exec_reach world_new"
| more: "exec_reach w \<Longrightarrow> exec_step w w' \<Longrightarrow> exec_reach w'"

section \<open>Identifiers round-trip\<close>

lemma SLOT_MASK_mask: "SLOT_MASK = mask 24"
  by (simp add: SLOT_MASK_def mask_eq_exp_minus_1)

lemma unat_SLOT_MASK: "unat SLOT_MASK = 2 ^ 24 - 1"
  by (simp add: SLOT_MASK_def)

lemma make_tid_val:
  assumes "c < 256" and "slot < 2 ^ 24"
  shows "unat (make_tid c slot) = c * 2 ^ 24 + slot"
proof -
  have s: "(of_nat slot :: tid) = take_bit 24 (of_nat slot)"
    using assms(2) by (simp add: take_bit_of_nat take_bit_nat_eq_self)
  have "make_tid c slot = push_bit 24 (of_nat c) + take_bit 24 (of_nat slot)"
    unfolding make_tid_def
    by (subst s, rule disjunctive_add_eq_or [symmetric])
       (auto intro!: bit_eqI simp: bit_simps)
  also have "\<dots> = of_nat (c * 2 ^ 24 + slot)"
    using s by (simp add: push_bit_eq_mult)
  finally show ?thesis using assms by (simp only: unat_of_nat) (rule mod_less, simp)
qed

lemma tid_cpu_make: "c < 256 \<Longrightarrow> slot < 2 ^ 24 \<Longrightarrow> tid_cpu (make_tid c slot) = c"
  unfolding tid_cpu_def by (simp only: unsigned_drop_bit_eq make_tid_val) (simp add: drop_bit_eq_div take_bit_nat_eq_self)

lemma tid_slot_make: "c < 256 \<Longrightarrow> slot < 2 ^ 24 \<Longrightarrow> tid_slot (make_tid c slot) = slot"
  unfolding tid_slot_def SLOT_MASK_mask
  by (simp only: take_bit_eq_mask [symmetric] unsigned_take_bit_eq make_tid_val)
     (simp add: take_bit_eq_mod)

lemma MAX_CPUS_byte: "h < MAX_CPUS \<Longrightarrow> h < 256"
  by (simp add: MAX_CPUS_def)

section \<open>Home-CPU choice\<close>

lemma bit_and_one: "(active :: 64 word) AND push_bit c 1 = 0 \<longleftrightarrow> \<not> (c < 64 \<and> bit active c)"
proof -
  have "active AND push_bit c 1 = 0 \<longleftrightarrow> (\<forall>n < 64. \<not> (bit active n \<and> n = c))"
    by (auto simp: bit_eq_iff bit_simps)
  then show ?thesis by auto
qed

lemma trailing_zeros_bit:
  assumes "active \<noteq> 0"
  shows "bit active (trailing_zeros active)" "\<And>c. bit active c \<Longrightarrow> trailing_zeros active \<le> c"
    "trailing_zeros active < 64"
proof -
  obtain n where n: "bit active n" using assms by (auto simp: bit_eq_iff)
  then have "n < 64" using bit_imp_le_length [of active n] by simp
  with n have "n \<in> set (filter (bit active) [0..<64])" by simp
  then obtain i js where f: "filter (bit active) [0..<64] = i # js"
    by (cases "filter (bit active) [0..<64]") auto
  have tz: "trailing_zeros active = i" using f by (simp add: trailing_zeros_def)
  have i: "i \<in> set (filter (bit active) [0..<64])" by (simp add: f)
  show "bit active (trailing_zeros active)" "trailing_zeros active < 64" using i tz by auto
  fix c assume c: "bit active c"
  then have "c < 64" using bit_imp_le_length [of active c] by simp
  with c have "c \<in> set (i # js)" unfolding f [symmetric] by simp
  moreover have "sorted (i # js)" unfolding f [symmetric] by (rule sorted_wrt_filter) simp
  ultimately show "trailing_zeros active \<le> c" using tz by auto
qed

lemma pick_step_alt: "pick_step active w c bl =
    (if c < 64 \<and> bit active c \<and> length (ready (execs w c)) < snd bl
     then (c, length (ready (execs w c))) else bl)"
  unfolding pick_step_def bit_and_one by (simp add: Let_def)

lemma pick_fold:
  assumes "bit active b" "b < 64" "l = length (ready (execs w b))" "\<And>c. c \<in> set cs \<Longrightarrow> c < 64"
    and "fold (pick_step active w) cs (b, l) = (b', l')"
  shows "bit active b' \<and> b' \<in> insert b (set cs) \<and> l' = length (ready (execs w b')) \<and>
    l' \<le> l \<and> (\<forall>c \<in> set cs. bit active c \<longrightarrow> l' \<le> length (ready (execs w c)))"
  using assms
proof (induction cs arbitrary: b l)
  case Nil
  then show ?case by auto
next
  case (Cons c cs)
  obtain b1 l1 where st: "pick_step active w c (b, l) = (b1, l1)" by fastforce
  have b1: "bit active b1" "b1 < 64" "l1 = length (ready (execs w b1))" "l1 \<le> l" "b1 = b \<or> b1 = c"
    "bit active c \<Longrightarrow> l1 \<le> length (ready (execs w c))"
    using st Cons.prems(1,2,3) Cons.prems(4) [of c]
    by (auto simp: pick_step_alt split: if_splits)
  have "fold (pick_step active w) cs (b1, l1) = (b', l')" using Cons.prems(5) st by simp
  from Cons.IH [OF b1(1-3) _ this] Cons.prems(4) b1 show ?case by fastforce
qed

text \<open>A new process is homed on an active hart whose ready queue is no longer than that of
  any other active hart.\<close>

lemma pick_home_cpu_least_loaded:
  assumes "active \<noteq> 0" and "\<And>c. bit active c \<Longrightarrow> c < MAX_CPUS"
  shows "\<exists>h. pick_home_cpu active w = Some h \<and> bit active h \<and> h < MAX_CPUS \<and>
    (\<forall>c. bit active c \<longrightarrow> length (ready (execs w h)) \<le> length (ready (execs w c)))"
proof -
  let ?b = "trailing_zeros active"
  note tz = trailing_zeros_bit [OF assms(1)]
  have b: "?b < MAX_CPUS" using assms(2) [OF tz(1)] .
  obtain h l where f: "fold (pick_step active w) [?b + 1..<MAX_CPUS]
      (?b, length (ready (execs w ?b))) = (h, l)" by fastforce
  have "bit active h \<and> h \<in> insert ?b (set [?b + 1..<MAX_CPUS]) \<and> l = length (ready (execs w h)) \<and>
    l \<le> length (ready (execs w ?b)) \<and>
    (\<forall>c \<in> set [?b + 1..<MAX_CPUS]. bit active c \<longrightarrow> l \<le> length (ready (execs w c)))"
    by (rule pick_fold [OF tz(1,3) refl _ f]) (simp add: MAX_CPUS_def)
  moreover have "c = ?b \<or> c \<in> set [?b + 1..<MAX_CPUS]" if "bit active c" for c
    using tz(2) [OF that] assms(2) [OF that] by auto
  moreover have "pick_home_cpu active w = Some h"
    using assms(1) b f by (simp add: pick_home_cpu_def Let_def)
  ultimately show ?thesis using assms(2) by metis
qed

section \<open>Slots are never shared\<close>

definition occ :: "per_cpu_exec \<Rightarrow> nat \<Rightarrow> bool" where
  "occ e s \<longleftrightarrow> s < length (tasks e) \<and> tasks e ! s \<noteq> None"

text \<open>Every slot handed out so far is free, holds a parked task, or belongs to the task being
  polled (slot \<open>r\<close>), and is only one of these.\<close>

definition exec_ok :: "per_cpu_exec \<Rightarrow> nat option \<Rightarrow> bool" where
  "exec_ok e r \<longleftrightarrow> distinct (free_slots e) \<and> length (tasks e) \<le> next_slot e \<and> next_slot e \<le> 2 ^ 24 \<and>
     (\<forall>s \<in> set (free_slots e). s < next_slot e \<and> \<not> occ e s \<and> r \<noteq> Some s) \<and>
     (\<forall>s. r = Some s \<longrightarrow> s < length (tasks e) \<and> \<not> occ e s) \<and>
     (\<forall>s < next_slot e. s \<in> set (free_slots e) \<or> occ e s \<or> r = Some s)"

definition run_slot :: "world \<Rightarrow> nat \<Rightarrow> nat option" where
  "run_slot w h = map_option (\<lambda>(i, t). tid_slot i) (running w h)"

definition world_ok :: "world \<Rightarrow> bool" where
  "world_ok w \<longleftrightarrow> (\<forall>h. exec_ok (execs w h) (run_slot w h)) \<and>
     (\<forall>h i t. running w h = Some (i, t) \<longrightarrow> tid_cpu i = h)"

lemma exec_ok_ready [simp]: "exec_ok (e\<lparr>ready := q\<rparr>) r = exec_ok e r"
  by (simp add: exec_ok_def occ_def)

lemma occ_put_task:
  "occ (e\<lparr>tasks := put_task slot t (tasks e)\<rparr>) s \<longleftrightarrow> s = slot \<or> occ e s"
  by (auto simp: occ_def put_task_def nth_list_update nth_append)

lemma length_put_task: "length (put_task slot t ts) = max (length ts) (slot + 1)"
  by (simp add: put_task_def)

lemma take_slot_fresh:
  assumes ok: "exec_ok e r" and t: "take_slot e = (slot, e1)"
  shows "\<not> occ e slot" and "r \<noteq> Some slot"
proof -
  have "slot = next_slot e \<or> slot \<in> set (free_slots e)"
    using t by (auto simp: take_slot_def split: if_splits)
  then show "\<not> occ e slot" "r \<noteq> Some slot"
    using ok by (auto simp: exec_ok_def occ_def)
qed

lemma take_slot_ok:
  assumes ok: "exec_ok e r" and t: "take_slot e = (slot, e1)" and s: "slot < 2 ^ 24"
  shows "exec_ok (e1\<lparr>tasks := put_task slot t' (tasks e1)\<rparr>) r"
proof (cases "free_slots e = []")
  case True
  then have e1: "slot = next_slot e" "e1 = e\<lparr>next_slot := next_slot e + 1\<rparr>"
    using t by (auto simp: take_slot_def)
  let ?e = "e\<lparr>next_slot := next_slot e + 1, tasks := put_task slot t' (tasks e)\<rparr>"
  have occ: "occ ?e s \<longleftrightarrow> s = slot \<or> occ e s" for s
    by (auto simp: occ_def put_task_def nth_list_update nth_append)
  have "exec_ok ?e r"
    using ok s True take_slot_fresh [OF ok t] unfolding exec_ok_def occ
    by (auto simp: length_put_task e1(1) less_Suc_eq)
  then show ?thesis by (simp add: e1(2))
next
  case False
  define fs where "fs = butlast (free_slots e)"
  have fs: "free_slots e = fs @ [slot]" "e1 = e\<lparr>free_slots := fs\<rparr>"
    using t False by (auto simp: take_slot_def fs_def)
  let ?e = "e\<lparr>free_slots := fs, tasks := put_task slot t' (tasks e)\<rparr>"
  have occ: "occ ?e s \<longleftrightarrow> s = slot \<or> occ e s" for s
    by (auto simp: occ_def put_task_def nth_list_update nth_append)
  have "slot \<notin> set fs" "distinct fs" "slot < next_slot e" using ok fs by (auto simp: exec_ok_def)
  then have "exec_ok ?e r"
    using ok take_slot_fresh [OF ok t] unfolding exec_ok_def occ fs(1) by (auto simp: length_put_task)
  then show ?thesis by (simp add: fs(2))
qed

lemma insert_task_cases:
  assumes "insert_task home t w = Some (i, w')"
  obtains slot e where "home < MAX_CPUS" "take_slot (execs w home) = (slot, e)" "slot < 2 ^ 24"
    "i = make_tid home slot" "running w' = running w" "cpus w' = cpus w"
    "execs w' = (execs w)(home := e\<lparr>tasks := put_task slot t (tasks e), ready := ready e @ [i]\<rparr>)"
    "\<And>p. tproc t = Some p \<Longrightarrow> task_ids w' p = i"
proof -
  obtain slot e where ts: "take_slot (execs w home) = (slot, e)" by fastforce
  have h: "home < MAX_CPUS" "slot < 2 ^ 24"
    using assms ts unat_SLOT_MASK by (auto simp: insert_task_def Let_def split: if_splits)
  then show thesis
    using that [OF _ ts] assms ts
    by (auto simp: insert_task_def Let_def split: if_splits option.splits)
qed

lemma world_ok_new: "world_ok world_new"
  by (simp add: world_ok_def world_new_def exec_ok_def exec_new_def run_slot_def occ_def)

lemma world_ok_insert:
  assumes "world_ok w" and "insert_task home t w = Some (i, w')"
  shows "world_ok w'"
  using assms(2)
proof (cases rule: insert_task_cases)
  case (1 slot e)
  then have "exec_ok (execs w' h) (run_slot w' h)" for h
    using assms(1) take_slot_ok [OF _ 1(2,3), of "run_slot w h" t]
    by (auto simp: world_ok_def run_slot_def)
  then show ?thesis using assms(1) 1 by (simp add: world_ok_def)
qed

lemma world_ok_wake: "world_ok w \<Longrightarrow> wake me i w = Some w' \<Longrightarrow> world_ok w'"
  by (auto simp: wake_def world_ok_def run_slot_def Let_def split: if_splits)

lemma exec_ok_take:
  assumes "exec_ok e None" and "s < length (tasks e)" and "tasks e ! s = Some t"
  shows "exec_ok (e\<lparr>ready := q, tasks := (tasks e)[s := None]\<rparr>) (Some s)"
  using assms unfolding exec_ok_def occ_def by (auto simp: nth_list_update)

lemma exec_ok_back:
  assumes "exec_ok e (Some s)"
  shows "exec_ok (e\<lparr>tasks := (tasks e)[s := Some t]\<rparr>) None"
  using assms unfolding exec_ok_def occ_def by (auto simp: nth_list_update)

lemma exec_ok_free:
  assumes "exec_ok e (Some s)"
  shows "exec_ok (e\<lparr>free_slots := free_slots e @ [s]\<rparr>) None"
  using assms unfolding exec_ok_def occ_def by auto

lemma world_ok_pop:
  assumes ok: "world_ok w" and idle: "running w h = None" and p: "run_pop h w = Some (ev, w')"
  shows "world_ok w'"
proof (cases "ready (execs w h)")
  case Nil
  then show ?thesis using ok p by (simp add: run_pop_def)
next
  case (Cons i rest)
  have oke: "exec_ok (execs w h) None" using ok idle by (metis world_ok_def run_slot_def option.map(1))
  consider (fwd) "tid_cpu i \<noteq> h" | (stale) "tid_cpu i = h" "\<not> occ (execs w h) (tid_slot i)"
    | (poll) t where "tid_cpu i = h" "tid_slot i < length (tasks (execs w h))"
        "tasks (execs w h) ! tid_slot i = Some t"
    unfolding occ_def by blast
  then show ?thesis
  proof cases
    case fwd
    then show ?thesis using ok p Cons
      by (auto simp: run_pop_def world_ok_def run_slot_def Let_def split: if_splits)
  next
    case stale
    then show ?thesis using ok p Cons
      by (auto simp: run_pop_def world_ok_def run_slot_def Let_def occ_def split: if_splits option.splits)
  next
    case poll
    then show ?thesis using ok p Cons exec_ok_take [OF oke poll(2,3)]
      by (auto simp: run_pop_def world_ok_def run_slot_def Let_def split: if_splits)
  qed
qed

lemma run_done_cases:
  assumes "run_done h i t pending w = Some (r, w')"
  obtains e where "execs w' = (execs w)(h := e)" "running w' = (running w)(h := None)"
    "e = (if pending then (execs w h)\<lparr>tasks := (tasks (execs w h))[tid_slot i := Some t]\<rparr>
          else (execs w h)\<lparr>free_slots := free_slots (execs w h) @ [tid_slot i]\<rparr>)"
  using assms by (cases pending) (auto simp: run_done_def take_user_target_def Let_def split: if_splits)

lemma world_ok_done:
  assumes ok: "world_ok w" and r: "running w h = Some (i, t)"
    and d: "run_done h i t pending w = Some (x, w')"
  shows "world_ok w'"
  using d
proof (cases rule: run_done_cases)
  case (1 e)
  have "exec_ok (execs w h) (Some (tid_slot i))"
    using ok r unfolding world_ok_def run_slot_def by (metis case_prod_conv option.map(2))
  then have "exec_ok e None" using 1(3) exec_ok_back exec_ok_free by simp
  then show ?thesis using ok 1(1,2) by (auto simp: world_ok_def run_slot_def)
qed

lemma world_ok_step: "exec_step w w' \<Longrightarrow> world_ok w \<Longrightarrow> world_ok w'"
proof (induction rule: exec_step.induct)
  case (target w h p)
  then show ?case by (simp add: world_ok_def run_slot_def)
qed (blast intro: world_ok_insert world_ok_wake world_ok_pop world_ok_done)+

lemma world_ok_reach: "exec_reach w \<Longrightarrow> world_ok w"
  by (induction rule: exec_reach.induct) (use world_ok_new world_ok_step in blast)+

text \<open>Whatever the harts have inserted, woken, polled and finished, a newly inserted task
  gets a slot that no parked task and no task under poll uses: every other task keeps its slot
  unchanged, the identifier decodes to that slot on the home CPU, it is published in the process
  and queued as ready.\<close>

lemma insert_task_fresh_slot:
  assumes "exec_reach w" and "insert_task home t w = Some (i, w')"
  shows "tid_cpu i = home \<and> \<not> occ (execs w home) (tid_slot i) \<and> run_slot w home \<noteq> Some (tid_slot i) \<and>
    tasks (execs w' home) ! tid_slot i = Some t \<and> last (ready (execs w' home)) = i \<and>
    (\<forall>p. tproc t = Some p \<longrightarrow> task_ids w' p = i) \<and>
    (\<forall>h s. occ (execs w h) s \<longrightarrow> occ (execs w' h) s \<and> tasks (execs w' h) ! s = tasks (execs w h) ! s)"
  using assms(2)
proof (cases rule: insert_task_cases)
  case (1 slot e)
  have ok: "exec_ok (execs w home) (run_slot w home)"
    using world_ok_reach [OF assms(1)] by (simp add: world_ok_def)
  have id: "tid_cpu i = home" "tid_slot i = slot"
    using 1(3,4) MAX_CPUS_byte [OF 1(1)] by (simp_all add: tid_cpu_make tid_slot_make)
  have e: "tasks e = tasks (execs w home)" using 1(2) by (auto simp: take_slot_def split: if_splits)
  note fresh = take_slot_fresh [OF ok 1(2)]
  have "put_task slot t (tasks e) ! slot = Some t" by (simp add: put_task_def)
  moreover have "occ (execs w' h) s \<and> tasks (execs w' h) ! s = tasks (execs w h) ! s"
    if "occ (execs w h) s" for h s
    using that fresh(1) by (auto simp: 1(7) occ_def e put_task_def nth_list_update nth_append)
  ultimately show ?thesis using fresh id 1(7,8) by simp
qed

end
