(* ===== verification/Wait.thy ===== *)
theory Wait
  imports Executor
begin

text \<open>
  Parked wakers (\<open>wait.rs\<close>): the one-shot \<open>WakerCell\<close> and the multi-waiter \<open>WakerList\<close>. A
  waker is the task identifier it carries, so two wakers \<open>will_wake\<close> the same task exactly when
  the identifiers agree, and waking one is a call of \<open>executor::wake\<close>. Operations return the
  identifiers they wake, in order; \<open>wakes\<close> performs them on the executor.
\<close>

definition cell_register :: "tid \<Rightarrow> tid option \<Rightarrow> tid option" where
  "cell_register w c = (if c = Some w then c else Some w)"

definition cell_wake :: "tid option \<Rightarrow> tid option \<times> tid list" where
  "cell_wake c = (None, case c of None \<Rightarrow> [] | Some w \<Rightarrow> [w])"

definition list_register :: "tid \<Rightarrow> tid list \<Rightarrow> tid list" where
  "list_register w ws = (if list_ex (\<lambda>e. e = w) ws then ws else ws @ [w])"

definition list_wake_all :: "tid list \<Rightarrow> tid list \<times> tid list" where
  "list_wake_all ws = ([], ws)"

fun wakes :: "nat \<Rightarrow> tid list \<Rightarrow> world \<Rightarrow> world option" where
  "wakes me [] w = Some w"
| "wakes me (i # is') w = do { w \<leftarrow> wake me i w; wakes me is' w }"

lemma set_register [simp]: "set (list_register w ws) = insert w (set ws)"
  by (auto simp: list_register_def list_ex_iff)

lemma distinct_register: "distinct ws \<Longrightarrow> distinct (list_register w ws)"
  by (auto simp: list_register_def list_ex_iff)

definition queued :: "world \<Rightarrow> tid \<Rightarrow> bool" where
  "queued w i \<longleftrightarrow> i \<in> set (ready (execs w (tid_cpu i)))"

lemma wake_queues:
  assumes "tid_cpu i < MAX_CPUS"
  obtains w' where "wake me i w = Some w'" "queued w' i" "\<And>j. queued w j \<Longrightarrow> queued w' j"
    "\<And>h. tasks (execs w' h) = tasks (execs w h)" "tid_cpu i \<noteq> me \<Longrightarrow> tid_cpu i \<in> set (ipis w')"
    "set (ipis w) \<subseteq> set (ipis w')"
proof -
  obtain w' where w': "wake me i w = Some w'" using assms by (simp add: wake_def Let_def)
  then show thesis using assms by (intro that [OF w']) (auto simp: wake_def Let_def queued_def split: if_splits)
qed

text \<open>Waking a waker list leaves it empty and puts every parked task on the ready queue of
  its home CPU (with a doorbell to each other CPU), dropping none; tasks already queued stay.\<close>

lemma wake_all_wakes_every_waiter:
  assumes "\<And>i. i \<in> set ws \<Longrightarrow> tid_cpu i < MAX_CPUS"
  shows "\<exists>w'. wakes me (snd (list_wake_all ws)) w = Some w' \<and> fst (list_wake_all ws) = [] \<and>
    (\<forall>i. i \<in> set ws \<longrightarrow> queued w' i \<and> (tid_cpu i \<noteq> me \<longrightarrow> tid_cpu i \<in> set (ipis w'))) \<and>
    (\<forall>j. queued w j \<longrightarrow> queued w' j)"
proof -
  have "\<exists>w'. wakes me ws w = Some w' \<and>
    (\<forall>i. i \<in> set ws \<longrightarrow> queued w' i \<and> (tid_cpu i \<noteq> me \<longrightarrow> tid_cpu i \<in> set (ipis w'))) \<and>
    (\<forall>j. queued w j \<longrightarrow> queued w' j) \<and> set (ipis w) \<subseteq> set (ipis w')"
    using assms
  proof (induction ws arbitrary: w)
    case (Cons i ws)
    obtain w1 where w1: "wake me i w = Some w1" "queued w1 i" "\<And>j. queued w j \<Longrightarrow> queued w1 j"
      "tid_cpu i \<noteq> me \<Longrightarrow> tid_cpu i \<in> set (ipis w1)" "set (ipis w) \<subseteq> set (ipis w1)"
      using Cons.prems by (auto intro: wake_queues [of i me w])
    with Cons.IH [of w1] Cons.prems show ?case by fastforce
  qed simp
  then show ?thesis by (auto simp: list_wake_all_def)
qed

end
