(* ===== verification/Pipe.thy ===== *)
theory Pipe
  imports Wait
begin

text \<open>
  Pipes (\<open>PipeInner\<close> of \<open>file.rs\<close> and the read and write paths of \<open>syscall.rs\<close>). The first
  part is sequential: one poll of \<open>PipeReadByte\<close> and \<open>PipeWriteByte\<close> and the whole
  \<open>pipe_read\<close>/\<open>pipe_write\<close> loops as run without interference. The second part is the same
  code split at every shared access (the killed flag, waker registration, buffer lock, end
  counts, wake-ups), with any number of tasks interleaved: pipes are first-in first-out and
  bounded, and a parked reader is never left asleep with data or end-of-file pending. A writer
  can be: the count of readers is checked before the waker is registered.
\<close>

definition PIPE_CAP :: nat where "PIPE_CAP = 512"

record pipe =
  buf :: "byte list"
  read_waker :: "tid list"
  write_waker :: "tid list"
  readers :: nat
  writers :: nat

definition pipe_new :: pipe where
  "pipe_new = \<lparr>buf = [], read_waker = [], write_waker = [], readers = 1, writers = 1\<rparr>"

text \<open>Waking a list moves its tasks to the ready queue \<open>q\<close> (the tasks handed to
  \<open>executor::wake\<close> and not yet popped by \<open>run\<close>).\<close>

definition wake_readers :: "pipe \<times> tid list \<Rightarrow> pipe \<times> tid list" where
  "wake_readers = (\<lambda>(p, q). let (r, ws) = list_wake_all (read_waker p) in (p\<lparr>read_waker := r\<rparr>, q @ ws))"

definition wake_writers :: "pipe \<times> tid list \<Rightarrow> pipe \<times> tid list" where
  "wake_writers = (\<lambda>(p, q). let (r, ws) = list_wake_all (write_waker p) in (p\<lparr>write_waker := r\<rparr>, q @ ws))"

text \<open>The pipe ends' share of \<open>Drop for File\<close>.\<close>

definition drop_reader :: "pipe \<times> tid list \<Rightarrow> pipe \<times> tid list" where
  "drop_reader = (\<lambda>(p, q). wake_writers (p\<lparr>readers := readers p - 1\<rparr>, q))"

definition drop_writer :: "pipe \<times> tid list \<Rightarrow> pipe \<times> tid list" where
  "drop_writer = (\<lambda>(p, q). wake_readers (p\<lparr>writers := writers p - 1\<rparr>, q))"

section \<open>One poll, uninterrupted\<close>

datatype 'a poll = Pending | Ready 'a

definition read_byte_poll :: "tid \<Rightarrow> bool \<Rightarrow> pipe \<times> tid list \<Rightarrow> byte option poll \<times> (pipe \<times> tid list)" where
  "read_byte_poll t killed = (\<lambda>(p, q).
     if killed then (Ready None, (p, q))
     else let p = p\<lparr>read_waker := list_register t (read_waker p)\<rparr> in
       case buf p of
         b # bs \<Rightarrow> (Ready (Some b), wake_writers (p\<lparr>buf := bs\<rparr>, q))
       | [] \<Rightarrow> if writers p = 0 then (Ready None, (p, q)) else (Pending, (p, q)))"

definition write_byte_poll :: "tid \<Rightarrow> bool \<Rightarrow> byte \<Rightarrow> pipe \<times> tid list \<Rightarrow> bool poll \<times> (pipe \<times> tid list)" where
  "write_byte_poll t killed b = (\<lambda>(p, q).
     if killed then (Ready False, (p, q))
     else if readers p = 0 then (Ready False, (p, q))
     else let p = p\<lparr>write_waker := list_register t (write_waker p)\<rparr> in
       if length (buf p) < PIPE_CAP
       then (Ready True, wake_readers (p\<lparr>buf := buf p @ [b]\<rparr>, q))
       else (Pending, (p, q)))"

section \<open>The read and write loops\<close>

text \<open>\<open>Blocked n\<close>: the task is parked in the await that follows \<open>n\<close> transferred bytes. \<open>tr\<close> is
  \<open>translate_user\<close> and \<open>tw\<close> is \<open>translate_user_write\<close> of the calling process; \<open>mem\<close> is
  memory by kernel address.\<close>

datatype io = Ret int | Blocked nat

definition partial_ret :: "nat \<Rightarrow> io" where
  "partial_ret n = Ret (if n = 0 then -1 else int n)"

function pipe_write :: "tid \<Rightarrow> bool \<Rightarrow> (nat \<Rightarrow> nat option) \<Rightarrow> (nat \<Rightarrow> byte) \<Rightarrow> nat \<Rightarrow> nat \<Rightarrow> bool \<Rightarrow>
    nat \<Rightarrow> pipe \<times> tid list \<Rightarrow> io \<times> (pipe \<times> tid list)" where
  "pipe_write t killed tr mem buf_va len nonblock n pq =
     (if n < len then
        if killed then (Ret (-1), pq)
        else case tr (buf_va + n) of
          None \<Rightarrow> (Ret (-1), pq)
        | Some kva \<Rightarrow>
            if nonblock then
              if readers (fst pq) = 0 then (Ret (-1), pq)
              else if length (buf (fst pq)) < PIPE_CAP
              then pipe_write t killed tr mem buf_va len nonblock (n + 1)
                     (wake_readers ((fst pq)\<lparr>buf := buf (fst pq) @ [mem kva]\<rparr>, snd pq))
              else (partial_ret n, pq)
            else case write_byte_poll t killed (mem kva) pq of
              (Pending, pq) \<Rightarrow> (Blocked n, pq)
            | (Ready True, pq) \<Rightarrow> pipe_write t killed tr mem buf_va len nonblock (n + 1) pq
            | (Ready False, pq) \<Rightarrow> (Ret (-1), pq)
      else (Ret (int n), pq))"
  by pat_completeness auto
termination
  by (relation "measure (\<lambda>(t, k, tr, m, va, len, nb, n, pq). len - n)") auto

function pipe_read :: "tid \<Rightarrow> bool \<Rightarrow> (nat \<Rightarrow> nat option) \<Rightarrow> nat \<Rightarrow> nat \<Rightarrow> bool \<Rightarrow>
    nat \<Rightarrow> (nat \<Rightarrow> byte) \<Rightarrow> pipe \<times> tid list \<Rightarrow> io \<times> (nat \<Rightarrow> byte) \<times> (pipe \<times> tid list)" where
  "pipe_read t killed tw buf_va len nonblock n mem pq =
     (if n < len then
        if nonblock then
          case buf (fst pq) of
            b # bs \<Rightarrow>
              (let pq = wake_writers ((fst pq)\<lparr>buf := bs\<rparr>, snd pq) in
               case tw (buf_va + n) of
                 None \<Rightarrow> (partial_ret n, mem, pq)
               | Some kva \<Rightarrow>
                   if buf (fst pq) = [] then (Ret (int (n + 1)), mem(kva := b), pq)
                   else pipe_read t killed tw buf_va len nonblock (n + 1) (mem(kva := b)) pq)
          | [] \<Rightarrow> if writers (fst pq) = 0 then (Ret (int n), mem, pq) else (partial_ret n, mem, pq)
        else case read_byte_poll t killed pq of
            (Pending, pq) \<Rightarrow> (Blocked n, mem, pq)
          | (Ready None, pq) \<Rightarrow> (Ret (int n), mem, pq)
          | (Ready (Some b), pq) \<Rightarrow>
              (case tw (buf_va + n) of
                 None \<Rightarrow> (partial_ret n, mem, pq)
               | Some kva \<Rightarrow>
                   if buf (fst pq) = [] then (Ret (int (n + 1)), mem(kva := b), pq)
                   else pipe_read t killed tw buf_va len nonblock (n + 1) (mem(kva := b)) pq)
      else (Ret (int n), mem, pq))"
  by pat_completeness auto
termination
  by (relation "measure (\<lambda>(t, k, tw, va, len, nb, n, m, pq). len - n)") auto

lemmas [simp del] = pipe_write.simps pipe_read.simps

lemma wake_simps [simp]:
  "wake_readers (p, q) = (p\<lparr>read_waker := []\<rparr>, q @ read_waker p)"
  "wake_writers (p, q) = (p\<lparr>write_waker := []\<rparr>, q @ write_waker p)"
  by (simp_all add: wake_readers_def wake_writers_def list_wake_all_def)

text \<open>What a write that fits does: the bytes of the user buffer are appended in order.\<close>

lemma pipe_write_appends:
  assumes "\<And>i. n \<le> i \<Longrightarrow> i < len \<Longrightarrow> tr (va + i) = Some (ka i)"
    and "n \<le> len" and "length (buf (fst pq)) + (len - n) \<le> PIPE_CAP" and "0 < readers (fst pq)"
  shows "\<exists>pq'. pipe_write t False tr mem va len nb n pq = (Ret (int len), pq') \<and>
    buf (fst pq') = buf (fst pq) @ map (mem \<circ> ka) [n..<len] \<and>
    readers (fst pq') = readers (fst pq) \<and> writers (fst pq') = writers (fst pq)"
  using assms
proof (induction "len - n" arbitrary: n pq)
  case 0
  then show ?case by (subst pipe_write.simps) simp
next
  case (Suc k)
  then have n: "n < len" by simp
  obtain p q where pq: "pq = (p, q)" by fastforce
  define pq1 where "pq1 = wake_readers ((if nb then p else p\<lparr>write_waker := list_register t (write_waker p)\<rparr>)
      \<lparr>buf := buf p @ [mem (ka n)]\<rparr>, q)"
  have cap: "length (buf p) < PIPE_CAP" using Suc.prems(3) n pq by simp
  have st: "pipe_write t False tr mem va len nb n pq = pipe_write t False tr mem va len nb (n + 1) pq1"
    using Suc.prems(1) [of n] Suc.prems(4) n cap pq
    by (subst pipe_write.simps) (simp add: write_byte_poll_def pq1_def)
  have f: "buf (fst pq1) = buf p @ [mem (ka n)]" "readers (fst pq1) = readers p" "writers (fst pq1) = writers p"
    by (simp_all add: pq1_def)
  have "\<exists>pq'. pipe_write t False tr mem va len nb (n + 1) pq1 = (Ret (int len), pq') \<and>
    buf (fst pq') = buf (fst pq1) @ map (mem \<circ> ka) [n + 1..<len] \<and>
    readers (fst pq') = readers (fst pq1) \<and> writers (fst pq') = writers (fst pq1)"
    using Suc.prems Suc.hyps(2) n pq by (intro Suc.hyps(1)) (auto simp: f)
  then show ?case using n st by (simp add: f pq upt_conv_Cons)
qed

fun store_bytes :: "(nat \<Rightarrow> nat) \<Rightarrow> nat \<Rightarrow> byte list \<Rightarrow> (nat \<Rightarrow> byte) \<Rightarrow> nat \<Rightarrow> byte" where
  "store_bytes ka n [] mem = mem"
| "store_bytes ka n (b # bs) mem = store_bytes ka (n + 1) bs (mem(ka n := b))"

text \<open>What a read of a non-empty pipe does: it takes a prefix of the buffer and never blocks.\<close>

lemma pipe_read_takes:
  assumes "\<And>i. n \<le> i \<Longrightarrow> i < len \<Longrightarrow> tw (va + i) = Some (ka i)" and "n < len" and "buf (fst pq) \<noteq> []"
  shows "\<exists>pq'. let k = min (len - n) (length (buf (fst pq))) in
    pipe_read t False tw va len nb n mem pq =
      (Ret (int (n + k)), store_bytes ka n (take k (buf (fst pq))) mem, pq') \<and>
    buf (fst pq') = drop k (buf (fst pq)) \<and>
    readers (fst pq') = readers (fst pq) \<and> writers (fst pq') = writers (fst pq)"
  using assms
proof (induction "len - n" arbitrary: n mem pq)
  case 0
  then show ?case by simp
next
  case (Suc k)
  obtain p q where pq: "pq = (p, q)" by fastforce
  obtain b bs where b: "buf p = b # bs" using Suc.prems(3) pq by (cases "buf p") auto
  define pq1 where "pq1 = wake_writers ((if nb then p else p\<lparr>read_waker := list_register t (read_waker p)\<rparr>)
      \<lparr>buf := bs\<rparr>, q)"
  have f: "buf (fst pq1) = bs" "readers (fst pq1) = readers p" "writers (fst pq1) = writers p"
    by (simp_all add: pq1_def)
  have st: "pipe_read t False tw va len nb n mem pq =
    (if bs = [] then (Ret (int (n + 1)), mem(ka n := b), pq1)
     else pipe_read t False tw va len nb (n + 1) (mem(ka n := b)) pq1)"
    using Suc.prems(1) [of n] Suc.prems(2) b pq
    by (subst pipe_read.simps) (simp add: read_byte_poll_def pq1_def)
  show ?case
  proof (cases "bs = [] \<or> n + 1 = len")
    case True
    have "pipe_read t False tw va len nb n mem pq = (Ret (int (n + 1)), mem(ka n := b), pq1)"
      using True st pipe_read.simps [of t False tw va len nb "n + 1" "mem(ka n := b)" pq1] by auto
    moreover have "min (len - n) (length (buf (fst pq))) = 1" using True Suc.prems(2) pq b by auto
    ultimately show ?thesis using f pq b by simp
  next
    case False
    let ?k = "min (len - (n + 1)) (length bs)"
    have "\<exists>pq'. pipe_read t False tw va len nb (n + 1) (mem(ka n := b)) pq1 =
        (Ret (int (n + 1 + ?k)), store_bytes ka (n + 1) (take ?k bs) (mem(ka n := b)), pq') \<and>
      buf (fst pq') = drop ?k bs \<and> readers (fst pq') = readers p \<and> writers (fst pq') = writers p"
      using Suc.hyps(1) [of "n + 1" pq1 "mem(ka n := b)"] Suc.hyps(2) Suc.prems False
      by (auto simp: f Let_def)
    moreover have "min (len - n) (length (buf (fst pq))) = Suc ?k" using False Suc.prems(2) pq b by auto
    ultimately show ?thesis using False st pq b by (auto simp: Let_def)
  qed
qed

lemma store_bytes_other: "(\<And>i. n \<le> i \<Longrightarrow> i < n + length bs \<Longrightarrow> ka i \<noteq> a) \<Longrightarrow> store_bytes ka n bs mem a = mem a"
proof (induction ka n bs mem rule: store_bytes.induct)
  case (2 ka n b bs mem)
  have "store_bytes ka (n + 1) bs (mem(ka n := b)) a = (mem(ka n := b)) a"
    by (rule 2(1)) (use 2(2) in simp)
  moreover have "ka n \<noteq> a" using 2(2) [of n] by simp
  ultimately show ?case by simp
qed simp

lemma store_bytes_nth:
  assumes "inj_on ka {n..<n + length bs}" and "i < length bs"
  shows "store_bytes ka n bs mem (ka (n + i)) = bs ! i"
  using assms
proof (induction bs arbitrary: n mem i)
  case (Cons b bs)
  have inj: "inj_on ka {n + 1..<n + 1 + length bs}" using Cons(2) by (rule inj_on_subset) auto
  show ?case
  proof (cases i)
    case 0
    have "ka j \<noteq> ka n" if "n + 1 \<le> j" "j < n + 1 + length bs" for j
      using inj_onD [OF Cons(2), of j n] that by auto
    then show ?thesis using store_bytes_other [of "n + 1" bs ka "ka n" "mem(ka n := b)"] 0 by simp
  next
    case (Suc j)
    then show ?thesis using Cons(1) [OF inj, of j] Cons(3) by simp
  qed
qed simp

text \<open>A write of at most the capacity of an empty pipe followed by a read of the same length
  (by the same or another process, in either mode) transfers exactly the written bytes, in
  order, changes no other byte of memory and leaves the pipe empty.\<close>

lemma pipe_transfer:
  assumes tr: "\<And>i. i < len \<Longrightarrow> tr (va + i) = Some (ka i)"
    and tw: "\<And>i. i < len \<Longrightarrow> tw (vb + i) = Some (kb i)"
    and inj: "inj_on kb {0..<len}"
    and len: "0 < len" "len \<le> PIPE_CAP"
    and empty: "buf p = []" "0 < readers p"
  shows "\<exists>pq1 mem' pq2. pipe_write t1 False tr mem va len nb1 0 (p, q) = (Ret (int len), pq1) \<and>
    pipe_read t2 False tw vb len nb2 0 mem pq1 = (Ret (int len), mem', pq2) \<and>
    (\<forall>i < len. mem' (kb i) = mem (ka i)) \<and> (\<forall>a. a \<notin> kb ` {0..<len} \<longrightarrow> mem' a = mem a) \<and>
    buf (fst pq2) = []"
proof -
  obtain pq1 where w: "pipe_write t1 False tr mem va len nb1 0 (p, q) = (Ret (int len), pq1)"
    "buf (fst pq1) = map (mem \<circ> ka) [0..<len]"
    using pipe_write_appends [of 0 len tr va ka "(p, q)" t1 mem nb1] tr len empty by auto
  have ne: "buf (fst pq1) \<noteq> []" using w(2) len by simp
  obtain pq2 where r: "pipe_read t2 False tw vb len nb2 0 mem pq1 =
      (Ret (int len), store_bytes kb 0 (buf (fst pq1)) mem, pq2)" "buf (fst pq2) = []"
    using pipe_read_takes [of 0 len tw vb kb pq1 t2 nb2 mem] tw len(1) ne w(2) by (auto simp: Let_def)
  have l: "length (buf (fst pq1)) = len" using w(2) by simp
  have "store_bytes kb 0 (buf (fst pq1)) mem (kb i) = mem (ka i)" if "i < len" for i
    using store_bytes_nth [of kb 0 "buf (fst pq1)" i mem] inj that l w(2) by simp
  moreover have "store_bytes kb 0 (buf (fst pq1)) mem a = mem a" if "a \<notin> kb ` {0..<len}" for a
    using store_bytes_other [of 0 "buf (fst pq1)" kb a mem] that l by fastforce
  ultimately show ?thesis using w(1) r by blast
qed

section \<open>Interleaved tasks\<close>

text \<open>Where a task is inside a poll of this pipe; \<open>RKill\<close>, \<open>RReg\<close>, \<open>RPop\<close>, \<open>RWake\<close> and \<open>REof\<close>
  are the shared accesses of \<open>PipeReadByte::poll\<close> still to come, \<open>WKill\<close> to \<open>WWake\<close> those of
  \<open>PipeWriteByte::poll\<close>, \<open>NPop\<close> to \<open>NFull\<close> those of the \<open>O_NONBLOCK\<close> paths of \<open>pipe_read\<close> and \<open>pipe_write\<close>
  before their wake-ups, and \<open>CRead\<close> to \<open>CWriteWake\<close> those of dropping the last descriptor of an
  end.\<close>

datatype ppc = Out | RKill | RReg | RPop | RWake byte | REof | RParked | RDone "byte option"
  | WKill byte | WRead byte | WReg byte | WPush byte | WWake | WParked byte | WDone bool
  | NPop | NEof | NRead byte | NPush byte | NFull
  | CRead | CReadWake | CWrite | CWriteWake

record psys = pipe +
  queue :: "tid list"
  ppcs :: "tid \<Rightarrow> ppc"
  killed :: "tid \<Rightarrow> bool"
  sent :: "byte list"
  got :: "byte list"

definition psys_new :: psys where
  "psys_new = \<lparr>buf = [], read_waker = [], write_waker = [], readers = 1, writers = 1, queue = [],
     ppcs = (\<lambda>_. Out), killed = (\<lambda>_. False), sent = [], got = []\<rparr>"

abbreviation goto :: "tid \<Rightarrow> ppc \<Rightarrow> psys \<Rightarrow> psys" where
  "goto t c s \<equiv> s\<lparr>ppcs := (ppcs s)(t := c)\<rparr>"

definition read_poll_step :: "tid \<Rightarrow> psys \<Rightarrow> psys" where
  "read_poll_step t s = (case ppcs s t of
     RKill \<Rightarrow> goto t (if killed s t then RDone None else RReg) s
   | RReg \<Rightarrow> goto t RPop (s\<lparr>read_waker := list_register t (read_waker s)\<rparr>)
   | RPop \<Rightarrow> (case buf s of
        b # bs \<Rightarrow> goto t (RWake b) (s\<lparr>buf := bs, got := got s @ [b]\<rparr>)
      | [] \<Rightarrow> goto t REof s)
   | RWake b \<Rightarrow> goto t (RDone (Some b)) (s\<lparr>queue := queue s @ write_waker s, write_waker := []\<rparr>)
   | REof \<Rightarrow> goto t (if writers s = 0 then RDone None else RParked) s
   | _ \<Rightarrow> s)"

definition write_poll_step :: "tid \<Rightarrow> psys \<Rightarrow> psys" where
  "write_poll_step t s = (case ppcs s t of
     WKill b \<Rightarrow> goto t (if killed s t then WDone False else WRead b) s
   | WRead b \<Rightarrow> goto t (if readers s = 0 then WDone False else WReg b) s
   | WReg b \<Rightarrow> goto t (WPush b) (s\<lparr>write_waker := list_register t (write_waker s)\<rparr>)
   | WPush b \<Rightarrow>
       if length (buf s) < PIPE_CAP
       then goto t WWake (s\<lparr>buf := buf s @ [b], sent := sent s @ [b]\<rparr>)
       else goto t (WParked b) s
   | WWake \<Rightarrow> goto t (WDone True) (s\<lparr>queue := queue s @ read_waker s, read_waker := []\<rparr>)
   | _ \<Rightarrow> s)"

text \<open>Without blocking: a task that finds the buffer empty (full) looks at the other end once more, for
  its result, and returns without registering.\<close>

definition nonblock_read_step :: "tid \<Rightarrow> psys \<Rightarrow> psys" where
  "nonblock_read_step t s = (case ppcs s t of
     NPop \<Rightarrow> (case buf s of
        b # bs \<Rightarrow> goto t (RWake b) (s\<lparr>buf := bs, got := got s @ [b]\<rparr>)
      | [] \<Rightarrow> goto t NEof s)
   | NEof \<Rightarrow> goto t (RDone None) s
   | _ \<Rightarrow> s)"

definition nonblock_write_step :: "tid \<Rightarrow> psys \<Rightarrow> psys" where
  "nonblock_write_step t s = (case ppcs s t of
     NRead b \<Rightarrow> goto t (if readers s = 0 then WDone False else NPush b) s
   | NPush b \<Rightarrow>
       if length (buf s) < PIPE_CAP
       then goto t WWake (s\<lparr>buf := buf s @ [b], sent := sent s @ [b]\<rparr>)
       else goto t NFull s
   | NFull \<Rightarrow> goto t (WDone False) s
   | _ \<Rightarrow> s)"

definition drop_step :: "tid \<Rightarrow> psys \<Rightarrow> psys" where
  "drop_step t s = (case ppcs s t of
     CRead \<Rightarrow> goto t CReadWake (s\<lparr>readers := readers s - 1\<rparr>)
   | CReadWake \<Rightarrow> goto t Out (s\<lparr>queue := queue s @ write_waker s, write_waker := []\<rparr>)
   | CWrite \<Rightarrow> goto t CWriteWake (s\<lparr>writers := writers s - 1\<rparr>)
   | CWriteWake \<Rightarrow> goto t Out (s\<lparr>queue := queue s @ read_waker s, read_waker := []\<rparr>)
   | _ \<Rightarrow> s)"

text \<open>A task outside (or done with) a poll may start a new one or drop an end; a parked task
  polls again once the executor pops it; anything may mark a task killed or wake it.\<close>

definition starts :: "ppc list" where "starts = [Out, RDone None, WDone True, WDone False]"

inductive pstep :: "psys \<Rightarrow> psys \<Rightarrow> bool" where
  start: "ppcs s t \<in> set starts \<or> (\<exists>b. ppcs s t = RDone (Some b)) \<Longrightarrow>
    c \<in> {RKill, WKill b, NPop, NRead b} \<Longrightarrow> pstep s (goto t c s)"
| close: "ppcs s t \<in> set starts \<Longrightarrow> c \<in> {CRead, CWrite} \<Longrightarrow> pstep s (goto t c s)"
| rd: "pstep s (read_poll_step t s)"
| wr: "pstep s (write_poll_step t s)"
| nb_rd: "pstep s (nonblock_read_step t s)"
| nb_wr: "pstep s (nonblock_write_step t s)"
| dr: "pstep s (drop_step t s)"
| repoll_read: "ppcs s t = RParked \<Longrightarrow> t \<in> set (queue s) \<Longrightarrow>
    pstep s (goto t RKill (s\<lparr>queue := remove1 t (queue s)\<rparr>))"
| repoll_write: "ppcs s t = WParked b \<Longrightarrow> t \<in> set (queue s) \<Longrightarrow>
    pstep s (goto t (WKill b) (s\<lparr>queue := remove1 t (queue s)\<rparr>))"
| kill: "pstep s (s\<lparr>killed := (killed s)(t := True)\<rparr>)"
| wake: "pstep s (s\<lparr>queue := queue s @ [t]\<rparr>)"

inductive preach :: "psys \<Rightarrow> bool" where
  init: "preach psys_new"
| more: "preach s \<Longrightarrow> pstep s s' \<Longrightarrow> preach s'"

lemmas poll_steps = read_poll_step_def write_poll_step_def nonblock_read_step_def nonblock_write_step_def drop_step_def

text \<open>Bytes leave in the order they entered and the buffer is bounded.\<close>

definition fifo :: "psys \<Rightarrow> bool" where
  "fifo s \<longleftrightarrow> sent s = got s @ buf s \<and> length (buf s) \<le> PIPE_CAP"

lemma fifo_step: "pstep s s' \<Longrightarrow> fifo s \<Longrightarrow> fifo s'"
  by (induction rule: pstep.induct) (auto simp: fifo_def poll_steps split: ppc.splits list.splits)

lemma fifo_reach: "preach s \<Longrightarrow> fifo s"
  by (induction rule: preach.induct) (use fifo_step in \<open>auto simp: fifo_def psys_new_def\<close>)

text \<open>A task that has registered stays registered until it is woken; if it found the buffer
  empty (full) and still is asleep, whoever changed that is about to wake it.\<close>

definition waits_ok :: "psys \<Rightarrow> bool" where
  "waits_ok s \<longleftrightarrow>
     (\<forall>t. ppcs s t \<in> {RPop, REof, RParked} \<longrightarrow> t \<in> set (read_waker s) \<union> set (queue s)) \<and>
     (\<forall>t b. ppcs s t \<in> {WPush b, WParked b} \<longrightarrow> t \<in> set (write_waker s) \<union> set (queue s)) \<and>
     (\<forall>t. ppcs s t \<in> {REof, RParked} \<longrightarrow> t \<notin> set (queue s) \<longrightarrow> buf s \<noteq> [] \<longrightarrow> (\<exists>u. ppcs s u = WWake)) \<and>
     (\<forall>t. ppcs s t = RParked \<longrightarrow> t \<notin> set (queue s) \<longrightarrow> writers s = 0 \<longrightarrow> (\<exists>u. ppcs s u = CWriteWake)) \<and>
     (\<forall>t b. ppcs s t = WParked b \<longrightarrow> t \<notin> set (queue s) \<longrightarrow> length (buf s) < PIPE_CAP \<longrightarrow>
        (\<exists>u c. ppcs s u = RWake c))"

lemma waits_init: "waits_ok psys_new"
  by (simp add: waits_ok_def psys_new_def)

text \<open>A step of task \<open>t\<close> keeps this if no registration is lost but by waking, if \<open>t\<close> itself is
  in order where it arrives, and if \<open>t\<close> is left with the wake-up that a change of the buffer or
  of the writers requires.\<close>

lemma waits_step:
  assumes ok: "waits_ok s" and pc: "ppcs s' = (ppcs s)(t := c)"
    and q: "set (queue s) \<subseteq> insert t (set (queue s'))"
    and rw: "set (read_waker s) \<subseteq> set (read_waker s') \<union> set (queue s')"
    and ww: "set (write_waker s) \<subseteq> set (write_waker s') \<union> set (queue s')"
    and tr: "c \<in> {RPop, REof, RParked} \<Longrightarrow> t \<in> set (read_waker s') \<union> set (queue s')"
    and tw: "\<And>b. c \<in> {WPush b, WParked b} \<Longrightarrow> t \<in> set (write_waker s') \<union> set (queue s')"
    and te: "c \<in> {REof, RParked} \<Longrightarrow> t \<notin> set (queue s') \<Longrightarrow> buf s' \<noteq> [] \<Longrightarrow> \<exists>u. ppcs s' u = WWake"
    and tc: "c = RParked \<Longrightarrow> t \<notin> set (queue s') \<Longrightarrow> writers s' \<noteq> 0"
    and tf: "\<And>b. c = WParked b \<Longrightarrow> \<not> length (buf s') < PIPE_CAP"
    and b: "buf s' \<noteq> [] \<Longrightarrow> buf s \<noteq> [] \<or> c = WWake"
    and b': "ppcs s t = WWake \<Longrightarrow> set (read_waker s) \<subseteq> set (queue s')"
    and w: "writers s' = 0 \<Longrightarrow> writers s = 0 \<or> c = CWriteWake"
    and w': "ppcs s t = CWriteWake \<Longrightarrow> set (read_waker s) \<subseteq> set (queue s')"
    and f: "length (buf s') < PIPE_CAP \<Longrightarrow> length (buf s) < PIPE_CAP \<or> (\<exists>b. c = RWake b)"
    and f': "\<And>b. ppcs s t = RWake b \<Longrightarrow> set (write_waker s) \<subseteq> set (queue s')"
  shows "waits_ok s'"
  unfolding waits_ok_def
proof (intro conjI allI impI)
  note ok1 = ok [unfolded waits_ok_def, THEN conjunct1, rule_format]
    and ok2 = ok [unfolded waits_ok_def, THEN conjunct2, THEN conjunct1, rule_format]
    and ok3 = ok [unfolded waits_ok_def, THEN conjunct2, THEN conjunct2, THEN conjunct1, rule_format]
    and ok4 = ok [unfolded waits_ok_def, THEN conjunct2, THEN conjunct2, THEN conjunct2, THEN conjunct1, rule_format]
    and ok5 = ok [unfolded waits_ok_def, THEN conjunct2, THEN conjunct2, THEN conjunct2, THEN conjunct2, rule_format]
  fix u
  show "u \<in> set (read_waker s') \<union> set (queue s')" if "ppcs s' u \<in> {RPop, REof, RParked}"
    using that tr ok1 [of u] q rw pc by (cases "u = t") auto
  show "u \<in> set (write_waker s') \<union> set (queue s')" if "ppcs s' u \<in> {WPush b, WParked b}" for b
    using that tw ok2 [of u b] q ww pc by (cases "u = t") auto
  show "\<exists>v. ppcs s' v = WWake" if u: "ppcs s' u \<in> {REof, RParked}" "u \<notin> set (queue s')" "buf s' \<noteq> []"
  proof (cases "u = t \<or> c = WWake")
    case True
    then show ?thesis using u te pc by (metis fun_upd_same)
  next
    case False
    then have u': "ppcs s u \<in> {REof, RParked}" "u \<notin> set (queue s)" "buf s \<noteq> []"
      using u q b pc by auto
    then obtain v where v: "ppcs s v = WWake" using ok3 by blast
    have "v \<noteq> t" using v b' u(2) u' ok1 [of u] by auto
    then show ?thesis using v pc by auto
  qed
  show "\<exists>v. ppcs s' v = CWriteWake" if u: "ppcs s' u = RParked" "u \<notin> set (queue s')" "writers s' = 0"
  proof (cases "u = t \<or> c = CWriteWake")
    case True
    then show ?thesis using u tc pc by auto
  next
    case False
    then have u': "ppcs s u = RParked" "u \<notin> set (queue s)" "writers s = 0"
      using u q w pc by auto
    then obtain v where v: "ppcs s v = CWriteWake" using ok4 by blast
    have "v \<noteq> t" using v w' u(2) u' ok1 [of u] by auto
    then show ?thesis using v pc by auto
  qed
  show "\<exists>v d. ppcs s' v = RWake d" if u: "ppcs s' u = WParked b" "u \<notin> set (queue s')" "length (buf s') < PIPE_CAP" for b
  proof (cases "u = t \<or> (\<exists>d. c = RWake d)")
    case True
    then show ?thesis using u tf pc by auto
  next
    case False
    then have u': "ppcs s u = WParked b" "u \<notin> set (queue s)" "length (buf s) < PIPE_CAP"
      using u q f pc by auto
    then obtain v d where v: "ppcs s v = RWake d" using ok5 by blast
    have "v \<noteq> t" using v f' u(2) u' ok2 [of u b] by auto
    then show ?thesis using v pc by auto
  qed
qed

lemma waits_read:
  assumes ok: "waits_ok s"
  shows "waits_ok (read_poll_step t s)"
proof (cases "ppcs s t")
  case RKill
  show ?thesis
    by (rule waits_step [OF ok, where t = t and c = "if killed s t then RDone None else RReg"])
       (auto simp: read_poll_step_def RKill split: if_splits)
next
  case RReg
  show ?thesis
    by (rule waits_step [OF ok, where t = t and c = RPop]) (auto simp: read_poll_step_def RReg)
next
  case RPop
  have reg: "t \<in> set (read_waker s) \<union> set (queue s)" using ok RPop by (simp add: waits_ok_def)
  show ?thesis
    by (rule waits_step [OF ok, where t = t and c = "case buf s of [] \<Rightarrow> REof | b # bs \<Rightarrow> RWake b"])
       (use reg in \<open>auto simp: read_poll_step_def RPop split: list.splits\<close>)
next
  case (RWake b)
  show ?thesis
    by (rule waits_step [OF ok, where t = t and c = "RDone (Some b)"]) (auto simp: read_poll_step_def RWake)
next
  case REof
  let ?c = "if writers s = 0 then RDone None else RParked"
  have reg: "t \<in> set (read_waker s) \<union> set (queue s)" using ok REof by (simp add: waits_ok_def)
  have st: "read_poll_step t s = goto t ?c s" by (simp add: read_poll_step_def REof)
  have wk: "\<exists>u. ((ppcs s)(t := ?c)) u = WWake" if q: "t \<notin> set (queue s)" and b: "buf s \<noteq> []"
  proof -
    have "ppcs s t \<in> {REof, RParked}" by (simp add: REof)
    then obtain u where "ppcs s u = WWake" using ok q b unfolding waits_ok_def by blast
    then have "((ppcs s)(t := ?c)) u = WWake" using REof by auto
    then show ?thesis by blast
  qed
  show ?thesis unfolding st
    by (rule waits_step [OF ok, where t = t and c = ?c])
       (use reg wk REof in \<open>simp_all add: subset_insertI split: if_splits\<close>)
qed (use ok in \<open>simp_all add: read_poll_step_def\<close>)

lemma waits_write:
  assumes ok: "waits_ok s"
  shows "waits_ok (write_poll_step t s)"
proof (cases "ppcs s t")
  case (WKill b)
  show ?thesis
    by (rule waits_step [OF ok, where t = t and c = "if killed s t then WDone False else WRead b"])
       (auto simp: write_poll_step_def WKill split: if_splits)
next
  case (WRead b)
  show ?thesis
    by (rule waits_step [OF ok, where t = t and c = "if readers s = 0 then WDone False else WReg b"])
       (auto simp: write_poll_step_def WRead split: if_splits)
next
  case (WReg b)
  show ?thesis
    by (rule waits_step [OF ok, where t = t and c = "WPush b"]) (auto simp: write_poll_step_def WReg)
next
  case (WPush b)
  have reg: "t \<in> set (write_waker s) \<union> set (queue s)" using ok WPush by (simp add: waits_ok_def)
  show ?thesis
    by (rule waits_step [OF ok, where t = t and c = "if length (buf s) < PIPE_CAP then WWake else WParked b"])
       (use reg in \<open>auto simp: write_poll_step_def WPush split: if_splits\<close>)
next
  case WWake
  show ?thesis
    by (rule waits_step [OF ok, where t = t and c = "WDone True"]) (auto simp: write_poll_step_def WWake)
qed (use ok in \<open>simp_all add: write_poll_step_def\<close>)

lemma waits_nonblock_read:
  assumes ok: "waits_ok s"
  shows "waits_ok (nonblock_read_step t s)"
proof (cases "ppcs s t")
  case NPop
  show ?thesis
    by (rule waits_step [OF ok, where t = t and c = "case buf s of [] \<Rightarrow> NEof | b # bs \<Rightarrow> RWake b"])
       (auto simp: nonblock_read_step_def NPop split: list.splits)
next
  case NEof
  show ?thesis by (rule waits_step [OF ok, where t = t and c = "RDone None"]) (auto simp: nonblock_read_step_def NEof)
qed (use ok in \<open>simp_all add: nonblock_read_step_def\<close>)

lemma waits_nonblock_write:
  assumes ok: "waits_ok s"
  shows "waits_ok (nonblock_write_step t s)"
proof (cases "ppcs s t")
  case (NRead b)
  show ?thesis
    by (rule waits_step [OF ok, where t = t and c = "if readers s = 0 then WDone False else NPush b"])
       (auto simp: nonblock_write_step_def NRead split: if_splits)
next
  case (NPush b)
  show ?thesis
    by (rule waits_step [OF ok, where t = t and c = "if length (buf s) < PIPE_CAP then WWake else NFull"])
       (auto simp: nonblock_write_step_def NPush split: if_splits)
next
  case NFull
  show ?thesis by (rule waits_step [OF ok, where t = t and c = "WDone False"]) (auto simp: nonblock_write_step_def NFull)
qed (use ok in \<open>simp_all add: nonblock_write_step_def\<close>)

lemma waits_drop:
  assumes ok: "waits_ok s"
  shows "waits_ok (drop_step t s)"
proof (cases "ppcs s t")
  case CRead
  show ?thesis by (rule waits_step [OF ok, where t = t and c = CReadWake]) (auto simp: drop_step_def CRead)
next
  case CReadWake
  show ?thesis by (rule waits_step [OF ok, where t = t and c = Out]) (auto simp: drop_step_def CReadWake)
next
  case CWrite
  show ?thesis by (rule waits_step [OF ok, where t = t and c = CWriteWake]) (auto simp: drop_step_def CWrite)
next
  case CWriteWake
  show ?thesis by (rule waits_step [OF ok, where t = t and c = Out]) (auto simp: drop_step_def CWriteWake)
qed (use ok in \<open>simp_all add: drop_step_def\<close>)

lemma queue_remove1: "set (queue s) \<subseteq> insert t (set (remove1 t (queue s)))"
  by (metis in_set_remove1 insert_iff subsetI)

lemma waits_pstep: "pstep s s' \<Longrightarrow> waits_ok s \<Longrightarrow> waits_ok s'"
proof (induction rule: pstep.induct)
  case (start s t c b)
  show ?case by (rule waits_step [OF start(3), where t = t and c = c]) (use start in \<open>auto simp: starts_def\<close>)
next
  case (close s t c)
  show ?case by (rule waits_step [OF close(3), where t = t and c = c]) (use close in \<open>auto simp: starts_def\<close>)
next
  case (repoll_read s t)
  show ?case using queue_remove1 [of s t] repoll_read
    by (rule_tac waits_step [OF repoll_read(3), where t = t and c = RKill]) auto
next
  case (repoll_write s t b)
  show ?case using queue_remove1 [of s t] repoll_write
    by (rule_tac waits_step [OF repoll_write(3), where t = t and c = "WKill b"]) auto
next
  case (kill s t)
  then show ?case by (simp add: waits_ok_def)
next
  case (wake s t)
  then show ?case unfolding waits_ok_def by auto
qed (simp_all add: waits_read waits_write waits_nonblock_read waits_nonblock_write waits_drop)

lemma waits_reach: "preach s \<Longrightarrow> waits_ok s"
  by (induction rule: preach.induct) (use waits_init waits_pstep in blast)+

lemma preach_reads: "preach s \<Longrightarrow> preach ((read_poll_step t ^^ n) s)"
  by (induction n) (simp, metis preach.more pstep.rd funpow.simps(2) comp_apply)

lemma preach_writes: "preach s \<Longrightarrow> preach ((write_poll_step t ^^ n) s)"
  by (induction n) (simp, metis preach.more pstep.wr funpow.simps(2) comp_apply)

text \<open>C37. In every interleaving of readers, writers, closers and killers of a pipe, the bytes read
  so far followed by the buffer are exactly the bytes written so far, and the buffer never
  exceeds its capacity.\<close>

theorem pipe_fifo:
  assumes "preach s"
  shows "sent s = got s @ buf s \<and> length (buf s) \<le> PIPE_CAP"
  using fifo_reach [OF assms] by (simp add: fifo_def)

theorem pipe_fifo_witness:
  "preach (goto 1 RKill psys_new) \<and>
   sent (goto 1 RKill psys_new) = got (goto 1 RKill psys_new) @ buf (goto 1 RKill psys_new)"
proof -
  have r: "preach (goto 1 RKill psys_new)"
    by (rule preach.more [OF preach.init]) (rule pstep.start, simp_all add: psys_new_def starts_def)
  show ?thesis using r pipe_fifo [OF r] by blast
qed

text \<open>C36. No wake-up of a reader is lost: a reader that is parked and not queued to run, while no
  task is about to wake the readers, waits for a reason: the buffer is empty and a writer
  remains. A parked writer in the same position waits for a full buffer.\<close>

theorem no_lost_wakeup:
  assumes "preach s" and "t \<notin> set (queue s)"
  shows "(ppcs s t = RParked \<longrightarrow> (\<forall>u. ppcs s u \<noteq> WWake \<and> ppcs s u \<noteq> CWriteWake) \<longrightarrow>
      buf s = [] \<and> writers s \<noteq> 0) \<and>
    (ppcs s t = WParked b \<longrightarrow> (\<forall>u c. ppcs s u \<noteq> RWake c) \<longrightarrow> length (buf s) = PIPE_CAP)"
  using waits_reach [OF assms(1)] fifo_reach [OF assms(1)] assms(2)
  unfolding waits_ok_def fifo_def by (metis insertCI le_neq_implies_less)

definition parked_reader :: psys where
  "parked_reader = (read_poll_step 1 ^^ 4) (goto 1 RKill psys_new)"

theorem no_lost_wakeup_witness:
  "preach parked_reader \<and> ppcs parked_reader 1 = RParked \<and> 1 \<notin> set (queue parked_reader) \<and>
   buf parked_reader = [] \<and> writers parked_reader \<noteq> 0"
proof -
  have r0: "preach (goto 1 RKill psys_new)"
    by (rule preach.more [OF preach.init]) (rule pstep.start, simp_all add: psys_new_def starts_def)
  have r: "preach parked_reader" unfolding parked_reader_def by (rule preach_reads [OF r0])
  have e: "parked_reader = goto 1 RParked (psys_new\<lparr>read_waker := [1]\<rparr>)"
    by (simp add: parked_reader_def eval_nat_numeral read_poll_step_def psys_new_def list_register_def)
  have p: "ppcs parked_reader 1 = RParked" "1 \<notin> set (queue parked_reader)"
    "\<forall>u. ppcs parked_reader u \<noteq> WWake \<and> ppcs parked_reader u \<noteq> CWriteWake"
    by (auto simp: e psys_new_def)
  show ?thesis using r p no_lost_wakeup [OF r p(2)] by blast
qed

section \<open>A lost wake-up of a writer\<close>

definition filled :: "nat \<Rightarrow> psys" where
  "filled n = psys_new\<lparr>buf := replicate n 0, sent := replicate n 0,
     write_waker := if n = 0 then [] else [3], ppcs := (\<lambda>_. Out)(3 := if n = 0 then Out else WDone True)\<rparr>"

lemma filled_Suc:
  assumes "n < PIPE_CAP"
  shows "filled (Suc n) = (write_poll_step 3 ^^ 5) (goto 3 (WKill 0) (filled n))"
  using assms by (simp add: filled_def psys_new_def eval_nat_numeral write_poll_step_def
    list_register_def replicate_append_same)

lemma preach_filled: "n \<le> PIPE_CAP \<Longrightarrow> preach (filled n)"
proof (induction n)
  case 0
  have "filled 0 = psys_new" by (simp add: filled_def psys_new_def fun_upd_def)
  then show ?case using preach.init by simp
next
  case (Suc n)
  have "preach (goto 3 (WKill 0) (filled n))"
  proof (rule preach.more)
    show "preach (filled n)" using Suc by simp
    show "pstep (filled n) (goto 3 (WKill 0) (filled n))"
      by (rule pstep.start) (simp_all add: filled_def starts_def)
  qed
  then show ?case using Suc.prems preach_writes by (simp add: filled_Suc)
qed

text \<open>The last reader closes between a writer's check of the reader count and the registration
  of its waker.\<close>

definition lost_writer :: psys where
  "lost_writer = (write_poll_step 1 ^^ 2) ((drop_step 2 ^^ 2) (goto 2 CRead
     ((write_poll_step 1 ^^ 2) (goto 1 (WKill 7) (filled PIPE_CAP)))))"

lemma preach_drops: "preach s \<Longrightarrow> preach ((drop_step t ^^ n) s)"
  by (induction n) (simp, metis preach.more pstep.dr funpow.simps(2) comp_apply)

text \<open>C38. A writer can be left parked for ever on a pipe nobody reads: there is an interleaving
  after which it is parked and not queued, the last reader is gone, and no other task is inside
  a poll or a close that would wake it, although a write then has to fail at once.\<close>

theorem writer_wakeup_can_be_lost:
  "\<exists>s t b. preach s \<and> ppcs s t = WParked b \<and> t \<notin> set (queue s) \<and> readers s = 0 \<and>
     {u. ppcs s u \<notin> {Out, WDone True}} = {t}"
proof -
  let ?f = "filled PIPE_CAP"
  have "preach (goto 1 (WKill 7) ?f)"
    by (rule preach.more, rule preach_filled [OF order_refl], rule pstep.start)
       (simp_all add: filled_def starts_def)
  then have "preach ((write_poll_step 1 ^^ 2) (goto 1 (WKill 7) ?f))" by (rule preach_writes)
  then have "preach (goto 2 CRead ((write_poll_step 1 ^^ 2) (goto 1 (WKill 7) ?f)))"
    by (rule preach.more, intro pstep.close)
       (simp_all add: filled_def starts_def eval_nat_numeral write_poll_step_def psys_new_def)
  then have r: "preach lost_writer"
    unfolding lost_writer_def by (intro preach_writes preach_drops)
  have l: "length (buf ?f) = PIPE_CAP" by (simp add: filled_def)
  have "ppcs lost_writer = (ppcs ?f)(1 := WParked 7, 2 := Out)"
    "queue lost_writer = [3]" "readers lost_writer = 0"
    by (auto simp: lost_writer_def eval_nat_numeral write_poll_step_def drop_step_def filled_def
      psys_new_def list_register_def PIPE_CAP_def fun_eq_iff simp del: replicate.simps)
  then have "ppcs lost_writer 1 = WParked 7 \<and> 1 \<notin> set (queue lost_writer) \<and> readers lost_writer = 0 \<and>
    {u. ppcs lost_writer u \<notin> {Out, WDone True}} = {1}"
    by (auto simp: filled_def)
  with r show ?thesis by blast
qed

end
