(* ===== verification/Fdtab.thy ===== *)
theory Fdtab
  imports Pipe
begin

unbundle bit_operations_syntax

text \<open>
  Open file descriptions and per-process descriptor tables (\<open>file.rs\<close>, the descriptor
  methods of \<open>Proc\<close>, and the system calls \<open>pipe\<close>, \<open>close\<close>, \<open>dup\<close>, \<open>dup2\<close>, \<open>fcntl\<close>, \<open>lseek\<close>).
  A description is an \<open>Arc<File>\<close>: an identifier with its file and its strong count. Cloning and
  dropping the \<open>Arc\<close> are explicit operations, and the \<open>Drop\<close> of the last reference runs
  \<open>Drop for File\<close>, which is what closes a pipe end. The central invariant counts references:
  the strong count of a description is the number of table slots that hold it, plus the
  references held by local variables of a running operation.
\<close>

section \<open>State\<close>

definition NOFILE :: nat where "NOFILE = 16"

datatype ofile = Console | PipeRead nat | PipeWrite nat | Socket nat
  | InodeF (ino: nat) (foff: nat) (readable: bool) (writable: bool) (append: bool)
  | Fb (foff: nat) | Input

record fd_entry =
  fd_file :: nat
  cloexec :: bool
  nonblock :: bool

definition fd_entry_new :: "nat \<Rightarrow> fd_entry" where
  "fd_entry_new f = \<lparr>fd_file = f, cloexec = False, nonblock = False\<rparr>"

record ftab =
  descs :: "nat \<Rightarrow> (ofile \<times> nat) option"
  next_desc :: nat
  pipes :: "nat \<Rightarrow> pipe"
  next_pipe :: nat
  fds :: "nat \<Rightarrow> fd_entry option list"
  woken :: "tid list"
  deferred :: "nat list"

definition ftab_new :: ftab where
  "ftab_new = \<lparr>descs = Map.empty, next_desc = 0, pipes = (\<lambda>_. pipe_new), next_pipe = 0,
     fds = (\<lambda>_. []), woken = [], deferred = []\<rparr>"

section \<open>Reference-counted descriptions\<close>

definition arc_new :: "ofile \<Rightarrow> ftab \<Rightarrow> nat \<times> ftab" where
  "arc_new f s = (next_desc s,
     s\<lparr>descs := (descs s)(next_desc s \<mapsto> (f, 1)), next_desc := next_desc s + 1\<rparr>)"

definition arc_clone :: "nat \<Rightarrow> ftab \<Rightarrow> ftab" where
  "arc_clone d s = (case descs s d of
     None \<Rightarrow> s | Some (f, n) \<Rightarrow> s\<lparr>descs := (descs s)(d \<mapsto> (f, n + 1))\<rparr>)"

text \<open>\<open>Drop for File\<close>.\<close>

definition file_drop :: "ofile \<Rightarrow> ftab \<Rightarrow> ftab" where
  "file_drop f s = (case f of
     PipeRead k \<Rightarrow>
       (let (p, w) = drop_reader (pipes s k, woken s) in s\<lparr>pipes := (pipes s)(k := p), woken := w\<rparr>)
   | PipeWrite k \<Rightarrow>
       (let (p, w) = drop_writer (pipes s k, woken s) in s\<lparr>pipes := (pipes s)(k := p), woken := w\<rparr>)
   | InodeF ip _ _ _ _ \<Rightarrow> s\<lparr>deferred := deferred s @ [ip]\<rparr>
   | _ \<Rightarrow> s)"

definition arc_drop :: "nat \<Rightarrow> ftab \<Rightarrow> ftab" where
  "arc_drop d s = (case descs s d of
     None \<Rightarrow> s
   | Some (f, n) \<Rightarrow>
       if n = 1 then file_drop f (s\<lparr>descs := (descs s)(d := None)\<rparr>)
       else s\<lparr>descs := (descs s)(d \<mapsto> (f, n - 1))\<rparr>)"

definition drop_entry :: "fd_entry option \<Rightarrow> ftab \<Rightarrow> ftab" where
  "drop_entry e s = (case e of None \<Rightarrow> s | Some e \<Rightarrow> arc_drop (fd_file e) s)"

section \<open>The descriptor table of a process\<close>

definition set_slot :: "nat \<Rightarrow> nat \<Rightarrow> fd_entry option \<Rightarrow> ftab \<Rightarrow> ftab" where
  "set_slot p i e s = s\<lparr>fds := (fds s)(p := (fds s p)[i := e])\<rparr>"

definition slot_at :: "nat \<Rightarrow> int \<Rightarrow> ftab \<Rightarrow> fd_entry option" where
  "slot_at p fd s =
     (if fd < 0 then None
      else if nat fd < length (fds s p) then fds s p ! nat fd else None)"

text \<open>\<open>get_file\<close> and \<open>get_fd_entry\<close> hand out a clone of the \<open>Arc\<close>.\<close>

definition get_fd_entry :: "nat \<Rightarrow> int \<Rightarrow> ftab \<Rightarrow> fd_entry option \<times> ftab" where
  "get_fd_entry p fd s = (case slot_at p fd s of
     None \<Rightarrow> (None, s) | Some e \<Rightarrow> (Some e, arc_clone (fd_file e) s))"

definition get_file :: "nat \<Rightarrow> int \<Rightarrow> ftab \<Rightarrow> nat option \<times> ftab" where
  "get_file p fd s = (case slot_at p fd s of
     None \<Rightarrow> (None, s) | Some e \<Rightarrow> (Some (fd_file e), arc_clone (fd_file e) s))"

fun first_free :: "nat \<Rightarrow> fd_entry option list \<Rightarrow> nat option" where
  "first_free i [] = None"
| "first_free i (None # es) = Some i"
| "first_free i (Some e # es) = first_free (i + 1) es"

text \<open>An entry that finds no slot is dropped with its reference.\<close>

definition alloc_fd_entry_at :: "nat \<Rightarrow> nat \<Rightarrow> fd_entry \<Rightarrow> ftab \<Rightarrow> int option \<times> ftab" where
  "alloc_fd_entry_at p begin' e s =
     (case first_free begin' (drop begin' (fds s p)) of
        Some i \<Rightarrow> (Some (int i), set_slot p i (Some e) s)
      | None \<Rightarrow> (None, drop_entry (Some e) s))"

definition alloc_fd_entry :: "nat \<Rightarrow> fd_entry \<Rightarrow> ftab \<Rightarrow> int option \<times> ftab" where
  "alloc_fd_entry p e s = alloc_fd_entry_at p 0 e s"

definition alloc_fd :: "nat \<Rightarrow> nat \<Rightarrow> ftab \<Rightarrow> int option \<times> ftab" where
  "alloc_fd p f s = alloc_fd_entry p (fd_entry_new f) s"

definition alloc_fd_entry_from :: "nat \<Rightarrow> fd_entry \<Rightarrow> int \<Rightarrow> ftab \<Rightarrow> int option \<times> ftab" where
  "alloc_fd_entry_from p e start s =
     (if start < 0 then (None, drop_entry (Some e) s)
      else alloc_fd_entry_at p (min (nat start) (length (fds s p))) e s)"

definition close_fd :: "nat \<Rightarrow> int \<Rightarrow> ftab \<Rightarrow> int \<times> ftab" where
  "close_fd p fd s = (case slot_at p fd s of
     None \<Rightarrow> (-1, s)
   | Some e \<Rightarrow> (0, drop_entry (Some e) (set_slot p (nat fd) None s)))"

definition fd_flags :: "nat \<Rightarrow> int \<Rightarrow> ftab \<Rightarrow> (bool \<times> bool) option" where
  "fd_flags p fd s = map_option (\<lambda>e. (cloexec e, nonblock e)) (slot_at p fd s)"

definition set_fd_cloexec :: "nat \<Rightarrow> int \<Rightarrow> bool \<Rightarrow> ftab \<Rightarrow> bool \<times> ftab" where
  "set_fd_cloexec p fd v s = (case slot_at p fd s of
     None \<Rightarrow> (False, s) | Some e \<Rightarrow> (True, set_slot p (nat fd) (Some (e\<lparr>cloexec := v\<rparr>)) s))"

definition set_fd_nonblock :: "nat \<Rightarrow> int \<Rightarrow> bool \<Rightarrow> ftab \<Rightarrow> bool \<times> ftab" where
  "set_fd_nonblock p fd v s = (case slot_at p fd s of
     None \<Rightarrow> (False, s) | Some e \<Rightarrow> (True, set_slot p (nat fd) (Some (e\<lparr>nonblock := v\<rparr>)) s))"

text \<open>Emptying slot \<open>i\<close> and dropping what it held; the sweep of \<open>exec\<close> and the clearing of the
  whole table on exit run over all slots.\<close>

definition take_slot_if :: "(fd_entry \<Rightarrow> bool) \<Rightarrow> nat \<Rightarrow> nat \<Rightarrow> ftab \<Rightarrow> ftab" where
  "take_slot_if P p i s = (case fds s p ! i of
     Some e \<Rightarrow> if P e then drop_entry (Some e) (set_slot p i None s) else s | None \<Rightarrow> s)"

definition close_on_exec :: "nat \<Rightarrow> ftab \<Rightarrow> ftab" where
  "close_on_exec p s = fold (take_slot_if cloexec p) [0..<length (fds s p)] s"

definition exit_files :: "nat \<Rightarrow> ftab \<Rightarrow> ftab" where
  "exit_files p s = (let s = fold (take_slot_if (\<lambda>_. True) p) [0..<length (fds s p)] s
     in s\<lparr>fds := (fds s)(p := [])\<rparr>)"

text \<open>\<open>default_files\<close>: one console description on the first three descriptors.\<close>

definition default_files :: "nat \<Rightarrow> ftab \<Rightarrow> ftab" where
  "default_files p s =
     (let s = s\<lparr>fds := (fds s)(p := replicate NOFILE None)\<rparr>;
          (c, s) = arc_new Console s;
          s = set_slot p 0 (Some (fd_entry_new c)) (arc_clone c s);
          s = set_slot p 1 (Some (fd_entry_new c)) (arc_clone c s)
      in set_slot p 2 (Some (fd_entry_new c)) s)"

text \<open>The table of a forked child: every entry is cloned.\<close>

definition clone_slot :: "nat \<Rightarrow> nat \<Rightarrow> nat \<Rightarrow> ftab \<Rightarrow> ftab" where
  "clone_slot p c i s = (case fds s p ! i of
     None \<Rightarrow> s | Some e \<Rightarrow> set_slot c i (Some e) (arc_clone (fd_file e) s))"

definition fork_files :: "nat \<Rightarrow> nat \<Rightarrow> ftab \<Rightarrow> ftab" where
  "fork_files p c s =
     fold (clone_slot p c) [0..<length (fds s p)]
       (s\<lparr>fds := (fds s)(c := replicate (length (fds s p)) None)\<rparr>)"

section \<open>System calls\<close>

definition fd_ret :: "int option \<Rightarrow> int" where
  "fd_ret r = (case r of Some n \<Rightarrow> n | None \<Rightarrow> -1)"

text \<open>The two descriptions of a new pipe.\<close>

definition pipe_files :: "ftab \<Rightarrow> nat \<times> nat \<times> ftab" where
  "pipe_files s =
     (let k = next_pipe s; s = s\<lparr>pipes := (pipes s)(k := pipe_new), next_pipe := k + 1\<rparr>;
          (r, s) = arc_new (PipeRead k) s; (w, s) = arc_new (PipeWrite k) s
      in (r, w, s))"

text \<open>The result of \<open>sys_pipe\<close> has the words stored through the user pointer, as kernel address
  and value; \<open>tw\<close> is \<open>translate_user_write\<close>.\<close>

definition sys_pipe :: "(nat \<Rightarrow> nat option) \<Rightarrow> nat \<Rightarrow> nat \<Rightarrow> ftab \<Rightarrow> int \<times> (nat \<times> int) list \<times> ftab" where
  "sys_pipe tw p pipefd_va s =
     (let (r, w, s) = pipe_files s; (rfd, s) = alloc_fd p r s in
      case rfd of
        None \<Rightarrow> (-1, [], arc_drop w s)
      | Some rfd \<Rightarrow>
          (let (wfd, s) = alloc_fd p w s in
           case wfd of
             None \<Rightarrow> (-1, [], snd (close_fd p rfd s))
           | Some wfd \<Rightarrow>
               (case tw pipefd_va of
                  None \<Rightarrow> (-1, [], snd (close_fd p wfd (snd (close_fd p rfd s))))
                | Some k0 \<Rightarrow>
                    (case tw (pipefd_va + 4) of
                       None \<Rightarrow> (-1, [(k0, rfd)], snd (close_fd p wfd (snd (close_fd p rfd s))))
                     | Some k1 \<Rightarrow> (0, [(k0, rfd), (k1, wfd)], s)))))"

definition sys_close :: "nat \<Rightarrow> int \<Rightarrow> ftab \<Rightarrow> int \<times> ftab" where
  "sys_close p fd s = close_fd p fd s"

definition sys_dup :: "nat \<Rightarrow> int \<Rightarrow> ftab \<Rightarrow> int \<times> ftab" where
  "sys_dup p fd s =
     (let (entry, s) = get_fd_entry p fd s in
      case entry of
        None \<Rightarrow> (-1, s)
      | Some e \<Rightarrow> apfst fd_ret (alloc_fd_entry p (e\<lparr>cloexec := False\<rparr>) s))"

definition sys_dup2 :: "nat \<Rightarrow> int \<Rightarrow> int \<Rightarrow> ftab \<Rightarrow> int \<times> ftab" where
  "sys_dup2 p oldfd newfd s =
     (if oldfd < 0 \<or> newfd < 0 then (-1, s)
      else let (entry, s) = get_fd_entry p oldfd s in
        case entry of
          None \<Rightarrow> (-1, s)
        | Some e \<Rightarrow>
            if oldfd = newfd then (newfd, drop_entry entry s)
            else if NOFILE \<le> nat newfd then (-1, drop_entry entry s)
            else let (_, s) = close_fd p newfd s
                 in (newfd, set_slot p (nat newfd) (Some (e\<lparr>cloexec := False\<rparr>)) s))"

definition F_DUPFD :: int where "F_DUPFD = 0"
definition F_GETFD :: int where "F_GETFD = 1"
definition F_SETFD :: int where "F_SETFD = 2"
definition F_GETFL :: int where "F_GETFL = 3"
definition F_SETFL :: int where "F_SETFL = 4"
definition F_DUPFD_CLOEXEC :: int where "F_DUPFD_CLOEXEC = 1030"
definition FD_CLOEXEC :: int where "FD_CLOEXEC = 1"
definition O_APPEND :: int where "O_APPEND = 0x800"
definition O_NONBLOCK :: int where "O_NONBLOCK = 0x8000"

definition sys_fcntl :: "nat \<Rightarrow> int \<Rightarrow> int \<Rightarrow> int \<Rightarrow> ftab \<Rightarrow> int \<times> ftab" where
  "sys_fcntl p fd cmd arg s =
     (let (entry, s) = get_fd_entry p fd s in
      case entry of
        None \<Rightarrow> (-1, s)
      | Some e \<Rightarrow>
          if cmd = F_DUPFD then
            apsnd (drop_entry entry) (apfst fd_ret
              (alloc_fd_entry_from p (e\<lparr>cloexec := False\<rparr>) arg (arc_clone (fd_file e) s)))
          else if cmd = F_DUPFD_CLOEXEC then
            apsnd (drop_entry entry) (apfst fd_ret
              (alloc_fd_entry_from p (e\<lparr>cloexec := True\<rparr>) arg (arc_clone (fd_file e) s)))
          else if cmd = F_GETFD then (if cloexec e then FD_CLOEXEC else 0, drop_entry entry s)
          else if cmd = F_SETFD then
            (let (ok, s) = set_fd_cloexec p fd (arg AND FD_CLOEXEC \<noteq> 0) s
             in (if ok then 0 else -1, drop_entry entry s))
          else if cmd = F_GETFL then
            (let a = (case descs s (fd_file e) of Some (InodeF _ _ _ _ True, _) \<Rightarrow> O_APPEND | _ \<Rightarrow> 0)
             in (a OR (if nonblock e then O_NONBLOCK else 0), drop_entry entry s))
          else if cmd = F_SETFL then
            (let (ok, s) = set_fd_nonblock p fd (arg AND O_NONBLOCK \<noteq> 0) s
             in (if ok then 0 else -1, drop_entry entry s))
          else (-1, drop_entry entry s))"

definition SEEK_SET :: int where "SEEK_SET = 0"
definition SEEK_CUR :: int where "SEEK_CUR = 1"
definition SEEK_END :: int where "SEEK_END = 2"

text \<open>\<open>isize\<close> is the size of an inode read under its lock, \<open>fbsize\<close> that of the framebuffer. A sum
  beyond the \<open>i64\<close> range wraps to a negative offset in the source, which is rejected like the
  unbounded sum here.\<close>

definition lseek_new :: "int \<Rightarrow> int \<Rightarrow> int \<Rightarrow> int \<Rightarrow> int option" where
  "lseek_new whence offset cur end' =
     (if whence = SEEK_SET then Some offset
      else if whence = SEEK_CUR then Some (cur + offset)
      else if whence = SEEK_END then Some (end' + offset)
      else None)"

definition set_foff :: "nat \<Rightarrow> ofile \<Rightarrow> ofile" where
  "set_foff v f = (case f of InodeF i _ r w a \<Rightarrow> InodeF i v r w a | Fb _ \<Rightarrow> Fb v | _ \<Rightarrow> f)"

definition sys_lseek :: "(nat \<Rightarrow> nat) \<Rightarrow> nat \<Rightarrow> nat \<Rightarrow> int \<Rightarrow> int \<Rightarrow> int \<Rightarrow> ftab \<Rightarrow> int \<times> ftab" where
  "sys_lseek isize fbsize p fd offset whence s =
     (let (fo, s) = get_file p fd s in
      case fo of
        None \<Rightarrow> (-1, s)
      | Some d \<Rightarrow>
          (case descs s d of
             None \<Rightarrow> (-1, s)
           | Some (f, n) \<Rightarrow>
               (case (case f of InodeF ip o' _ _ _ \<Rightarrow> Some (o', isize ip) | Fb o' \<Rightarrow> Some (o', fbsize) | _ \<Rightarrow> None) of
                  None \<Rightarrow> (-1, arc_drop d s)
                | Some (cur, end') \<Rightarrow>
                    (case lseek_new whence offset (int cur) (int end') of
                       None \<Rightarrow> (-1, arc_drop d s)
                     | Some new \<Rightarrow>
                         if new < 0 \<or> new > 2 ^ 32 - 1 then (-1, arc_drop d s)
                         else (new, arc_drop d (s\<lparr>descs := (descs s)(d \<mapsto> (set_foff (nat new) f, n))\<rparr>))))))"

section \<open>Counting references\<close>

definition slots :: "ftab \<Rightarrow> nat \<Rightarrow> (nat \<times> nat) set" where
  "slots s d = {(p, i). i < length (fds s p) \<and> (\<exists>e. fds s p ! i = Some e \<and> fd_file e = d)}"

definition live_ends :: "ofile \<Rightarrow> ftab \<Rightarrow> nat set" where
  "live_ends f s = {d. \<exists>n. descs s d = Some (f, n)}"

text \<open>\<open>X d\<close> references to \<open>d\<close> are held by local variables of the operation in progress.\<close>

definition fd_inv :: "(nat \<Rightarrow> nat) \<Rightarrow> ftab \<Rightarrow> bool" where
  "fd_inv X s \<longleftrightarrow>
     (\<forall>d. finite (slots s d)) \<and>
     (\<forall>d. case descs s d of None \<Rightarrow> slots s d = {} \<and> X d = 0
          | Some (f, n) \<Rightarrow> n = card (slots s d) + X d \<and> 0 < n) \<and>
     (\<forall>d. descs s d \<noteq> None \<longrightarrow> d < next_desc s) \<and>
     (\<forall>k \<ge> next_pipe s. live_ends (PipeRead k) s = {} \<and> live_ends (PipeWrite k) s = {}) \<and>
     (\<forall>k < next_pipe s. readers (pipes s k) = card (live_ends (PipeRead k) s) \<and>
        writers (pipes s k) = card (live_ends (PipeWrite k) s))"

lemma fd_invI:
  assumes "\<And>d. finite (slots s d)"
    and "\<And>d. descs s d = None \<Longrightarrow> slots s d = {} \<and> X d = 0"
    and "\<And>d f n. descs s d = Some (f, n) \<Longrightarrow> n = card (slots s d) + X d \<and> 0 < n"
    and "\<And>d f n. descs s d = Some (f, n) \<Longrightarrow> d < next_desc s"
    and "\<And>k. next_pipe s \<le> k \<Longrightarrow> live_ends (PipeRead k) s = {} \<and> live_ends (PipeWrite k) s = {}"
    and "\<And>k. k < next_pipe s \<Longrightarrow> readers (pipes s k) = card (live_ends (PipeRead k) s)"
    and "\<And>k. k < next_pipe s \<Longrightarrow> writers (pipes s k) = card (live_ends (PipeWrite k) s)"
  shows "fd_inv X s"
  unfolding fd_inv_def using assms by (auto split: option.split)

lemma fd_invD:
  assumes "fd_inv X s"
  shows "finite (slots s d)" "descs s d = None \<Longrightarrow> slots s d = {} \<and> X d = 0"
    "descs s d = Some (f, n) \<Longrightarrow> n = card (slots s d) + X d \<and> 0 < n"
    "descs s d = Some (f, n) \<Longrightarrow> d < next_desc s"
    "next_pipe s \<le> k \<Longrightarrow> live_ends (PipeRead k) s = {} \<and> live_ends (PipeWrite k) s = {}"
    "k < next_pipe s \<Longrightarrow> readers (pipes s k) = card (live_ends (PipeRead k) s)"
    "k < next_pipe s \<Longrightarrow> writers (pipes s k) = card (live_ends (PipeWrite k) s)"
  using assms unfolding fd_inv_def by (auto dest!: spec [of _ d])

lemma finite_live_ends: "fd_inv X s \<Longrightarrow> finite (live_ends f s)"
  by (rule finite_subset [of _ "{..<next_desc s}"]) (auto simp: live_ends_def dest: fd_invD(4))

lemma held_live: "fd_inv X s \<Longrightarrow> 0 < X d \<Longrightarrow> \<exists>f n. descs s d = Some (f, n)"
  using fd_invD(2) [of X s d] by (cases "descs s d") auto

lemma slot_live:
  assumes "fd_inv X s" "i < length (fds s p)" "fds s p ! i = Some e"
  shows "\<exists>f n. descs s (fd_file e) = Some (f, n)"
proof -
  have "(p, i) \<in> slots s (fd_file e)" using assms by (simp add: slots_def)
  then show ?thesis using fd_invD(2) [OF assms(1), of "fd_file e"] by (cases "descs s (fd_file e)") auto
qed

text \<open>What the operations on counts leave alone.\<close>

lemma fds_arc [simp]: "fds (arc_clone d s) = fds s" "fds (file_drop f s) = fds s" "fds (arc_drop d s) = fds s"
proof -
  show "fds (arc_clone d s) = fds s" by (simp add: arc_clone_def split: option.split prod.split)
  show fd: "fds (file_drop f s) = fds s" for f s
    by (simp add: file_drop_def drop_reader_def drop_writer_def split: ofile.split)
  show "fds (arc_drop d s) = fds s" by (simp add: arc_drop_def fd split: option.split prod.split)
qed

lemma fds_drop_entry [simp]: "fds (drop_entry e s) = fds s"
  by (simp add: drop_entry_def split: option.split)

lemma slots_fds: "fds s' = fds s \<Longrightarrow> slots s' d = slots s d"
  by (simp add: slots_def)

lemma fd_inv_recount:
  assumes inv: "fd_inv X s" and d: "descs s d = Some (f, n)" and m: "m = card (slots s d) + x" "0 < m"
  shows "fd_inv (X(d := x)) (s\<lparr>descs := (descs s)(d \<mapsto> (f, m))\<rparr>)"
proof -
  let ?s = "s\<lparr>descs := (descs s)(d \<mapsto> (f, m))\<rparr>"
  have e: "live_ends g ?s = live_ends g s" for g using d by (auto simp: live_ends_def)
  have sl: "slots ?s k = slots s k" for k by (rule slots_fds) simp
  show ?thesis
  proof (rule fd_invI, unfold e sl)
    fix k
    show "slots s k = {} \<and> (X(d := x)) k = 0" if "descs ?s k = None"
      using that fd_invD(2) [OF inv, of k] by (auto split: if_splits)
    show "c = card (slots s k) + (X(d := x)) k \<and> 0 < c" if "descs ?s k = Some (g, c)" for g c
      using that m fd_invD(3) [OF inv, of k g c] by (auto split: if_splits)
    show "k < next_desc ?s" if "descs ?s k = Some (g, c)" for g c
      using that fd_invD(4) [OF inv, of k g c] fd_invD(4) [OF inv d] by (auto split: if_splits)
  qed (use fd_invD(1,5-7) [OF inv] in auto)
qed

lemma fd_inv_clone:
  assumes inv: "fd_inv X s" and d: "descs s d = Some (f, n)"
  shows "fd_inv (X(d := X d + 1)) (arc_clone d s)"
proof -
  have "arc_clone d s = s\<lparr>descs := (descs s)(d \<mapsto> (f, n + 1))\<rparr>" using d by (simp add: arc_clone_def)
  then show ?thesis using fd_inv_recount [OF inv d, of "n + 1" "X d + 1"] fd_invD(3) [OF inv d] by simp
qed

lemma live_ends_remove:
  "descs s d = Some (f, n) \<Longrightarrow>
   live_ends g (s\<lparr>descs := (descs s)(d := None)\<rparr>) = (if g = f then live_ends f s - {d} else live_ends g s)"
  by (auto simp: live_ends_def)

lemma file_drop_simps [simp]:
  "descs (file_drop f s) = descs s" "next_desc (file_drop f s) = next_desc s"
  "next_pipe (file_drop f s) = next_pipe s" "live_ends g (file_drop f s) = live_ends g s"
  "readers (pipes (file_drop f s) k) = (if f = PipeRead k then readers (pipes s k) - 1 else readers (pipes s k))"
  "writers (pipes (file_drop f s) k) = (if f = PipeWrite k then writers (pipes s k) - 1 else writers (pipes s k))"
  by (simp_all add: file_drop_def drop_reader_def drop_writer_def live_ends_def split: ofile.split)

lemma fd_inv_drop:
  assumes inv: "fd_inv X s" and d: "0 < X d"
  shows "fd_inv (X(d := X d - 1)) (arc_drop d s)"
proof -
  obtain f n where n: "descs s d = Some (f, n)" using held_live [OF inv d] by blast
  have cnt: "n = card (slots s d) + X d" using fd_invD(3) [OF inv n] by simp
  have sl: "slots (arc_drop d s) k = slots s k" for k by (rule slots_fds) simp
  show ?thesis
  proof (cases "n = 1")
    case False
    then have "arc_drop d s = s\<lparr>descs := (descs s)(d \<mapsto> (f, n - 1))\<rparr>" using n by (simp add: arc_drop_def)
    then show ?thesis using fd_inv_recount [OF inv n, of "n - 1" "X d - 1"] cnt d False by simp
  next
    case True
    let ?r = "s\<lparr>descs := (descs s)(d := None)\<rparr>"
    have s': "arc_drop d s = file_drop f ?r" using n True by (simp add: arc_drop_def)
    have "card (slots s d) = 0" and Xd: "X d = 1" using cnt True d by linarith+
    then have X: "X d = 1" "slots s d = {}" using fd_invD(1) [OF inv, of d] by simp_all
    have in_f: "d \<in> live_ends f s" using n by (auto simp: live_ends_def)
    have c: "card (live_ends f s - {d}) = card (live_ends f s) - 1"
      using in_f finite_live_ends [OF inv, of f] by (simp add: card_Diff_singleton)
    note e = live_ends_remove [OF n]
    have d': "descs (arc_drop d s) = (descs s)(d := None)" "next_pipe (arc_drop d s) = next_pipe s"
      "next_desc (arc_drop d s) = next_desc s" by (simp_all add: s')
    show ?thesis
    proof (rule fd_invI, unfold sl d')
      show "readers (pipes (arc_drop d s) k) = card (live_ends (PipeRead k) (arc_drop d s))"
        if "k < next_pipe s" for k
        unfolding s' file_drop_simps e using fd_invD(6) [OF inv that] c by auto
      show "writers (pipes (arc_drop d s) k) = card (live_ends (PipeWrite k) (arc_drop d s))"
        if "k < next_pipe s" for k
        unfolding s' file_drop_simps e using fd_invD(7) [OF inv that] c by auto
      show "live_ends (PipeRead k) (arc_drop d s) = {} \<and> live_ends (PipeWrite k) (arc_drop d s) = {}"
        if "next_pipe s \<le> k" for k
        unfolding s' file_drop_simps e using fd_invD(5) [OF inv that] in_f by auto
    qed (use fd_invD(1-4) [OF inv] X in \<open>auto split: if_splits\<close>)
  qed
qed

lemma slots_set:
  assumes "i < length (fds s p)"
  shows "slots (set_slot p i x s) d =
    (if \<exists>e. x = Some e \<and> fd_file e = d then insert (p, i) (slots s d) else slots s d - {(p, i)})"
  using assms by (auto simp: slots_def set_slot_def nth_list_update split: if_splits)

lemma set_slot_simps [simp]:
  "descs (set_slot p i x s) = descs s" "next_desc (set_slot p i x s) = next_desc s"
  "pipes (set_slot p i x s) = pipes s" "next_pipe (set_slot p i x s) = next_pipe s"
  "live_ends g (set_slot p i x s) = live_ends g s"
  "length (fds (set_slot p i x s) q) = length (fds s q)"
  by (simp_all add: set_slot_def live_ends_def)

lemma fd_inv_put:
  assumes inv: "fd_inv X s" and i: "i < length (fds s p)" "fds s p ! i = None" and X: "0 < X (fd_file e)"
  shows "fd_inv (X(fd_file e := X (fd_file e) - 1)) (set_slot p i (Some e) s)"
proof -
  have new: "(p, i) \<notin> slots s d" for d using i by (simp add: slots_def)
  have sl: "slots (set_slot p i (Some e) s) d = (if d = fd_file e then insert (p, i) (slots s d) else slots s d)" for d
    using new [of d] by (auto simp: slots_set [OF i(1)])
  show ?thesis
    by (rule fd_invI, unfold sl set_slot_simps)
       (use fd_invD [OF inv] X new held_live [OF inv X] in \<open>auto split: if_splits\<close>)
qed

lemma fd_inv_take:
  assumes inv: "fd_inv X s" and i: "i < length (fds s p)" "fds s p ! i = Some e"
  shows "fd_inv (X(fd_file e := X (fd_file e) + 1)) (set_slot p i None s)"
proof -
  have old: "(p, i) \<in> slots s d \<longleftrightarrow> d = fd_file e" for d using i by (auto simp: slots_def)
  have sl: "slots (set_slot p i None s) d = slots s d - {(p, i)}" for d
    by (simp add: slots_set [OF i(1)])
  have sl': "slots (set_slot p i None s) d = slots s d" if "d \<noteq> fd_file e" for d
    using old that by (auto simp: sl)
  have c: "card (slots s (fd_file e) - {(p, i)}) + 1 = card (slots s (fd_file e))"
    using old fd_invD(1) [OF inv, of "fd_file e"] by (simp add: card_Suc_Diff1 del: card_Diff_insert)
  have ex: "\<exists>f n. descs s (fd_file e) = Some (f, n)" by (rule slot_live [OF inv i])
  show ?thesis
  proof (rule fd_invI, unfold set_slot_simps)
    fix d
    show "finite (slots (set_slot p i None s) d)" using fd_invD(1) [OF inv, of d] by (simp add: sl)
    show "slots (set_slot p i None s) d = {} \<and> (X(fd_file e := X (fd_file e) + 1)) d = 0" if "descs s d = None"
      using that ex fd_invD(2) [OF inv that] sl by auto
    show "n = card (slots (set_slot p i None s) d) + (X(fd_file e := X (fd_file e) + 1)) d \<and> 0 < n"
      if "descs s d = Some (f, n)" for f n
      using fd_invD(3) [OF inv that] c sl' by (cases "d = fd_file e") (auto simp: sl)
  qed (use fd_invD [OF inv] in auto)
qed

lemma fd_inv_same_slots:
  assumes inv: "fd_inv X s" and sl: "\<And>d. slots s' d = slots s d"
    and eq: "descs s' = descs s" "next_desc s' = next_desc s" "next_pipe s' = next_pipe s"
      "\<And>k. k < next_pipe s \<Longrightarrow> readers (pipes s' k) = readers (pipes s k) \<and> writers (pipes s' k) = writers (pipes s k)"
  shows "fd_inv X s'"
proof -
  have e: "live_ends g s' = live_ends g s" for g by (simp add: live_ends_def eq(1))
  show ?thesis by (rule fd_invI, unfold sl e eq(1-3)) (use fd_invD [OF inv] eq(4) in auto)
qed

lemma fd_inv_relabel:
  assumes "fd_inv X s" "i < length (fds s p)" "fds s p ! i = Some e" "fd_file e' = fd_file e"
  shows "fd_inv X (set_slot p i (Some e') s)"
proof -
  have "(p, i) \<in> slots s d \<longleftrightarrow> d = fd_file e" for d using assms by (auto simp: slots_def)
  then have "slots (set_slot p i (Some e') s) d = slots s d" for d
    using assms(4) by (auto simp: slots_set [OF assms(2)])
  then show ?thesis using fd_inv_same_slots [OF assms(1)] by simp
qed

lemma fresh_desc:
  assumes "fd_inv X s"
  shows "descs s (next_desc s) = None" "X (next_desc s) = 0" "slots s (next_desc s) = {}"
proof -
  show n: "descs s (next_desc s) = None"
    using fd_invD(4) [OF assms, of "next_desc s"] by (cases "descs s (next_desc s)") auto
  show "X (next_desc s) = 0" "slots s (next_desc s) = {}" using fd_invD(2) [OF assms n] by auto
qed

lemma fd_inv_new:
  assumes inv: "fd_inv X s" and f: "\<And>k. f \<noteq> PipeRead k" "\<And>k. f \<noteq> PipeWrite k"
  shows "fd_inv (X(next_desc s := 1)) (snd (arc_new f s))"
proof -
  let ?s = "snd (arc_new f s)"
  note fr = fresh_desc [OF inv]
  have s': "?s = s\<lparr>descs := (descs s)(next_desc s \<mapsto> (f, 1)), next_desc := next_desc s + 1\<rparr>"
    by (simp add: arc_new_def)
  have sl: "slots ?s d = slots s d" for d unfolding s' by (rule slots_fds) simp
  have e: "live_ends (PipeRead k) ?s = live_ends (PipeRead k) s"
    "live_ends (PipeWrite k) ?s = live_ends (PipeWrite k) s" for k
    unfolding s' using f fr(1) by (auto simp: live_ends_def)
  show ?thesis
    by (rule fd_invI, unfold sl e)
       (use fd_invD [OF inv] fr in \<open>auto simp: s' less_SucI split: if_splits\<close>)
qed

lemma fd_inv_pipe_files:
  assumes inv: "fd_inv X s" and pf: "pipe_files s = (r, w, s')"
  shows "fd_inv (X(r := 1, w := 1)) s'" "r \<noteq> w" "X r = 0" "X w = 0"
    "\<exists>k. k = next_pipe s \<and> descs s' r = Some (PipeRead k, 1) \<and> descs s' w = Some (PipeWrite k, 1)"
proof -
  let ?k = "next_pipe s" and ?n = "next_desc s"
  have rw: "r = ?n" "w = ?n + 1" and
    s': "s' = s\<lparr>pipes := (pipes s)(?k := pipe_new), next_pipe := ?k + 1,
      descs := (descs s)(?n \<mapsto> (PipeRead ?k, 1), ?n + 1 \<mapsto> (PipeWrite ?k, 1)), next_desc := ?n + 2\<rparr>"
    using pf by (auto simp: pipe_files_def arc_new_def Let_def)
  show "r \<noteq> w" "\<exists>k. k = ?k \<and> descs s' r = Some (PipeRead k, 1) \<and> descs s' w = Some (PipeWrite k, 1)"
    by (simp_all add: rw s')
  note fr = fresh_desc [OF inv]
  have fr1: "descs s (?n + 1) = None"
    using fd_invD(4) [OF inv, of "?n + 1"] by (cases "descs s (?n + 1)") auto
  note fr2 = fd_invD(2) [OF inv fr1]
  show "X r = 0" "X w = 0" using fr fr2 by (simp_all add: rw)
  have sl: "slots s' d = slots s d" for d unfolding s' by (rule slots_fds) simp
  have le: "live_ends (PipeRead ?k) s = {}" "live_ends (PipeWrite ?k) s = {}" using fd_invD(5) [OF inv] by auto
  have e: "live_ends (PipeRead k) s' = (if k = ?k then {r} else live_ends (PipeRead k) s)"
    "live_ends (PipeWrite k) s' = (if k = ?k then {w} else live_ends (PipeWrite k) s)" for k
    using fr(1) fr1 le unfolding s' rw by (auto simp: live_ends_def)
  show "fd_inv (X(r := 1, w := 1)) s'"
    by (rule fd_invI, unfold sl e)
       (use fd_invD [OF inv] fr fr2 in \<open>auto simp: s' rw pipe_new_def less_SucI less_Suc_eq split: if_splits\<close>)
qed

section \<open>Every operation keeps the counts\<close>

lemma fd_inv_drop_entry:
  "fd_inv X s \<Longrightarrow> 0 < X (fd_file e) \<Longrightarrow> fd_inv (X(fd_file e := X (fd_file e) - 1)) (drop_entry (Some e) s)"
  unfolding drop_entry_def option.case by (rule fd_inv_drop)

lemma first_free_spec:
  "first_free b es = Some i \<Longrightarrow>
    b \<le> i \<and> i - b < length es \<and> es ! (i - b) = None \<and> (\<forall>j < i - b. es ! j \<noteq> None)"
proof (induction b es rule: first_free.induct)
  case (3 b e es)
  then have "b + 1 \<le> i" "i - (b + 1) < length es" "es ! (i - (b + 1)) = None" "\<forall>j < i - (b + 1). es ! j \<noteq> None"
    by auto
  moreover have "(Some e # es) ! j \<noteq> None" if "j < i - b" for j
    using that calculation by (cases j) auto
  ultimately show ?case by (simp add: Suc_diff_le nth_Cons')
qed auto

lemma first_free_table:
  assumes "first_free b (drop b t) = Some i"
  shows "b \<le> i" "i < length t" "t ! i = None" "\<And>j. b \<le> j \<Longrightarrow> j < i \<Longrightarrow> t ! j \<noteq> None"
proof -
  note f = first_free_spec [OF assms]
  show b: "b \<le> i" and i: "i < length t" and "t ! i = None" using f by auto
  fix j assume j: "b \<le> j" "j < i"
  then have "drop b t ! (j - b) \<noteq> None" using f by auto
  then show "t ! j \<noteq> None" using j i by simp
qed

lemma fd_inv_alloc_at:
  assumes "fd_inv X s" "0 < X (fd_file e)" "alloc_fd_entry_at p b e s = (r, s')"
  shows "fd_inv (X(fd_file e := X (fd_file e) - 1)) s'"
proof (cases "first_free b (drop b (fds s p))")
  case None
  then show ?thesis using assms fd_inv_drop_entry by (auto simp: alloc_fd_entry_at_def)
next
  case (Some i)
  note ff = first_free_table [OF Some]
  show ?thesis using assms fd_inv_put [OF assms(1) ff(2,3) assms(2)] Some by (auto simp: alloc_fd_entry_at_def)
qed

lemma fd_inv_alloc:
  assumes "fd_inv X s" "0 < X f" "alloc_fd p f s = (r, s')"
  shows "fd_inv (X(f := X f - 1)) s'"
  using fd_inv_alloc_at [of X s "fd_entry_new f" p 0 r s'] assms
  by (simp add: alloc_fd_def alloc_fd_entry_def fd_entry_new_def)

lemma slot_atD:
  assumes "slot_at p fd s = Some e"
  shows "nat fd < length (fds s p)" "fds s p ! nat fd = Some e"
  using assms by (auto simp: slot_at_def split: if_splits)

lemma fd_inv_take_drop:
  assumes "fd_inv X s" "i < length (fds s p)" "fds s p ! i = Some e"
  shows "fd_inv X (drop_entry (Some e) (set_slot p i None s))"
  using fd_inv_drop_entry [OF fd_inv_take [OF assms], of e] by simp

lemma fd_inv_close: "fd_inv X s \<Longrightarrow> fd_inv X (snd (close_fd p fd s))"
  using fd_inv_take_drop [of X s "nat fd" p] slot_atD [of p fd s]
  by (auto simp: close_fd_def split: option.split)

lemma fd_inv_get:
  assumes inv: "fd_inv X s" and e: "slot_at p fd s = Some e"
  shows "fd_inv (X(fd_file e := X (fd_file e) + 1)) (arc_clone (fd_file e) s)"
proof -
  obtain f n where "descs s (fd_file e) = Some (f, n)" using slot_live [OF inv slot_atD [OF e]] by blast
  with inv show ?thesis by (rule fd_inv_clone)
qed

lemma fd_inv_take_if:
  "fd_inv X s \<Longrightarrow> i < length (fds s p) \<Longrightarrow> fd_inv X (take_slot_if P p i s)"
  using fd_inv_take_drop [of X s i p] by (auto simp: take_slot_if_def split: option.split)

definition unless :: "(fd_entry \<Rightarrow> bool) \<Rightarrow> fd_entry option \<Rightarrow> fd_entry option" where
  "unless P x = (case x of Some e \<Rightarrow> if P e then None else Some e | None \<Rightarrow> None)"

lemma fds_take_if:
  "i < length (fds s p) \<Longrightarrow> fds (take_slot_if P p i s) = (fds s)(p := (fds s p)[i := unless P (fds s p ! i)])"
  by (auto simp: take_slot_if_def set_slot_def unless_def fun_eq_iff list_update_same_conv [THEN iffD2] split: option.split)

lemma sweep:
  fixes P :: "fd_entry \<Rightarrow> bool"
  assumes "fd_inv X s" "n \<le> length (fds s p)"
  defines "s' \<equiv> fold (take_slot_if P p) [0..<n] s"
  shows "fd_inv X s' \<and> fds s' = (fds s)(p := map (unless P) (take n (fds s p)) @ drop n (fds s p))"
  using assms(2) unfolding s'_def
proof (induction n)
  case 0
  then show ?case using assms(1) by simp
next
  case (Suc n)
  let ?t = "fold (take_slot_if P p) [0..<n] s" and ?f = "fds s p"
  have IH: "fd_inv X ?t" "fds ?t = (fds s)(p := map (unless P) (take n ?f) @ drop n ?f)" using Suc by auto
  have n: "n < length (fds ?t p)" using Suc.prems IH(2) by simp
  have "fds (take_slot_if P p n ?t) = (fds s)(p := map (unless P) (take (Suc n) ?f) @ drop (Suc n) ?f)"
    using fds_take_if [OF n, of P] Suc.prems
    by (simp add: IH(2) take_Suc_conv_app_nth nth_append list_update_append Cons_nth_drop_Suc [symmetric])
  then show ?case using fd_inv_take_if [OF IH(1) n, of P] by simp
qed

lemma fd_inv_exec: "fd_inv X s \<Longrightarrow> fd_inv X (close_on_exec p s)"
  using sweep [where X = X and s = s and p = p and n = "length (fds s p)" and P = cloexec]
  by (simp add: close_on_exec_def)

lemma fd_inv_exit:
  assumes "fd_inv X s"
  shows "fd_inv X (exit_files p s)"
proof -
  let ?s = "fold (take_slot_if (\<lambda>_. True) p) [0..<length (fds s p)] s"
  have sw: "fd_inv X ?s" "fds ?s p = map (unless (\<lambda>_. True)) (fds s p)"
    using sweep [OF assms order_refl, where p = p and P = "\<lambda>_. True"] by simp_all
  have un: "unless (\<lambda>_. True) x = None" for x by (simp add: unless_def split: option.split)
  have "slots (exit_files p s) d = slots ?s d" for d
    using sw(2) un by (auto simp: slots_def exit_files_def Let_def split: if_splits)
  then show ?thesis using fd_inv_same_slots [OF sw(1), of "exit_files p s"] by (simp add: exit_files_def Let_def)
qed

lemma fd_inv_table:
  assumes "fd_inv X s" "fds s c = []"
  shows "fd_inv X (s\<lparr>fds := (fds s)(c := replicate n None)\<rparr>)"
proof -
  have "slots (s\<lparr>fds := (fds s)(c := replicate n None)\<rparr>) d = slots s d" for d
    using assms(2) by (auto simp: slots_def split: if_splits)
  then show ?thesis using fd_inv_same_slots [OF assms(1)] by simp
qed

lemma fd_inv_clone_slot:
  assumes inv: "fd_inv X s" and i: "i < length (fds s p)" "i < length (fds s c)" "fds s c ! i = None"
  shows "fd_inv X (clone_slot p c i s)"
proof (cases "fds s p ! i")
  case None
  then show ?thesis using inv by (simp add: clone_slot_def)
next
  case (Some e)
  obtain f n where d: "descs s (fd_file e) = Some (f, n)" using slot_live [OF inv i(1) Some] by blast
  have "fd_inv (X(fd_file e := X (fd_file e) + 1)) (arc_clone (fd_file e) s)" by (rule fd_inv_clone [OF inv d])
  from fd_inv_put [OF this, of i c e] i show ?thesis by (simp add: clone_slot_def Some)
qed

lemma fork_loop:
  assumes inv: "fd_inv X s" and pc: "p \<noteq> c" "length (fds s c) = length (fds s p)"
    and none: "\<And>i. i < length (fds s p) \<Longrightarrow> fds s c ! i = None" and n: "n \<le> length (fds s p)"
  defines "s' \<equiv> fold (clone_slot p c) [0..<n] s"
  shows "fd_inv X s' \<and> (\<forall>q. q \<noteq> c \<longrightarrow> fds s' q = fds s q) \<and> length (fds s' c) = length (fds s p) \<and>
    (\<forall>i < n. fds s' c ! i = fds s p ! i) \<and> (\<forall>i < length (fds s p). n \<le> i \<longrightarrow> fds s' c ! i = None)"
  using n unfolding s'_def
proof (induction n)
  case 0
  then show ?case using inv pc none by simp
next
  case (Suc n)
  let ?t = "fold (clone_slot p c) [0..<n] s"
  have IH: "fd_inv X ?t" "\<forall>q. q \<noteq> c \<longrightarrow> fds ?t q = fds s q" "length (fds ?t c) = length (fds s p)"
    "\<forall>i < n. fds ?t c ! i = fds s p ! i" "\<forall>i < length (fds s p). n \<le> i \<longrightarrow> fds ?t c ! i = None"
    using Suc by auto
  have tp: "fds ?t p = fds s p" using IH(2) pc(1) by blast
  have n: "n < length (fds ?t p)" "n < length (fds ?t c)" "fds ?t c ! n = None" using Suc.prems IH tp by auto
  have "fds (clone_slot p c n ?t) = (fds ?t)(c := (fds ?t c)[n := fds s p ! n])"
    using n tp by (auto simp: clone_slot_def set_slot_def fun_eq_iff list_update_same_conv [THEN iffD2] split: option.split)
  then show ?case using fd_inv_clone_slot [OF IH(1) n] IH n tp by (auto simp: nth_list_update less_Suc_eq)
qed

lemma fork_files_spec:
  assumes inv: "fd_inv X s" and "p \<noteq> c" "fds s c = []"
  shows "fd_inv X (fork_files p c s)" "fds (fork_files p c s) = (fds s)(c := fds s p)"
proof -
  let ?s = "s\<lparr>fds := (fds s)(c := replicate (length (fds s p)) None)\<rparr>"
  have "fd_inv X ?s" using fd_inv_table [OF inv assms(3)] .
  from fork_loop [OF this assms(2), of "length (fds s p)"] assms(2)
  have f: "fd_inv X (fork_files p c s)" "\<forall>q. q \<noteq> c \<longrightarrow> fds (fork_files p c s) q = fds s q"
    "length (fds (fork_files p c s) c) = length (fds s p)"
    "\<forall>i < length (fds s p). fds (fork_files p c s) c ! i = fds s p ! i"
    by (simp_all add: fork_files_def)
  show "fd_inv X (fork_files p c s)" by (rule f(1))
  show "fds (fork_files p c s) = (fds s)(c := fds s p)"
    using f(2-4) by (auto simp: fun_eq_iff intro: nth_equalityI)
qed

lemma fd_inv_default:
  assumes inv: "fd_inv X s" and e: "fds s p = []"
  shows "fd_inv X (default_files p s)"
proof -
  let ?n = "next_desc s"
  define s1 where "s1 = s\<lparr>fds := (fds s)(p := replicate NOFILE None)\<rparr>"
  define s2 where "s2 = snd (arc_new Console s1)"
  define s3 where "s3 = set_slot p 0 (Some (fd_entry_new ?n)) (arc_clone ?n s2)"
  define s4 where "s4 = set_slot p 1 (Some (fd_entry_new ?n)) (arc_clone ?n s3)"
  have n16: "0 < NOFILE" "1 < NOFILE" "2 < NOFILE" by (simp_all add: NOFILE_def)
  have i1: "fd_inv X s1" unfolding s1_def by (rule fd_inv_table [OF inv e])
  have t2: "fds s2 p = replicate NOFILE None" "descs s2 ?n = Some (Console, 1)"
    by (simp_all add: s2_def s1_def arc_new_def)
  have i2: "fd_inv (X(?n := 1)) s2" unfolding s2_def
    using fd_inv_new [OF i1, of Console] by (simp add: s1_def)
  have X: "X ?n = 0" by (rule fresh_desc(2) [OF inv])
  have i3: "fd_inv (X(?n := 1)) s3"
    using fd_inv_put [OF fd_inv_clone [OF i2 t2(2)], of 0 p "fd_entry_new ?n"] t2 n16
    by (simp add: s3_def fd_entry_new_def)
  have t3: "fds s3 p = (replicate NOFILE None)[0 := Some (fd_entry_new ?n)]" "descs s3 ?n = Some (Console, 2)"
    using t2 by (simp_all add: s3_def set_slot_def arc_clone_def)
  have i4: "fd_inv (X(?n := 1)) s4"
    using fd_inv_put [OF fd_inv_clone [OF i3 t3(2)], of 1 p "fd_entry_new ?n"] t3 n16
    by (simp add: s4_def fd_entry_new_def)
  have t4: "fds s4 p = (replicate NOFILE None)[0 := Some (fd_entry_new ?n), 1 := Some (fd_entry_new ?n)]"
    using t3 by (simp add: s4_def set_slot_def)
  have "fd_inv (X(?n := 0)) (set_slot p 2 (Some (fd_entry_new ?n)) s4)"
    using fd_inv_put [OF i4, of 2 p "fd_entry_new ?n"] t4 n16 by (simp add: fd_entry_new_def)
  moreover have "default_files p s = set_slot p 2 (Some (fd_entry_new ?n)) s4"
    by (simp add: default_files_def s4_def s3_def s2_def s1_def arc_new_def Let_def)
  ultimately show ?thesis using X by (simp add: fun_upd_idem)
qed

abbreviation no_refs :: "nat \<Rightarrow> nat" where "no_refs \<equiv> (\<lambda>_. 0)"

lemma fd_inv_sys_pipe:
  assumes inv: "fd_inv X s"
  shows "fd_inv X (snd (snd (sys_pipe tw p va s)))"
proof -
  obtain r w s1 where pf: "pipe_files s = (r, w, s1)" by (metis prod_cases3)
  note pi = fd_inv_pipe_files [OF inv pf]
  have X: "X(r := 0) = X" "X(w := 0) = X" using pi(3,4) by (auto simp: fun_eq_iff)
  have rw: "(X(w := Suc 0))(r := 0) = X(w := Suc 0)" using pi(2,3) by (auto simp: fun_eq_iff)
  obtain rfd s2 where a1: "alloc_fd p r s1 = (rfd, s2)" by fastforce
  have i2: "fd_inv (X(w := 1)) s2"
    using fd_inv_alloc [OF pi(1) _ a1] pi(2) rw by simp
  obtain wfd s3 where a2: "alloc_fd p w s2 = (wfd, s3)" by fastforce
  have i3: "fd_inv X s3" using fd_inv_alloc [OF i2 _ a2] by (simp add: X)
  have "fd_inv X (arc_drop w s2)" using fd_inv_drop [OF i2, of w] by (simp add: X)
  with i3 fd_inv_close show ?thesis
    by (auto simp: sys_pipe_def pf a1 a2 Let_def split: option.split)
qed

text \<open>One more reference to \<open>d\<close>, held by a local variable.\<close>

abbreviation one_more :: "nat \<Rightarrow> (nat \<Rightarrow> nat) \<Rightarrow> nat \<Rightarrow> nat" where
  "one_more d X \<equiv> X(d := X d + 1)"

lemma fd_inv_dup:
  assumes inv: "fd_inv X s"
  shows "fd_inv X (snd (sys_dup p fd s))"
proof (cases "slot_at p fd s")
  case (Some e)
  obtain r s' where a: "alloc_fd_entry_at p 0 (e\<lparr>cloexec := False\<rparr>) (arc_clone (fd_file e) s) = (r, s')" by fastforce
  have "fd_inv X s'" using fd_inv_alloc_at [OF fd_inv_get [OF inv Some] _ a] by simp
  then show ?thesis using Some a by (simp add: sys_dup_def get_fd_entry_def alloc_fd_entry_def)
qed (simp add: inv sys_dup_def get_fd_entry_def)

lemma fds_close:
  "fds (snd (close_fd p fd s)) = (if slot_at p fd s = None then fds s else (fds s)(p := (fds s p)[nat fd := None]))"
  by (auto simp: close_fd_def set_slot_def split: option.split)

lemma held_drop:
  "fd_inv (one_more d X) s \<Longrightarrow> d = fd_file e \<Longrightarrow> fd_inv X (drop_entry (Some e) s)"
  using fd_inv_drop_entry [of "one_more d X" s e] by simp

lemma fd_inv_dup2:
  assumes inv: "fd_inv X s" and len: "fds s p = [] \<or> length (fds s p) = NOFILE"
  shows "fd_inv X (snd (sys_dup2 p oldfd newfd s))"
proof (cases "oldfd < 0 \<or> newfd < 0 \<or> slot_at p oldfd s = None")
  case True
  then show ?thesis using inv by (auto simp: sys_dup2_def get_fd_entry_def)
next
  case False
  then obtain e where e: "slot_at p oldfd s = Some e" by auto
  let ?s = "arc_clone (fd_file e) s"
  note i1 = fd_inv_get [OF inv e]
  show ?thesis
  proof (cases "oldfd = newfd \<or> NOFILE \<le> nat newfd")
    case True
    then show ?thesis using False e held_drop [OF i1 refl] by (auto simp: sys_dup2_def get_fd_entry_def)
  next
    case new: False
    let ?t = "snd (close_fd p newfd ?s)"
    have i2: "fd_inv (one_more (fd_file e) X) ?t" by (rule fd_inv_close [OF i1])
    have l: "length (fds s p) = NOFILE" using len slot_atD(1) [OF e] by auto
    have n: "nat newfd < length (fds ?t p)" "fds ?t p ! nat newfd = None"
      using l new False by (auto simp: fds_close slot_at_def split: if_splits)
    have "fd_inv X (set_slot p (nat newfd) (Some (e\<lparr>cloexec := False\<rparr>)) ?t)"
      using fd_inv_put [OF i2 n, of "e\<lparr>cloexec := False\<rparr>"] by simp
    then show ?thesis using False new e by (auto simp: sys_dup2_def get_fd_entry_def case_prod_beta)
  qed
qed

lemma fd_inv_set_flag:
  assumes "fd_inv X s" and "slot_at p fd s = Some e" and "fd_file e' = fd_file e"
  shows "fd_inv X (set_slot p (nat fd) (Some e') s)"
  using fd_inv_relabel [OF assms(1) slot_atD [OF assms(2)] assms(3)] .

lemma fd_inv_fcntl:
  assumes inv: "fd_inv X s"
  shows "fd_inv X (snd (sys_fcntl p fd cmd arg s))"
proof (cases "slot_at p fd s")
  case None
  then show ?thesis using inv by (simp add: sys_fcntl_def get_fd_entry_def)
next
  case (Some e)
  let ?d = "fd_file e" and ?s = "arc_clone (fd_file e) s"
  note i1 = fd_inv_get [OF inv Some]
  have sl: "slot_at p fd ?s = Some e" unfolding slot_at_def fds_arc using Some by (simp only: slot_at_def)
  have dr: "fd_inv X (drop_entry (Some e) t)" if "fd_inv (one_more ?d X) t" for t by (rule held_drop [OF that refl])
  have i2: "fd_inv (one_more ?d (one_more ?d X)) (arc_clone ?d ?s)" by (rule fd_inv_get [OF i1 sl])
  have dup: "fd_inv X (drop_entry (Some e) (snd (alloc_fd_entry_from p (e\<lparr>cloexec := c\<rparr>) arg (arc_clone ?d ?s))))" for c
  proof -
    let ?e = "e\<lparr>cloexec := c\<rparr>"
    obtain r s' where a: "alloc_fd_entry_from p ?e arg (arc_clone ?d ?s) = (r, s')" by fastforce
    have "fd_inv (one_more ?d X) s'"
      using a i2 fd_inv_drop_entry [OF i2, of ?e]
        fd_inv_alloc_at [OF i2, of ?e p "min (nat arg) (length (fds (arc_clone ?d ?s) p))" r s']
      by (auto simp: alloc_fd_entry_from_def split: if_splits)
    then show ?thesis using dr a by simp
  qed
  have flag: "fd_inv X (drop_entry (Some e) (set_slot p (nat fd) (Some e') ?s))" if "fd_file e' = ?d" for e'
    by (rule dr [OF fd_inv_set_flag [OF i1 sl that]])
  show ?thesis
    using dup dr [OF i1] flag [of "e\<lparr>cloexec := arg AND FD_CLOEXEC \<noteq> 0\<rparr>"] flag [of "e\<lparr>nonblock := arg AND O_NONBLOCK \<noteq> 0\<rparr>"]
    by (simp add: sys_fcntl_def get_fd_entry_def Some Let_def set_fd_cloexec_def set_fd_nonblock_def sl)
qed

lemma fd_inv_refile:
  assumes inv: "fd_inv X s" and d: "descs s d = Some (f, n)"
    and f: "\<And>k. f \<noteq> PipeRead k" "\<And>k. f \<noteq> PipeWrite k" "\<And>k. g \<noteq> PipeRead k" "\<And>k. g \<noteq> PipeWrite k"
  shows "fd_inv X (s\<lparr>descs := (descs s)(d \<mapsto> (g, n))\<rparr>)"
proof -
  let ?s = "s\<lparr>descs := (descs s)(d \<mapsto> (g, n))\<rparr>"
  have sl: "slots ?s k = slots s k" for k by (rule slots_fds) simp
  have e: "live_ends (PipeRead k) ?s = live_ends (PipeRead k) s"
    "live_ends (PipeWrite k) ?s = live_ends (PipeWrite k) s" for k
    using f(1) [of k] f(2) [of k] f(3) [of k] f(4) [of k] d by (auto simp: live_ends_def)
  show ?thesis
    by (rule fd_invI, unfold sl e) (use fd_invD [OF inv] d in \<open>auto split: if_splits\<close>)
qed

lemma fd_inv_seek:
  assumes inv: "fd_inv X s" and d: "descs s d = Some (f, n)"
  shows "fd_inv X (s\<lparr>descs := (descs s)(d \<mapsto> (set_foff v f, n))\<rparr>)"
proof (cases "set_foff v f = f")
  case True
  then show ?thesis using d inv by (simp add: fun_upd_idem)
next
  case False
  then show ?thesis by (intro fd_inv_refile [OF inv d]) (auto simp: set_foff_def split: ofile.splits)
qed

lemma fd_inv_lseek:
  assumes inv: "fd_inv X s"
  shows "fd_inv X (snd (sys_lseek isize fbsize p fd offset whence s))"
proof (cases "slot_at p fd s")
  case None
  then show ?thesis using inv by (simp add: sys_lseek_def get_file_def)
next
  case (Some e)
  let ?d = "fd_file e" and ?s = "arc_clone (fd_file e) s"
  note i1 = fd_inv_get [OF inv Some]
  obtain f n where d: "descs ?s ?d = Some (f, n)" using held_live [OF i1, of ?d] by auto
  have dr: "fd_inv X (arc_drop ?d t)" if "fd_inv (one_more ?d X) t" for t
    using fd_inv_drop [OF that, of ?d] by simp
  show ?thesis
    using dr [OF i1] dr [OF fd_inv_seek [OF i1 d]]
    by (auto simp: sys_lseek_def get_file_def Some d Let_def split: option.split ofile.split)
qed

section \<open>All descriptor operations\<close>

text \<open>The end of \<open>sys_open\<close> and of the calls that create a descriptor for a new description.\<close>

definition install_file :: "nat \<Rightarrow> ofile \<Rightarrow> bool \<Rightarrow> bool \<Rightarrow> ftab \<Rightarrow> int \<times> ftab" where
  "install_file p f ce nb s =
     (let (d, s) = arc_new f s
      in apfst fd_ret (alloc_fd_entry p \<lparr>fd_file = d, cloexec = ce, nonblock = nb\<rparr> s))"

lemma fd_inv_install:
  assumes inv: "fd_inv X s" and f: "\<And>k. f \<noteq> PipeRead k" "\<And>k. f \<noteq> PipeWrite k"
  shows "fd_inv X (snd (install_file p f ce nb s))"
proof -
  let ?e = "\<lparr>fd_file = next_desc s, cloexec = ce, nonblock = nb\<rparr>"
  have X: "X(next_desc s := 0) = X" using fresh_desc(2) [OF inv] by (auto simp: fun_eq_iff)
  obtain r s' where a: "alloc_fd_entry_at p 0 ?e (snd (arc_new f s)) = (r, s')" by fastforce
  have "fd_inv X s'" using fd_inv_alloc_at [OF fd_inv_new [OF inv f] _ a] by (simp add: X)
  then show ?thesis using a by (simp add: install_file_def alloc_fd_entry_def arc_new_def)
qed

text \<open>The steps of all processes. \<open>read\<close>, \<open>write\<close> and the other calls that wait clone the description
  at their start (\<open>call_start\<close>), keep the clone while they are suspended, and drop it when they return
  (\<open>call_end\<close>); \<open>X d\<close> counts the clones of \<open>d\<close> that calls in progress hold. A call that holds a pipe end
  may transfer bytes through that pipe, one that holds a file may move its offset. The calls without
  a suspension point between their clone and its drop are single steps; \<open>sys_lseek\<close> can wait for the
  inode lock in between, which \<open>call_start\<close>, \<open>seek\<close> and \<open>call_end\<close> cover.\<close>

inductive fd_step :: "(nat \<Rightarrow> nat) \<Rightarrow> ftab \<Rightarrow> (nat \<Rightarrow> nat) \<Rightarrow> ftab \<Rightarrow> bool" where
  spawn: "fds s p = [] \<Longrightarrow> fd_step X s X (default_files p s)"
| pipe: "fd_step X s X (snd (snd (sys_pipe tw p va s)))"
| opn: "(\<And>k. f \<noteq> PipeRead k) \<Longrightarrow> (\<And>k. f \<noteq> PipeWrite k) \<Longrightarrow> fd_step X s X (snd (install_file p f ce nb s))"
| clos: "fd_step X s X (snd (sys_close p fd s))"
| dup: "fd_step X s X (snd (sys_dup p fd s))"
| dup2: "fd_step X s X (snd (sys_dup2 p oldfd newfd s))"
| fcntl: "fd_step X s X (snd (sys_fcntl p fd cmd arg s))"
| lseek: "fd_step X s X (snd (sys_lseek isize fbsize p fd offset whence s))"
| fork: "p \<noteq> c \<Longrightarrow> fds s c = [] \<Longrightarrow> fd_step X s X (fork_files p c s)"
| exec: "fd_step X s X (close_on_exec p s)"
| exit: "fd_step X s X (exit_files p s)"
| call_start: "get_file p fd s = (Some d, s') \<Longrightarrow> fd_step X s (one_more d X) s'"
| transfer: "0 < X d \<Longrightarrow> descs s d = Some (f, n) \<Longrightarrow> f \<in> {PipeRead k, PipeWrite k}
    \<Longrightarrow> readers q = readers (pipes s k) \<Longrightarrow> writers q = writers (pipes s k)
    \<Longrightarrow> fd_step X s X (s\<lparr>pipes := (pipes s)(k := q), woken := ws\<rparr>)"
| seek: "0 < X d \<Longrightarrow> descs s d = Some (f, n)
    \<Longrightarrow> fd_step X s X (s\<lparr>descs := (descs s)(d \<mapsto> (set_foff v f, n))\<rparr>)"
| call_end: "0 < X d \<Longrightarrow> fd_step X s (X(d := X d - 1)) (arc_drop d s)"

inductive fd_reach :: "(nat \<Rightarrow> nat) \<Rightarrow> ftab \<Rightarrow> bool" where
  init: "fd_reach no_refs ftab_new"
| more: "fd_reach X s \<Longrightarrow> fd_step X s X' s' \<Longrightarrow> fd_reach X' s'"

section \<open>The counts hold in every reachable state\<close>

definition tables_ok :: "ftab \<Rightarrow> bool" where
  "tables_ok s \<longleftrightarrow> (\<forall>p. fds s p = [] \<or> length (fds s p) = NOFILE)"

lemma len_alloc_at [simp]: "length (fds (snd (alloc_fd_entry_at p b e s)) q) = length (fds s q)"
  by (simp add: alloc_fd_entry_at_def split: option.split)

lemma len_close [simp]: "length (fds (snd (close_fd p fd s)) q) = length (fds s q)"
  by (simp add: fds_close)

lemma len_fold_take: "length (fds (fold (take_slot_if P p) is' s) q) = length (fds s q)"
proof (induction is' arbitrary: s)
  case (Cons i is')
  have "length (fds (take_slot_if P p i s) q) = length (fds s q)"
    by (simp add: take_slot_if_def split: option.split)
  then show ?case using Cons by simp
qed simp

lemma len_from [simp]: "length (fds (snd (alloc_fd_entry_from p e st s)) q) = length (fds s q)"
  by (simp add: alloc_fd_entry_from_def)

lemma tables_okI: "tables_ok s \<Longrightarrow> (\<And>q. length (fds s' q) = length (fds s q)) \<Longrightarrow> tables_ok s'"
  unfolding tables_ok_def by (metis length_0_conv)

lemma len_clone_slots: "length (fds (fold (clone_slot p c) is' s) q) = length (fds s q)"
proof (induction is' arbitrary: s)
  case (Cons i is')
  have "length (fds (clone_slot p c i s) q) = length (fds s q)"
    by (simp add: clone_slot_def split: option.split)
  then show ?case using Cons by simp
qed simp

lemma tables_step: "fd_step X s X' s' \<Longrightarrow> tables_ok s \<Longrightarrow> tables_ok s'"
proof (induction rule: fd_step.induct)
  case (spawn s p X)
  then show ?case
    by (auto simp: tables_ok_def default_files_def arc_new_def Let_def set_slot_def arc_clone_def)
next
  case (pipe X s tw p va)
  have "length (fds (snd (snd (sys_pipe tw p va s))) q) = length (fds s q)" for q
    by (auto simp: sys_pipe_def pipe_files_def arc_new_def alloc_fd_def alloc_fd_entry_def Let_def
      case_prod_beta split: option.split)
  then show ?case by (rule tables_okI [OF pipe])
next
  case (opn f X s p ce nb)
  show ?case by (rule tables_okI [OF opn(3)])
    (simp add: install_file_def alloc_fd_entry_def arc_new_def)
next
  case (clos X s p fd)
  show ?case by (rule tables_okI [OF clos]) (simp add: sys_close_def)
next
  case (dup X s p fd)
  show ?case by (rule tables_okI [OF dup])
    (simp add: sys_dup_def get_fd_entry_def alloc_fd_entry_def split: option.split)
next
  case (dup2 X s p oldfd newfd)
  show ?case by (rule tables_okI [OF dup2])
    (simp add: sys_dup2_def get_fd_entry_def case_prod_beta Let_def split: option.split)
next
  case (fcntl X s p fd cmd arg)
  show ?case by (rule tables_okI [OF fcntl])
    (simp add: sys_fcntl_def get_fd_entry_def set_fd_cloexec_def set_fd_nonblock_def case_prod_beta Let_def
      split: option.split)
next
  case (lseek X s isize fbsize p fd offset whence)
  show ?case by (rule tables_okI [OF lseek])
    (simp add: sys_lseek_def get_file_def Let_def split: option.split prod.split)
next
  case (fork p c s X)
  have "length (fds (fork_files p c s) q) = (if q = c then length (fds s p) else length (fds s q))" for q
    by (simp add: fork_files_def len_clone_slots)
  then show ?case using fork(3) unfolding tables_ok_def by (metis length_0_conv)
next
  case (exec X s p)
  show ?case by (rule tables_okI [OF exec]) (simp add: close_on_exec_def len_fold_take)
next
  case (exit X s p)
  have "length (fds (exit_files p s) q) = (if q = p then 0 else length (fds s q))" for q
    by (simp add: exit_files_def Let_def len_fold_take)
  then show ?case using exit unfolding tables_ok_def by (metis length_0_conv)
next
  case (call_start p fd s d s' X)
  then have "fds s' = fds s" by (auto simp: get_file_def split: option.splits)
  then show ?case by (intro tables_okI [OF call_start(2)]) simp
next
  case (transfer X d s f n k q ws)
  show ?case by (rule tables_okI [OF transfer(6)]) simp
next
  case (seek X d s f n v)
  show ?case by (rule tables_okI [OF seek(3)]) simp
next
  case (call_end X d s)
  show ?case by (rule tables_okI [OF call_end(2)]) simp
qed

lemma fd_inv_step:
  assumes "fd_step X s X' s'" "fd_inv X s" "tables_ok s"
  shows "fd_inv X' s'"
  using assms
proof (induction rule: fd_step.induct)
  case (clos X s p fd)
  then show ?case by (simp add: sys_close_def fd_inv_close)
next
  case (dup2 X s p oldfd newfd)
  then show ?case by (simp add: fd_inv_dup2 tables_ok_def)
next
  case (call_start p fd s d s' X)
  then obtain e where "slot_at p fd s = Some e" "d = fd_file e" "s' = arc_clone (fd_file e) s"
    by (auto simp: get_file_def split: option.splits)
  then show ?case using fd_inv_get [OF call_start(2)] by (simp add: fun_upd_def)
next
  case (transfer X d s f n k q ws)
  have "slots (s\<lparr>pipes := (pipes s)(k := q), woken := ws\<rparr>) d = slots s d" for d by (simp add: slots_def)
  then show ?case using fd_inv_same_slots [OF transfer(6)] transfer(4,5) by simp
next
  case (seek X d s f n v)
  then show ?case using fd_inv_seek by blast
next
  case (call_end X d s)
  then show ?case using fd_inv_drop [of X s d] by (simp add: fun_upd_def)
qed (simp_all add: fd_inv_default fd_inv_sys_pipe fd_inv_install fd_inv_dup fd_inv_fcntl fd_inv_lseek
  fork_files_spec fd_inv_exec fd_inv_exit)

lemma fd_inv_reach: "fd_reach X s \<Longrightarrow> fd_inv X s \<and> tables_ok s"
proof (induction rule: fd_reach.induct)
  case init
  have "slots ftab_new d = {}" for d by (simp add: slots_def ftab_new_def)
  then show ?case by (simp add: fd_inv_def tables_ok_def live_ends_def) (simp add: ftab_new_def)
next
  case (more X s X' s')
  then show ?case using fd_inv_step tables_step by blast
qed

definition open_on :: "ftab \<Rightarrow> ofile \<Rightarrow> bool" where
  "open_on s f \<longleftrightarrow> (\<exists>p i e n. i < length (fds s p) \<and> fds s p ! i = Some e \<and> descs s (fd_file e) = Some (f, n))"

definition held_on :: "(nat \<Rightarrow> nat) \<Rightarrow> ftab \<Rightarrow> ofile \<Rightarrow> bool" where
  "held_on X s f \<longleftrightarrow> (\<exists>d n. 0 < X d \<and> descs s d = Some (f, n))"

lemma open_on_live:
  assumes "fd_inv X s"
  shows "open_on s f \<or> held_on X s f \<longleftrightarrow> live_ends f s \<noteq> {}"
proof
  assume "live_ends f s \<noteq> {}"
  then obtain d n where d: "descs s d = Some (f, n)" by (auto simp: live_ends_def)
  then consider "card (slots s d) \<noteq> 0" | "0 < X d" using fd_invD(3) [OF assms d] by linarith
  then show "open_on s f \<or> held_on X s f"
  proof cases
    case 1
    then obtain p i where "(p, i) \<in> slots s d" by (metis card.empty ex_in_conv surj_pair)
    then show ?thesis using d unfolding open_on_def slots_def by blast
  qed (use d in \<open>auto simp: held_on_def\<close>)
qed (auto simp: open_on_def held_on_def live_ends_def)

text \<open>C39. Through any interleaving of \<open>pipe\<close>, \<open>open\<close>, \<open>close\<close>, \<open>dup\<close>, \<open>dup2\<close>, \<open>fcntl\<close>, \<open>lseek\<close>, \<open>fork\<close>,
  \<open>exec\<close> and \<open>exit\<close> of any processes with calls that keep a description while they wait: the
  writer (reader) count of a pipe is the number of live descriptions of that end; it is zero,
  which is what its readers see as end-of-file (its writers as a broken pipe), exactly when no
  process has a descriptor open on that end and no call in progress holds it; the strong count of
  every live description is the number of descriptors open on it plus the number of calls that
  hold it, and is not zero; and every open descriptor and every call in progress refers to a
  live description.\<close>

theorem pipe_ends_exact:
  assumes "fd_reach X s" and "k < next_pipe s"
  shows "writers (pipes s k) = card (live_ends (PipeWrite k) s) \<and>
    readers (pipes s k) = card (live_ends (PipeRead k) s) \<and>
    (writers (pipes s k) = 0 \<longleftrightarrow> \<not> open_on s (PipeWrite k) \<and> \<not> held_on X s (PipeWrite k)) \<and>
    (readers (pipes s k) = 0 \<longleftrightarrow> \<not> open_on s (PipeRead k) \<and> \<not> held_on X s (PipeRead k)) \<and>
    (\<forall>d f n. descs s d = Some (f, n) \<longrightarrow> n = card (slots s d) + X d \<and> 0 < n) \<and>
    (\<forall>d. slots s d \<noteq> {} \<or> 0 < X d \<longrightarrow> descs s d \<noteq> None)"
proof -
  have inv: "fd_inv X s" using fd_inv_reach [OF assms(1)] by simp
  have "descs s d \<noteq> None" if "slots s d \<noteq> {} \<or> 0 < X d" for d
    using fd_invD(2) [OF inv, of d] that by fastforce
  moreover note fd_invD(3) [OF inv]
  moreover have "\<not> open_on s f \<and> \<not> held_on X s f \<longleftrightarrow> card (live_ends f s) = 0" for f
    using open_on_live [OF inv, of f] finite_live_ends [OF inv, of f] by auto
  ultimately show ?thesis using fd_invD(6,7) [OF inv assms(2)] by simp
qed

text \<open>A process that opens a pipe, starts a call on its write end and closes the descriptor meanwhile:
  the call in progress keeps the end, and the pipe its one writer.\<close>

definition demo_open :: ftab where
  "demo_open = snd (snd (sys_pipe Some 5 0 (default_files 5 ftab_new)))"

definition demo_pipe :: ftab where
  "demo_pipe = snd (sys_close 5 4 (snd (get_file 5 4 demo_open)))"

lemma demo_open_eq:
  "demo_open = \<lparr>descs = [0 \<mapsto> (Console, 3), 1 \<mapsto> (PipeRead 0, 1), 2 \<mapsto> (PipeWrite 0, 1)], next_desc = 3,
     pipes = (\<lambda>_. pipe_new)(0 := pipe_new), next_pipe = 1,
     fds = (\<lambda>_. [])(5 := map (map_option fd_entry_new) ([Some 0, Some 0, Some 0, Some 1, Some 2] @ replicate 11 None)),
     woken = [], deferred = []\<rparr>"
  by (simp add: demo_open_def sys_pipe_def pipe_files_def default_files_def ftab_new_def arc_new_def arc_clone_def
    set_slot_def alloc_fd_def alloc_fd_entry_def alloc_fd_entry_at_def NOFILE_def Let_def eval_nat_numeral fun_eq_iff)

lemma demo_pipe_reach: "fd_reach (no_refs(2 := 1)) demo_pipe"
proof -
  have "fd_reach no_refs (default_files 5 ftab_new)"
    by (rule fd_reach.more [OF fd_reach.init fd_step.spawn]) (simp add: ftab_new_def)
  then have "fd_reach no_refs demo_open" unfolding demo_open_def using fd_reach.more fd_step.pipe by blast
  moreover have "get_file 5 4 demo_open = (Some 2, snd (get_file 5 4 demo_open))"
    by (simp add: demo_open_eq get_file_def slot_at_def fd_entry_new_def eval_nat_numeral)
  ultimately have "fd_reach (one_more 2 no_refs) (snd (get_file 5 4 demo_open))"
    using fd_reach.more fd_step.call_start by blast
  then show ?thesis unfolding demo_pipe_def using fd_reach.more fd_step.clos by fastforce
qed

theorem pipe_ends_exact_witness:
  "fd_reach (no_refs(2 := 1)) demo_pipe \<and> slot_at 5 4 demo_pipe = None \<and> held_on (no_refs(2 := 1)) demo_pipe (PipeWrite 0) \<and>
   writers (pipes demo_pipe 0) \<noteq> 0"
proof -
  have np: "0 < next_pipe demo_pipe" and d: "descs demo_pipe 2 = Some (PipeWrite 0, 1)" and sl: "slot_at 5 4 demo_pipe = None"
    unfolding demo_pipe_def demo_open_eq
    by (simp_all add: sys_close_def close_fd_def get_file_def slot_at_def set_slot_def arc_clone_def drop_entry_def
      arc_drop_def fd_entry_new_def eval_nat_numeral)
  have "held_on (no_refs(2 := 1)) demo_pipe (PipeWrite 0)" using d by (auto simp: held_on_def)
  then show ?thesis using demo_pipe_reach sl pipe_ends_exact [OF demo_pipe_reach np] by simp
qed

end
