(* ===== verification/Uvm.thy ===== *)
theory Uvm
  imports Sv39 Fdtab
begin

unbundle bit_operations_syntax

text \<open>
  User address spaces: the layout of \<open>user_vm.rs\<close>, demand paging and pointer translation of
  \<open>Proc\<close>, the system calls \<open>sbrk\<close>, \<open>brk\<close>, \<open>mmap\<close>, \<open>munmap\<close> and the page-fault handler.
  A process is the part of \<open>Proc\<close> these touch; its
  page table and pages live in the physical memory of \<open>Kalloc\<close>. Pages are seen as the words
  of their frame. The invariant \<open>uspace\<close> says that the page table is a tree of private frames
  and that every mapped user page is a private frame of its own; \<open>owned\<close> collects the frames
  of the pool, the tables and the pages, and is what no operation may change.
\<close>

section \<open>Layout\<close>

definition TRAMPOLINE :: nat where "TRAMPOLINE = MAXVA - PGSIZE"
definition TRAPFRAME :: nat where "TRAPFRAME = TRAMPOLINE - PGSIZE"
definition STACK_VA_TOP :: nat where "STACK_VA_TOP = TRAPFRAME"
definition STACK_PAGES :: nat where "STACK_PAGES = 8"
definition STACK_VA_BASE :: nat where "STACK_VA_BASE = STACK_VA_TOP - STACK_PAGES * PGSIZE"
definition MMAP_TOP :: nat where "MMAP_TOP = STACK_VA_BASE - 16 * 1024 * 1024"

definition RX :: pte_perm where "RX = PERM_READ OR PERM_EXEC"
definition RW :: pte_perm where "RW = PERM_READ OR PERM_WRITE"
definition URW :: pte_perm where "URW = PERM_READ OR PERM_WRITE OR PERM_USER"

definition PROT_READ :: "32 word" where "PROT_READ = 1"
definition PROT_WRITE :: "32 word" where "PROT_WRITE = 2"
definition PROT_EXEC :: "32 word" where "PROT_EXEC = 4"
definition MAP_PRIVATE :: "32 word" where "MAP_PRIVATE = 2"
definition MAP_ANONYMOUS :: "32 word" where "MAP_ANONYMOUS = 0x20"
definition MAP_FAILED :: int where "MAP_FAILED = -1"

record vma =
  vstart :: nat
  vend :: nat
  vprot :: "32 word"
  vfile :: "nat option"
  voffset :: nat

text \<open>\<open>preap\<close> collects the inodes that \<open>Drop for Vma\<close> hands to the reaper.\<close>

record uproc =
  proot :: nat
  psize :: nat
  pvmas :: "vma list"
  pmmap_base :: nat
  preap :: "nat list"

text \<open>\<open>a & !(PGSIZE - 1)\<close>, and \<open>(a + PGSIZE - 1) & !(PGSIZE - 1)\<close> on \<open>usize\<close>, where the sum wraps.\<close>

definition page_down :: "nat \<Rightarrow> nat" where "page_down a = a - a mod PGSIZE"
definition page_up :: "nat \<Rightarrow> nat" where "page_up a = page_down ((a + PGSIZE - 1) mod 2 ^ 64)"

section \<open>Pages on demand\<close>

definition vma_prot_to_pteperm :: "32 word \<Rightarrow> pte_perm" where
  "vma_prot_to_pteperm prot =
     PERM_USER OR (if prot AND PROT_READ \<noteq> 0 then PERM_READ else 0)
     OR (if prot AND PROT_WRITE \<noteq> 0 then PERM_WRITE else 0)
     OR (if prot AND PROT_EXEC \<noteq> 0 then PERM_EXEC else 0)
     OR (if prot AND (PROT_READ OR PROT_WRITE OR PROT_EXEC) = 0 then PERM_READ else 0)"

text \<open>A frame that has just been allocated is mapped at \<open>va\<close>, or freed again.\<close>

definition map_or_free :: "nat \<Rightarrow> nat \<Rightarrow> nat \<Rightarrow> pte_perm \<Rightarrow> pmem \<Rightarrow> bool \<times> pmem" where
  "map_or_free root va pa perm m = (case pt_map root va pa PGSIZE perm m of
     (Inl _, m1) \<Rightarrow> (False, kfree pa m1) | (Inr _, m1) \<Rightarrow> (True, m1))"

definition demand_perm :: "uproc \<Rightarrow> nat \<Rightarrow> pte_perm option" where
  "demand_perm p page =
     (if page < psize p then Some URW
      else map_option (\<lambda>v. vma_prot_to_pteperm (vprot v))
        (find (\<lambda>v. vstart v \<le> page \<and> page < vend v \<and> vfile v = None) (pvmas p)))"

definition demand_map_zero_page :: "uproc \<Rightarrow> nat \<Rightarrow> pmem \<Rightarrow> bool \<times> pmem" where
  "demand_map_zero_page p page m = (case demand_perm p page of
     None \<Rightarrow> (False, m)
   | Some perm \<Rightarrow> (case alloc_zeroed m of
       (None, m1) \<Rightarrow> (False, m1)
     | (Some pa, m1) \<Rightarrow>
         if translate (proot p) page m1 \<noteq> None then (True, kfree pa m1)
         else map_or_free (proot p) page pa perm m1))"

partial_function (option) translate_user_perm ::
    "uproc \<Rightarrow> bool \<Rightarrow> nat \<Rightarrow> pmem \<Rightarrow> (nat option \<times> pmem) option" where
  "translate_user_perm p wr va m =
     (case translate (proot p) (page_down va) m of
        Some (pa, perm) \<Rightarrow>
          if perm AND PERM_USER = 0 then Some (None, m)
          else if wr \<and> perm AND PERM_WRITE = 0 then Some (None, m)
          else Some (Some (pa + va mod PGSIZE), m)
      | None \<Rightarrow> (case demand_map_zero_page p (page_down va) m of
          (ok, m1) \<Rightarrow> if ok then translate_user_perm p wr va m1 else Some (None, m1)))"

text \<open>Bytes of a file read into a frame, as the words of the frame; \<open>rd ip off n\<close> is what \<open>readi\<close>
  puts into a buffer of \<open>n\<close> bytes and \<open>fsize\<close> the size of the locked inode.\<close>

definition fill_frame :: "nat \<Rightarrow> byte list \<Rightarrow> pmem \<Rightarrow> pmem" where
  "fill_frame pa bs m = m\<lparr>pw := (\<lambda>a. if pa \<le> a \<and> a < pa + PGSIZE
     then of_nat (le_val (take 8 (drop (a - pa) bs))) else pw m a)\<rparr>"

datatype fault_source = Heap | Anon "32 word" | FileMap nat nat "32 word"

definition fault_source :: "uproc \<Rightarrow> nat \<Rightarrow> fault_source option" where
  "fault_source p fault_va =
     (if fault_va < psize p then Some Heap
      else case find (\<lambda>v. vstart v \<le> fault_va \<and> fault_va < vend v) (pvmas p) of
        None \<Rightarrow> None
      | Some v \<Rightarrow> Some (case vfile v of
          None \<Rightarrow> Anon (vprot v)
        | Some ip \<Rightarrow> FileMap ip (voffset v + (page_down fault_va - vstart v)) (vprot v)))"

definition lazy_map_page :: "(nat \<Rightarrow> nat \<Rightarrow> nat \<Rightarrow> byte list) \<Rightarrow> (nat \<Rightarrow> nat) \<Rightarrow> uproc \<Rightarrow> nat \<Rightarrow> bool \<Rightarrow> pmem \<Rightarrow> bool \<times> pmem" where
  "lazy_map_page rd fsize p fault_va wr m =
     (let page = page_down fault_va in
      case fault_source p fault_va of
        None \<Rightarrow> (False, m)
      | Some src \<Rightarrow>
          (let perm = (case src of Heap \<Rightarrow> URW | Anon pr \<Rightarrow> vma_prot_to_pteperm pr
                       | FileMap _ _ pr \<Rightarrow> vma_prot_to_pteperm pr) in
           case translate (proot p) page m of
             Some (_, mapped_perm) \<Rightarrow>
               (if mapped_perm AND PERM_USER = 0 then False
                else if wr \<and> mapped_perm AND PERM_WRITE = 0 then False
                else True, m)
           | None \<Rightarrow> (case alloc_zeroed m of
               (None, m1) \<Rightarrow> (False, m1)
             | (Some pa, m1) \<Rightarrow>
                 let m2 = (case src of
                     FileMap ip off _ \<Rightarrow>
                       if off < fsize ip
                       then fill_frame pa (rd ip (off mod 2 ^ 32) (min (fsize ip - off) PGSIZE)) m1 else m1
                   | _ \<Rightarrow> m1)
                 in map_or_free (proot p) page pa perm m2)))"

section \<open>The break\<close>

text \<open>Unmapping and freeing every mapped page of \<open>[va, en)\<close>.\<close>

definition unmap_one :: "nat \<Rightarrow> nat \<Rightarrow> pmem \<Rightarrow> pmem" where
  "unmap_one r va m = (case unmap_page r va m of (None, m1) \<Rightarrow> m1 | (Some pa, m1) \<Rightarrow> kfree pa m1)"

function unmap_range :: "nat \<Rightarrow> nat \<Rightarrow> nat \<Rightarrow> pmem \<Rightarrow> pmem" where
  "unmap_range root va en m =
     (if va < en then unmap_range root (va + PGSIZE) en (unmap_one root va m) else m)"
  by pat_completeness auto

termination
  by (relation "measure (\<lambda>(_, va, en, _). en - va)") (auto simp: PGSIZE_def)

function grow_loop :: "nat \<Rightarrow> nat \<Rightarrow> nat \<Rightarrow> nat \<Rightarrow> pmem \<Rightarrow> bool \<times> pmem" where
  "grow_loop root start va en m =
     (if va < en then
        (case alloc_zeroed m of
           (None, m1) \<Rightarrow> (False, unmap_range root start va m1)
         | (Some pa, m1) \<Rightarrow>
             (case map_or_free root va pa URW m1 of
                (False, m2) \<Rightarrow> (False, unmap_range root start va m2)
              | (True, m2) \<Rightarrow> grow_loop root start (va + PGSIZE) en m2))
      else (True, m))"
  by pat_completeness auto

termination
  by (relation "measure (\<lambda>(_, _, va, en, _). en - va)") (auto simp: PGSIZE_def)

declare unmap_range.simps [simp del] grow_loop.simps [simp del]

definition sys_sbrk :: "uproc \<Rightarrow> int \<Rightarrow> int \<Rightarrow> pmem \<Rightarrow> int \<times> uproc \<times> pmem" where
  "sys_sbrk p n lazy m =
     (let old = psize p in
      if n = 0 then (int old, p, m)
      else if n < 0 then
        (let shrink = nat (- n) in
         if old < shrink then (int old, p, m)
         else let new_size = old - shrink in
           (int old, p\<lparr>psize := new_size\<rparr>, unmap_range (proot p) (page_up new_size) (page_up old) m))
      else if 2 ^ 64 \<le> old + nat n then (-1, p, m)
      else let new = old + nat n; heap_top = STACK_VA_BASE - PGSIZE in
        if heap_top < new then (-1, p, m)
        else if lazy \<noteq> 0 then (int old, p\<lparr>psize := new\<rparr>, m)
        else (case grow_loop (proot p) (page_up old) (page_up old) (page_up new) m of
            (False, m1) \<Rightarrow> (-1, p, m1)
          | (True, m1) \<Rightarrow> (int old, p\<lparr>psize := new\<rparr>, m1)))"

text \<open>\<open>as i64\<close> on a \<open>usize\<close>.\<close>

definition as_i64 :: "nat \<Rightarrow> int" where
  "as_i64 n = (if n < 2 ^ 63 then int n else int n - 2 ^ 64)"

definition sys_brk :: "uproc \<Rightarrow> nat \<Rightarrow> pmem \<Rightarrow> int \<times> uproc \<times> pmem" where
  "sys_brk p addr m =
     (if addr = 0 then (int (psize p), p, m)
      else let old = psize p in
        if addr = old then (0, p, m)
        else let delta = (if old < addr then as_i64 (addr - old) else - as_i64 (old - addr));
                 (r, p, m) = sys_sbrk p delta 0 m
             in (if r < 0 then -1 else 0, p, m))"

text \<open>A break request \<open>2 ^ 63\<close> or more above the current one becomes negative when it is cast, an
  over-shrink that \<open>sbrk\<close> ignores: the call reports success and does nothing.\<close>

lemma brk_far_reports_success:
  assumes "psize p + 2 ^ 63 \<le> addr" and "addr < 2 ^ 64"
  shows "sys_brk p addr m = (0, p, m)"
proof -
  let ?d = "as_i64 (addr - psize p)"
  have "\<not> addr - psize p < 2 ^ 63" using assms(1) by linarith
  then have d: "?d = int addr - int (psize p) - 2 ^ 64" using assms(1) by (simp add: as_i64_def of_nat_diff)
  have "int addr < 2 ^ 64" using assms(2) by simp
  then have "?d < 0" "psize p < nat (- ?d)" unfolding d by (auto simp: zless_nat_conj)
  then have "sys_sbrk p ?d 0 m = (int (psize p), p, m)" by (simp add: sys_sbrk_def Let_def)
  moreover have "addr \<noteq> 0" "psize p < addr" using assms(1) by simp_all
  ultimately show ?thesis by (simp add: sys_brk_def Let_def)
qed

section \<open>Mapped regions\<close>

definition file_of :: "nat \<Rightarrow> ftab \<Rightarrow> int \<Rightarrow> ofile option" where
  "file_of pid s fd = (case slot_at pid fd s of None \<Rightarrow> None | Some e \<Rightarrow> map_option fst (descs s (fd_file e)))"

fun insert_vma :: "vma \<Rightarrow> vma list \<Rightarrow> vma list" where
  "insert_vma v [] = [v]"
| "insert_vma v (u # us) = (if vstart u < vstart v then u # insert_vma v us else v # u # us)"

text \<open>The region that \<open>mmap\<close> reads its pages from: \<open>None\<close> is a refused call, \<open>Some None\<close> an
  anonymous mapping.\<close>

definition mmap_file :: "(int \<Rightarrow> ofile option) \<Rightarrow> 32 word \<Rightarrow> int \<Rightarrow> nat option option" where
  "mmap_file lookup flags fd =
     (if flags AND MAP_ANONYMOUS = 0 then
        (case lookup fd of
           Some (InodeF ip _ rdb _ _) \<Rightarrow> if rdb then Some (Some ip) else None
         | _ \<Rightarrow> None)
      else Some None)"

definition sys_mmap :: "(int \<Rightarrow> ofile option) \<Rightarrow> uproc \<Rightarrow> nat \<Rightarrow> 32 word \<Rightarrow> 32 word \<Rightarrow> int \<Rightarrow> int \<Rightarrow> int \<times> uproc" where
  "sys_mmap lookup p len prot flags fd offset =
     (if len = 0 then (MAP_FAILED, p)
      else if flags AND MAP_PRIVATE = 0 then (MAP_FAILED, p)
      else if prot AND NOT (PROT_READ OR PROT_WRITE OR PROT_EXEC) \<noteq> 0 then (MAP_FAILED, p)
      else if offset < 0 \<or> nat offset mod PGSIZE \<noteq> 0 then (MAP_FAILED, p)
      else (case mmap_file lookup flags fd of
          None \<Rightarrow> (MAP_FAILED, p)
        | Some file_inode \<Rightarrow>
            let len_aligned = page_up len in
            if pmmap_base p < len_aligned then (MAP_FAILED, p)
            else let new_base = pmmap_base p - len_aligned in
              if new_base < MMAP_TOP div 2 then (MAP_FAILED, p)
              else (int new_base,
                p\<lparr>pmmap_base := new_base, pvmas := insert_vma
                  \<lparr>vstart = new_base, vend = new_base + len_aligned, vprot = prot, vfile = file_inode,
                   voffset = nat offset\<rparr> (pvmas p)\<rparr>)))"

definition vma_inside :: "nat \<Rightarrow> nat \<Rightarrow> vma \<Rightarrow> bool" where
  "vma_inside addr req_end v \<longleftrightarrow> addr \<le> vstart v \<and> vend v \<le> req_end"

definition vma_partial :: "nat \<Rightarrow> nat \<Rightarrow> vma \<Rightarrow> bool" where
  "vma_partial addr req_end v \<longleftrightarrow>
     vstart v < req_end \<and> addr < vend v \<and> \<not> vma_inside addr req_end v"

definition sys_munmap :: "uproc \<Rightarrow> nat \<Rightarrow> nat \<Rightarrow> pmem \<Rightarrow> int \<times> uproc \<times> pmem" where
  "sys_munmap p addr len m =
     (if addr mod PGSIZE \<noteq> 0 \<or> len = 0 then (-1, p, m)
      else let len_aligned = page_up len in
        if 2 ^ 64 \<le> addr + len_aligned then (-1, p, m)
        else let req_end = addr + len_aligned in
          if list_ex (vma_partial addr req_end) (pvmas p) then (-1, p, m)
          else let gone = rev (filter (vma_inside addr req_end) (pvmas p)) in
            if gone = [] then (-1, p, m)
            else (0,
              p\<lparr>pvmas := filter (\<lambda>v. \<not> vma_inside addr req_end v) (pvmas p),
                preap := preap p @ List.map_filter vfile gone\<rparr>,
              fold (\<lambda>v. unmap_range (proot p) (vstart v) (vend v)) gone m))"

section \<open>The invariant\<close>

abbreviation ent :: "pmem \<Rightarrow> nat \<Rightarrow> nat \<Rightarrow> pte" where "ent m r v \<equiv> sv.entry_of m r v"
abbreviation tgt :: "pte \<Rightarrow> nat" where "tgt e \<equiv> unat (pte_pa e)"

definition uleaf :: "pte \<Rightarrow> bool" where
  "uleaf e \<longleftrightarrow> pte_is_leaf e \<and> e AND PTE_U \<noteq> 0"

definition pages :: "pmem \<Rightarrow> nat \<Rightarrow> nat set" where
  "pages m r = {tgt (ent m r v) | v. v < TRAPFRAME \<and> pte_is_valid (ent m r v)}"

definition uspace :: "nat \<Rightarrow> pmem \<Rightarrow> bool" where
  "uspace r m \<longleftrightarrow> sv.tree r m \<and>
     (\<forall>v < TRAPFRAME. pte_is_valid (ent m r v) \<longrightarrow>
        uleaf (ent m r v) \<and> frame_ok (tgt (ent m r v)) \<and> tgt (ent m r v) \<notin> sv.held m r) \<and>
     (\<forall>v w. v < TRAPFRAME \<longrightarrow> w < TRAPFRAME \<longrightarrow> pte_is_valid (ent m r v) \<longrightarrow> pte_is_valid (ent m r w) \<longrightarrow>
        tgt (ent m r v) = tgt (ent m r w) \<longrightarrow> v div PGSIZE = w div PGSIZE)"

definition owned :: "pmem \<Rightarrow> nat \<Rightarrow> nat set" where
  "owned m r = sv.held m r \<union> pages m r"

lemma uspaceD:
  assumes "uspace r m"
  shows "sv.tree r m"
    and "\<And>v. v < TRAPFRAME \<Longrightarrow> pte_is_valid (ent m r v) \<Longrightarrow>
      uleaf (ent m r v) \<and> frame_ok (tgt (ent m r v)) \<and> tgt (ent m r v) \<notin> sv.held m r"
    and "\<And>v w. v < TRAPFRAME \<Longrightarrow> w < TRAPFRAME \<Longrightarrow> pte_is_valid (ent m r v) \<Longrightarrow> pte_is_valid (ent m r w) \<Longrightarrow>
      tgt (ent m r v) = tgt (ent m r w) \<Longrightarrow> v div PGSIZE = w div PGSIZE"
  using assms unfolding uspace_def by blast+

text \<open>Same entries, same frames held: same space.\<close>

lemma uspace_same:
  assumes us: "uspace r m" and tr: "sv.tree r m'" and h: "sv.held m' r = sv.held m r"
    and e: "\<And>v. v < TRAPFRAME \<Longrightarrow> ent m' r v = ent m r v"
  shows "uspace r m'" "pages m' r = pages m r" "owned m' r = owned m r"
proof -
  show "uspace r m'"
    unfolding uspace_def h
  proof (intro conjI allI impI)
    show "sv.tree r m'" by (rule tr)
    show "uleaf (ent m' r v)" "frame_ok (tgt (ent m' r v))" "tgt (ent m' r v) \<notin> sv.held m r"
      if "v < TRAPFRAME" "pte_is_valid (ent m' r v)" for v
      using uspaceD(2) [OF us that(1)] that(2) unfolding e [OF that(1)] by blast+
    show "v div PGSIZE = w div PGSIZE"
      if "v < TRAPFRAME" "w < TRAPFRAME" "pte_is_valid (ent m' r v)" "pte_is_valid (ent m' r w)"
        "tgt (ent m' r v) = tgt (ent m' r w)" for v w
      using uspaceD(3) [OF us that(1,2)] that(3-5) unfolding e [OF that(1)] e [OF that(2)] by blast
  qed
  show p: "pages m' r = pages m r" unfolding pages_def by (metis (no_types, lifting) e)
  show "owned m' r = owned m r" using p h by (simp add: owned_def)
qed

text \<open>Writing one frame that is neither a table nor a page, and moving it into or out of the pool.\<close>

lemma held_def': "sv.held m r = set (frames m) \<union> {x. sv.table_of m r x}"
  by (rule sv.held_def)

lemma table_frame: "sv.tree r m \<Longrightarrow> sv.table_of m r x \<Longrightarrow> frame_ok x \<and> x \<notin> set (frames m)"
  using sv.treeD(2) by (auto simp: sv.table_of_def)

lemma uspace_frame:
  assumes us: "uspace r m" and k: "kinv m'" and f: "frame_ok f" "\<not> sv.table_of m r f" "f \<notin> pages m r"
    and fr: "set (frames m') - {f} = set (frames m) - {f}" and pw: "\<And>a. \<not> in_frame f a \<Longrightarrow> pw m' a = pw m a"
  shows "uspace r m'" "\<And>v. ent m' r v = ent m r v" "pages m' r = pages m r"
    "\<And>x. x \<noteq> f \<Longrightarrow> x \<in> owned m' r \<longleftrightarrow> x \<in> owned m r" "f \<in> owned m' r \<longleftrightarrow> f \<in> set (frames m')"
    "\<And>x. sv.table_of m' r x = sv.table_of m r x"
proof -
  note tr = uspaceD(1) [OF us]
  have ne: "x \<noteq> f" if "sv.table_of m r x" for x using that f(2) by blast
  have t1: "x \<notin> set (frames m')" if "sv.table_of m r x" for x
    using table_frame [OF tr that] ne [OF that] fr by blast
  have t2: "pw m' (x + 8 * i) = pw m (x + 8 * i)" if "sv.table_of m r x" "i < 512" for x i
    using pw frames_disjoint [OF f(1), of x] table_frame [OF tr that(1)] ne [OF that(1)] entry_in_frame [OF that(2)] by blast
  note C = sv.tree_cong [OF tr k t1 t2]
  show e: "ent m' r v = ent m r v" for v by (rule C(2))
  show t: "sv.table_of m' r x = sv.table_of m r x" for x by (rule C(3))
  show p: "pages m' r = pages m r" unfolding pages_def e by (rule refl)
  have h: "x \<in> sv.held m' r \<longleftrightarrow> x \<in> sv.held m r" if "x \<noteq> f" for x using that fr t unfolding held_def' by blast
  show "x \<in> owned m' r \<longleftrightarrow> x \<in> owned m r" if "x \<noteq> f" for x unfolding owned_def p using h [OF that] by blast
  show "f \<in> owned m' r \<longleftrightarrow> f \<in> set (frames m')" unfolding owned_def p held_def' t using f by blast
  have "tgt (ent m r v) \<notin> sv.held m' r" if v: "v < TRAPFRAME" "pte_is_valid (ent m r v)" for v
  proof -
    have "tgt (ent m r v) \<in> pages m r" using v unfolding pages_def by blast
    then have "tgt (ent m r v) \<noteq> f" using f(3) by auto
    then show ?thesis using h uspaceD(2) [OF us v] by blast
  qed
  then show "uspace r m'" using C(1) us unfolding uspace_def e by blast
qed

lemma page_frame: "uspace r m \<Longrightarrow> f \<in> pages m r \<Longrightarrow> frame_ok f \<and> f \<notin> sv.held m r"
  unfolding pages_def using uspaceD(2) by blast

lemma owned_frame:
  assumes us: "uspace r m" and f: "f \<in> owned m r"
  shows "frame_ok f"
  using f page_frame [OF us, of f] table_frame [OF uspaceD(1) [OF us], of f] sv.treeD(1) [OF uspaceD(1) [OF us]]
  unfolding owned_def held_def' kinv_def by blast

lemma uspace_kinv: "uspace r m \<Longrightarrow> kinv m"
  by (rule sv.treeD(1) [OF uspaceD(1)])

lemma uspace_alloc:
  assumes us: "uspace r m" and a: "alloc_zeroed m = (Some f, m1)"
  shows "uspace r m1" "frame_ok f" "f \<notin> owned m1 r" "owned m r = insert f (owned m1 r)" "\<And>v. ent m1 r v = ent m r v"
    "pages m1 r = pages m r" "\<And>x. pw m1 x = (if in_frame f x then 0 else pw m x)"
proof -
  note A = alloc_zeroed_Some [OF uspace_kinv [OF us] a]
  have nf: "f \<notin> set (frames m1)" using uspace_kinv [OF us] A(1) by (simp add: kinv_def)
  have f: "f \<in> set (frames m)" using A(1) by simp
  have 1: "\<not> sv.table_of m r f" "f \<notin> pages m r"
    using f table_frame [OF uspaceD(1) [OF us]] page_frame [OF us] by (auto simp: held_def')
  note U = uspace_frame [OF us A(2,3) 1]
  have 2: "set (frames m1) - {f} = set (frames m) - {f}" using A(1) by auto
  have 3: "pw m1 x = pw m x" if "\<not> in_frame f x" for x using that A(4) by simp
  show "uspace r m1" by (rule U(1) [OF 2 3])
  show "frame_ok f" by (rule A(3))
  show o: "f \<notin> owned m1 r" using U(5) [OF 2 3] nf by simp
  have fo: "f \<in> owned m r" using f by (simp add: owned_def held_def')
  show "owned m r = insert f (owned m1 r)"
  proof (intro set_eqI)
    show "x \<in> owned m r \<longleftrightarrow> x \<in> insert f (owned m1 r)" for x
      using U(4) [OF 2 3, of x] fo by (cases "x = f") simp_all
  qed
  show "ent m1 r v = ent m r v" for v by (rule U(2) [OF 2 3])
  show "pages m1 r = pages m r" by (rule U(3) [OF 2 3])
  show "pw m1 x = (if in_frame f x then 0 else pw m x)" for x by (rule A(4))
qed

lemma uspace_free:
  assumes us: "uspace r m" and f: "frame_ok f" "f \<notin> owned m r"
  shows "uspace r (kfree f m)" "owned (kfree f m) r = insert f (owned m r)" "\<And>v. ent (kfree f m) r v = ent m r v"
    "pages (kfree f m) r = pages m r" "\<And>x. x \<noteq> f \<Longrightarrow> pw (kfree f m) x = pw m x"
proof -
  have 1: "\<not> sv.table_of m r f" "f \<notin> pages m r" "f \<notin> set (frames m)" using f(2) by (auto simp: owned_def held_def')
  note K = kfree_frames [OF uspace_kinv [OF us] f(1) 1(3)]
  note U = uspace_frame [OF us K(2) f(1) 1(1,2)]
  have 2: "set (frames (kfree f m)) - {f} = set (frames m) - {f}" using K(1) by auto
  have 3: "pw (kfree f m) x = pw m x" if "\<not> in_frame f x" for x using that by (intro K(3)) auto
  show "uspace r (kfree f m)" by (rule U(1) [OF 2 3])
  show "owned (kfree f m) r = insert f (owned m r)"
  proof (intro set_eqI)
    show "x \<in> owned (kfree f m) r \<longleftrightarrow> x \<in> insert f (owned m r)" for x
      using U(4) [OF 2 3, of x] U(5) [OF 2 3] K(1) by (cases "x = f") simp_all
  qed
  show "ent (kfree f m) r v = ent m r v" for v by (rule U(2) [OF 2 3])
  show "pages (kfree f m) r = pages m r" by (rule U(3) [OF 2 3])
  show "x \<noteq> f \<Longrightarrow> pw (kfree f m) x = pw m x" for x by (rule K(3))
qed

text \<open>Changing one entry to \<open>x\<close>, which maps a frame outside the space or nothing.\<close>

lemma uspace_set:
  assumes us: "uspace r m" and tr: "sv.tree r m'" and h: "sv.held m' r = sv.held m r"
    and e: "\<And>v. v < TRAPFRAME \<Longrightarrow> ent m' r v = (if v div PGSIZE = va div PGSIZE then x else ent m r v)"
    and x: "pte_is_valid x \<Longrightarrow> uleaf x \<and> frame_ok (tgt x) \<and> tgt x \<notin> owned m r"
  shows "uspace r m'"
  unfolding uspace_def h
proof (intro conjI allI impI)
  show "sv.tree r m'" by (rule tr)
next
  fix v assume v: "v < TRAPFRAME" "pte_is_valid (ent m' r v)"
  show "uleaf (ent m' r v)" "frame_ok (tgt (ent m' r v))" "tgt (ent m' r v) \<notin> sv.held m r"
    using v x uspaceD(2) [OF us v(1)] unfolding e [OF v(1)] owned_def by (auto split: if_splits)
next
  fix v w assume vw: "v < TRAPFRAME" "w < TRAPFRAME" "pte_is_valid (ent m' r v)" "pte_is_valid (ent m' r w)"
    "tgt (ent m' r v) = tgt (ent m' r w)"
  have pg: "tgt (ent m r u) \<noteq> tgt x" if "pte_is_valid x" "u < TRAPFRAME" "pte_is_valid (ent m r u)" for u
  proof -
    have "tgt (ent m r u) \<in> pages m r" using that unfolding pages_def by blast
    then show ?thesis using x that(1) unfolding owned_def by auto
  qed
  show "v div PGSIZE = w div PGSIZE"
  proof (cases "v div PGSIZE = va div PGSIZE"; cases "w div PGSIZE = va div PGSIZE")
    assume c: "v div PGSIZE \<noteq> va div PGSIZE" "w div PGSIZE \<noteq> va div PGSIZE"
    show ?thesis by (rule uspaceD(3) [OF us vw(1,2)]) (use vw(3-5) e [OF vw(1)] e [OF vw(2)] c in simp_all)
  next
    assume c: "v div PGSIZE \<noteq> va div PGSIZE" "w div PGSIZE = va div PGSIZE"
    then show ?thesis using pg [of v] vw(1,3-5) e [OF vw(1)] e [OF vw(2)] by simp
  next
    assume c: "v div PGSIZE = va div PGSIZE" "w div PGSIZE \<noteq> va div PGSIZE"
    then show ?thesis using pg [of w] vw(2-5) e [OF vw(1)] e [OF vw(2)] by simp
  qed simp
qed

definition uperm :: "pte_perm \<Rightarrow> bool" where
  "uperm perm \<longleftrightarrow> bit perm 3 \<and> (bit perm 0 \<or> bit perm 1 \<or> bit perm 2)"

lemma uleaf_make: "uperm perm \<Longrightarrow> uleaf (make_leaf f perm)"
  using bit_test [of "make_leaf f perm" 4]
  by (auto simp: uleaf_def uperm_def pte_is_leaf_bits make_leaf_low leaf_bits_bit PTE_U_def)

lemma below_TRAPFRAME: "v < TRAPFRAME \<Longrightarrow> v < MAXVA" "PGSIZE dvd va \<Longrightarrow> va < TRAPFRAME \<Longrightarrow> va + PGSIZE \<le> TRAPFRAME"
    "TRAPFRAME < MAXVA"
  by (auto simp: TRAPFRAME_def TRAMPOLINE_def MAXVA_def PGSIZE_def dvd_def)

lemma outside_frame: "frame_ok f \<Longrightarrow> f \<notin> sv.held m r \<Longrightarrow> in_frame f a \<Longrightarrow> sv.outside m r a"
  unfolding sv.outside_def held_def' using frames_disjoint [of f _ a] by blast

lemma pt_map_page:
  assumes tr: "sv.tree r m" and va: "PGSIZE dvd va" "va < MAXVA" and mp: "pt_map r va f PGSIZE perm m = (res, m')"
  shows "res = Inr () \<and> sv.mapped perm r va (va + PGSIZE) f m m' \<or> res \<noteq> Inr () \<and> sv.keeps r m m'"
proof (cases "PGSIZE dvd f")
  case False
  then have "(res, m') = (Inl Misaligned, m)" using mp by (simp add: pt_map_def mod_eq_0_iff_dvd split: if_splits)
  then show ?thesis using sv.keeps_refl [OF tr] by simp
next
  case True
  have "va + PGSIZE \<le> MAXVA" using va by (auto simp: MAXVA_def PGSIZE_def dvd_def)
  then have "map_loop perm r va f (va + PGSIZE) m = (res, m')"
    using mp va(1) True PGSIZE_pos MAXVA_def unfolding pt_map_def by (auto simp: mod_eq_0_iff_dvd)
  then show ?thesis using sv.mp_page [OF tr va] by blast
qed

text \<open>Everything an operation may do to a space: the frames it owns stay the same set, and memory
  outside them is not touched.\<close>

definition apart :: "pmem \<Rightarrow> nat \<Rightarrow> nat \<Rightarrow> bool" where
  "apart m r a \<longleftrightarrow> (\<forall>f \<in> owned m r. \<not> in_frame f a)"

definition vmrel :: "nat \<Rightarrow> pmem \<Rightarrow> pmem \<Rightarrow> bool" where
  "vmrel r m m' \<longleftrightarrow> uspace r m' \<and> owned m' r = owned m r \<and> (\<forall>a. apart m r a \<longrightarrow> pw m' a = pw m a)"

lemma vmrel_refl: "uspace r m \<Longrightarrow> vmrel r m m"
  by (simp add: vmrel_def)

lemma vmrel_trans: "vmrel r m m1 \<Longrightarrow> vmrel r m1 m2 \<Longrightarrow> vmrel r m m2"
  by (simp add: vmrel_def apart_def)

lemma apart_outside: "apart m r a \<Longrightarrow> sv.held m1 r \<subseteq> owned m r \<Longrightarrow> sv.outside m1 r a"
  unfolding apart_def sv.outside_def held_def' by blast

text \<open>Mapping a frame that is not owned yet, or giving it to the pool.\<close>

lemma uspace_map:
  assumes us: "uspace r m" and va: "PGSIZE dvd va" "va < TRAPFRAME" and f: "frame_ok f" "f \<notin> owned m r"
    and perm: "uperm perm" and mp: "sv.mapped perm r va (va + PGSIZE) f m m'"
  shows "uspace r m'" "owned m' r = insert f (owned m r)" "pages m' r = insert f (pages m r)"
    "\<And>v. v < TRAPFRAME \<Longrightarrow> ent m' r v = (if v div PGSIZE = va div PGSIZE then make_leaf f perm else ent m r v)"
    "\<And>v. v div PGSIZE = va div PGSIZE \<Longrightarrow> \<not> pte_is_valid (ent m r v)"
    "\<And>a. sv.outside m r a \<Longrightarrow> pw m' a = pw m a"
proof -
  have al: "v div PGSIZE * PGSIZE = va" if "va \<le> v \<and> v < va + PGSIZE" for v
    using sv.page_step [OF va(1), of v] that va(1) by auto
  show e: "ent m' r v = (if v div PGSIZE = va div PGSIZE then make_leaf f perm else ent m r v)" if "v < TRAPFRAME" for v
    using mp below_TRAPFRAME(1) [OF that] al [of v] unfolding sv.mapped_def sv.page_step [OF va(1)] by auto
  have lim: "v < TRAPFRAME" if "v div PGSIZE = va div PGSIZE" for v
    using that below_TRAPFRAME(2) [OF va] unfolding sv.page_step [OF va(1)] by simp
  show nv: "\<not> pte_is_valid (ent m r v)" if "v div PGSIZE = va div PGSIZE" for v
    using mp that below_TRAPFRAME(1) [OF lim [OF that]] unfolding sv.mapped_def sv.page_step [OF va(1)] by auto
  have h: "sv.held m' r = sv.held m r" and tr: "sv.tree r m'" using mp by (auto simp: sv.mapped_def)
  have t: "tgt (make_leaf f perm) = f" using f(1) by (intro make_leaf_pa) (auto simp: frame_ok_def)
  show "uspace r m'" by (rule uspace_set [OF us tr h e]) (use t f uleaf_make [OF perm] in auto)
  show p: "pages m' r = insert f (pages m r)"
  proof (intro set_eqI iffI)
    fix x assume "x \<in> pages m' r"
    then obtain v where "v < TRAPFRAME" "pte_is_valid (ent m' r v)" "x = tgt (ent m' r v)" unfolding pages_def by blast
    then show "x \<in> insert f (pages m r)" using e [of v] t unfolding pages_def by (cases "v div PGSIZE = va div PGSIZE") auto
  next
    fix x assume x: "x \<in> insert f (pages m r)"
    have "f \<in> pages m' r" unfolding pages_def using e [OF va(2)] va(2) t make_leaf_valid [of f perm] by force
    moreover have "x \<in> pages m' r" if "x \<in> pages m r"
    proof -
      obtain v where v: "v < TRAPFRAME" "pte_is_valid (ent m r v)" "x = tgt (ent m r v)" using \<open>x \<in> pages m r\<close> unfolding pages_def by blast
      then have "ent m' r v = ent m r v" using e [of v] nv [of v] by auto
      then show ?thesis using v unfolding pages_def by force
    qed
    ultimately show "x \<in> pages m' r" using x by blast
  qed
  show "owned m' r = insert f (owned m r)" unfolding owned_def p h by blast
  show "sv.outside m r a \<Longrightarrow> pw m' a = pw m a" for a using mp unfolding sv.mapped_def by blast
qed

lemma keeps_uspace:
  assumes "uspace r m" and "sv.keeps r m m'"
  shows "uspace r m'" "pages m' r = pages m r" "owned m' r = owned m r" "\<And>v. ent m' r v = ent m r v"
    "\<And>a. sv.outside m r a \<Longrightarrow> pw m' a = pw m a"
proof -
  have k: "sv.tree r m'" "sv.held m' r = sv.held m r" using assms(2) by (auto simp: sv.keeps_def)
  note U = uspace_same [OF assms(1) k sv.keeps_entry [OF assms(2)]]
  show "uspace r m'" "pages m' r = pages m r" "owned m' r = owned m r" by (rule U)+
  show "ent m' r v = ent m r v" for v by (rule sv.keeps_entry [OF assms(2)])
  show "sv.outside m r a \<Longrightarrow> pw m' a = pw m a" for a using assms(2) by (auto simp: sv.keeps_def)
qed

lemma map_or_free_spec:
  assumes us: "uspace r m" and va: "PGSIZE dvd va" "va < TRAPFRAME" and f: "frame_ok f" "f \<notin> owned m r"
    and perm: "uperm perm" and mf: "map_or_free r va f perm m = (ok, m')"
  shows "uspace r m'" "owned m' r = insert f (owned m r)" "pages m' r = (if ok then insert f (pages m r) else pages m r)"
    "\<And>v. v < TRAPFRAME \<Longrightarrow> ent m' r v = (if ok \<and> v div PGSIZE = va div PGSIZE then make_leaf f perm else ent m r v)"
    "\<And>v. ok \<Longrightarrow> v div PGSIZE = va div PGSIZE \<Longrightarrow> \<not> pte_is_valid (ent m r v)"
    "\<And>a. sv.outside m r a \<Longrightarrow> ok \<or> \<not> in_frame f a \<Longrightarrow> pw m' a = pw m a"
proof -
  obtain res m1 where mp: "pt_map r va f PGSIZE perm m = (res, m1)" by fastforce
  consider (ok) "res = Inr ()" "sv.mapped perm r va (va + PGSIZE) f m m1" | (no) e where "res = Inl e" "sv.keeps r m m1"
    using pt_map_page [OF uspaceD(1) [OF us] va(1) below_TRAPFRAME(1) [OF va(2)] mp] by (cases res) auto
  then have "uspace r m' \<and> owned m' r = insert f (owned m r) \<and> pages m' r = (if ok then insert f (pages m r) else pages m r) \<and>
    (\<forall>v < TRAPFRAME. ent m' r v = (if ok \<and> v div PGSIZE = va div PGSIZE then make_leaf f perm else ent m r v)) \<and>
    (ok \<longrightarrow> (\<forall>v. v div PGSIZE = va div PGSIZE \<longrightarrow> \<not> pte_is_valid (ent m r v))) \<and>
    (\<forall>a. sv.outside m r a \<longrightarrow> ok \<or> \<not> in_frame f a \<longrightarrow> pw m' a = pw m a)"
  proof cases
    case ok
    then have "(ok, m') = (True, m1)" using mf mp by (simp add: map_or_free_def)
    then show ?thesis using uspace_map [OF us va f perm ok(2)] by simp
  next
    case no
    then have m': "(ok, m') = (False, kfree f m1)" using mf mp by (simp add: map_or_free_def)
    note K = keeps_uspace [OF us no(2)]
    have "f \<notin> owned m1 r" using f(2) K(3) by simp
    note F = uspace_free [OF K(1) f(1) this]
    have "pw (kfree f m1) a = pw m a" if "sv.outside m r a" "\<not> in_frame f a" for a
      using F(5) [of a] K(5) [OF that(1)] that(2) by (cases "a = f") simp_all
    then show ?thesis using m' F(1-4) K(2-4) by simp
  qed
  then show "uspace r m'" "owned m' r = insert f (owned m r)" "pages m' r = (if ok then insert f (pages m r) else pages m r)"
    "\<And>v. v < TRAPFRAME \<Longrightarrow> ent m' r v = (if ok \<and> v div PGSIZE = va div PGSIZE then make_leaf f perm else ent m r v)"
    "\<And>v. ok \<Longrightarrow> v div PGSIZE = va div PGSIZE \<Longrightarrow> \<not> pte_is_valid (ent m r v)"
    "\<And>a. sv.outside m r a \<Longrightarrow> ok \<or> \<not> in_frame f a \<Longrightarrow> pw m' a = pw m a"
    by blast+
qed

text \<open>A fresh frame, filled by the kernel, enters the space.\<close>

lemma fill_uspace:
  assumes us: "uspace r m" and f: "frame_ok f" "f \<notin> owned m r" and w: "\<forall>a. \<not> in_frame f a \<longrightarrow> w a = pw m a"
  shows "uspace r (m\<lparr>pw := w\<rparr>)" "owned (m\<lparr>pw := w\<rparr>) r = owned m r" "pages (m\<lparr>pw := w\<rparr>) r = pages m r"
    "\<And>v. ent (m\<lparr>pw := w\<rparr>) r v = ent m r v"
proof -
  have n: "\<not> sv.table_of m r f" "f \<notin> pages m r" "f \<notin> set (frames m)" using f(2) by (auto simp: owned_def held_def')
  have "w g = pw m g" if g: "g \<in> set (frames m)" for g
    using w frames_disjoint [OF f(1), of g g] g n(3) uspace_kinv [OF us] by (auto simp: kinv_def)
  then have k: "frames (m\<lparr>pw := w\<rparr>) = frames m" "kinv (m\<lparr>pw := w\<rparr>)"
    using frames_cong [of "m\<lparr>pw := w\<rparr>" m] uspace_kinv [OF us] by simp_all
  note U = uspace_frame [OF us k(2) f(1) n(1,2), unfolded k(1), OF refl]
  show "uspace r (m\<lparr>pw := w\<rparr>)" by (rule U) (simp add: w)
  have "x \<in> owned (m\<lparr>pw := w\<rparr>) r \<longleftrightarrow> x \<in> owned m r" for x
    using U(4) [of x] U(5) w f(2) n(3) by (cases "x = f") simp_all
  then show "owned (m\<lparr>pw := w\<rparr>) r = owned m r" by blast
  show "pages (m\<lparr>pw := w\<rparr>) r = pages m r" by (rule U) (simp add: w)
  show "ent (m\<lparr>pw := w\<rparr>) r v = ent m r v" for v by (rule U) (simp add: w)
qed

lemma page_in:
  assumes us: "uspace r m" and a: "alloc_zeroed m = (Some f, m1)" and w: "\<forall>a. \<not> in_frame f a \<longrightarrow> w a = pw m1 a"
    and va: "PGSIZE dvd va" "va < TRAPFRAME" and perm: "uperm perm"
    and mf: "map_or_free r va f perm (m1\<lparr>pw := w\<rparr>) = (ok, m')"
  shows "vmrel r m m'" "frame_ok f" "f \<notin> pages m r" "pages m' r = (if ok then insert f (pages m r) else pages m r)"
    "\<And>v. v < TRAPFRAME \<Longrightarrow> ent m' r v = (if ok \<and> v div PGSIZE = va div PGSIZE then make_leaf f perm else ent m r v)"
    "\<And>v. ok \<Longrightarrow> v div PGSIZE = va div PGSIZE \<Longrightarrow> \<not> pte_is_valid (ent m r v)"
    "\<And>b. ok \<Longrightarrow> in_frame f b \<Longrightarrow> pw m' b = w b"
    "\<And>g b. g \<in> pages m r \<Longrightarrow> in_frame g b \<Longrightarrow> pw m' b = pw m b"
proof -
  note A = uspace_alloc [OF us a]
  note W = fill_uspace [OF A(1-3) w]
  have f: "f \<notin> owned (m1\<lparr>pw := w\<rparr>) r" using W(2) A(3) by simp
  note M = map_or_free_spec [OF W(1) va A(2) f perm mf]
  have h: "sv.held (m1\<lparr>pw := w\<rparr>) r \<subseteq> owned m r" using W(2) A(4) unfolding owned_def by blast
  have fh: "f \<notin> sv.held (m1\<lparr>pw := w\<rparr>) r" using f unfolding owned_def by blast
  have out: "pw m' b = pw m b" if "sv.outside (m1\<lparr>pw := w\<rparr>) r b" "\<not> in_frame f b" for b
    using M(6) [OF that(1)] that(2) w A(7) [of b] by simp
  have "pw m' b = pw m b" if "apart m r b" for b
    by (rule out [OF apart_outside [OF that h]]) (use that A(4) in \<open>simp add: apart_def\<close>)
  then show "vmrel r m m'" using M(1,2) W(2) A(4) by (simp add: vmrel_def)
  show "frame_ok f" by (rule A(2))
  show fp: "f \<notin> pages m r" using A(3,6) by (simp add: owned_def)
  show "pages m' r = (if ok then insert f (pages m r) else pages m r)" using M(3) W(3) A(6) by simp
  show "ent m' r v = (if ok \<and> v div PGSIZE = va div PGSIZE then make_leaf f perm else ent m r v)" if "v < TRAPFRAME" for v
    using M(4) [OF that] W(4) A(5) by simp
  show "\<not> pte_is_valid (ent m r v)" if "ok" "v div PGSIZE = va div PGSIZE" for v using M(5) [OF that] W(4) A(5) by simp
  show "pw m' b = w b" if "ok" "in_frame f b" for b
    using M(6) [OF outside_frame [OF A(2) fh that(2)]] that(1) by simp
  show "pw m' b = pw m b" if g: "g \<in> pages m r" "in_frame g b" for g b
  proof (rule out)
    have "g \<in> pages (m1\<lparr>pw := w\<rparr>) r" using g(1) W(3) A(6) by simp
    from page_frame [OF W(1) this] show "sv.outside (m1\<lparr>pw := w\<rparr>) r b" using outside_frame g(2) by blast
    show "\<not> in_frame f b" using frames_disjoint [OF A(2) _ _ g(2)] page_frame [OF us g(1)] g(1) fp by blast
  qed
qed

text \<open>Memory of a set of pages is left alone.\<close>

definition same_pages :: "nat set \<Rightarrow> pmem \<Rightarrow> pmem \<Rightarrow> bool" where
  "same_pages S m m' \<longleftrightarrow> (\<forall>g \<in> S. \<forall>a. in_frame g a \<longrightarrow> pw m' a = pw m a)"

lemma same_pages_trans: "same_pages S m m1 \<Longrightarrow> same_pages S1 m1 m2 \<Longrightarrow> T \<subseteq> S \<Longrightarrow> T \<subseteq> S1 \<Longrightarrow> same_pages T m m2"
  unfolding same_pages_def by (metis subsetD)

lemma ent_page: "v div PGSIZE = w div PGSIZE \<Longrightarrow> ent m r v = ent m r w"
  by (simp add: sv.entry_of_def idx_path_def pte_index_alt)

lemma in_pages: "v < TRAPFRAME \<Longrightarrow> pte_is_valid (ent m r v) \<Longrightarrow> tgt (ent m r v) \<in> pages m r"
  unfolding pages_def by blast

lemma unmap_one_spec:
  assumes us: "uspace r m" and va: "PGSIZE dvd va" "va < TRAPFRAME"
  defines "m' \<equiv> unmap_one r va m"
  shows "vmrel r m m'" "pages m' r \<subseteq> pages m r" "same_pages (pages m' r) m m'"
    "\<And>v. v < TRAPFRAME \<Longrightarrow> if v div PGSIZE = va div PGSIZE then \<not> pte_is_valid (ent m' r v) else ent m' r v = ent m r v"
proof -
  obtain res m1 where u: "unmap_page r va m = (res, m1)" by fastforce
  have "vmrel r m m' \<and> pages m' r \<subseteq> pages m r \<and> same_pages (pages m' r) m m' \<and>
    (\<forall>v < TRAPFRAME. if v div PGSIZE = va div PGSIZE then \<not> pte_is_valid (ent m' r v) else ent m' r v = ent m r v)"
  proof (rule unmap_cases [OF uspaceD(1) [OF us] u])
    assume n: "res = None" "m1 = m" "va < MAXVA \<Longrightarrow> PGSIZE dvd va \<Longrightarrow> \<not> pte_is_leaf (ent m r va)"
    then have "m' = m" using u by (simp add: m'_def unmap_one_def)
    moreover have "\<not> pte_is_valid (ent m r va)"
      using uspaceD(2) [OF us va(2)] n(3) va below_TRAPFRAME(1) by (auto simp: uleaf_def)
    then have "\<not> pte_is_valid (ent m r v)" if "v div PGSIZE = va div PGSIZE" for v using ent_page [OF that] by simp
    ultimately show ?thesis using vmrel_refl [OF us] by (simp add: same_pages_def)
  next
    let ?pa = "tgt (ent m r va)"
    assume res: "res = Some ?pa" and leaf: "pte_is_leaf (ent m r va)" and tr: "sv.tree r m1"
      and h: "sv.held m1 r = sv.held m r"
      and e: "\<And>v. v < MAXVA \<Longrightarrow> ent m1 r v = (if v div PGSIZE = va div PGSIZE then 0 else ent m r v)"
      and o: "\<And>a. sv.outside m r a \<Longrightarrow> pw m1 a = pw m a \<and> sv.outside m1 r a"
    have m': "m' = kfree ?pa m1" using u res by (simp add: m'_def unmap_one_def)
    have e': "ent m1 r v = (if v div PGSIZE = va div PGSIZE then 0 else ent m r v)" if "v < TRAPFRAME" for v
      using e below_TRAPFRAME(1) [OF that] by blast
    have val: "pte_is_valid (ent m r va)" using leaf by (simp add: pte_is_leaf_def)
    have ok: "frame_ok ?pa" "?pa \<notin> sv.held m r" using uspaceD(2) [OF us va(2) val] by auto
    have us1: "uspace r m1" by (rule uspace_set [OF us tr h e']) (auto simp: sv.valid0)
    have pg: "tgt (ent m r v) = ?pa \<longleftrightarrow> v div PGSIZE = va div PGSIZE" if "v < TRAPFRAME" "pte_is_valid (ent m r v)" for v
      using uspaceD(3) [OF us that(1) va(2) that(2) val] ent_page [of v va m r] by auto
    have p: "pages m1 r = pages m r - {?pa}"
    proof (intro set_eqI iffI)
      fix x assume "x \<in> pages m1 r"
      then obtain v where v: "v < TRAPFRAME" "pte_is_valid (ent m1 r v)" "x = tgt (ent m1 r v)" unfolding pages_def by blast
      then have "v div PGSIZE \<noteq> va div PGSIZE" using e' [OF v(1)] sv.valid0 by auto
      then show "x \<in> pages m r - {?pa}" using v e' [OF v(1)] pg [OF v(1)] in_pages [OF v(1)] by auto
    next
      fix x assume "x \<in> pages m r - {?pa}"
      then obtain v where v: "v < TRAPFRAME" "pte_is_valid (ent m r v)" "x = tgt (ent m r v)" "x \<noteq> ?pa" unfolding pages_def by blast
      then have "ent m1 r v = ent m r v" using e' [OF v(1)] pg [OF v(1,2)] by auto
      then show "x \<in> pages m1 r" using v in_pages [OF v(1), of m1 r] by simp
    qed
    have "?pa \<notin> owned m1 r" using p ok(2) h unfolding owned_def by blast
    note F = uspace_free [OF us1 ok(1) this]
    have pin: "?pa \<in> pages m r" by (rule in_pages [OF va(2) val])
    have own: "owned m' r = owned m r" unfolding m' F(2) owned_def [of m1] owned_def [of m] p h using pin by blast
    have out: "pw m' a = pw m a" if "sv.outside m r a" "\<not> in_frame ?pa a" for a
      using F(5) [of a] o [OF that(1)] that(2) unfolding m' by (cases "a = ?pa") simp_all
    have "pw m' a = pw m a" if "apart m r a" for a
      using out [OF apart_outside [OF that]] that pin unfolding apart_def owned_def by blast
    then have "vmrel r m m'" using F(1) own by (simp add: vmrel_def m')
    moreover have "same_pages (pages m' r) m m'"
      unfolding same_pages_def
    proof (intro ballI allI impI)
      fix g a assume g: "g \<in> pages m' r" "in_frame g a"
      then have "g \<in> pages m r" "g \<noteq> ?pa" using F(4) p m' by auto
      then show "pw m' a = pw m a"
        using out [OF outside_frame [OF _ _ g(2)]] page_frame [OF us, of g] frames_disjoint [OF ok(1) _ _ g(2)] by blast
    qed
    ultimately show ?thesis using F(3,4) p e' sv.valid0 by (auto simp: m')
  qed
  then show "vmrel r m m'" "pages m' r \<subseteq> pages m r" "same_pages (pages m' r) m m'"
    "\<And>v. v < TRAPFRAME \<Longrightarrow> if v div PGSIZE = va div PGSIZE then \<not> pte_is_valid (ent m' r v) else ent m' r v = ent m r v"
    by blast+
qed

lemma vmrelD: "vmrel r m m' \<Longrightarrow> uspace r m'"
  by (simp add: vmrel_def)

lemma page_range:
  assumes "PGSIZE dvd va" "PGSIZE dvd en" "va < en"
  shows "va + PGSIZE \<le> en" and "va \<le> v \<and> v < en \<longleftrightarrow> v div PGSIZE = va div PGSIZE \<or> va + PGSIZE \<le> v \<and> v < en"
proof -
  obtain x y where xy: "va = PGSIZE * x" "en = PGSIZE * y" using assms(1,2) by (auto simp: dvd_def)
  then have "x < y" using assms(3) by simp
  then have "Suc x \<le> y" by simp
  then have "PGSIZE * Suc x \<le> PGSIZE * y" by (rule mult_le_mono2)
  then show le: "va + PGSIZE \<le> en" using xy by simp
  show "va \<le> v \<and> v < en \<longleftrightarrow> v div PGSIZE = va div PGSIZE \<or> va + PGSIZE \<le> v \<and> v < en"
    unfolding sv.page_step [OF assms(1)] using le by auto
qed

lemma unmap_range_spec:
  assumes "uspace r m" "PGSIZE dvd va" "PGSIZE dvd en" "en \<le> TRAPFRAME"
  shows "vmrel r m (unmap_range r va en m) \<and> pages (unmap_range r va en m) r \<subseteq> pages m r \<and>
    same_pages (pages (unmap_range r va en m) r) m (unmap_range r va en m) \<and>
    (\<forall>v < TRAPFRAME. if va \<le> v \<and> v < en then \<not> pte_is_valid (ent (unmap_range r va en m) r v)
       else ent (unmap_range r va en m) r v = ent m r v)"
  using assms
proof (induction r va en m rule: unmap_range.induct)
  case (1 r va en m)
  show ?case
  proof (cases "va < en")
    case False
    then show ?thesis using "1.prems"(1) vmrel_refl by (auto simp: unmap_range.simps [of r va] same_pages_def)
  next
    case True
    define m1 where "m1 = unmap_one r va m"
    define m' where "m' = unmap_range r (va + PGSIZE) en m1"
    have m': "unmap_range r va en m = m'" using True by (simp add: unmap_range.simps [of r va] m'_def m1_def)
    have vt: "va < TRAPFRAME" using True "1.prems"(4) by simp
    note O = unmap_one_spec [OF "1.prems"(1,2) vt, folded m1_def]
    have IH: "vmrel r m1 m' \<and> pages m' r \<subseteq> pages m1 r \<and> same_pages (pages m' r) m1 m' \<and>
      (\<forall>v < TRAPFRAME. if va + PGSIZE \<le> v \<and> v < en then \<not> pte_is_valid (ent m' r v) else ent m' r v = ent m1 r v)"
      unfolding m'_def m1_def
      by (rule "1.IH" [OF True]) (use "1.prems" vmrelD [OF O(1)] in \<open>auto simp: m1_def\<close>)
    have "if va \<le> v \<and> v < en then \<not> pte_is_valid (ent m' r v) else ent m' r v = ent m r v" if v: "v < TRAPFRAME" for v
      unfolding page_range(2) [OF "1.prems"(2,3) True] using IH O(4) [OF v] v by (auto split: if_splits)
    moreover have "same_pages (pages m' r) m m'" using same_pages_trans [OF O(3)] IH by blast
    ultimately show ?thesis unfolding m' using IH O(2) vmrel_trans [OF O(1)] by blast
  qed
qed

section \<open>Growing the heap\<close>

lemma uperm_URW: "uperm URW" "URW AND mask 4 = URW"
proof -
  have b: "bit URW k \<longleftrightarrow> k = 0 \<or> k = 1 \<or> k = 3" for k
    unfolding URW_def perm_bits bit_or_iff bit_one_at by auto
  then show "uperm URW" by (simp add: uperm_def)
  show "URW AND mask 4 = URW" by (rule bit_eqI) (auto simp: b bit_and_iff bit_mask_iff)
qed

text \<open>A page mapped during the call: fresh, zero, readable and writable by the user.\<close>

definition fresh_page :: "nat \<Rightarrow> pmem \<Rightarrow> pmem \<Rightarrow> nat \<Rightarrow> bool" where
  "fresh_page r m m' v \<longleftrightarrow> \<not> pte_is_valid (ent m r v) \<and>
     (\<exists>f. ent m' r v = make_leaf f URW \<and> frame_ok f \<and> f \<notin> pages m r \<and> (\<forall>a. in_frame f a \<longrightarrow> pw m' a = 0))"

definition grown :: "nat \<Rightarrow> nat \<Rightarrow> nat \<Rightarrow> pmem \<Rightarrow> pmem \<Rightarrow> bool" where
  "grown r va en m m' \<longleftrightarrow> pages m r \<subseteq> pages m' r \<and>
     (\<forall>v < TRAPFRAME. if va \<le> v \<and> v < en then fresh_page r m m' v else ent m' r v = ent m r v)"

definition undone :: "nat \<Rightarrow> nat \<Rightarrow> nat \<Rightarrow> pmem \<Rightarrow> pmem \<Rightarrow> bool" where
  "undone r start va m m' \<longleftrightarrow> (\<forall>v < TRAPFRAME. if start \<le> v \<and> v < va then \<not> pte_is_valid (ent m' r v)
     else ent m' r v = ent m r v \<or> \<not> pte_is_valid (ent m r v) \<and> \<not> pte_is_valid (ent m' r v))"

lemma pw_id: "m\<lparr>pw := pw m\<rparr> = (m :: pmem)"
  by simp

lemma rollback:
  assumes us: "uspace r m" and d: "PGSIZE dvd start" "PGSIZE dvd va" "va < TRAPFRAME"
    and m1: "vmrel r m m1" "same_pages (pages m r) m m1" "\<And>v. v < TRAPFRAME \<Longrightarrow> ent m1 r v = ent m r v"
  defines "m' \<equiv> unmap_range r start va m1"
  shows "vmrel r m m' \<and> same_pages (pages m r \<inter> pages m' r) m m' \<and> undone r start va m m'"
proof -
  have "va \<le> TRAPFRAME" using d(3) by simp
  note U = unmap_range_spec [OF vmrelD [OF m1(1)] d(1,2) this, folded m'_def]
  have "undone r start va m m'" unfolding undone_def using U m1(3) by auto
  then show ?thesis using U vmrel_trans [OF m1(1)] same_pages_trans [OF m1(2)] by blast
qed

lemma grown_step:
  assumes va: "PGSIZE dvd va" "PGSIZE dvd en" "va < en" and g: "grown r (va + PGSIZE) en m2 m'"
    and sp: "same_pages (pages m2 r \<inter> pages m' r) m2 m'" and pg: "pages m2 r = insert f (pages m r)"
    and f: "frame_ok f" "f \<notin> pages m r"
    and e: "\<And>v. v < TRAPFRAME \<Longrightarrow> ent m2 r v = (if v div PGSIZE = va div PGSIZE then make_leaf f URW else ent m r v)"
    and n: "\<And>v. v div PGSIZE = va div PGSIZE \<Longrightarrow> \<not> pte_is_valid (ent m r v)" and z: "\<And>a. in_frame f a \<Longrightarrow> pw m2 a = 0"
  shows "grown r va en m m'"
proof -
  have "pages m2 r \<subseteq> pages m' r" using g by (simp add: grown_def)
  then have fp: "f \<in> pages m2 r \<inter> pages m' r" "pages m r \<subseteq> pages m' r" using pg by auto
  have z': "pw m' a = 0" if "in_frame f a" for a using z [OF that] sp fp(1) that unfolding same_pages_def by auto
  have "if va \<le> v \<and> v < en then fresh_page r m m' v else ent m' r v = ent m r v" if v: "v < TRAPFRAME" for v
  proof (cases "v div PGSIZE = va div PGSIZE")
    case True
    then have r: "va \<le> v \<and> v < va + PGSIZE" using sv.page_step [OF va(1)] by simp
    then have "ent m' r v = ent m2 r v" using g v unfolding grown_def by auto
    then have "fresh_page r m m' v" using True e [OF v] n [OF True] f z' by (auto simp: fresh_page_def)
    then show ?thesis using r page_range(1) [OF va] by simp
  next
    case False
    then have e: "ent m2 r v = ent m r v" using e [OF v] by simp
    have G: "if va + PGSIZE \<le> v \<and> v < en then fresh_page r m2 m' v else ent m' r v = ent m2 r v" using g v unfolding grown_def by blast
    have "fresh_page r m2 m' v \<Longrightarrow> fresh_page r m m' v" unfolding fresh_page_def e pg by blast
    then show ?thesis using G unfolding page_range(2) [OF va] e using False by (simp split: if_splits)
  qed
  then show ?thesis using fp(2) by (simp add: grown_def)
qed

lemma undone_step:
  assumes va: "PGSIZE dvd va" "start \<le> va" and u: "undone r start (va + PGSIZE) m2 m'"
    and e: "\<And>v. v < TRAPFRAME \<Longrightarrow> ent m2 r v = (if v div PGSIZE = va div PGSIZE then make_leaf f URW else ent m r v)"
    and n: "\<And>v. v div PGSIZE = va div PGSIZE \<Longrightarrow> \<not> pte_is_valid (ent m r v)"
  shows "undone r start va m m'"
  unfolding undone_def
proof (intro allI impI)
  fix v assume v: "v < TRAPFRAME"
  have U: "if start \<le> v \<and> v < va + PGSIZE then \<not> pte_is_valid (ent m' r v)
     else ent m' r v = ent m2 r v \<or> \<not> pte_is_valid (ent m2 r v) \<and> \<not> pte_is_valid (ent m' r v)"
    using u v unfolding undone_def by blast
  show "if start \<le> v \<and> v < va then \<not> pte_is_valid (ent m' r v)
     else ent m' r v = ent m r v \<or> \<not> pte_is_valid (ent m r v) \<and> \<not> pte_is_valid (ent m' r v)"
  proof (cases "v div PGSIZE = va div PGSIZE")
    case True
    then have "va \<le> v \<and> v < va + PGSIZE" using sv.page_step [OF va(1)] by simp
    then show ?thesis using U n [OF True] va(2) by simp
  next
    case False
    then have "v < va \<longleftrightarrow> v < va + PGSIZE" using sv.page_step [OF va(1), of v] by auto
    moreover have "ent m2 r v = ent m r v" using e [OF v] False by simp
    ultimately show ?thesis using U by (simp split: if_splits)
  qed
qed

lemma grow_loop_spec:
  assumes "uspace r m" "PGSIZE dvd start" "PGSIZE dvd va" "PGSIZE dvd en" "start \<le> va" "en \<le> TRAPFRAME"
    and "grow_loop r start va en m = (ok, m')"
  shows "vmrel r m m' \<and> same_pages (pages m r \<inter> pages m' r) m m' \<and>
    (if ok then grown r va en m m' else undone r start va m m')"
  using assms
proof (induction r start va en m rule: grow_loop.induct)
  case (1 r start va en m)
  note us = "1.prems"(1) and d = "1.prems"(2,3)
  show ?case
  proof (cases "va < en")
    case False
    then have "(ok, m') = (True, m)" using "1.prems"(7) by (simp add: grow_loop.simps [of r start va])
    then show ?thesis using False vmrel_refl [OF us] by (auto simp: same_pages_def grown_def)
  next
    case True
    then have vt: "va < TRAPFRAME" using "1.prems"(6) by simp
    obtain x m1 where a: "alloc_zeroed m = (x, m1)" by fastforce
    show ?thesis
    proof (cases x)
      case None
      then have "m1 = m" using a alloc_zeroed_None [OF uspace_kinv [OF us]] by simp
      then have "(ok, m') = (False, unmap_range r start va m)"
        using True None a "1.prems"(7) by (simp add: grow_loop.simps [of r start va])
      then show ?thesis using rollback [OF us d vt vmrel_refl [OF us], of] by (simp add: same_pages_def)
    next
      case (Some f)
      obtain ok2 m2 where mf: "map_or_free r va f URW m1 = (ok2, m2)" by fastforce
      have a': "alloc_zeroed m = (Some f, m1)" using a Some by simp
      note P = page_in [OF us a' _ d(2) vt uperm_URW(1), of "pw m1", unfolded pw_id, OF _ mf, simplified]
      have sp: "same_pages (pages m r) m m2" unfolding same_pages_def using P(8) by blast
      show ?thesis
      proof (cases ok2)
        case False
        then have "(ok, m') = (False, unmap_range r start va m2)"
          using True a' mf "1.prems"(7) by (simp add: grow_loop.simps [of r start va])
        then show ?thesis using rollback [OF us d vt P(1) sp] P(5) False by simp
      next
        case ok2: True
        then have g: "grow_loop r start (va + PGSIZE) en m2 = (ok, m')"
          using True a' mf "1.prems"(7) by (simp add: grow_loop.simps [of r start va])
        have "vmrel r m2 m' \<and> same_pages (pages m2 r \<inter> pages m' r) m2 m' \<and>
          (if ok then grown r (va + PGSIZE) en m2 m' else undone r start (va + PGSIZE) m2 m')"
          by (rule "1.IH" [OF True a[symmetric] Some mf[symmetric]]) (use "1.prems" ok2 g vmrelD [OF P(1)] in auto)
        note IH = conjunct1 [OF this] conjunct1 [OF conjunct2 [OF this]] conjunct2 [OF conjunct2 [OF this]]
        have pg: "pages m2 r = insert f (pages m r)" using P(4) ok2 by simp
        have e: "ent m2 r v = (if v div PGSIZE = va div PGSIZE then make_leaf f URW else ent m r v)" if "v < TRAPFRAME" for v
          using P(5) [OF that] ok2 by simp
        have z: "pw m2 b = 0" if "in_frame f b" for b using P(7) [OF ok2 that] uspace_alloc(7) [OF us a'] that by simp
        have "grown r va en m m'" if ok
          by (rule grown_step [OF d(2) "1.prems"(4) True _ IH(2) pg P(2,3) e P(6) [OF ok2] z]) (use IH(3) that in simp)
        moreover have "undone r start va m m'" if "\<not> ok"
          by (rule undone_step [OF d(2) "1.prems"(5) _ e P(6) [OF ok2]]) (use IH(3) that in simp)
        moreover have "same_pages (pages m r \<inter> pages m' r) m m'" by (rule same_pages_trans [OF sp IH(2)]) (auto simp: pg)
        ultimately show ?thesis using vmrel_trans [OF P(1) IH(1)] by simp
      qed
    qed
  qed
qed

section \<open>The regions of a process\<close>

text \<open>The heap ends below the stack guard; the mapped regions are page aligned, in order, disjoint
  and between the mapping pointer and the top of the mapping area.\<close>

definition uproc_ok :: "uproc \<Rightarrow> bool" where
  "uproc_ok p \<longleftrightarrow> psize p \<le> STACK_VA_BASE - PGSIZE \<and> PGSIZE dvd pmmap_base p \<and> pmmap_base p \<le> MMAP_TOP \<and>
     (\<forall>v \<in> set (pvmas p). PGSIZE dvd vstart v \<and> PGSIZE dvd vend v \<and> pmmap_base p \<le> vstart v \<and>
        vstart v \<le> vend v \<and> vend v \<le> MMAP_TOP) \<and>
     sorted_wrt (\<lambda>u v. vend u \<le> vstart v) (pvmas p)"

lemma dvd_page_down [simp]: "PGSIZE dvd page_down a"
  unfolding page_down_def by (rule dvd_minus_mod)

lemma page_down_le: "page_down a \<le> a"
  by (simp add: page_down_def)

lemma page_down_div: "page_down a div PGSIZE = a div PGSIZE"
  by (simp add: page_down_def minus_mod_eq_mult_div)

lemma dvd_page_up [simp]: "PGSIZE dvd page_up a"
  by (simp add: page_up_def)

lemma page_up_le:
  assumes "PGSIZE dvd b" "a \<le> b" "b < 2 ^ 60"
  shows "a \<le> page_up a" "page_up a \<le> b"
proof -
  obtain y where y: "b = PGSIZE * y" using assms(1) by (auto simp: dvd_def)
  have lt: "a + PGSIZE - 1 < 2 ^ 64" using assms(2,3) by (simp add: PGSIZE_def)
  then have u: "page_up a = (a + PGSIZE - 1) div PGSIZE * PGSIZE"
    unfolding page_up_def page_down_def by (simp add: minus_mod_eq_mult_div mult.commute)
  show "a \<le> page_up a" unfolding u by (simp add: PGSIZE_def)
  have "(a + PGSIZE - 1) div PGSIZE < Suc y"
    using assms(2) y by (simp add: div_less_iff_less_mult PGSIZE_def)
  then show "page_up a \<le> b" unfolding u y by simp
qed

lemma layout_bounds:
  "PGSIZE dvd STACK_VA_BASE - PGSIZE" "STACK_VA_BASE - PGSIZE < 2 ^ 60" "STACK_VA_BASE - PGSIZE \<le> TRAPFRAME"
  "MMAP_TOP \<le> TRAPFRAME" "PGSIZE dvd MMAP_TOP" "MMAP_TOP < 2 ^ 60"
  by (simp_all add: STACK_VA_BASE_def STACK_VA_TOP_def STACK_PAGES_def MMAP_TOP_def TRAPFRAME_def TRAMPOLINE_def MAXVA_def PGSIZE_def)

lemma heap_page:
  assumes "a \<le> STACK_VA_BASE - PGSIZE"
  shows "a \<le> page_up a" "page_up a \<le> TRAPFRAME" "page_up a \<le> STACK_VA_BASE - PGSIZE"
  using page_up_le [OF layout_bounds(1) assms layout_bounds(2)] layout_bounds(3) by auto

lemma insert_vma_front: "\<forall>u \<in> set vs. vstart v \<le> vstart u \<Longrightarrow> insert_vma v vs = v # vs"
  by (cases vs) (auto simp: not_less)

lemma sbrk_proc:
  assumes "uproc_ok p" and "sys_sbrk p n lazy m = (res, p', m')"
  shows "uproc_ok p'" "proot p' = proot p" "pvmas p' = pvmas p"
  using assms by (auto simp: sys_sbrk_def uproc_ok_def Let_def split: if_splits prod.splits bool.splits)

lemma brk_proc:
  assumes "uproc_ok p" and "sys_brk p addr m = (res, p', m')"
  shows "uproc_ok p'" "proot p' = proot p"
  using assms sbrk_proc [OF assms(1)] by (auto simp: sys_brk_def Let_def split: if_splits prod.splits)

lemma mmap_proc:
  assumes ok: "uproc_ok p" and s: "sys_mmap lookup p len prot flags fd offset = (res, p')"
  shows "uproc_ok p'" "proot p' = proot p"
proof -
  show "proot p' = proot p" using s by (auto simp: sys_mmap_def Let_def split: if_splits option.splits)
  show "uproc_ok p'"
  proof (cases "p' = p")
    case False
    then obtain fi where n: "page_up len \<le> pmmap_base p" and p': "p' = p\<lparr>pmmap_base := pmmap_base p - page_up len,
        pvmas := insert_vma \<lparr>vstart = pmmap_base p - page_up len, vend = pmmap_base p - page_up len + page_up len,
          vprot = prot, vfile = fi, voffset = nat offset\<rparr> (pvmas p)\<rparr>"
      using s by (auto simp: sys_mmap_def Let_def split: if_splits option.splits)
    have f: "insert_vma \<lparr>vstart = pmmap_base p - page_up len, vend = pmmap_base p - page_up len + page_up len,
          vprot = prot, vfile = fi, voffset = nat offset\<rparr> (pvmas p) =
        \<lparr>vstart = pmmap_base p - page_up len, vend = pmmap_base p,
          vprot = prot, vfile = fi, voffset = nat offset\<rparr> # pvmas p"
      using ok n by (subst insert_vma_front) (fastforce simp: uproc_ok_def)+
    have d: "PGSIZE dvd pmmap_base p - page_up len" using ok by (intro dvd_diff_nat) (auto simp: uproc_ok_def)
    show ?thesis using ok d n unfolding p' f uproc_ok_def by (fastforce intro: order_trans)
  qed (use ok in simp)
qed

lemma munmap_proc:
  assumes ok: "uproc_ok p" and s: "sys_munmap p addr len m = (res, p', m')"
  shows "uproc_ok p'" "proot p' = proot p"
  using assms by (auto simp: sys_munmap_def Let_def uproc_ok_def intro: sorted_wrt_filter split: if_splits)

section \<open>Demand paging\<close>

lemma uperm_vma: "uperm (vma_prot_to_pteperm prot)"
proof -
  let ?b = "prot AND (PROT_READ OR PROT_WRITE OR PROT_EXEC) = 0"
  have z: "?b \<longleftrightarrow> prot AND PROT_READ = 0 \<and> prot AND PROT_WRITE = 0 \<and> prot AND PROT_EXEC = 0"
    by (simp only: bit.conj_disj_distrib or_eq_0_iff)
  have "bit (vma_prot_to_pteperm prot) k \<longleftrightarrow> k = 3 \<or> (prot AND PROT_READ \<noteq> 0 \<or> ?b) \<and> k = 0 \<or>
      prot AND PROT_WRITE \<noteq> 0 \<and> k = 1 \<or> prot AND PROT_EXEC \<noteq> 0 \<and> k = 2" for k
    unfolding vma_prot_to_pteperm_def perm_bits bit_or_iff bit_flag bit_one_at by auto
  then show ?thesis using z by (auto simp: uperm_def)
qed

lemma demand_perm_ok:
  assumes "uproc_ok p" "demand_perm p page = Some perm"
  shows "uperm perm" "page < TRAPFRAME"
proof -
  have "page < TRAPFRAME" if "i < length (pvmas p)" "page < vend (pvmas p ! i)" for i
    using assms(1) nth_mem [OF that(1)] that(2) layout_bounds(4) by (fastforce simp: uproc_ok_def)
  moreover have "page < TRAPFRAME" if "page < psize p"
    using assms(1) that layout_bounds(3) by (simp add: uproc_ok_def)
  ultimately show "page < TRAPFRAME" "uperm perm"
    using assms(2) uperm_URW(1) uperm_vma by (auto simp: demand_perm_def find_Some_iff split: if_splits)
qed

lemma translate_none:
  "uspace r m \<Longrightarrow> v < TRAPFRAME \<Longrightarrow> translate r v m = None \<longleftrightarrow> \<not> pte_is_valid (ent m r v)"
  using translate_entry [OF uspaceD(1) below_TRAPFRAME(1)] by (simp add: decode_def)

text \<open>What an operation that adds at most the page at \<open>va\<close> guarantees.\<close>

definition added :: "nat \<Rightarrow> nat \<Rightarrow> bool \<Rightarrow> pte_perm \<Rightarrow> pmem \<Rightarrow> pmem \<Rightarrow> bool" where
  "added r va ok perm m m' \<longleftrightarrow> vmrel r m m' \<and> pages m r \<subseteq> pages m' r \<and> same_pages (pages m r) m m' \<and>
     (\<forall>v < TRAPFRAME. v div PGSIZE \<noteq> va div PGSIZE \<longrightarrow> ent m' r v = ent m r v) \<and>
     (if ok then \<exists>f. ent m' r va = make_leaf f perm \<and> frame_ok f \<and> f \<notin> pages m r else ent m' r va = ent m r va)"

lemma added_page_in:
  assumes us: "uspace r m" and a: "alloc_zeroed m = (Some f, m1)" and w: "\<forall>a. \<not> in_frame f a \<longrightarrow> w a = pw m1 a"
    and va: "PGSIZE dvd va" "va < TRAPFRAME" and perm: "uperm perm"
    and mf: "map_or_free r va f perm (m1\<lparr>pw := w\<rparr>) = (ok, m')"
  shows "added r va ok perm m m'"
proof -
  note P = page_in [OF us a w va perm mf]
  have "same_pages (pages m r) m m'" unfolding same_pages_def using P(8) by blast
  moreover have "\<forall>v < TRAPFRAME. v div PGSIZE \<noteq> va div PGSIZE \<longrightarrow> ent m' r v = ent m r v" using P(5) by simp
  moreover have "if ok then \<exists>f. ent m' r va = make_leaf f perm \<and> frame_ok f \<and> f \<notin> pages m r else ent m' r va = ent m r va"
    using P(2,3) P(5) [OF va(2)] by auto
  ultimately show ?thesis using P(1,4) by (auto simp: added_def)
qed

lemma added_none: "uspace r m \<Longrightarrow> added r va False perm m m"
  by (simp add: added_def vmrel_refl same_pages_def)

lemma alloc_none_same: "uspace r m \<Longrightarrow> alloc_zeroed m = (None, m1) \<Longrightarrow> m1 = m"
  using alloc_zeroed_None [OF uspace_kinv] by blast

lemma demand_map_spec:
  assumes us: "uspace (proot p) m" and ok: "uproc_ok p" and pg: "PGSIZE dvd page" and t: "translate (proot p) page m = None"
    and d: "demand_map_zero_page p page m = (b, m')"
  shows "\<exists>perm. added (proot p) page b perm m m' \<and> (b \<longrightarrow> demand_perm p page = Some perm)"
proof (cases "demand_perm p page")
  case None
  then show ?thesis using d added_none [OF us] by (auto simp: demand_map_zero_page_def)
next
  case (Some perm)
  note D = demand_perm_ok [OF ok Some]
  obtain x m1 where a: "alloc_zeroed m = (x, m1)" by fastforce
  show ?thesis
  proof (cases x)
    case None
    then have "(b, m') = (False, m)" using d Some a alloc_none_same [OF us] by (simp add: demand_map_zero_page_def)
    then show ?thesis using added_none [OF us] by auto
  next
    case (Some f)
    then have a': "alloc_zeroed m = (Some f, m1)" using a by simp
    note A = uspace_alloc [OF us a']
    have "translate (proot p) page m1 = None"
      using t translate_none [OF us D(2)] translate_none [OF A(1) D(2)] A(5) by simp
    then have mf: "map_or_free (proot p) page f perm (m1\<lparr>pw := pw m1\<rparr>) = (b, m')"
      using d a' \<open>demand_perm p page = Some perm\<close> by (simp add: demand_map_zero_page_def)
    have "\<forall>a. \<not> in_frame f a \<longrightarrow> pw m1 a = pw m1 a" by simp
    from added_page_in [OF us a' this pg D(2,1) mf] have "added (proot p) page b perm m m'" .
    then show ?thesis using \<open>demand_perm p page = Some perm\<close> by blast
  qed
qed

lemma added_translates:
  assumes "added r va True perm m m'" "va < TRAPFRAME"
  shows "\<exists>f. translate r va m' = Some (f + va mod PGSIZE, perm AND mask 4) \<and> frame_ok f \<and> f \<notin> pages m r"
proof -
  obtain f where f: "ent m' r va = make_leaf f perm" "frame_ok f" "f \<notin> pages m r" using assms(1) by (auto simp: added_def)
  have "sv.tree r m'" using assms(1) vmrelD uspaceD(1) by (auto simp: added_def)
  then have "translate r va m' = decode (make_leaf f perm) va"
    using translate_entry below_TRAPFRAME(1) [OF assms(2)] f(1) by metis
  then show ?thesis using f decode_leaf by (auto simp: frame_ok_def)
qed

text \<open>Translation of a user pointer ends after at most one page has been supplied.\<close>

lemma translate_user_cases:
  assumes us: "uspace (proot p) m" and ok: "uproc_ok p"
  obtains (stay) r where "translate_user_perm p wr va m = Some (r, m)" "r \<noteq> None \<longleftrightarrow>
      (\<exists>pa perm. translate (proot p) (page_down va) m = Some (pa, perm) \<and> perm AND PERM_USER \<noteq> 0 \<and>
        (wr \<longrightarrow> perm AND PERM_WRITE \<noteq> 0) \<and> r = Some (pa + va mod PGSIZE))"
  | (fetch) r m' perm f where "translate_user_perm p wr va m = Some (r, m')"
      "translate (proot p) (page_down va) m = None" "demand_perm p (page_down va) = Some perm"
      "added (proot p) (page_down va) True perm m m'" "translate (proot p) (page_down va) m' = Some (f, perm AND mask 4)"
      "frame_ok f" "f \<notin> pages m (proot p)"
      "r = (if wr \<and> (perm AND mask 4) AND PERM_WRITE = 0 then None else Some (f + va mod PGSIZE))"
  | (fail) m' perm where "translate_user_perm p wr va m = Some (None, m')" "added (proot p) (page_down va) False perm m m'"
proof (cases "translate (proot p) (page_down va) m")
  case (Some x)
  obtain pa perm where "x = (pa, perm)" by fastforce
  then have t: "translate (proot p) (page_down va) m = Some (pa, perm)" using Some by simp
  define r where "r = (if perm AND PERM_USER = 0 then None else if wr \<and> perm AND PERM_WRITE = 0 then None
      else Some (pa + va mod PGSIZE))"
  have "translate_user_perm p wr va m = Some (r, m)"
    by (subst translate_user_perm.simps) (simp add: t r_def)
  then show ?thesis by (rule stay) (auto simp: r_def t)
next
  case None
  obtain b m' where d: "demand_map_zero_page p (page_down va) m = (b, m')" by fastforce
  obtain perm where A: "added (proot p) (page_down va) b perm m m'" "b \<longrightarrow> demand_perm p (page_down va) = Some perm"
    using demand_map_spec [OF us ok dvd_page_down None d] by blast
  show ?thesis
  proof (cases b)
    case False
    then have "translate_user_perm p wr va m = Some (None, m')" using None d by (subst translate_user_perm.simps) simp
    then show ?thesis using A False fail by simp
  next
    case True
    then have dp: "demand_perm p (page_down va) = Some perm" using A(2) by simp
    have A': "added (proot p) (page_down va) True perm m m'" using A(1) True by simp
    obtain f where f: "translate (proot p) (page_down va) m' = Some (f + page_down va mod PGSIZE, perm AND mask 4)"
      "frame_ok f" "f \<notin> pages m (proot p)" using added_translates [OF A' demand_perm_ok(2) [OF ok dp]] by blast
    have z: "page_down va mod PGSIZE = 0" using dvd_page_down by (simp add: mod_eq_0_iff_dvd)
    have u: "(perm AND mask 4) AND PERM_USER \<noteq> 0"
      using demand_perm_ok(1) [OF ok dp] bit_test [of "perm AND mask 4" 3]
      by (simp add: uperm_def PERM_USER_def bit_and_iff bit_mask_iff)
    have "translate_user_perm p wr va m = translate_user_perm p wr va m'"
      using None d True by (subst translate_user_perm.simps) simp
    also have "\<dots> = Some (if wr \<and> (perm AND mask 4) AND PERM_WRITE = 0 then None else Some (f + va mod PGSIZE), m')"
      using f(1) u z by (subst translate_user_perm.simps) simp
    finally show ?thesis by (rule fetch [OF _ None dp A' _ f(2,3) refl]) (use f(1) z in simp)
  qed
qed

lemma fill_frame_outside: "\<not> in_frame f a \<Longrightarrow> pw (fill_frame f bs m) a = pw m a"
  by (auto simp: fill_frame_def in_frame_def)

lemma fault_source_page:
  assumes "uproc_ok p" "fault_source p va = Some src"
  shows "page_down va < TRAPFRAME"
proof -
  have "page_down va < TRAPFRAME" if "i < length (pvmas p)" "va < vend (pvmas p ! i)" for i
    using assms(1) nth_mem [OF that(1)] that(2) layout_bounds(4) page_down_le [of va] by (fastforce simp: uproc_ok_def)
  moreover have "page_down va < TRAPFRAME" if "va < psize p"
    using assms(1) that layout_bounds(3) page_down_le [of va] by (simp add: uproc_ok_def)
  ultimately show ?thesis
    using assms(2) by (auto simp: fault_source_def find_Some_iff split: if_splits option.splits)
qed

lemma lazy_map_spec:
  assumes us: "uspace (proot p) m" and ok: "uproc_ok p" and l: "lazy_map_page rd fsize p va wr m = (b, m')"
  shows "m' = m \<or> (\<exists>perm. added (proot p) (page_down va) b perm m m')"
proof (cases "fault_source p va = None \<or> translate (proot p) (page_down va) m \<noteq> None \<or> fst (alloc_zeroed m) = None")
  case True
  then show ?thesis using l alloc_none_same [OF us]
    by (auto simp: lazy_map_page_def Let_def split: option.splits prod.splits)
next
  case False
  then obtain src f where src: "fault_source p va = Some src" and t: "translate (proot p) (page_down va) m = None"
    and f: "fst (alloc_zeroed m) = Some f" by fast
  then obtain m1 where a: "alloc_zeroed m = (Some f, m1)" by (metis prod.collapse)
  define perm where "perm = (case src of Heap \<Rightarrow> URW | Anon pr \<Rightarrow> vma_prot_to_pteperm pr | FileMap _ _ pr \<Rightarrow> vma_prot_to_pteperm pr)"
  define m2 where "m2 = (case src of FileMap ip off _ \<Rightarrow> if off < fsize ip
     then fill_frame f (rd ip (off mod 2 ^ 32) (min (fsize ip - off) PGSIZE)) m1 else m1 | _ \<Rightarrow> m1)"
  have w: "\<forall>a. \<not> in_frame f a \<longrightarrow> pw m2 a = pw m1 a" "m1\<lparr>pw := pw m2\<rparr> = m2"
    using fill_frame_outside by (auto simp: m2_def fill_frame_def split: fault_source.splits)
  have mf: "map_or_free (proot p) (page_down va) f perm (m1\<lparr>pw := pw m2\<rparr>) = (b, m')"
    using l src t a unfolding w(2) by (simp add: lazy_map_page_def m2_def perm_def)
  have "uperm perm" using uperm_URW(1) uperm_vma by (auto simp: perm_def split: fault_source.splits)
  from added_page_in [OF us a w(1) dvd_page_down fault_source_page [OF ok src] this mf] show ?thesis by blast
qed

section \<open>The system calls\<close>

lemma sbrk_mem:
  assumes us: "uspace (proot p) m" and ok: "uproc_ok p" and s: "sys_sbrk p n lazy m = (res, p', m')"
  shows "vmrel (proot p) m m'"
proof -
  have h: "psize p \<le> STACK_VA_BASE - PGSIZE" using ok by (simp add: uproc_ok_def)
  have shrink: "vmrel (proot p) m (unmap_range (proot p) (page_up k) (page_up (psize p)) m)" for k
    using unmap_range_spec [OF us dvd_page_up dvd_page_up heap_page(2) [OF h]] by blast
  have grow: "vmrel (proot p) m m1"
    if "grow_loop (proot p) (page_up (psize p)) (page_up (psize p)) (page_up new) m = (b, m1)" "\<not> STACK_VA_BASE - PGSIZE < new" for b m1 new
    using grow_loop_spec [OF us _ _ _ order_refl heap_page(2) that(1)] that(2) by simp
  show ?thesis
    using s shrink grow vmrel_refl [OF us] by (auto simp: sys_sbrk_def Let_def split: if_splits prod.splits bool.splits)
qed

lemma brk_mem:
  assumes us: "uspace (proot p) m" and ok: "uproc_ok p" and s: "sys_brk p addr m = (res, p', m')"
  shows "vmrel (proot p) m m'"
  using s sbrk_mem [OF us ok] vmrel_refl [OF us] by (auto simp: sys_brk_def Let_def split: if_splits prod.splits)

lemma unmap_regions:
  assumes "uspace r m" "\<forall>v \<in> set vs. PGSIZE dvd vstart v \<and> PGSIZE dvd vend v \<and> vend v \<le> TRAPFRAME"
  shows "vmrel r m (fold (\<lambda>v. unmap_range r (vstart v) (vend v)) vs m) \<and>
    pages (fold (\<lambda>v. unmap_range r (vstart v) (vend v)) vs m) r \<subseteq> pages m r \<and>
    same_pages (pages (fold (\<lambda>v. unmap_range r (vstart v) (vend v)) vs m) r) m (fold (\<lambda>v. unmap_range r (vstart v) (vend v)) vs m) \<and>
    (\<forall>a < TRAPFRAME. if \<exists>v \<in> set vs. vstart v \<le> a \<and> a < vend v
       then \<not> pte_is_valid (ent (fold (\<lambda>v. unmap_range r (vstart v) (vend v)) vs m) r a)
       else ent (fold (\<lambda>v. unmap_range r (vstart v) (vend v)) vs m) r a = ent m r a)"
  using assms
proof (induction vs arbitrary: m)
  case Nil
  then show ?case by (simp add: vmrel_refl same_pages_def)
next
  case (Cons u vs)
  define m1 where "m1 = unmap_range r (vstart u) (vend u) m"
  define m' where "m' = fold (\<lambda>v. unmap_range r (vstart v) (vend v)) vs m1"
  have m': "fold (\<lambda>v. unmap_range r (vstart v) (vend v)) (u # vs) m = m'" by (simp add: m'_def m1_def)
  have U: "vmrel r m m1" "pages m1 r \<subseteq> pages m r" "same_pages (pages m1 r) m m1"
    "\<And>v. v < TRAPFRAME \<Longrightarrow> if vstart u \<le> v \<and> v < vend u then \<not> pte_is_valid (ent m1 r v) else ent m1 r v = ent m r v"
    using unmap_range_spec [of r m "vstart u" "vend u"] Cons.prems unfolding m1_def by auto
  have IH: "vmrel r m1 m'" "pages m' r \<subseteq> pages m1 r" "same_pages (pages m' r) m1 m'"
    "\<And>a. a < TRAPFRAME \<Longrightarrow> if \<exists>v \<in> set vs. vstart v \<le> a \<and> a < vend v then \<not> pte_is_valid (ent m' r a) else ent m' r a = ent m1 r a"
    using Cons.IH [OF vmrelD [OF U(1)]] Cons.prems(2) unfolding m'_def by auto
  have "if \<exists>v \<in> set (u # vs). vstart v \<le> a \<and> a < vend v then \<not> pte_is_valid (ent m' r a) else ent m' r a = ent m r a"
    if a: "a < TRAPFRAME" for a using U(4) [OF a] IH(4) [OF a] by (auto split: if_splits)
  moreover have "same_pages (pages m' r) m m'" using same_pages_trans [OF U(3) IH(3)] IH(2) by blast
  ultimately show ?case unfolding m' using vmrel_trans [OF U(1) IH(1)] U(2) IH(2) by blast
qed

lemma munmap_mem:
  assumes us: "uspace (proot p) m" and ok: "uproc_ok p" and s: "sys_munmap p addr len m = (res, p', m')"
  shows "vmrel (proot p) m m'"
proof -
  have "\<forall>v \<in> set (rev (filter P (pvmas p))). PGSIZE dvd vstart v \<and> PGSIZE dvd vend v \<and> vend v \<le> TRAPFRAME" for P
    using ok layout_bounds(4) by (auto simp: uproc_ok_def)
  note R = unmap_regions [OF us this]
  show ?thesis using s R vmrel_refl [OF us] by (auto simp: sys_munmap_def Let_def split: if_splits)
qed

section \<open>Properties\<close>

text \<open>The word a user reads at \<open>v\<close>.\<close>

definition user_word :: "nat \<Rightarrow> nat \<Rightarrow> pmem \<Rightarrow> 64 word option" where
  "user_word r v m = map_option (\<lambda>(pa, _). pw m pa) (translate r v m)"

lemma translate_valid:
  assumes "uspace r m" "v < TRAPFRAME" "pte_is_valid (ent m r v)"
  shows "translate r v m = Some (tgt (ent m r v) + v mod PGSIZE, flags_perm (ent m r v))"
proof -
  have "frame_ok (tgt (ent m r v))" using uspaceD(2) [OF assms] by blast
  then have "unat (pte_pa (ent m r v) OR (of_nat v AND 0xfff)) = tgt (ent m r v) + v mod PGSIZE"
    by (intro or_offset) (auto simp: frame_ok_def)
  then show ?thesis
    using translate_entry [OF uspaceD(1) [OF assms(1)] below_TRAPFRAME(1) [OF assms(2)]] assms(3) by (simp add: decode_def)
qed

lemma in_frame_offset: "in_frame f (f + v mod PGSIZE)"
  by (simp add: in_frame_def)

lemma view_same:
  assumes us: "uspace r m" "uspace r m'" and v: "v < TRAPFRAME"
    and e: "ent m' r v = ent m r v \<or> \<not> pte_is_valid (ent m r v) \<and> \<not> pte_is_valid (ent m' r v)"
    and sp: "same_pages (pages m r \<inter> pages m' r) m m'"
  shows "translate r v m' = translate r v m" "user_word r v m' = user_word r v m"
proof -
  have "translate r v m' = translate r v m \<and> user_word r v m' = user_word r v m"
  proof (cases "pte_is_valid (ent m r v)")
    case False
    then show ?thesis using e translate_none [OF us(1) v] translate_none [OF us(2) v] by (auto simp: user_word_def)
  next
    case True
    then have e': "ent m' r v = ent m r v" using e by blast
    have "tgt (ent m r v) \<in> pages m r \<inter> pages m' r" using in_pages [OF v True] in_pages [OF v, of m' r] True e' by simp
    then have "pw m' (tgt (ent m r v) + v mod PGSIZE) = pw m (tgt (ent m r v) + v mod PGSIZE)"
      using sp in_frame_offset unfolding same_pages_def by blast
    then show ?thesis using translate_valid [OF us(1) v True] translate_valid [OF us(2) v] True e' by (simp add: user_word_def)
  qed
  then show "translate r v m' = translate r v m" "user_word r v m' = user_word r v m" by auto
qed

lemma fresh_translate:
  assumes us: "uspace r m" "uspace r m'" and v: "v < TRAPFRAME" and f: "fresh_page r m m' v"
  shows "translate r v m = None" "user_word r v m' = Some 0" "map_option snd (translate r v m') = Some URW"
proof -
  obtain f where n: "\<not> pte_is_valid (ent m r v)" and e: "ent m' r v = make_leaf f URW" "frame_ok f" "\<forall>a. in_frame f a \<longrightarrow> pw m' a = 0"
    using f by (auto simp: fresh_page_def)
  have t: "tgt (make_leaf f URW) = f" using e(2) by (intro make_leaf_pa) (auto simp: frame_ok_def)
  have "translate r v m' = Some (f + v mod PGSIZE, URW)"
    using translate_valid [OF us(2) v] make_leaf_valid make_leaf_perm [of f URW] uperm_URW(2) t unfolding e(1) by simp
  then show "user_word r v m' = Some 0" "map_option snd (translate r v m') = Some URW"
    using e(3) in_frame_offset [of f v] by (auto simp: user_word_def)
  show "translate r v m = None" using n translate_none [OF us(1) v] by simp
qed

text \<open>The calls of one process on its address space.\<close>

inductive vm_step :: "uproc \<times> pmem \<Rightarrow> uproc \<times> pmem \<Rightarrow> bool" where
  sbrk: "vm_step (p, m) (snd (sys_sbrk p n lazy m))"
| brk: "vm_step (p, m) (snd (sys_brk p addr m))"
| mmap: "vm_step (p, m) (snd (sys_mmap lookup p len prot flags fd offset), m)"
| munmap: "vm_step (p, m) (snd (sys_munmap p addr len m))"
| fault: "vm_step (p, m) (p, snd (lazy_map_page rd fsize p va wr m))"
| access: "translate_user_perm p wr va m = Some (res, m') \<Longrightarrow> vm_step (p, m) (p, m')"

inductive vm_reach :: "uproc \<times> pmem \<Rightarrow> uproc \<times> pmem \<Rightarrow> bool" for s where
  start: "vm_reach s s"
| more: "vm_reach s t \<Longrightarrow> vm_step t u \<Longrightarrow> vm_reach s u"

lemma vm_step_proc:
  assumes "vm_step s t" "uproc_ok (fst s)"
  shows "uproc_ok (fst t) \<and> proot (fst t) = proot (fst s)"
  using assms
proof cases
  case (sbrk p m n lazy)
  obtain x q k where e: "sys_sbrk p n lazy m = (x, q, k)" by (rule prod_cases3)
  then show ?thesis using assms(2) sbrk_proc [OF _ e] sbrk by simp
next
  case (brk p m addr)
  obtain x q k where e: "sys_brk p addr m = (x, q, k)" by (rule prod_cases3)
  then show ?thesis using assms(2) brk_proc [OF _ e] brk by simp
next
  case (mmap p m lookup len prot flags fd offset)
  obtain x q where e: "sys_mmap lookup p len prot flags fd offset = (x, q)" by fastforce
  then show ?thesis using assms(2) mmap_proc [OF _ e] mmap by simp
next
  case (munmap p m addr len)
  obtain x q k where e: "sys_munmap p addr len m = (x, q, k)" by (rule prod_cases3)
  then show ?thesis using assms(2) munmap_proc [OF _ e] munmap by simp
qed (use assms(2) in simp_all)

lemma access_mem:
  assumes us: "uspace (proot p) m" and ok: "uproc_ok p" and t: "translate_user_perm p wr va m = Some (res, m')"
  shows "vmrel (proot p) m m'"
  by (rule translate_user_cases [OF us ok, of wr va]) (use t vmrel_refl [OF us] in \<open>auto simp: added_def\<close>)

lemma fault_mem:
  assumes us: "uspace (proot p) m" and ok: "uproc_ok p"
  shows "vmrel (proot p) m (snd (lazy_map_page rd fsize p va wr m))"
  using lazy_map_spec [OF us ok, of rd fsize va wr] vmrel_refl [OF us]
  by (cases "lazy_map_page rd fsize p va wr m") (auto simp: added_def)

lemma vm_step_mem:
  assumes "vm_step s t" "uproc_ok (fst s)" "uspace (proot (fst s)) (snd s)"
  shows "vmrel (proot (fst s)) (snd s) (snd t)"
  using assms
proof cases
  case (sbrk p m n lazy)
  obtain x q k where e: "sys_sbrk p n lazy m = (x, q, k)" by (rule prod_cases3)
  then show ?thesis using assms(2,3) sbrk_mem [OF _ _ e] sbrk by simp
next
  case (brk p m addr)
  obtain x q k where e: "sys_brk p addr m = (x, q, k)" by (rule prod_cases3)
  then show ?thesis using assms(2,3) brk_mem [OF _ _ e] brk by simp
next
  case (munmap p m addr len)
  obtain x q k where e: "sys_munmap p addr len m = (x, q, k)" by (rule prod_cases3)
  then show ?thesis using assms(2,3) munmap_mem [OF _ _ e] munmap by simp
next
  case (access p wr va m res m')
  then show ?thesis using assms(2,3) access_mem [of p m wr va res m'] by simp
qed (use assms(2,3) fault_mem vmrel_refl in simp_all)

text \<open>C17. No sequence of \<open>sbrk\<close>, \<open>brk\<close>, \<open>mmap\<close>, \<open>munmap\<close>, page faults and kernel accesses to user
  pointers can break the regions of a process: they stay page aligned, in order, pairwise disjoint
  and inside the mapping area, and the heap stays below the stack guard.\<close>

theorem vm_regions_well_formed:
  assumes "vm_reach (p, m) (p', m')" and "uproc_ok p"
  shows "uproc_ok p'"
proof -
  have "vm_reach s t \<Longrightarrow> uproc_ok (fst s) \<Longrightarrow> uproc_ok (fst t)" for s t
    by (induction rule: vm_reach.induct) (auto dest: vm_step_proc)
  then show ?thesis using assms by fastforce
qed

text \<open>C12. Frames are conserved by the calls of a process on its own address space: after any sequence
  of them, successful or failing, every mapped user page is a private frame of its own, disjoint from
  the page tables and the free list, the frames of pool, tables and pages together are exactly those
  of the start (nothing leaks and nothing is freed twice), and no memory outside them was written.\<close>

theorem vm_frames_conserved:
  assumes "vm_reach (p, m) (p', m')" and "uproc_ok p" and "uspace (proot p) m"
  shows "proot p' = proot p \<and> uspace (proot p) m' \<and> owned m' (proot p) = owned m (proot p) \<and>
    (\<forall>a. apart m (proot p) a \<longrightarrow> pw m' a = pw m a)"
proof -
  have "vm_reach s t \<Longrightarrow> uproc_ok (fst s) \<Longrightarrow> uspace (proot (fst s)) (snd s) \<Longrightarrow>
    uproc_ok (fst t) \<and> proot (fst t) = proot (fst s) \<and> vmrel (proot (fst s)) (snd s) (snd t)" for s t
  proof (induction rule: vm_reach.induct)
    case start
    then show ?case by (simp add: vmrel_refl)
  next
    case (more t u)
    then have IH: "uproc_ok (fst t)" "proot (fst t) = proot (fst s)" "vmrel (proot (fst s)) (snd s) (snd t)" by auto
    show ?case
      using vm_step_proc [OF more(2) IH(1)] vm_step_mem [OF more(2) IH(1)] vmrelD [OF IH(3)] IH vmrel_trans [OF IH(3)] by simp
  qed
  from this [OF assms(1)] show ?thesis using assms(2,3) by (simp add: vmrel_def)
qed

text \<open>The loop that translates a user pointer terminates: a page that is missing but belongs to the
  heap or an anonymous region is supplied once, and the second look-up succeeds. A pointer that is
  returned lies in a page mapped for the user, writable if it was asked for writing.\<close>

lemma translate_user_terminates:
  assumes "uspace (proot p) m" and "uproc_ok p"
  shows "\<exists>res m'. translate_user_perm p wr va m = Some (res, m') \<and>
    (\<forall>a. res = Some a \<longrightarrow> (\<exists>perm. translate (proot p) (page_down va) m' = Some (a - va mod PGSIZE, perm) \<and>
       perm AND PERM_USER \<noteq> 0 \<and> (wr \<longrightarrow> perm AND PERM_WRITE \<noteq> 0)))"
proof (rule translate_user_cases [OF assms, of wr va])
  fix r assume "translate_user_perm p wr va m = Some (r, m)" "r \<noteq> None \<longleftrightarrow>
      (\<exists>pa perm. translate (proot p) (page_down va) m = Some (pa, perm) \<and> perm AND PERM_USER \<noteq> 0 \<and>
        (wr \<longrightarrow> perm AND PERM_WRITE \<noteq> 0) \<and> r = Some (pa + va mod PGSIZE))"
  then show ?thesis by fastforce
next
  fix r m' perm f assume a: "translate_user_perm p wr va m = Some (r, m')" "demand_perm p (page_down va) = Some perm"
      "translate (proot p) (page_down va) m' = Some (f, perm AND mask 4)"
      "r = (if wr \<and> (perm AND mask 4) AND PERM_WRITE = 0 then None else Some (f + va mod PGSIZE))"
  have "(perm AND mask 4) AND PERM_USER \<noteq> 0"
    using demand_perm_ok(1) [OF assms(2) a(2)] bit_test [of "perm AND mask 4" 3]
    by (simp add: uperm_def PERM_USER_def bit_and_iff bit_mask_iff)
  then show ?thesis using a(1,3,4) by auto
qed simp

text \<open>C18. A failed \<open>sbrk\<close> is harmless: when it returns -1 the break has not moved, every user address
  translates as before and holds the same data; pages the call had already mapped are unmapped and
  freed again.\<close>

theorem failed_sbrk_harmless:
  assumes us: "uspace (proot p) m" and ok: "uproc_ok p" and s: "sys_sbrk p n lazy m = (-1, p', m')" and v: "v < TRAPFRAME"
  shows "p' = p \<and> translate (proot p) v m' = translate (proot p) v m \<and> user_word (proot p) v m' = user_word (proot p) v m"
proof -
  have p: "p' = p" using s by (auto simp: sys_sbrk_def Let_def split: if_splits prod.splits bool.splits)
  have "m' = m \<or> (\<exists>new \<le> STACK_VA_BASE - PGSIZE.
      grow_loop (proot p) (page_up (psize p)) (page_up (psize p)) (page_up new) m = (False, m'))"
    using s by (auto simp: sys_sbrk_def Let_def not_less split: if_splits prod.splits bool.splits)
  moreover have "translate (proot p) v m' = translate (proot p) v m \<and> user_word (proot p) v m' = user_word (proot p) v m"
    if g: "grow_loop (proot p) (page_up (psize p)) (page_up (psize p)) (page_up new) m = (False, m')" "new \<le> STACK_VA_BASE - PGSIZE" for new
  proof -
    have G: "vmrel (proot p) m m'" "same_pages (pages m (proot p) \<inter> pages m' (proot p)) m m'"
      "undone (proot p) (page_up (psize p)) (page_up (psize p)) m m'"
      using grow_loop_spec [OF us _ _ _ order_refl heap_page(2) [OF g(2)] g(1)] by simp_all
    have "if page_up (psize p) \<le> v \<and> v < page_up (psize p) then \<not> pte_is_valid (ent m' (proot p) v)
      else ent m' (proot p) v = ent m (proot p) v \<or> \<not> pte_is_valid (ent m (proot p) v) \<and> \<not> pte_is_valid (ent m' (proot p) v)"
      using G(3) v unfolding undone_def by blast
    then have "ent m' (proot p) v = ent m (proot p) v \<or> \<not> pte_is_valid (ent m (proot p) v) \<and> \<not> pte_is_valid (ent m' (proot p) v)"
      by (metis not_less)
    then show ?thesis using view_same [OF us vmrelD [OF G(1)] v _ G(2)] by blast
  qed
  ultimately show ?thesis using p by blast
qed

text \<open>C19. A successful \<open>sbrk\<close> moves the break by exactly the increment and returns the old break. Growing
  eagerly makes exactly the pages between the two breaks readable and writable, filled with zeros;
  shrinking unmaps exactly the pages above the new break; a lazy call touches no memory. Every other
  user address keeps its translation and its data.\<close>

theorem sbrk_moves_break:
  assumes us: "uspace (proot p) m" and ok: "uproc_ok p" and s: "sys_sbrk p n lazy m = (res, p', m')"
    and n: "n \<noteq> 0" "0 < n \<or> - n \<le> int (psize p)" "res \<noteq> -1" and v: "v < TRAPFRAME"
  shows "res = int (psize p) \<and> int (psize p') = int (psize p) + n \<and>
    (if 0 < n \<and> lazy = 0 \<and> page_up (psize p) \<le> v \<and> v < page_up (psize p')
     then translate (proot p) v m = None \<and> user_word (proot p) v m' = Some 0 \<and>
       map_option snd (translate (proot p) v m') = Some URW
     else if n < 0 \<and> page_up (psize p') \<le> v \<and> v < page_up (psize p) then translate (proot p) v m' = None
     else translate (proot p) v m' = translate (proot p) v m \<and> user_word (proot p) v m' = user_word (proot p) v m)"
proof (cases "n < 0")
  case True
  then have *: "res = int (psize p)" "psize p' = psize p - nat (- n)" "nat (- n) \<le> psize p"
      "m' = unmap_range (proot p) (page_up (psize p')) (page_up (psize p)) m"
    using s n by (auto simp: sys_sbrk_def Let_def split: if_splits)
  have "psize p \<le> STACK_VA_BASE - PGSIZE" using ok by (simp add: uproc_ok_def)
  note U = unmap_range_spec [OF us dvd_page_up dvd_page_up heap_page(2) [OF this], of "psize p'", folded *(4)]
  have us': "uspace (proot p) m'" using U vmrelD by blast
  have sp: "same_pages (pages m (proot p) \<inter> pages m' (proot p)) m m'"
    using U by (auto simp: same_pages_def)
  show ?thesis
    using True *(1-3) U v view_same [OF us us' v _ sp] translate_none [OF us' v] by (auto split: if_splits)
next
  case False
  show ?thesis
  proof (cases "lazy = 0")
    case lz: False
    then show ?thesis using False s n by (auto simp: sys_sbrk_def Let_def split: if_splits)
  next
    case lz: True
    then have *: "res = int (psize p)" "psize p' = psize p + nat n" "psize p' \<le> STACK_VA_BASE - PGSIZE"
      "grow_loop (proot p) (page_up (psize p)) (page_up (psize p)) (page_up (psize p')) m = (True, m')"
      using False s n by (auto simp: sys_sbrk_def Let_def split: if_splits prod.splits bool.splits)
    have G: "vmrel (proot p) m m'" "same_pages (pages m (proot p) \<inter> pages m' (proot p)) m m'"
      "grown (proot p) (page_up (psize p)) (page_up (psize p')) m m'"
      using grow_loop_spec [OF us _ _ _ order_refl heap_page(2) [OF *(3)] *(4)] by simp_all
    note us' = vmrelD [OF G(1)]
    have "translate (proot p) v m = None \<and> user_word (proot p) v m' = Some 0 \<and>
       map_option snd (translate (proot p) v m') = Some URW" if "fresh_page (proot p) m m' v"
      using fresh_translate [OF us us' v that] by simp
    then show ?thesis using * False n(1) lz G(3) v view_same [OF us us' v _ G(2)] unfolding grown_def by (auto split: if_splits)
  qed
qed

section \<open>Witnesses\<close>

definition demo_uproc :: "nat \<Rightarrow> uproc" where
  "demo_uproc r = \<lparr>proot = r, psize = 0, pvmas = [], pmmap_base = MMAP_TOP, preap = []\<rparr>"

lemma demo_uproc_ok: "uproc_ok (demo_uproc r)" "proot (demo_uproc r) = r" "psize (demo_uproc r) = 0"
  using layout_bounds(5) by (simp_all add: demo_uproc_def uproc_ok_def)

lemma demo_space:
  obtains r m where "uspace r m" "length (frames m) = 7" "\<And>v. \<not> pte_is_valid (ent m r v)"
proof -
  obtain r m where d: "sv.tree r m" "length (frames m) = 7" "\<And>v. \<not> pte_is_valid (ent m r v)" by (rule demo_root) blast
  then have "uspace r m" by (simp add: uspace_def)
  then show ?thesis using that d by blast
qed

lemma demo_sbrk:
  obtains r m m' where "uspace r m" "length (frames m) = 7" "sys_sbrk (demo_uproc r) 4096 0 m = (0, (demo_uproc r)\<lparr>psize := 4096\<rparr>, m')"
proof -
  obtain r m where d: "uspace r m" "length (frames m) = 7" "\<And>v. \<not> pte_is_valid (ent m r v)" by (rule demo_space) blast
  obtain x m1 where a: "alloc_zeroed m = (x, m1)" by fastforce
  then obtain f where f: "alloc_zeroed m = (Some f, m1)" using d(2) alloc_zeroed_None [OF uspace_kinv [OF d(1)], of m1] by (cases x) auto
  note A = uspace_alloc [OF d(1) f]
  have l: "length (frames m1) = 6" using alloc_zeroed_Some(1) [OF uspace_kinv [OF d(1)] f] d(2) by simp
  have "fst (map_loop URW r 0 f 4096 m1) = Inr ()"
    by (rule sv.mp_progress [OF uspaceD(1) [OF A(1)]]) (use l A(5) d(3) in \<open>simp_all add: PGSIZE_def MAXVA_def\<close>)
  then obtain m2 where "pt_map r 0 f PGSIZE URW m1 = (Inr (), m2)"
    using A(2) by (cases "map_loop URW r 0 f 4096 m1") (auto simp: pt_map_def PGSIZE_def MAXVA_def frame_ok_def mod_eq_0_iff_dvd)
  then have mf: "map_or_free r 0 f URW m1 = (True, m2)" by (simp add: map_or_free_def)
  have "grow_loop r 0 0 4096 m = (True, m2)"
    using f mf by (simp add: grow_loop.simps [of r 0 0] grow_loop.simps [of r 0 4096] PGSIZE_def)
  then have "sys_sbrk (demo_uproc r) 4096 0 m = (0, (demo_uproc r)\<lparr>psize := 4096\<rparr>, m2)"
    by (simp add: sys_sbrk_def demo_uproc_def page_up_def page_down_def Let_def STACK_VA_BASE_def STACK_VA_TOP_def STACK_PAGES_def
        TRAPFRAME_def TRAMPOLINE_def MAXVA_def PGSIZE_def)
  then show ?thesis using that d by blast
qed

theorem vm_regions_well_formed_witness:
  "\<exists>p. uproc_ok p \<and> p \<noteq> demo_uproc 0 \<and> p = snd (sys_mmap (\<lambda>_. None) (demo_uproc 0) 5000 3 0x22 (-1) 0)"
proof -
  let ?p = "snd (sys_mmap (\<lambda>_. None) (demo_uproc 0) 5000 3 0x22 (-1) 0)"
  have "vm_reach (demo_uproc 0, undefined) (?p, undefined)" by (rule vm_reach.more [OF vm_reach.start vm_step.mmap])
  from vm_regions_well_formed [OF this demo_uproc_ok(1)] have "uproc_ok ?p" .
  moreover have "pmmap_base ?p \<noteq> MMAP_TOP"
    by (simp add: sys_mmap_def mmap_file_def demo_uproc_def MAP_PRIVATE_def MAP_ANONYMOUS_def PROT_READ_def PROT_WRITE_def PROT_EXEC_def
        page_up_def page_down_def MMAP_TOP_def STACK_VA_BASE_def STACK_VA_TOP_def STACK_PAGES_def TRAPFRAME_def TRAMPOLINE_def
        MAXVA_def PGSIZE_def Let_def)
  then have "?p \<noteq> demo_uproc 0" by (auto simp: demo_uproc_def)
  ultimately show ?thesis by blast
qed

theorem vm_frames_conserved_witness:
  "\<exists>r m p' m'. sys_sbrk (demo_uproc r) 4096 0 m = (0, p', m') \<and> psize p' = 4096 \<and> uspace r m' \<and> owned m' r = owned m r"
proof -
  obtain r m m' where d: "uspace r m" "sys_sbrk (demo_uproc r) 4096 0 m = (0, (demo_uproc r)\<lparr>psize := 4096\<rparr>, m')" by (rule demo_sbrk) blast
  have "vm_step (demo_uproc r, m) (snd (sys_sbrk (demo_uproc r) 4096 0 m))" by (rule vm_step.sbrk)
  then have "vm_reach (demo_uproc r, m) ((demo_uproc r)\<lparr>psize := 4096\<rparr>, m')" using vm_reach.more [OF vm_reach.start] d(2) by simp
  from vm_frames_conserved [OF this demo_uproc_ok(1)] have "uspace r m'" "owned m' r = owned m r"
    using d(1) demo_uproc_ok(2) by simp_all
  then show ?thesis using d(2) by (intro exI) auto
qed

theorem failed_sbrk_harmless_witness:
  "\<exists>r m m'. uspace r m \<and> sys_sbrk (demo_uproc r) (2 ^ 40) 0 m = (-1, demo_uproc r, m') \<and> translate r 0 m' = translate r 0 m"
proof -
  obtain r m where d: "uspace r m" by (rule demo_space) blast
  have s: "sys_sbrk (demo_uproc r) (2 ^ 40) 0 m = (-1, demo_uproc r, m)"
    by (simp add: sys_sbrk_def demo_uproc_def Let_def STACK_VA_BASE_def STACK_VA_TOP_def STACK_PAGES_def
        TRAPFRAME_def TRAMPOLINE_def MAXVA_def PGSIZE_def)
  have z: "0 < TRAPFRAME" by (simp add: TRAPFRAME_def TRAMPOLINE_def MAXVA_def PGSIZE_def)
  have "translate r 0 m = translate r 0 m"
    using failed_sbrk_harmless [OF _ demo_uproc_ok(1) s z] d demo_uproc_ok(2) by simp
  then show ?thesis using s d by blast
qed

theorem sbrk_moves_break_witness:
  "\<exists>r m p' m'. sys_sbrk (demo_uproc r) 4096 0 m = (0, p', m') \<and> user_word r 16 m' = Some 0"
proof -
  obtain r m m' where d: "uspace r m" "sys_sbrk (demo_uproc r) 4096 0 m = (0, (demo_uproc r)\<lparr>psize := 4096\<rparr>, m')" by (rule demo_sbrk) blast
  have "uspace (proot (demo_uproc r)) m" using d(1) demo_uproc_ok(2) by simp
  from sbrk_moves_break [OF this demo_uproc_ok(1) d(2), of 16]
  have "user_word r 16 m' = Some 0"
    by (simp add: demo_uproc_def page_up_def page_down_def TRAPFRAME_def TRAMPOLINE_def MAXVA_def PGSIZE_def)
  then show ?thesis using d(2) by blast
qed

end
