(* ===== verification/Fork.thy ===== *)
theory Fork
  imports Uvm
begin

unbundle bit_operations_syntax

text \<open>
  The copy of an address space that \<open>fork\<close> makes (\<open>Proc::fork_from\<close>): a new page table, the
  trampoline and trap-frame mappings, then every mapped page below the break and every stack page
  copied into a fresh frame. Parent and child are two spaces over one pool; the proofs carry both.
\<close>

section \<open>Copying an address space\<close>

definition copy_page :: "nat \<Rightarrow> nat \<Rightarrow> pmem \<Rightarrow> pmem" where
  "copy_page src dst m = m\<lparr>pw := (\<lambda>a. if dst \<le> a \<and> a < dst + PGSIZE then pw m (src + (a - dst)) else pw m a)\<rparr>"

text \<open>The body of both copy loops: \<open>False\<close> is an early return.\<close>

definition fork_page :: "nat \<Rightarrow> nat \<Rightarrow> nat \<Rightarrow> pte_perm \<Rightarrow> pmem \<Rightarrow> bool \<times> pmem" where
  "fork_page child va parent_pa perm m = (case alloc_zeroed m of
     (None, m1) \<Rightarrow> (False, m1)
   | (Some child_pa, m1) \<Rightarrow> (case pt_map child va child_pa PGSIZE perm (copy_page parent_pa child_pa m1) of
       (Inl _, m2) \<Rightarrow> (False, m2) | (Inr _, m2) \<Rightarrow> (True, m2)))"

function fork_heap :: "nat \<Rightarrow> nat \<Rightarrow> nat \<Rightarrow> nat \<Rightarrow> pmem \<Rightarrow> bool \<times> pmem" where
  "fork_heap parent child va code_end m =
     (if va < code_end then
        (case translate parent va m of
           None \<Rightarrow> fork_heap parent child (va + PGSIZE) code_end m
         | Some (parent_pa, perm) \<Rightarrow>
             (case fork_page child va parent_pa perm m of
                (False, m1) \<Rightarrow> (False, m1)
              | (True, m1) \<Rightarrow> fork_heap parent child (va + PGSIZE) code_end m1))
      else (True, m))"
  by pat_completeness auto

termination
  by (relation "measure (\<lambda>(_, _, va, en, _). en - va)") (auto simp: PGSIZE_def)

declare fork_heap.simps [simp del]

fun fork_stack :: "nat \<Rightarrow> nat \<Rightarrow> nat list \<Rightarrow> pmem \<Rightarrow> bool \<times> pmem" where
  "fork_stack parent child [] m = (True, m)"
| "fork_stack parent child (i # is') m =
     (let va = STACK_VA_BASE + i * PGSIZE in
      case translate parent va m of
        None \<Rightarrow> (False, m)
      | Some (parent_pa, perm) \<Rightarrow>
          (case fork_page child va parent_pa perm m of
             (False, m1) \<Rightarrow> (False, m1) | (True, m1) \<Rightarrow> fork_stack parent child is' m1))"

text \<open>The trap frame of the RISC-V build: 36 words, \<open>a0\<close> the fifteenth.\<close>

definition TF_WORDS :: nat where "TF_WORDS = 36"
definition TF_A0 :: nat where "TF_A0 = 112"

definition copy_trapframe :: "nat \<Rightarrow> nat \<Rightarrow> pmem \<Rightarrow> pmem" where
  "copy_trapframe src dst m = store (dst + TF_A0) 0
     (fold (\<lambda>i m. store (dst + 8 * i) (pw m (src + 8 * i)) m) [0..<TF_WORDS] m)"

text \<open>\<open>fork_from_inner\<close> as far as memory goes: \<open>tramp\<close> is the physical trampoline page and \<open>ptf\<close>,
  \<open>tf\<close> the trap frames of parent and child. An early return drops the new page table.\<close>

definition fork_from_inner :: "nat \<Rightarrow> nat \<Rightarrow> uproc \<Rightarrow> nat \<Rightarrow> pmem \<Rightarrow> nat option \<times> pmem" where
  "fork_from_inner tramp ptf parent tf m = (case pt_new m of
     (Inl _, m1) \<Rightarrow> (None, m1)
   | (Inr child, m1) \<Rightarrow> (case pt_map child TRAMPOLINE tramp PGSIZE RX m1 of
       (Inl _, m2) \<Rightarrow> (None, pt_drop child m2)
     | (Inr _, m2) \<Rightarrow> (case pt_map child TRAPFRAME tf PGSIZE RW m2 of
         (Inl _, m3) \<Rightarrow> (None, pt_drop child m3)
       | (Inr _, m3) \<Rightarrow> (case fork_heap (proot parent) child 0 (psize parent) m3 of
           (False, m4) \<Rightarrow> (None, pt_drop child m4)
         | (True, m4) \<Rightarrow> (case fork_stack (proot parent) child [0..<STACK_PAGES] m4 of
             (False, m5) \<Rightarrow> (None, pt_drop child m5)
           | (True, m5) \<Rightarrow> (Some child, copy_trapframe ptf tf m5))))))"

definition NPROC :: nat where "NPROC = 64"

text \<open>\<open>fork_from\<close>: the child's root and trap frame.\<close>

definition fork_from :: "nat \<Rightarrow> nat \<Rightarrow> nat \<Rightarrow> uproc \<Rightarrow> pmem \<Rightarrow> (nat \<times> nat) option \<times> pmem" where
  "fork_from live tramp ptf parent m =
     (if NPROC \<le> live then (None, m)
      else case alloc_zeroed m of
        (None, m1) \<Rightarrow> (None, m1)
      | (Some tf, m1) \<Rightarrow> (case fork_from_inner tramp ptf parent tf m1 of
          (Some child, m2) \<Rightarrow> (Some (child, tf), m2)
        | (None, m2) \<Rightarrow> (None, kfree tf m2)))"

section \<open>Two spaces over one pool\<close>

definition tables :: "pmem \<Rightarrow> nat \<Rightarrow> nat set" where
  "tables m r = {x. sv.table_of m r x}"

definition priv :: "pmem \<Rightarrow> nat \<Rightarrow> nat set" where
  "priv m r = tables m r \<union> pages m r"

definition duo :: "nat \<Rightarrow> nat \<Rightarrow> pmem \<Rightarrow> bool" where
  "duo p c m \<longleftrightarrow> uspace p m \<and> uspace c m \<and> priv m p \<inter> priv m c = {}"

lemma owned_priv: "owned m r = set (frames m) \<union> priv m r" "sv.held m r = set (frames m) \<union> tables m r"
  by (auto simp: owned_def held_def' priv_def tables_def)

lemma priv_free: "uspace r m \<Longrightarrow> priv m r \<inter> set (frames m) = {}"
  using table_frame [OF uspaceD(1)] page_frame by (fastforce simp: priv_def tables_def owned_priv(2))

text \<open>An operation on the space \<open>c\<close> as seen by another space \<open>p\<close>.\<close>

lemma space_other:
  assumes us: "uspace p m" and dj: "tables m c \<inter> priv m p = {}" and k: "kinv m'" and fr: "set (frames m') \<subseteq> set (frames m)"
    and o: "\<And>a. sv.outside m c a \<Longrightarrow> pw m' a = pw m a \<and> sv.outside m' c a"
  shows "uspace p m'" "\<And>v. ent m' p v = ent m p v" "tables m' p = tables m p" "pages m' p = pages m p"
    "same_pages (pages m p) m m'"
proof -
  have dj': "\<not> sv.table_of m p x" if "sv.table_of m c x" for x using dj that by (auto simp: priv_def tables_def)
  note O = sv.other_tree [OF uspaceD(1) [OF us] dj' k fr o]
  show e: "ent m' p v = ent m p v" for v by (rule O(2))
  show t: "tables m' p = tables m p" unfolding tables_def using O(4) by blast
  show pg: "pages m' p = pages m p" unfolding pages_def e by (rule refl)
  have "sv.held m' p \<subseteq> sv.held m p" using fr t by (auto simp: owned_priv(2))
  then show "uspace p m'" using us O(1) unfolding uspace_def e by blast
  show "same_pages (pages m p) m m'"
    unfolding same_pages_def
  proof (intro ballI allI impI)
    fix g a assume g: "g \<in> pages m p" "in_frame g a"
    have "g \<notin> sv.held m c" using g(1) dj priv_free [OF us] by (auto simp: owned_priv(2) priv_def)
    then show "pw m' a = pw m a" using o outside_frame [OF _ _ g(2)] page_frame [OF us g(1)] by blast
  qed
qed

lemma space_alloc:
  assumes us: "uspace r m" and a: "alloc_zeroed m = (Some f, m1)"
  shows "tables m1 r = tables m r" "priv m1 r = priv m r" "f \<notin> priv m r"
proof -
  note A = alloc_zeroed_Some [OF uspace_kinv [OF us] a]
  have f: "f \<in> set (frames m)" using A(1) by simp
  then show nf: "f \<notin> priv m r" using priv_free [OF us] by blast
  have "sv.table_of m1 r x = sv.table_of m r x" for x
    by (rule uspace_frame(6) [OF us A(2,3)]) (use nf A(1,4) in \<open>auto simp: priv_def tables_def\<close>)
  then show t: "tables m1 r = tables m r" by (simp add: tables_def)
  show "priv m1 r = priv m r" using t uspace_alloc(6) [OF us a] by (simp add: priv_def)
qed

lemma space_fill:
  assumes us: "uspace r m" and f: "frame_ok f" "f \<notin> owned m r" and w: "\<forall>a. \<not> in_frame f a \<longrightarrow> w a = pw m a"
  shows "priv (m\<lparr>pw := w\<rparr>) r = priv m r" "tables (m\<lparr>pw := w\<rparr>) r = tables m r" "frames (m\<lparr>pw := w\<rparr>) = frames m"
proof -
  have n: "\<not> sv.table_of m r f" "f \<notin> pages m r" "f \<notin> set (frames m)" using f(2) by (auto simp: owned_def held_def')
  have "w g = pw m g" if g: "g \<in> set (frames m)" for g
    using w frames_disjoint [OF f(1), of g g] g n(3) uspace_kinv [OF us] by (auto simp: kinv_def)
  then show k: "frames (m\<lparr>pw := w\<rparr>) = frames m" using frames_cong [of "m\<lparr>pw := w\<rparr>" m] by simp
  have "sv.table_of (m\<lparr>pw := w\<rparr>) r x = sv.table_of m r x" for x
    by (rule uspace_frame(6) [OF us uspace_kinv [OF fill_uspace(1) [OF us f w]] f(1) n(1,2)]) (use w k in auto)
  then show t: "tables (m\<lparr>pw := w\<rparr>) r = tables m r" by (simp add: tables_def)
  show "priv (m\<lparr>pw := w\<rparr>) r = priv m r" using t fill_uspace(3) [OF us f w] by (simp add: priv_def)
qed

section \<open>Copying pages\<close>

text \<open>The child has at \<open>v\<close> what the parent has: the same rights and, in a frame of its own, the same data;
  or nothing.\<close>

definition copy_at :: "nat \<Rightarrow> nat \<Rightarrow> pmem \<Rightarrow> pmem \<Rightarrow> nat \<Rightarrow> bool" where
  "copy_at p c m m' v \<longleftrightarrow>
     (if pte_is_valid (ent m p v) then
        \<exists>f. ent m' c v = make_leaf f (flags_perm (ent m p v)) \<and> frame_ok f \<and>
          (\<forall>i < PGSIZE. pw m' (f + i) = pw m (tgt (ent m p v) + i))
      else \<not> pte_is_valid (ent m' c v))"

text \<open>The parent keeps its view, the child keeps what it had and gains copies of the pages in \<open>V\<close>.\<close>

definition parent_kept :: "nat \<Rightarrow> pmem \<Rightarrow> pmem \<Rightarrow> bool" where
  "parent_kept p m m' \<longleftrightarrow> (\<forall>v < TRAPFRAME. ent m' p v = ent m p v) \<and> priv m' p = priv m p \<and> pages m' p = pages m p \<and>
     same_pages (pages m p) m m'"

definition copied :: "nat \<Rightarrow> nat \<Rightarrow> (nat \<Rightarrow> bool) \<Rightarrow> pmem \<Rightarrow> pmem \<Rightarrow> bool" where
  "copied p c V m m' \<longleftrightarrow> duo p c m' \<and> parent_kept p m m' \<and> owned m' c = owned m c \<and>
     pages m c \<subseteq> pages m' c \<and> same_pages (pages m c) m m' \<and> (\<forall>a. apart m c a \<longrightarrow> pw m' a = pw m a) \<and>
     (\<forall>v < TRAPFRAME. if V v then copy_at p c m m' v else ent m' c v = ent m c v)"

lemma copied_refl: "duo p c m \<Longrightarrow> (\<And>v. v < TRAPFRAME \<Longrightarrow> V v \<Longrightarrow> \<not> pte_is_valid (ent m p v) \<and> \<not> pte_is_valid (ent m c v)) \<Longrightarrow> copied p c V m m"
  by (simp add: copied_def parent_kept_def same_pages_def copy_at_def)

lemma copiedD: "copied p c V m m' \<Longrightarrow> duo p c m'" "copied p c V m m' \<Longrightarrow> parent_kept p m m'"
  by (auto simp: copied_def)

lemma parent_kept_trans: "parent_kept p m m1 \<Longrightarrow> parent_kept p m1 m2 \<Longrightarrow> parent_kept p m m2"
  unfolding parent_kept_def by (auto intro: same_pages_trans)

lemma copy_at_post:
  assumes v: "v < TRAPFRAME" and c: "copy_at p c m m1 v" and e: "ent m2 c v = ent m1 c v" and sp: "same_pages (pages m1 c) m1 m2"
  shows "copy_at p c m m2 v"
proof (cases "pte_is_valid (ent m p v)")
  case True
  then obtain f where f: "ent m1 c v = make_leaf f (flags_perm (ent m p v))" "frame_ok f"
    "\<forall>i < PGSIZE. pw m1 (f + i) = pw m (tgt (ent m p v) + i)" using c by (auto simp: copy_at_def)
  have "tgt (ent m1 c v) = f" unfolding f(1) using f(2) by (intro make_leaf_pa) (auto simp: frame_ok_def)
  then have "f \<in> pages m1 c" using in_pages [OF v, of m1 c] f(1) make_leaf_valid by simp
  then have "pw m2 (f + i) = pw m1 (f + i)" if "i < PGSIZE" for i
    using sp that unfolding same_pages_def in_frame_def by auto
  then show ?thesis using True f e by (auto simp: copy_at_def)
qed (use c e in \<open>simp add: copy_at_def\<close>)

lemma copy_at_pre:
  assumes v: "v < TRAPFRAME" and c: "copy_at p c m1 m2 v" and pk: "parent_kept p m m1"
  shows "copy_at p c m m2 v"
proof -
  have e: "ent m1 p v = ent m p v" and sp: "same_pages (pages m p) m m1" using pk v by (auto simp: parent_kept_def)
  show ?thesis
  proof (cases "pte_is_valid (ent m p v)")
    case True
    have "pw m1 (tgt (ent m p v) + i) = pw m (tgt (ent m p v) + i)" if "i < PGSIZE" for i
      using sp in_pages [OF v True] that unfolding same_pages_def in_frame_def by auto
    then show ?thesis using c True e by (auto simp: copy_at_def)
  qed (use c e in \<open>simp add: copy_at_def\<close>)
qed

lemma copied_trans:
  assumes a: "copied p c V m m1" and b: "copied p c W m1 m2" and d: "\<And>v. V v \<Longrightarrow> \<not> W v"
  shows "copied p c (\<lambda>v. V v \<or> W v) m m2"
proof -
  have pk: "parent_kept p m m1" "parent_kept p m1 m2" and sp: "same_pages (pages m1 c) m1 m2" using a b by (auto simp: copied_def)
  have "if V v \<or> W v then copy_at p c m m2 v else ent m2 c v = ent m c v" if v: "v < TRAPFRAME" for v
  proof -
    have A: "if V v then copy_at p c m m1 v else ent m1 c v = ent m c v" using a v unfolding copied_def by blast
    have B: "if W v then copy_at p c m1 m2 v else ent m2 c v = ent m1 c v" using b v unfolding copied_def by blast
    show ?thesis using A B d [of v] copy_at_post [OF v _ _ sp] copy_at_pre [OF v _ pk(1)] by (auto split: if_splits)
  qed
  moreover have "same_pages (pages m c) m m2" using a b by (auto simp: copied_def intro: same_pages_trans)
  moreover have "pw m2 a = pw m a" if "apart m c a" for a using a b that by (simp add: copied_def apart_def)
  ultimately show ?thesis using a b parent_kept_trans [OF pk] unfolding copied_def by auto
qed

lemma uperm_flags: "uleaf e \<Longrightarrow> uperm (flags_perm e)"
  using bit_test [of e 4] by (auto simp: uleaf_def uperm_def pte_is_leaf_bits flags_perm_bit PTE_U_def)

text \<open>A frame leaves the pool and is written, as seen by a space.\<close>

lemma space_new_frame:
  assumes us: "uspace r m" and a: "alloc_zeroed m = (Some f, m1)" and w: "\<forall>a. \<not> in_frame f a \<longrightarrow> w a = pw m1 a"
  defines "m2 \<equiv> m1\<lparr>pw := w\<rparr>"
  shows "uspace r m2" "\<And>v. ent m2 r v = ent m r v" "pages m2 r = pages m r" "priv m2 r = priv m r" "frames m = f # frames m2"
    "owned m r = insert f (owned m2 r)" "f \<notin> owned m2 r" "same_pages (pages m r) m m2" "frame_ok f" "tables m2 r = tables m r"
proof -
  note A = uspace_alloc [OF us a]
  note S = space_alloc [OF us a]
  note W = fill_uspace [OF A(1-3) w] space_fill [OF A(1-3) w]
  show "uspace r m2" "\<And>v. ent m2 r v = ent m r v" "pages m2 r = pages m r" "priv m2 r = priv m r" "frame_ok f" "tables m2 r = tables m r"
    using W A S unfolding m2_def by simp_all
  show "frames m = f # frames m2" using W(7) alloc_zeroed_Some(1) [OF uspace_kinv [OF us] a] by (simp add: m2_def)
  show "owned m r = insert f (owned m2 r)" "f \<notin> owned m2 r" using W(2) A(3,4) unfolding m2_def by auto
  show "same_pages (pages m r) m m2"
    unfolding same_pages_def
  proof (intro ballI allI impI)
    fix g b assume g: "g \<in> pages m r" "in_frame g b"
    have "g \<noteq> f" using g(1) S(3) by (auto simp: priv_def)
    then have "\<not> in_frame f b" using frames_disjoint [OF A(2) _ _ g(2)] page_frame [OF us g(1)] by blast
    then show "pw m2 b = pw m b" using w A(7) by (simp add: m2_def)
  qed
qed

lemma priv_owned: "uspace r m \<Longrightarrow> priv m r = owned m r - set (frames m)"
  using priv_free by (auto simp: owned_priv)

text \<open>After an operation on \<open>c\<close> that takes frames from the pool only, the spaces are still apart.\<close>

lemma duo_other:
  assumes du: "duo p c m" and us: "uspace c m'" and fr: "set (frames m') \<subseteq> set (frames m)"
    and o: "\<And>a. sv.outside m c a \<Longrightarrow> pw m' a = pw m a \<and> sv.outside m' c a"
    and ow: "owned m' c \<subseteq> insert f (owned m c)" "f \<notin> priv m p"
  shows "duo p c m'" "parent_kept p m m'"
proof -
  have p: "uspace p m" and dj: "priv m p \<inter> priv m c = {}" using du by (auto simp: duo_def)
  have "tables m c \<inter> priv m p = {}" using dj by (auto simp: priv_def)
  note O = space_other [OF p this uspace_kinv [OF us] fr o]
  have pp: "priv m' p = priv m p" using O(3,4) by (simp add: priv_def)
  show "parent_kept p m m'" unfolding parent_kept_def using O pp by simp
  have "priv m' c \<subseteq> insert f (owned m c)" using ow(1) by (auto simp: owned_priv)
  then have "priv m' p \<inter> priv m' c = {}" unfolding pp using ow(2) dj priv_free [OF p] by (auto simp: owned_priv)
  then show "duo p c m'" using O(1) us by (simp add: duo_def)
qed

lemma fork_page_spec:
  assumes du: "duo p c m" and va: "PGSIZE dvd va" "va < TRAPFRAME" and val: "pte_is_valid (ent m p va)"
    and fp: "fork_page c va (tgt (ent m p va)) (flags_perm (ent m p va)) m = (ok, m')"
  shows "if ok then copied p c (\<lambda>v. v div PGSIZE = va div PGSIZE) m m' else duo p c m' \<and> parent_kept p m m'"
proof -
  let ?pa = "tgt (ent m p va)" and ?perm = "flags_perm (ent m p va)"
  have us: "uspace p m" "uspace c m" and dj: "priv m p \<inter> priv m c = {}" using du by (auto simp: duo_def)
  obtain x m1 where a: "alloc_zeroed m = (x, m1)" by fastforce
  show ?thesis
  proof (cases x)
    case None
    then have "(ok, m') = (False, m)" using fp a alloc_none_same [OF us(1)] by (simp add: fork_page_def)
    then show ?thesis using du by (simp add: parent_kept_def same_pages_def)
  next
    case (Some f)
    then have a': "alloc_zeroed m = (Some f, m1)" using a by simp
    define w where "w = pw (copy_page ?pa f m1)"
    define m2 where "m2 = m1\<lparr>pw := w\<rparr>"
    have w: "\<forall>a. \<not> in_frame f a \<longrightarrow> w a = pw m1 a" by (auto simp: w_def copy_page_def in_frame_def)
    have m2: "copy_page ?pa f m1 = m2" by (simp add: m2_def w_def copy_page_def)
    note P = space_new_frame [OF us(1) a' w, folded m2_def]
    note C = space_new_frame [OF us(2) a' w, folded m2_def]
    have du2: "duo p c m2" unfolding duo_def using P(1,4) C(1,4) dj by simp
    have kept2: "parent_kept p m m2" unfolding parent_kept_def using P(2-4,8) by simp
    have fp2: "f \<notin> priv m2 p" using P(7) by (auto simp: owned_priv)
    obtain res m3 where mp: "pt_map c va f PGSIZE ?perm m2 = (res, m3)" by fastforce
    consider (yes) "res = Inr ()" "sv.mapped ?perm c va (va + PGSIZE) f m2 m3" | (no) e where "res = Inl e" "sv.keeps c m2 m3"
      using pt_map_page [OF uspaceD(1) [OF C(1)] va(1) below_TRAPFRAME(1) [OF va(2)] mp] by (cases res) auto
    then show ?thesis
    proof cases
      case no
      then have ok: "(ok, m') = (False, m3)" using fp a' m2 mp by (simp add: fork_page_def)
      note K = keeps_uspace [OF C(1) no(2)]
      have fr: "set (frames m3) \<subseteq> set (frames m2)" and o: "\<And>a. sv.outside m2 c a \<Longrightarrow> pw m3 a = pw m2 a \<and> sv.outside m3 c a"
        using no(2) by (auto simp: sv.keeps_def)
      have "owned m3 c \<subseteq> insert f (owned m2 c)" using K(3) by auto
      from duo_other [OF du2 K(1) fr o this fp2] show ?thesis using ok parent_kept_trans [OF kept2] by simp
    next
      case yes
      then have ok: "(ok, m') = (True, m3)" using fp a' m2 mp by (simp add: fork_page_def)
      have perm: "uperm ?perm" using uperm_flags uspaceD(2) [OF us(1) va(2) val] by blast
      note M = uspace_map [OF C(1) va C(9,7) perm yes(2)]
      have fr: "set (frames m3) \<subseteq> set (frames m2)" and o: "\<And>a. sv.outside m2 c a \<Longrightarrow> pw m3 a = pw m2 a \<and> sv.outside m3 c a"
        using yes(2) by (auto simp: sv.mapped_def)
      have "owned m3 c \<subseteq> insert f (owned m2 c)" using M(2) by simp
      note D = duo_other [OF du2 M(1) fr o this fp2]
      have f0: "f \<notin> sv.held m2 c" using C(7) by (auto simp: owned_def)
      have pa: "frame_ok ?pa" "?pa \<in> pages m p" using page_frame [OF us(1)] in_pages [OF va(2) val] by auto
      then have fpa: "f \<noteq> ?pa" using fp2 P(4) by (auto simp: priv_def)
      have cont: "pw m3 (f + i) = pw m (?pa + i)" if i: "i < PGSIZE" for i
      proof -
        have fi: "in_frame f (f + i)" "in_frame ?pa (?pa + i)" using i by (auto simp: in_frame_def)
        have "pw m3 (f + i) = pw m2 (f + i)" using o outside_frame [OF C(9) f0 fi(1)] by blast
        also have "\<dots> = pw m1 (?pa + i)" using i by (simp add: m2_def w_def copy_page_def)
        also have "\<dots> = pw m (?pa + i)"
          using uspace_alloc(7) [OF us(1) a'] frames_disjoint [OF C(9) pa(1) _ fi(2)] fpa by auto
        finally show ?thesis .
      qed
      have "copy_at p c m m3 v" if "v < TRAPFRAME" "v div PGSIZE = va div PGSIZE" for v
        using M(4) [OF that(1)] that(2) ent_page [OF that(2)] val C(9) cont by (auto simp: copy_at_def)
      moreover have "ent m3 c v = ent m c v" if "v < TRAPFRAME" "v div PGSIZE \<noteq> va div PGSIZE" for v
        using M(4) [OF that(1)] that(2) C(2) by simp
      moreover have "owned m3 c = owned m c" using M(2) C(6) by simp
      moreover have "pages m c \<subseteq> pages m3 c" using M(3) C(3) by auto
      moreover have "same_pages (pages m2 c) m2 m3"
        unfolding same_pages_def using o outside_frame page_frame [OF C(1)] by blast
      then have "same_pages (pages m c) m m3" using same_pages_trans [OF C(8)] C(3) by auto
      moreover have "pw m3 b = pw m b" if b: "apart m c b" for b
      proof -
        have "sv.held m2 c \<subseteq> owned m c" using C(6) by (auto simp: owned_def [of m2])
        from apart_outside [OF b this] have "pw m3 b = pw m2 b" using o by blast
        also have "\<not> in_frame f b" using b C(6) by (simp add: apart_def)
        then have "pw m2 b = pw m b" using w uspace_alloc(7) [OF us(1) a'] by (simp add: m2_def)
        finally show ?thesis .
      qed
      ultimately have "copied p c (\<lambda>v. v div PGSIZE = va div PGSIZE) m m3"
        unfolding copied_def using D(1) parent_kept_trans [OF kept2 D(2)] by simp
      then show ?thesis using ok by simp
    qed
  qed
qed

lemma translate_page:
  assumes "uspace r m" "PGSIZE dvd va" "va < TRAPFRAME"
  shows "translate r va m = (if pte_is_valid (ent m r va) then Some (tgt (ent m r va), flags_perm (ent m r va)) else None)"
  using translate_valid [OF assms(1,3)] translate_none [OF assms(1,3)] assms(2) by (auto simp: dvd_eq_mod_eq_0)

lemma fork_step:
  assumes du: "duo p c m" and va: "PGSIZE dvd va" "va < TRAPFRAME"
    and free: "\<And>v. v div PGSIZE = va div PGSIZE \<Longrightarrow> \<not> pte_is_valid (ent m c v)" and t: "translate p va m = None"
  shows "copied p c (\<lambda>v. v div PGSIZE = va div PGSIZE) m m"
proof (rule copied_refl [OF du])
  fix v assume "v < TRAPFRAME" and v: "v div PGSIZE = va div PGSIZE"
  have "\<not> pte_is_valid (ent m p va)" using t translate_none va(2) du by (auto simp: duo_def)
  then show "\<not> pte_is_valid (ent m p v) \<and> \<not> pte_is_valid (ent m c v)" using ent_page [OF v] free [OF v] by simp
qed

lemma page_split:
  assumes "PGSIZE dvd va" "va < en"
  shows "v div PGSIZE = va div PGSIZE \<or> va + PGSIZE \<le> v \<and> page_down v < en \<longleftrightarrow> va \<le> v \<and> page_down v < en"
proof (cases "v div PGSIZE = va div PGSIZE")
  case True
  have "page_down v = v div PGSIZE * PGSIZE" by (simp add: page_down_def minus_mod_eq_div_mult)
  then have "page_down v = va" using True assms(1) by simp
  then show ?thesis using True assms(2) page_down_le [of v] by simp
next
  case False
  then show ?thesis using sv.page_step [OF assms(1), of v] by auto
qed

lemma fork_heap_spec:
  assumes "duo p c m" "PGSIZE dvd va" "code_end \<le> TRAPFRAME"
    and "\<And>v. va \<le> v \<Longrightarrow> page_down v < code_end \<Longrightarrow> \<not> pte_is_valid (ent m c v)"
    and "fork_heap p c va code_end m = (ok, m')"
  shows "if ok then copied p c (\<lambda>v. va \<le> v \<and> page_down v < code_end) m m' else duo p c m' \<and> parent_kept p m m'"
  using assms
proof (induction p c va code_end m rule: fork_heap.induct)
  case (1 p c va code_end m)
  note du = "1.prems"(1) and va = "1.prems"(2)
  have us: "uspace p m" "uspace c m" using du by (auto simp: duo_def)
  show ?case
  proof (cases "va < code_end")
    case False
    then have "(ok, m') = (True, m)" using "1.prems"(5) by (simp add: fork_heap.simps [of p c va])
    moreover have none: "\<not> (va \<le> v \<and> page_down v < code_end)" for v
    proof
      assume v: "va \<le> v \<and> page_down v < code_end"
      have "va \<le> page_down v" unfolding page_down_def minus_mod_eq_div_mult
        using va v by (metis div_le_mono dvd_div_mult_self mult_le_mono1)
      then show False using v False by simp
    qed
    moreover have "copied p c (\<lambda>v. va \<le> v \<and> page_down v < code_end) m m" by (rule copied_refl [OF du]) (use none in blast)
    ultimately show ?thesis by simp
  next
    case True
    then have vt: "va < TRAPFRAME" using "1.prems"(3) by simp
    have rng: "va \<le> v \<and> page_down v < code_end" if "v div PGSIZE = va div PGSIZE \<or> va + PGSIZE \<le> v \<and> page_down v < code_end" for v
      using page_split [OF va True] that by blast
    have join: "copied p c (\<lambda>v. va \<le> v \<and> page_down v < code_end) m m'"
      if "copied p c (\<lambda>v. v div PGSIZE = va div PGSIZE) m m1" "copied p c (\<lambda>v. va + PGSIZE \<le> v \<and> page_down v < code_end) m1 m'" for m1
      using copied_trans [OF that] sv.page_step [OF va] unfolding page_split [OF va True] by simp
    have dvd: "PGSIZE dvd va + PGSIZE" using va by simp
    show ?thesis
    proof (cases "pte_is_valid (ent m p va)")
      case False
      then have t: "translate p va m = None" using translate_page [OF us(1) va vt] by simp
      then have g: "fork_heap p c (va + PGSIZE) code_end m = (ok, m')" using True "1.prems"(5) by (simp add: fork_heap.simps [of p c va])
      have "if ok then copied p c (\<lambda>v. va + PGSIZE \<le> v \<and> page_down v < code_end) m m' else duo p c m' \<and> parent_kept p m m'"
        by (rule "1.IH"(1) [OF True t du dvd "1.prems"(3) _ g]) (use "1.prems"(4) in simp)
      moreover have "copied p c (\<lambda>v. v div PGSIZE = va div PGSIZE) m m"
        by (rule fork_step [OF du va vt _ t]) (use "1.prems"(4) rng in blast)
      ultimately show ?thesis using join by simp
    next
      case val: True
      let ?pa = "tgt (ent m p va)" and ?perm = "flags_perm (ent m p va)"
      have t: "translate p va m = Some (?pa, ?perm)" using translate_page [OF us(1) va vt] val by simp
      obtain b m1 where fp: "fork_page c va ?pa ?perm m = (b, m1)" by fastforce
      note F = fork_page_spec [OF du va vt val fp]
      show ?thesis
      proof (cases b)
        case False
        then have "(ok, m') = (False, m1)" using True t fp "1.prems"(5) by (simp add: fork_heap.simps [of p c va])
        then show ?thesis using F False by simp
      next
        case b: True
        then have g: "fork_heap p c (va + PGSIZE) code_end m1 = (ok, m')" using True t fp "1.prems"(5) by (simp add: fork_heap.simps [of p c va])
        have C: "copied p c (\<lambda>v. v div PGSIZE = va div PGSIZE) m m1" using F b by simp
        have "\<not> pte_is_valid (ent m1 c v)" if v: "va + PGSIZE \<le> v" "page_down v < code_end" for v
        proof -
          have "v < TRAPFRAME"
          proof -
            have "page_down v + PGSIZE \<le> TRAPFRAME" by (rule below_TRAPFRAME(2)) (use v(2) "1.prems"(3) in simp_all)
            then show ?thesis using mod_less_divisor [of PGSIZE v] by (simp add: page_down_def del: mod_less_divisor)
          qed
          moreover have "v div PGSIZE \<noteq> va div PGSIZE" using v(1) sv.page_step [OF va, of v] by simp
          ultimately have "ent m1 c v = ent m c v" using C unfolding copied_def by simp
          then show ?thesis using "1.prems"(4) [of v] v by simp
        qed
        moreover have "b = True" "duo p c m1" using b C by (simp_all add: copied_def)
        ultimately have "if ok then copied p c (\<lambda>v. va + PGSIZE \<le> v \<and> page_down v < code_end) m1 m' else duo p c m' \<and> parent_kept p m1 m'"
          by (intro "1.IH"(2) [OF True t refl fp[symmetric] _ _ dvd "1.prems"(3) _ g])
        then show ?thesis using join [OF C] parent_kept_trans [OF copiedD(2) [OF C]] by (cases ok) simp_all
      qed
    qed
  qed
qed

text \<open>The stack pages: a hole is an error.\<close>

definition stack_va :: "nat \<Rightarrow> nat" where
  "stack_va i = STACK_VA_BASE + i * PGSIZE"

lemma stack_va:
  assumes "i < STACK_PAGES"
  shows "PGSIZE dvd stack_va i" "stack_va i < TRAPFRAME" "STACK_VA_BASE \<le> stack_va i"
    "stack_va i div PGSIZE = stack_va j div PGSIZE \<longleftrightarrow> i = j"
proof -
  have "PGSIZE dvd STACK_VA_BASE"
    by (simp add: STACK_VA_BASE_def STACK_VA_TOP_def STACK_PAGES_def TRAPFRAME_def TRAMPOLINE_def MAXVA_def PGSIZE_def)
  then show "PGSIZE dvd stack_va i" by (simp add: stack_va_def)
  show "stack_va i < TRAPFRAME" "STACK_VA_BASE \<le> stack_va i"
    using assms by (simp_all add: stack_va_def STACK_VA_BASE_def STACK_VA_TOP_def STACK_PAGES_def TRAPFRAME_def TRAMPOLINE_def MAXVA_def PGSIZE_def)
  show "stack_va i div PGSIZE = stack_va j div PGSIZE \<longleftrightarrow> i = j" using PGSIZE_pos by (simp add: stack_va_def)
qed

lemma fork_stack_spec:
  assumes "duo p c m" "set is \<subseteq> {..<STACK_PAGES}" "distinct is" and "fork_stack p c is m = (ok, m')"
  shows "if ok then copied p c (\<lambda>v. \<exists>i \<in> set is. v div PGSIZE = stack_va i div PGSIZE) m m' \<and>
      (\<forall>i \<in> set is. pte_is_valid (ent m p (stack_va i)))
    else duo p c m' \<and> parent_kept p m m'"
  using assms
proof (induction "is" arbitrary: m)
  case Nil
  then show ?case using copied_refl [OF Nil(1), of "\<lambda>_. False"] by simp
next
  case (Cons i js)
  note du = Cons.prems(1)
  have us: "uspace p m" using du by (simp add: duo_def)
  have i: "i < STACK_PAGES" using Cons.prems(2) by simp
  note va = stack_va(1,2) [OF i]
  show ?case
  proof (cases "pte_is_valid (ent m p (stack_va i))")
    case False
    then have "(ok, m') = (False, m)" using Cons.prems(4) translate_page [OF us va] by (simp add: Let_def stack_va_def)
    then show ?thesis using du by (simp add: parent_kept_def same_pages_def)
  next
    case val: True
    let ?pa = "tgt (ent m p (stack_va i))" and ?perm = "flags_perm (ent m p (stack_va i))"
    obtain b m1 where fp: "fork_page c (stack_va i) ?pa ?perm m = (b, m1)" by fastforce
    note F = fork_page_spec [OF du va val fp]
    have s: "fork_stack p c (i # js) m = (if b then fork_stack p c js m1 else (False, m1))"
      using translate_page [OF us va] val fp by (simp add: Let_def stack_va_def)
    show ?thesis
    proof (cases b)
      case False
      then show ?thesis using Cons.prems(4) s F by simp
    next
      case True
      then have C: "copied p c (\<lambda>v. v div PGSIZE = stack_va i div PGSIZE) m m1" using F by simp
      have g: "fork_stack p c js m1 = (ok, m')" using s True Cons.prems(4) by simp
      have IH: "if ok then copied p c (\<lambda>v. \<exists>i \<in> set js. v div PGSIZE = stack_va i div PGSIZE) m1 m' \<and>
          (\<forall>i \<in> set js. pte_is_valid (ent m1 p (stack_va i))) else duo p c m' \<and> parent_kept p m1 m'"
        by (rule Cons.IH [OF copiedD(1) [OF C] _ _ g]) (use Cons.prems(2,3) in simp_all)
      have v: "pte_is_valid (ent m1 p (stack_va j)) = pte_is_valid (ent m p (stack_va j))" if "j \<in> set js" for j
        using copiedD(2) [OF C] stack_va(2) [of j] that Cons.prems(2) by (auto simp: parent_kept_def)
      have "copied p c (\<lambda>v. v div PGSIZE = stack_va i div PGSIZE \<or> (\<exists>i \<in> set js. v div PGSIZE = stack_va i div PGSIZE)) m m'"
        if "copied p c (\<lambda>v. \<exists>i \<in> set js. v div PGSIZE = stack_va i div PGSIZE) m1 m'"
        using Cons.prems(3) stack_va(4) [OF i] by (intro copied_trans [OF C that]) fastforce
      then show ?thesis using IH val v parent_kept_trans [OF copiedD(2) [OF C]] by (cases ok) simp_all
    qed
  qed
qed

section \<open>The new page table\<close>

text \<open>Mapping a kernel page above the user area.\<close>

lemma kernel_page:
  assumes du: "duo p c m" and va: "PGSIZE dvd va" "TRAPFRAME \<le> va" "va < MAXVA" and mp: "pt_map c va pa PGSIZE perm m = (res, m')"
  shows "copied p c (\<lambda>_. False) m m'"
proof -
  have us: "uspace p m" "uspace c m" using du by (auto simp: duo_def)
  have M: "sv.tree c m'" "sv.held m' c = sv.held m c" "set (frames m') \<subseteq> set (frames m)"
    "\<And>v. v < TRAPFRAME \<Longrightarrow> ent m' c v = ent m c v" "\<And>a. sv.outside m c a \<Longrightarrow> pw m' a = pw m a \<and> sv.outside m' c a"
  proof -
    consider "sv.mapped perm c va (va + PGSIZE) pa m m'" | "sv.keeps c m m'"
      using pt_map_page [OF uspaceD(1) [OF us(2)] va(1,3) mp] by blast
    then have "sv.tree c m' \<and> sv.held m' c = sv.held m c \<and> set (frames m') \<subseteq> set (frames m) \<and>
      (\<forall>v < TRAPFRAME. ent m' c v = ent m c v) \<and> (\<forall>a. sv.outside m c a \<longrightarrow> pw m' a = pw m a \<and> sv.outside m' c a)"
    proof cases
      case 1
      then show ?thesis using va(2) below_TRAPFRAME(1) unfolding sv.mapped_def by auto
    next
      case 2
      then show ?thesis using sv.keeps_entry [OF 2] unfolding sv.keeps_def by blast
    qed
    then show "sv.tree c m'" "sv.held m' c = sv.held m c" "set (frames m') \<subseteq> set (frames m)"
      "\<And>v. v < TRAPFRAME \<Longrightarrow> ent m' c v = ent m c v" "\<And>a. sv.outside m c a \<Longrightarrow> pw m' a = pw m a \<and> sv.outside m' c a" by blast+
  qed
  note S = uspace_same [OF us(2) M(1,2,4)]
  have "owned m' c \<subseteq> insert 0 (owned m c)" using S(3) by blast
  moreover have "0 \<notin> priv m p" using owned_frame [OF us(1), of 0] by (auto simp: owned_priv frame_ok_def)
  ultimately have D: "duo p c m'" "parent_kept p m m'" using duo_other [OF du S(1) M(3,5)] by blast+
  have "same_pages (pages m c) m m'"
    unfolding same_pages_def using M(5) outside_frame page_frame [OF us(2)] by blast
  moreover have "pw m' a = pw m a" if "apart m c a" for a
    using M(5) apart_outside [OF that, of m] by (simp add: owned_def)
  ultimately show ?thesis unfolding copied_def using D S M(4) by simp
qed

lemma new_table:
  assumes us: "uspace p m" and a: "alloc_zeroed m = (Some c, m')"
  shows "duo p c m'" "parent_kept p m m'" "owned m' c = set (frames m)" "\<And>v. \<not> pte_is_valid (ent m' c v)" "pages m' c = {}"
proof -
  note A = uspace_alloc [OF us a] and S = space_alloc [OF us a]
  note N = sv.new_tree [OF uspace_kinv [OF us] a]
  show v: "\<not> pte_is_valid (ent m' c v)" for v using N(2) [of v] sv.valid0 by auto
  show pg: "pages m' c = {}" using v by (simp add: pages_def)
  have t: "tables m' c = {c}" using N(3) by (auto simp: tables_def)
  have "uspace c m'" unfolding uspace_def using N(1) v by blast
  then show "duo p c m'" unfolding duo_def using A(1) S(2,3) t pg by (simp add: priv_def)
  show "owned m' c = set (frames m)" using t pg alloc_zeroed_Some(1) [OF uspace_kinv [OF us] a] by (auto simp: owned_priv priv_def)
  have "same_pages (pages m p) m m'"
    unfolding same_pages_def
  proof (intro ballI allI impI)
    fix g b assume g: "g \<in> pages m p" "in_frame g b"
    have "g \<noteq> c" using g(1) S(3) by (auto simp: priv_def)
    then show "pw m' b = pw m b" using A(7) frames_disjoint [OF A(2) _ _ g(2)] page_frame [OF us g(1)] by auto
  qed
  then show "parent_kept p m m'" unfolding parent_kept_def using A(5,6) S(2) by simp
qed

section \<open>The trap frame\<close>

lemma copy_words:
  assumes "\<And>i j. i < n \<Longrightarrow> j < n \<Longrightarrow> src + 8 * i \<noteq> dst + 8 * j"
  shows "fold (\<lambda>i m. store (dst + 8 * i) (pw m (src + 8 * i)) m) [0..<n] m =
    m\<lparr>pw := (\<lambda>a. if \<exists>i < n. a = dst + 8 * i then pw m (src + (a - dst)) else pw m a)\<rparr>"
  using assms
proof (induction n)
  case (Suc n)
  let ?w = "\<lambda>n a. if \<exists>i < n. a = dst + 8 * i then pw m (src + (a - dst)) else pw m a"
  have "fold (\<lambda>i m. store (dst + 8 * i) (pw m (src + 8 * i)) m) [0..<Suc n] m =
      store (dst + 8 * n) (pw (m\<lparr>pw := ?w n\<rparr>) (src + 8 * n)) (m\<lparr>pw := ?w n\<rparr>)"
    using Suc.IH Suc.prems by simp
  also have "pw (m\<lparr>pw := ?w n\<rparr>) (src + 8 * n) = pw m (src + 8 * n)" using Suc.prems by auto
  also have "store (dst + 8 * n) (pw m (src + 8 * n)) (m\<lparr>pw := ?w n\<rparr>) = m\<lparr>pw := (?w n)(dst + 8 * n := pw m (src + 8 * n))\<rparr>"
    by (simp add: store_def)
  also have "(?w n)(dst + 8 * n := pw m (src + 8 * n)) = ?w (Suc n)" by (auto simp: fun_eq_iff less_Suc_eq)
  finally show ?case .
qed simp

lemma copy_trapframe_spec:
  assumes "frame_ok src" "frame_ok dst" "src \<noteq> dst"
  obtains w where "copy_trapframe src dst m = m\<lparr>pw := w\<rparr>" "\<forall>a. \<not> in_frame dst a \<longrightarrow> w a = pw m a"
    "\<And>i. i < TF_WORDS \<Longrightarrow> w (dst + 8 * i) = (if 8 * i = TF_A0 then 0 else pw m (src + 8 * i))"
proof -
  have inf: "in_frame f (f + 8 * i)" if "i < TF_WORDS" for f i using that by (simp add: in_frame_def PGSIZE_def TF_WORDS_def)
  then have ne: "src + 8 * i \<noteq> dst + 8 * j" if "i < TF_WORDS" "j < TF_WORDS" for i j
    using frames_disjoint [OF assms(1,2), of "src + 8 * i"] assms(3) that by metis
  define w where "w = (\<lambda>a. if \<exists>i < TF_WORDS. a = dst + 8 * i then pw m (src + (a - dst)) else pw m a)(dst + TF_A0 := 0)"
  have "fold (\<lambda>i m. store (dst + 8 * i) (pw m (src + 8 * i)) m) [0..<TF_WORDS] m =
      m\<lparr>pw := (\<lambda>a. if \<exists>i < TF_WORDS. a = dst + 8 * i then pw m (src + (a - dst)) else pw m a)\<rparr>"
    by (rule copy_words) (rule ne)
  then have "copy_trapframe src dst m = m\<lparr>pw := w\<rparr>"
    unfolding copy_trapframe_def by (simp only: w_def store_def) simp
  moreover have "\<forall>a. \<not> in_frame dst a \<longrightarrow> w a = pw m a"
    using inf by (auto simp: w_def in_frame_def TF_A0_def PGSIZE_def)
  moreover have "w (dst + 8 * i) = (if 8 * i = TF_A0 then 0 else pw m (src + 8 * i))" if "i < TF_WORDS" for i
    using that by (auto simp: w_def)
  ultimately show ?thesis by (rule that)
qed

section \<open>Fork\<close>

lemma copy_view:
  assumes us: "uspace p m" "uspace c m'" and v: "v < TRAPFRAME" and c: "copy_at p c m m' v"
  shows "user_word c v m' = user_word p v m \<and> map_option snd (translate c v m') = map_option snd (translate p v m)"
proof (cases "pte_is_valid (ent m p v)")
  case True
  then obtain f where f: "ent m' c v = make_leaf f (flags_perm (ent m p v))" "frame_ok f"
    "\<forall>i < PGSIZE. pw m' (f + i) = pw m (tgt (ent m p v) + i)" using c by (auto simp: copy_at_def)
  have t: "tgt (ent m' c v) = f" unfolding f(1) using f(2) by (intro make_leaf_pa) (auto simp: frame_ok_def)
  have "flags_perm e AND mask 4 = flags_perm e" for e
    by (rule bit_eqI) (auto simp: bit_and_iff bit_mask_iff flags_perm_bit)
  then have "flags_perm (ent m' c v) = flags_perm (ent m p v)" unfolding f(1) make_leaf_perm by simp
  then show ?thesis
    using translate_valid [OF us(1) v True] translate_valid [OF us(2) v] make_leaf_valid f(3) t
    by (simp add: f(1) user_word_def)
next
  case False
  then show ?thesis using c translate_none [OF us(1) v] translate_none [OF us(2) v] by (simp add: copy_at_def user_word_def)
qed

lemma stack_pages:
  assumes "v < TRAPFRAME"
  shows "(\<exists>i \<in> set [0..<STACK_PAGES]. v div PGSIZE = stack_va i div PGSIZE) \<longleftrightarrow> STACK_VA_BASE \<le> v"
proof -
  obtain k where k: "STACK_VA_BASE = PGSIZE * k"
    using stack_va(1) [of 0] by (auto simp: stack_va_def STACK_PAGES_def dvd_def)
  have top: "TRAPFRAME = PGSIZE * (k + STACK_PAGES)"
    using k by (simp add: STACK_VA_BASE_def STACK_VA_TOP_def STACK_PAGES_def TRAPFRAME_def TRAMPOLINE_def MAXVA_def PGSIZE_def)
  have d: "stack_va i div PGSIZE = k + i" for i using PGSIZE_pos by (simp add: stack_va_def k)
  have "v div PGSIZE < k + STACK_PAGES" using assms unfolding top by (simp add: div_less_iff_less_mult mult.commute)
  moreover have "STACK_VA_BASE \<le> v \<longleftrightarrow> k \<le> v div PGSIZE" unfolding k by (simp add: less_eq_div_iff_mult_less_eq mult.commute)
  ultimately show ?thesis unfolding d by (auto intro!: bexI [of _ "v div PGSIZE - k"])
qed

text \<open>The steps of \<open>fork_from_inner\<close> up to the trap frame.\<close>

definition fork_view :: "nat \<Rightarrow> nat \<Rightarrow> bool" where
  "fork_view sz v \<longleftrightarrow> page_down v < sz \<or> STACK_VA_BASE \<le> v"

lemma fork_inner_spec:
  assumes us: "uspace (proot par) m" and ok: "uproc_ok par" and f: "fork_from_inner tramp ptf par tf m = (Some c, m')"
  obtains m1 m5 where "m' = copy_trapframe ptf tf m5" "copied (proot par) c (fork_view (psize par)) m1 m5"
    "parent_kept (proot par) m m1" "owned m1 c = set (frames m)" "\<And>v. \<not> pte_is_valid (ent m1 c v)"
    "\<And>x. \<not> in_frame c x \<Longrightarrow> pw m1 x = pw m x" "c \<in> set (frames m)"
proof -
  let ?p = "proot par"
  obtain m1 m2 m3 m4 m5 where
    a: "alloc_zeroed m = (Some c, m1)" and k: "pt_map c TRAMPOLINE tramp PGSIZE RX m1 = (Inr (), m2)"
      "pt_map c TRAPFRAME tf PGSIZE RW m2 = (Inr (), m3)" and h: "fork_heap ?p c 0 (psize par) m3 = (True, m4)"
    and st: "fork_stack ?p c [0..<STACK_PAGES] m4 = (True, m5)" and m': "m' = copy_trapframe ptf tf m5"
    using f by (auto simp: fork_from_inner_def pt_new_def split: prod.splits sum.splits bool.splits option.splits)
  note N = new_table [OF us a]
  have al: "PGSIZE dvd TRAMPOLINE" "TRAPFRAME \<le> TRAMPOLINE" "TRAMPOLINE < MAXVA" "PGSIZE dvd TRAPFRAME" "TRAPFRAME < MAXVA"
    by (simp_all add: TRAPFRAME_def TRAMPOLINE_def MAXVA_def PGSIZE_def)
  note K1 = kernel_page [OF N(1) al(1-3) k(1)]
  note K2 = kernel_page [OF copiedD(1) [OF K1] al(4) order_refl al(5) k(2)]
  have K: "copied ?p c (\<lambda>_. False) m1 m3" using copied_trans [OF K1 K2] by simp
  have sz: "psize par \<le> STACK_VA_BASE - PGSIZE" "psize par \<le> TRAPFRAME" using ok layout_bounds(3) by (auto simp: uproc_ok_def)
  have lim: "v < TRAPFRAME" if "page_down v < psize par" for v
  proof -
    have "page_down v + PGSIZE \<le> TRAPFRAME" by (rule below_TRAPFRAME(2)) (use that sz(2) in simp_all)
    then show ?thesis using mod_less_divisor [of PGSIZE v] by (simp add: page_down_def del: mod_less_divisor)
  qed
  have "\<not> pte_is_valid (ent m3 c v)" if "page_down v < psize par" for v
    using K N(4) lim [OF that] by (simp add: copied_def)
  then have H: "copied ?p c (\<lambda>v. page_down v < psize par) m3 m4"
    using fork_heap_spec [OF copiedD(1) [OF K2] _ sz(2) _ h] by simp
  have S: "copied ?p c (\<lambda>v. \<exists>i \<in> set [0..<STACK_PAGES]. v div PGSIZE = stack_va i div PGSIZE) m4 m5"
    using fork_stack_spec [OF copiedD(1) [OF H] _ _ st] by (simp add: atLeast0LessThan)
  have S': "copied ?p c (\<lambda>v. STACK_VA_BASE \<le> v \<and> v < TRAPFRAME) m4 m5"
    using S stack_pages unfolding copied_def by auto
  have "\<not> (STACK_VA_BASE \<le> v \<and> v < TRAPFRAME)" if "page_down v < psize par" for v
  proof -
    have "page_down v < STACK_VA_BASE - PGSIZE" using that sz(1) by simp
    moreover have "v < page_down v + PGSIZE" using mod_less_divisor [of PGSIZE v] by (simp add: page_down_def del: mod_less_divisor)
    ultimately show ?thesis by linarith
  qed
  from copied_trans [OF copied_trans [OF K H] S'] this
  have "copied ?p c (\<lambda>v. page_down v < psize par \<or> STACK_VA_BASE \<le> v \<and> v < TRAPFRAME) m1 m5" by simp
  then have "copied ?p c (fork_view (psize par)) m1 m5" unfolding copied_def fork_view_def by auto
  moreover have "pw m1 x = pw m x" if "\<not> in_frame c x" for x using uspace_alloc(7) [OF us a] that by simp
  moreover have "c \<in> set (frames m)" using alloc_zeroed_Some(1) [OF uspace_kinv [OF us] a] by simp
  ultimately show ?thesis using m' N(2-4) by (intro that)
qed

section \<open>Progress\<close>

lemma map_page_progress:
  assumes tr: "sv.tree r m" and va: "PGSIZE dvd va" "va < MAXVA" "PGSIZE dvd f" and nv: "\<not> pte_is_valid (ent m r va)"
    and fr: "2 \<le> length (frames m)"
  shows "\<exists>m'. pt_map r va f PGSIZE perm m = (Inr (), m') \<and> length (frames m) \<le> length (frames m') + 2"
proof -
  have n0: "sv.node (pw m) r [] = Some r" "ipath 2 []" by (auto simp: ipath_def)
  obtain p m1 where w: "walk_levels True sv_levels va r m = (Some p, m1)" and fl: "length (frames m) \<le> length (frames m1) + 2"
    using sv.wl_progress [of r m "[]" r sv_levels va] tr n0 fr by auto
  have n1: "length ([] :: nat list) + length sv_levels = 2" "ipath (length sv_levels) []" by (simp_all add: ipath_def)
  note K = sv.wl_alloc [OF tr n0(1) n1(2) _ w]
  have K': "sv.keeps r m m1" "\<exists>y. sv.node (pw m1) r (idx_path sv_levels va) = Some y \<and> p = y + 8 * pte_index 0 va"
    using K by auto
  then obtain y where y: "sv.node (pw m1) r (idx_path sv_levels va) = Some y" "p = y + 8 * pte_index 0 va" by blast
  have tr1: "sv.tree r m1" using K'(1) by (simp add: sv.keeps_def)
  have nv1: "\<not> pte_is_valid (pw m1 p)" using nv sv.entry_at_node [OF y(1)] sv.keeps_entry [OF K'(1), of va] y(2) by simp
  let ?m2 = "store p (make_leaf f perm) m1"
  have "frames ?m2 = frames m1" using sv.entry_store(3) [OF tr1 y(1) va(2)] y(2) by simp
  moreover have lim: "va + PGSIZE \<le> MAXVA" using va by (auto simp: MAXVA_def PGSIZE_def dvd_def)
  have "map_loop perm r va f (va + PGSIZE) m = (Inr (), ?m2)"
    using w nv1 va by (simp add: map_loop.simps [of perm r va] map_loop.simps [of perm r "va + PGSIZE"] walk_pt_def)
  then have "pt_map r va f PGSIZE perm m = (Inr (), ?m2)"
    using va lim PGSIZE_pos MAXVA_def by (auto simp: pt_map_def mod_eq_0_iff_dvd)
  ultimately show ?thesis using fl by auto
qed

lemma alloc_progress:
  assumes "kinv m" "0 < length (frames m)"
  shows "\<exists>f m1. alloc_zeroed m = (Some f, m1) \<and> length (frames m) = Suc (length (frames m1))"
proof -
  obtain x m1 where a: "alloc_zeroed m = (x, m1)" by fastforce
  then obtain f where "x = Some f" using alloc_zeroed_None [OF assms(1), of m1] assms(2) by (cases x) auto
  then show ?thesis using a alloc_zeroed_Some(1) [OF assms(1), of f m1] by auto
qed

lemma fork_page_progress:
  assumes du: "duo p c m" and va: "PGSIZE dvd va" "va < TRAPFRAME" and nv: "\<not> pte_is_valid (ent m c va)"
    and fr: "3 \<le> length (frames m)"
  shows "\<exists>m'. fork_page c va pa perm m = (True, m') \<and> length (frames m) \<le> length (frames m') + 3"
proof -
  have us: "uspace c m" using du by (simp add: duo_def)
  obtain f m1 where a: "alloc_zeroed m = (Some f, m1)" and l: "length (frames m) = Suc (length (frames m1))"
    using alloc_progress [OF uspace_kinv [OF us]] fr by (metis less_le_trans zero_less_numeral)
  define w where "w = pw (copy_page pa f m1)"
  have w: "\<forall>a. \<not> in_frame f a \<longrightarrow> w a = pw m1 a" by (auto simp: w_def copy_page_def in_frame_def)
  have m2: "copy_page pa f m1 = m1\<lparr>pw := w\<rparr>" by (simp add: w_def copy_page_def)
  note C = space_new_frame [OF us a w]
  have l2: "length (frames m) = Suc (length (frames (m1\<lparr>pw := w\<rparr>)))" using C(5) by simp
  have "PGSIZE dvd f" using C(9) by (simp add: frame_ok_def)
  from map_page_progress [OF uspaceD(1) [OF C(1)] va(1) below_TRAPFRAME(1) [OF va(2)] this, of perm]
  obtain m3 where "pt_map c va f PGSIZE perm (m1\<lparr>pw := w\<rparr>) = (Inr (), m3)" "length (frames (m1\<lparr>pw := w\<rparr>)) \<le> length (frames m3) + 2"
    using nv C(2) l2 fr by auto
  then show ?thesis using a m2 l2 by (auto simp: fork_page_def)
qed

lemma fork_heap_progress:
  assumes "duo p c m" "PGSIZE dvd va" "code_end \<le> TRAPFRAME"
    and "\<And>v. va \<le> v \<Longrightarrow> page_down v < code_end \<Longrightarrow> \<not> pte_is_valid (ent m c v)"
    and "3 * ((code_end - va + PGSIZE - 1) div PGSIZE) \<le> length (frames m)"
  shows "\<exists>m'. fork_heap p c va code_end m = (True, m') \<and>
    length (frames m) \<le> length (frames m') + 3 * ((code_end - va + PGSIZE - 1) div PGSIZE)"
  using assms
proof (induction p c va code_end m rule: fork_heap.induct)
  case (1 p c va code_end m)
  note du = "1.prems"(1) and va = "1.prems"(2)
  have us: "uspace p m" "uspace c m" using du by (auto simp: duo_def)
  show ?case
  proof (cases "va < code_end")
    case False
    then show ?thesis by (simp add: fork_heap.simps [of p c va])
  next
    case True
    let ?n = "(code_end - (va + PGSIZE) + PGSIZE - 1) div PGSIZE"
    have n: "(code_end - va + PGSIZE - 1) div PGSIZE = Suc ?n"
    proof (cases "va + PGSIZE \<le> code_end")
      case le: True
      then have "code_end - va + PGSIZE - 1 = (code_end - (va + PGSIZE) + PGSIZE - 1) + PGSIZE" using PGSIZE_pos by simp
      then show ?thesis by (metis PGSIZE_pos div_add_self2 Suc_eq_plus1 less_irrefl)
    next
      case False
      then have "code_end - va + PGSIZE - 1 = (code_end - va - 1) + PGSIZE" "code_end - va - 1 < PGSIZE" "?n = 0"
        using True PGSIZE_pos by (simp_all add: div_eq_0_iff)
      then show ?thesis by (metis PGSIZE_pos div_add_self2 Suc_eq_plus1 less_irrefl div_less)
    qed
    have vt: "va < TRAPFRAME" using True "1.prems"(3) by simp
    have dvd: "PGSIZE dvd va + PGSIZE" using va by simp
    have pd: "page_down va = va" using va by (simp add: page_down_def dvd_eq_mod_eq_0)
    show ?thesis
    proof (cases "pte_is_valid (ent m p va)")
      case False
      then have t: "translate p va m = None" using translate_page [OF us(1) va vt] by simp
      have "\<exists>m'. fork_heap p c (va + PGSIZE) code_end m = (True, m') \<and> length (frames m) \<le> length (frames m') + 3 * ?n"
        by (rule "1.IH"(1) [OF True t du dvd "1.prems"(3)]) (use "1.prems"(4,5) n in simp_all)
      then show ?thesis using True t n by (auto simp: fork_heap.simps [of p c va])
    next
      case val: True
      let ?pa = "tgt (ent m p va)" and ?perm = "flags_perm (ent m p va)"
      have t: "translate p va m = Some (?pa, ?perm)" using translate_page [OF us(1) va vt] val by simp
      obtain m1 where fp: "fork_page c va ?pa ?perm m = (True, m1)" and l: "length (frames m) \<le> length (frames m1) + 3"
        using fork_page_progress [OF du va vt] "1.prems"(4) [of va] "1.prems"(5) True pd n by auto
      have C: "copied p c (\<lambda>v. v div PGSIZE = va div PGSIZE) m m1" using fork_page_spec [OF du va vt val fp] by simp
      have "\<not> pte_is_valid (ent m1 c v)" if v: "va + PGSIZE \<le> v" "page_down v < code_end" for v
      proof -
        have "page_down v + PGSIZE \<le> TRAPFRAME" by (rule below_TRAPFRAME(2)) (use v(2) "1.prems"(3) in simp_all)
        then have "v < TRAPFRAME" using mod_less_divisor [of PGSIZE v] by (simp add: page_down_def del: mod_less_divisor)
        moreover have "v div PGSIZE \<noteq> va div PGSIZE" using v(1) sv.page_step [OF va, of v] by simp
        ultimately have "ent m1 c v = ent m c v" using C unfolding copied_def by simp
        then show ?thesis using "1.prems"(4) [of v] v by simp
      qed
      then have "\<exists>m'. fork_heap p c (va + PGSIZE) code_end m1 = (True, m') \<and> length (frames m1) \<le> length (frames m') + 3 * ?n"
        by (intro "1.IH"(2) [OF True t refl fp[symmetric] refl copiedD(1) [OF C] dvd "1.prems"(3)]) (use "1.prems"(5) n l in simp_all)
      then show ?thesis using True t fp n l by (auto simp: fork_heap.simps [of p c va])
    qed
  qed
qed

lemma fork_stack_progress:
  assumes "duo p c m" "set is \<subseteq> {..<STACK_PAGES}" "distinct is" "3 * length is \<le> length (frames m)"
    and "\<And>i. i \<in> set is \<Longrightarrow> pte_is_valid (ent m p (stack_va i)) \<and> \<not> pte_is_valid (ent m c (stack_va i))"
  shows "\<exists>m'. fork_stack p c is m = (True, m')"
  using assms
proof (induction "is" arbitrary: m)
  case (Cons i js)
  note du = Cons.prems(1)
  have us: "uspace p m" using du by (simp add: duo_def)
  have i: "i < STACK_PAGES" using Cons.prems(2) by simp
  note va = stack_va(1,2) [OF i]
  have val: "pte_is_valid (ent m p (stack_va i))" "\<not> pte_is_valid (ent m c (stack_va i))" using Cons.prems(5) by auto
  let ?pa = "tgt (ent m p (stack_va i))" and ?perm = "flags_perm (ent m p (stack_va i))"
  obtain m1 where fp: "fork_page c (stack_va i) ?pa ?perm m = (True, m1)" and l: "length (frames m) \<le> length (frames m1) + 3"
    using fork_page_progress [OF du va val(2)] Cons.prems(4) by auto
  have C: "copied p c (\<lambda>v. v div PGSIZE = stack_va i div PGSIZE) m m1" using fork_page_spec [OF du va val(1) fp] by simp
  have "pte_is_valid (ent m1 p (stack_va j)) \<and> \<not> pte_is_valid (ent m1 c (stack_va j))" if j: "j \<in> set js" for j
  proof -
    have jl: "j < STACK_PAGES" "j \<noteq> i" using j Cons.prems(2,3) by auto
    then have "ent m1 c (stack_va j) = ent m c (stack_va j)" "ent m1 p (stack_va j) = ent m p (stack_va j)"
      using C stack_va(2) [OF jl(1)] stack_va(4) [OF jl(1), of i] by (simp_all add: copied_def parent_kept_def)
    then show ?thesis using Cons.prems(5) [of j] j by simp
  qed
  then obtain m' where "fork_stack p c js m1 = (True, m')"
    using Cons.IH [OF copiedD(1) [OF C]] Cons.prems(2-4) l by auto
  moreover have "fork_stack p c (i # js) m = fork_stack p c js m1"
    using translate_page [OF us va] val fp by (simp add: Let_def stack_va_def)
  ultimately show ?case by simp
qed simp

section \<open>Properties\<close>

lemma fill_pages:
  assumes us: "uspace r m" and f: "frame_ok f" "f \<notin> owned m r" and w: "\<forall>a. \<not> in_frame f a \<longrightarrow> w a = pw m a"
  shows "same_pages (pages m r) m (m\<lparr>pw := w\<rparr>)"
  unfolding same_pages_def
proof (intro ballI allI impI)
  fix g a assume g: "g \<in> pages m r" "in_frame g a"
  then have "\<not> in_frame f a" using frames_disjoint [OF f(1) _ _ g(2)] page_frame [OF us g(1)] f(2) by (auto simp: owned_def)
  then show "pw (m\<lparr>pw := w\<rparr>) a = pw m a" using w by simp
qed

text \<open>C13. \<open>fork\<close> gives the child its own copy of the address space. When it succeeds, every user address
  below the break and every stack address reads the same in the child as it did in the parent and
  has the same rights, every other user address is unmapped; the child's pages and tables are frames
  taken from the pool, disjoint from the parent's, and pool, child and the new trap frame together are
  exactly the old pool; the parent sees the same memory as before; and the child's trap frame is the
  parent's with a return value of 0.\<close>

theorem fork_copies_space:
  assumes us: "uspace (proot par) m" and ok: "uproc_ok par" and ptf: "frame_ok ptf" "ptf \<notin> owned m (proot par)"
    and f: "fork_from live tramp ptf par m = (Some (c, tf), m')"
  shows "uspace c m' \<and> uspace (proot par) m' \<and> priv m' (proot par) \<inter> priv m' c = {} \<and>
    insert tf (owned m' c) = set (frames m) \<and> tf \<notin> owned m' c \<and>
    (\<forall>v < TRAPFRAME. translate (proot par) v m' = translate (proot par) v m \<and> user_word (proot par) v m' = user_word (proot par) v m) \<and>
    (\<forall>v < TRAPFRAME. if page_down v < psize par \<or> STACK_VA_BASE \<le> v
       then user_word c v m' = user_word (proot par) v m \<and>
         map_option snd (translate c v m') = map_option snd (translate (proot par) v m)
       else translate c v m' = None) \<and>
    (\<forall>i < TF_WORDS. pw m' (tf + 8 * i) = (if 8 * i = TF_A0 then 0 else pw m (ptf + 8 * i)))"
proof -
  let ?p = "proot par"
  obtain m0 where a: "alloc_zeroed m = (Some tf, m0)" and i: "fork_from_inner tramp ptf par tf m0 = (Some c, m')"
    using f by (auto simp: fork_from_def split: if_splits prod.splits option.splits)
  note A = uspace_alloc [OF us a]
  have fr: "frames m = tf # frames m0" "tf \<notin> set (frames m0)"
    using alloc_zeroed_Some(1) [OF uspace_kinv [OF us] a] uspace_kinv [OF us] by (auto simp: kinv_def)
  obtain m1 m5 where m': "m' = copy_trapframe ptf tf m5" and C: "copied ?p c (fork_view (psize par)) m1 m5"
    and pk: "parent_kept ?p m0 m1" and ow: "owned m1 c = set (frames m0)" and nv: "\<And>v. \<not> pte_is_valid (ent m1 c v)"
    and pw1: "\<And>x. \<not> in_frame c x \<Longrightarrow> pw m1 x = pw m0 x" and cf: "c \<in> set (frames m0)"
    by (rule fork_inner_spec [OF A(1) ok i]) blast
  have us5: "uspace ?p m5" "uspace c m5" "priv m5 ?p \<inter> priv m5 c = {}" using C by (auto simp: copied_def duo_def)
  have pk1: "parent_kept ?p m m1" by (rule parent_kept_trans [OF new_table(2) [OF us a] pk])
  have pk5: "parent_kept ?p m m5" by (rule parent_kept_trans [OF pk1 copiedD(2) [OF C]])
  have ow5: "owned m5 c = set (frames m0)" using C ow by (simp add: copied_def)
  then have tc: "tf \<notin> owned m5 c" "set (frames m5) \<subseteq> set (frames m0)" using fr by (auto simp: owned_priv)
  have "priv m5 ?p = priv m0 ?p" using pk C by (simp add: copied_def parent_kept_def)
  then have tp: "tf \<notin> owned m5 ?p" using A(3) tc(2) fr(2) by (auto simp: owned_priv)
  have ne: "ptf \<noteq> tf" using ptf(2) A(4) by auto
  obtain w where w: "m' = m5\<lparr>pw := w\<rparr>" "\<forall>a. \<not> in_frame tf a \<longrightarrow> w a = pw m5 a"
    "\<And>i. i < TF_WORDS \<Longrightarrow> w (tf + 8 * i) = (if 8 * i = TF_A0 then 0 else pw m5 (ptf + 8 * i))"
    by (rule copy_trapframe_spec [OF ptf(1) A(2) ne, of m5]) (use m' in simp)
  note Wc = fill_uspace [OF us5(2) A(2) tc(1) w(2), folded w(1)] and Wp = fill_uspace [OF us5(1) A(2) tp w(2), folded w(1)]
  note Pc = space_fill [OF us5(2) A(2) tc(1) w(2), folded w(1)] and Pp = space_fill [OF us5(1) A(2) tp w(2), folded w(1)]
  note Sc = fill_pages [OF us5(2) A(2) tc(1) w(2), folded w(1)] and Sp = fill_pages [OF us5(1) A(2) tp w(2), folded w(1)]
  have par: "translate ?p v m' = translate ?p v m \<and> user_word ?p v m' = user_word ?p v m" if v: "v < TRAPFRAME" for v
  proof -
    have "same_pages (pages m ?p \<inter> pages m' ?p) m m'"
      using pk5 Sp by (auto simp: parent_kept_def intro: same_pages_trans)
    moreover have "ent m' ?p v = ent m ?p v" using Wp(4) pk5 v by (simp add: parent_kept_def)
    ultimately show ?thesis using view_same [OF us Wp(1) v] by blast
  qed
  have child: "if page_down v < psize par \<or> STACK_VA_BASE \<le> v
       then user_word c v m' = user_word ?p v m \<and> map_option snd (translate c v m') = map_option snd (translate ?p v m)
       else translate c v m' = None" if v: "v < TRAPFRAME" for v
  proof (cases "fork_view (psize par) v")
    case True
    then have "copy_at ?p c m1 m5 v" using C v by (simp add: copied_def)
    then have "copy_at ?p c m m' v" using copy_at_post [OF v copy_at_pre [OF v _ pk1] Wc(4) Sc] by blast
    then show ?thesis using copy_view [OF us Wc(1) v] True by (simp add: fork_view_def)
  next
    case False
    then have "ent m' c v = ent m1 c v" using C v Wc(4) by (simp add: copied_def)
    then show ?thesis using False nv translate_none [OF Wc(1) v] by (simp add: fork_view_def)
  qed
  have "pw m' (tf + 8 * i) = (if 8 * i = TF_A0 then 0 else pw m (ptf + 8 * i))" if i: "i < TF_WORDS" for i
  proof -
    have inf: "in_frame ptf (ptf + 8 * i)" using i by (simp add: in_frame_def PGSIZE_def TF_WORDS_def)
    have other: "\<not> in_frame g (ptf + 8 * i)" if "g \<in> set (frames m)" for g
      using frames_disjoint [OF _ ptf(1) _ inf] owned_frame [OF us] ptf(2) that by (auto simp: owned_priv)
    then have "apart m1 c (ptf + 8 * i)" using ow fr(1) by (simp add: apart_def)
    then have "pw m5 (ptf + 8 * i) = pw m1 (ptf + 8 * i)" using C by (simp add: copied_def)
    also have "\<dots> = pw m0 (ptf + 8 * i)" using pw1 other cf fr(1) by simp
    also have "\<dots> = pw m (ptf + 8 * i)" using A(7) other fr(1) by simp
    finally show ?thesis using w(1) w(3) [OF i] by simp
  qed
  moreover have "priv m' ?p \<inter> priv m' c = {}" using us5(3) Pc(1) Pp(1) by simp
  moreover have "insert tf (owned m' c) = set (frames m)" "tf \<notin> owned m' c" using Wc(2) ow5 fr tc(1) by auto
  ultimately show ?thesis using Wc(1) Wp(1) par child by blast
qed

lemma fork_progress:
  assumes us: "uspace (proot par) m" and ok: "uproc_ok par" and live: "live < NPROC" and tr: "PGSIZE dvd tramp"
    and st: "\<And>i. i < STACK_PAGES \<Longrightarrow> translate (proot par) (STACK_VA_BASE + i * PGSIZE) m \<noteq> None"
    and fr: "30 + 3 * ((psize par + PGSIZE - 1) div PGSIZE) \<le> length (frames m)"
  shows "\<exists>c tf m'. fork_from live tramp ptf par m = (Some (c, tf), m')"
proof -
  let ?p = "proot par" and ?n = "3 * ((psize par + PGSIZE - 1) div PGSIZE)"
  obtain tf m0 where a0: "alloc_zeroed m = (Some tf, m0)" and l0: "29 + ?n \<le> length (frames m0)"
    using alloc_progress [OF uspace_kinv [OF us]] fr by fastforce
  note A = uspace_alloc [OF us a0]
  obtain c m1 where a1: "alloc_zeroed m0 = (Some c, m1)" and l1: "28 + ?n \<le> length (frames m1)"
    using alloc_progress [OF uspace_kinv [OF A(1)]] l0 by fastforce
  note N = new_table [OF A(1) a1]
  have al: "PGSIZE dvd TRAMPOLINE" "TRAPFRAME \<le> TRAMPOLINE" "TRAMPOLINE < MAXVA" "PGSIZE dvd TRAPFRAME" "TRAPFRAME < MAXVA" "TRAPFRAME < TRAMPOLINE"
    by (simp_all add: TRAPFRAME_def TRAMPOLINE_def MAXVA_def PGSIZE_def)
  have t1: "sv.tree c m1" using N(1) uspaceD(1) by (simp add: duo_def)
  obtain m2 where k1: "pt_map c TRAMPOLINE tramp PGSIZE RX m1 = (Inr (), m2)" and l2: "26 + ?n \<le> length (frames m2)"
    using map_page_progress [OF t1 al(1,3) tr N(4), of RX] l1 by fastforce
  note K1 = kernel_page [OF N(1) al(1-3) k1]
  have t2: "sv.tree c m2" using copiedD(1) [OF K1] uspaceD(1) by (simp add: duo_def)
  have "sv.mapped RX c TRAMPOLINE (TRAMPOLINE + PGSIZE) tramp m1 m2" using pt_map_page [OF t1 al(1,3) k1] by simp
  then have "\<not> pte_is_valid (ent m2 c TRAPFRAME)" using al(5,6) N(4) by (simp add: sv.mapped_def)
  moreover have "PGSIZE dvd tf" using A(2) by (simp add: frame_ok_def)
  ultimately obtain m3 where k2: "pt_map c TRAPFRAME tf PGSIZE RW m2 = (Inr (), m3)" and l3: "24 + ?n \<le> length (frames m3)"
    using map_page_progress [OF t2 al(4,5), of tf RW] l2 by fastforce
  note K2 = kernel_page [OF copiedD(1) [OF K1] al(4) order_refl al(5) k2]
  have K: "copied ?p c (\<lambda>_. False) m1 m3" using copied_trans [OF K1 K2] by simp
  have sz: "psize par \<le> STACK_VA_BASE - PGSIZE" "psize par \<le> TRAPFRAME" using ok layout_bounds(3) by (auto simp: uproc_ok_def)
  have inv: "\<not> pte_is_valid (ent m3 c v)" if "v < TRAPFRAME" for v using K N(4) that by (simp add: copied_def)
  have lim: "v < TRAPFRAME" if "page_down v < psize par" for v
  proof -
    have "page_down v + PGSIZE \<le> TRAPFRAME" by (rule below_TRAPFRAME(2)) (use that sz(2) in simp_all)
    then show ?thesis using mod_less_divisor [of PGSIZE v] by (simp add: page_down_def del: mod_less_divisor)
  qed
  obtain m4 where h: "fork_heap ?p c 0 (psize par) m3 = (True, m4)" and l4: "24 \<le> length (frames m4)"
    using fork_heap_progress [OF copiedD(1) [OF K2] dvd_0_right sz(2)] inv lim l3 by fastforce
  have H: "copied ?p c (\<lambda>v. 0 \<le> v \<and> page_down v < psize par) m3 m4"
    using fork_heap_spec [OF copiedD(1) [OF K2] dvd_0_right sz(2) _ h] inv lim by simp
  have pk: "parent_kept ?p m m4"
    using parent_kept_trans [OF parent_kept_trans [OF new_table(2) [OF us a0] N(2)] parent_kept_trans [OF copiedD(2) [OF K] copiedD(2) [OF H]]] .
  have "pte_is_valid (ent m4 ?p (stack_va i)) \<and> \<not> pte_is_valid (ent m4 c (stack_va i))" if i: "i < STACK_PAGES" for i
  proof -
    note va = stack_va [OF i]
    have "pte_is_valid (ent m ?p (stack_va i))" using st [OF i] translate_none [OF us va(2)] unfolding stack_va_def by metis
    moreover have "page_down (stack_va i) = stack_va i" using va(1) by (simp add: page_down_def dvd_eq_mod_eq_0)
    then have "ent m4 c (stack_va i) = ent m3 c (stack_va i)" using H va(2,3) sz(1) by (simp add: copied_def)
    ultimately show ?thesis using pk inv [OF va(2)] va(2) by (simp add: parent_kept_def)
  qed
  then obtain m5 where s: "fork_stack ?p c [0..<STACK_PAGES] m4 = (True, m5)"
    using fork_stack_progress [OF copiedD(1) [OF H], of "[0..<STACK_PAGES]"] l4 by (fastforce simp: STACK_PAGES_def)
  have "fork_from_inner tramp ptf par tf m0 = (Some c, copy_trapframe ptf tf m5)"
    using a1 k1 k2 h s by (simp add: fork_from_inner_def pt_new_def)
  then show ?thesis using live a0 by (simp add: fork_from_def)
qed

text \<open>\<open>fork\<close> succeeds whenever it should: below the process limit, with the stack mapped and with three
  free frames per page to copy (the page and at most two tables) and thirty for the trap frame, the
  root, the kernel mappings and the stack, it returns a child.\<close>

lemma fork_succeeds:
  assumes us: "uspace (proot par) m" and ok: "uproc_ok par" and live: "live < NPROC" and tr: "PGSIZE dvd tramp"
    and st: "\<And>i. i < STACK_PAGES \<Longrightarrow> translate (proot par) (STACK_VA_BASE + i * PGSIZE) m \<noteq> None"
    and fr: "30 + 3 * ((psize par + PGSIZE - 1) div PGSIZE) \<le> length (frames m)"
  shows "\<exists>c tf m'. fork_from live tramp ptf par m = (Some (c, tf), m')"
  using fork_progress [OF assms] .

section \<open>Witnesses\<close>

text \<open>A pool of ninety-nine frames and a process with nothing but its stack.\<close>

definition fork_pool :: pmem where
  "fork_pool = add_range 4096 409600 (kalloc_new (\<lambda>_. 0))"

lemma fork_pool_inv: "kinv fork_pool" "length (frames fork_pool) = 99" "set (frames fork_pool) \<subseteq> {..409600}"
proof -
  have "(0 :: nat) < 4096" "(409600 :: nat) \<le> 2 ^ 48" by simp_all
  note R = add_range_new [OF this, of "\<lambda>_. 0", folded fork_pool_def]
  show k: "kinv fork_pool" by (rule R)
  have "{f. PGSIZE dvd f \<and> 4096 \<le> f \<and> f + PGSIZE \<le> 409600} = (\<lambda>i. PGSIZE * i) ` {1..99}"
  proof (intro set_eqI iffI)
    fix f assume f: "f \<in> {f. PGSIZE dvd f \<and> 4096 \<le> f \<and> f + PGSIZE \<le> 409600}"
    then obtain i where "f = PGSIZE * i" by (auto simp: dvd_def)
    then show "f \<in> (\<lambda>i. PGSIZE * i) ` {1..99}" using f by (auto simp: PGSIZE_def)
  qed (auto simp: PGSIZE_def)
  then have S: "set (frames fork_pool) = (\<lambda>i. PGSIZE * i) ` {1..99}" using R(2) by simp
  moreover have "inj_on (\<lambda>i. PGSIZE * i) {1..99}" by (auto simp: inj_on_def PGSIZE_def)
  ultimately have "card (set (frames fork_pool)) = 99" by (simp add: card_image)
  then show "length (frames fork_pool) = 99" using k distinct_card [of "frames fork_pool"] by (simp add: kinv_def)
  show "set (frames fork_pool) \<subseteq> {..409600}" unfolding S by (auto simp: PGSIZE_def)
qed

lemma map_stack:
  assumes us: "uspace r m" and nv: "\<And>v. \<not> pte_is_valid (ent m r v)" and k: "k \<le> STACK_PAGES"
  shows "3 * k \<le> length (frames m) \<Longrightarrow> \<exists>m'. vmrel r m m' \<and> length (frames m) \<le> length (frames m') + 3 * k \<and>
    (\<forall>i < STACK_PAGES. pte_is_valid (ent m' r (stack_va i)) \<longleftrightarrow> i < k)"
  using k
proof (induction k)
  case 0
  then show ?case using vmrel_refl [OF us] nv by (intro exI [of _ m]) simp
next
  case (Suc k)
  then obtain m1 where m1: "vmrel r m m1" "length (frames m) \<le> length (frames m1) + 3 * k"
    "\<forall>i < STACK_PAGES. pte_is_valid (ent m1 r (stack_va i)) \<longleftrightarrow> i < k" by auto
  have us1: "uspace r m1" by (rule vmrelD [OF m1(1)])
  have ks: "k < STACK_PAGES" using Suc.prems by simp
  note va = stack_va [OF ks]
  obtain f m2 where a: "alloc_zeroed m1 = (Some f, m2)" and l: "length (frames m1) = Suc (length (frames m2))"
    using alloc_progress [OF uspace_kinv [OF us1]] m1(2) Suc.prems(1) by fastforce
  note A = uspace_alloc [OF us1 a]
  have "\<not> pte_is_valid (ent m2 r (stack_va k))" using A(5) m1(3) ks by simp
  moreover have "PGSIZE dvd f" using A(2) by (simp add: frame_ok_def)
  ultimately obtain m3 where mp: "pt_map r (stack_va k) f PGSIZE URW m2 = (Inr (), m3)" and l3: "length (frames m2) \<le> length (frames m3) + 2"
    using map_page_progress [OF uspaceD(1) [OF A(1)] va(1) below_TRAPFRAME(1) [OF va(2)], of f URW] l m1(2) Suc.prems(1) by auto
  have mf: "map_or_free r (stack_va k) f URW (m2\<lparr>pw := pw m2\<rparr>) = (True, m3)" using mp by (simp add: map_or_free_def)
  have "\<forall>a. \<not> in_frame f a \<longrightarrow> pw m2 a = pw m2 a" by simp
  note P = page_in [OF us1 a this va(1,2) uperm_URW(1) mf]
  have "pte_is_valid (ent m3 r (stack_va i)) \<longleftrightarrow> i < Suc k" if i: "i < STACK_PAGES" for i
    using P(5) [OF stack_va(2) [OF i]] m1(3) i stack_va(4) [OF i, of k] make_leaf_valid by auto
  then show ?case using vmrel_trans [OF m1(1) P(1)] m1(2) l l3 by (intro exI [of _ m3]) auto
qed

lemma demo_fork:
  obtains r m where "uspace r m" "uproc_ok (demo_uproc r)" "\<And>i. i < STACK_PAGES \<Longrightarrow> translate r (STACK_VA_BASE + i * PGSIZE) m \<noteq> None"
    "30 \<le> length (frames m)" "owned m r \<subseteq> {..409600}"
proof -
  obtain r m0 where a: "alloc_zeroed fork_pool = (Some r, m0)" and l: "length (frames m0) = 98"
    using alloc_progress [OF fork_pool_inv(1)] fork_pool_inv(2) by auto
  note N = sv.new_tree [OF fork_pool_inv(1) a]
  have nv: "\<not> pte_is_valid (ent m0 r v)" for v using N(2) [of v] sv.valid0 by auto
  then have us: "uspace r m0" using N(1) by (simp add: uspace_def)
  obtain m where m: "vmrel r m0 m" "74 \<le> length (frames m)" "\<forall>i < STACK_PAGES. pte_is_valid (ent m r (stack_va i))"
    using map_stack [OF us nv order_refl] l by (auto simp: STACK_PAGES_def)
  have t: "translate r (STACK_VA_BASE + i * PGSIZE) m \<noteq> None" if "i < STACK_PAGES" for i
    using m(3) that translate_none [OF vmrelD [OF m(1)] stack_va(2) [OF that]] unfolding stack_va_def by metis
  have "owned m0 r \<subseteq> set (frames fork_pool)"
    using alloc_zeroed_Some(1) [OF fork_pool_inv(1) a] N(3) nv by (auto simp: owned_priv priv_def tables_def pages_def)
  then have "owned m r \<subseteq> {..409600}" using m(1) fork_pool_inv(3) by (auto simp: vmrel_def)
  then show ?thesis using that vmrelD [OF m(1)] demo_uproc_ok(1) t m(2) by simp
qed

theorem fork_copies_space_witness:
  "\<exists>r m c tf m'. fork_from 3 0x80000000 (2 ^ 40) (demo_uproc r) m = (Some (c, tf), m') \<and> uspace c m' \<and>
     user_word c STACK_VA_BASE m' = user_word r STACK_VA_BASE m \<and> user_word r STACK_VA_BASE m \<noteq> None \<and> pw m' (tf + 112) = 0"
proof -
  obtain r m where d: "uspace r m" "uproc_ok (demo_uproc r)" "\<And>i. i < STACK_PAGES \<Longrightarrow> translate r (STACK_VA_BASE + i * PGSIZE) m \<noteq> None"
    "30 \<le> length (frames m)" "owned m r \<subseteq> {..409600}" by (rule demo_fork) blast
  have "30 + 3 * ((psize (demo_uproc r) + PGSIZE - 1) div PGSIZE) \<le> length (frames m)"
    using d(4) by (simp add: demo_uproc_ok PGSIZE_def)
  then obtain c tf m' where f: "fork_from 3 0x80000000 (2 ^ 40) (demo_uproc r) m = (Some (c, tf), m')"
    using fork_progress [of "demo_uproc r" m 3 "0x80000000" "2 ^ 40"] d by (auto simp: demo_uproc_ok NPROC_def PGSIZE_def)
  have p: "frame_ok (2 ^ 40)" "2 ^ 40 \<notin> owned m (proot (demo_uproc r))"
    using d(5) by (auto simp: frame_ok_def PGSIZE_def demo_uproc_ok)
  have us: "uspace (proot (demo_uproc r)) m" using d(1) by (simp add: demo_uproc_ok)
  note F = fork_copies_space [OF us d(2) p f]
  have v: "STACK_VA_BASE < TRAPFRAME" using stack_va(2) [of 0] by (simp add: stack_va_def STACK_PAGES_def)
  have "user_word r STACK_VA_BASE m \<noteq> None" using d(3) [of 0] by (simp add: user_word_def STACK_PAGES_def)
  moreover have "(14 :: nat) < TF_WORDS" "8 * 14 = TF_A0" by (simp_all add: TF_WORDS_def TF_A0_def)
  then have "pw m' (tf + 112) = 0" using F by fastforce
  moreover have "user_word c STACK_VA_BASE m' = user_word r STACK_VA_BASE m" "uspace c m'"
    using F v by (simp_all add: demo_uproc_ok)
  ultimately show ?thesis using f by blast
qed

end
