(* ===== verification/Console.thy ===== *)
theory Console
  imports Pipe "HOL-Library.Multiset"
begin

text \<open>
  Console input (\<open>console_in.rs\<close>) and the read path of \<open>syscall.rs\<close> over it: the line discipline that the
  receive interrupt runs, the queue of cooked bytes, and the blocking and non-blocking read loops. The
  first part shows what readers get of what was typed; the second interleaves interrupts and readers
  at every shared access, as for pipes.
\<close>

section \<open>The line discipline\<close>

definition CON_CAP :: nat where "CON_CAP = 256"
definition EOF_SENTINEL :: byte where "EOF_SENTINEL = 0x04"

record console =
  cooked :: "byte list"
  edit :: "byte list"
  reader :: "tid list"
  cqueue :: "tid list"
  cout :: "byte list"

definition console_new :: console where
  "console_new = \<lparr>cooked = [], edit = [], reader = [], cqueue = [], cout = []\<rparr>"

definition echo :: "byte \<Rightarrow> console \<Rightarrow> console" where
  "echo c k = k\<lparr>cout := cout k @ [c]\<rparr>"

definition rubout :: "console \<Rightarrow> console" where
  "rubout k = echo 0x08 (echo 0x20 (echo 0x08 k))"

definition con_wake :: "console \<Rightarrow> console" where
  "con_wake k = (let (l, woken) = list_wake_all (reader k) in k\<lparr>reader := l, cqueue := cqueue k @ woken\<rparr>)"

function kill_line :: "console \<Rightarrow> console" where
  "kill_line k = (if edit k = [] then k else kill_line (rubout (k\<lparr>edit := butlast (edit k)\<rparr>)))"
  by pat_completeness auto
termination
  by (relation "measure (length \<circ> edit)") (auto simp: rubout_def echo_def)

text \<open>The byte that a carriage return stands for.\<close>

definition con_char :: "byte \<Rightarrow> byte" where
  "con_char c = (if c = 0x0d then 0x0a else c)"

definition con_text :: "byte \<Rightarrow> bool" where
  "con_text c \<longleftrightarrow> c = 0x09 \<or> (0x20 \<le> c \<and> c < 0x7f)"

definition con_push_locked :: "byte \<Rightarrow> console \<Rightarrow> bool \<times> console" where
  "con_push_locked c k =
     (if c = 0x15 then (False, kill_line k)
      else if c = 0x08 \<or> c = 0x7f then (False, if edit k = [] then k else rubout (k\<lparr>edit := butlast (edit k)\<rparr>))
      else if c = EOF_SENTINEL then
        if length (cooked k) + length (edit k) + 1 \<le> CON_CAP
        then (True, k\<lparr>edit := [], cooked := cooked k @ edit k @ [EOF_SENTINEL]\<rparr>) else (False, k)
      else if c = 0x0a then
        if length (cooked k) + length (edit k) + 1 \<le> CON_CAP
        then (True, (echo 0x0a k)\<lparr>edit := [], cooked := cooked k @ edit k @ [0x0a]\<rparr>) else (False, k)
      else if con_text c then
        if length (cooked k) + length (edit k) < CON_CAP then (False, echo c (k\<lparr>edit := edit k @ [c]\<rparr>)) else (False, k)
      else (False, k))"

definition con_push :: "byte \<Rightarrow> console \<Rightarrow> console" where
  "con_push c k = (let (wake, k) = con_push_locked (con_char c) k in if wake then con_wake k else k)"

definition con_try_pop :: "console \<Rightarrow> byte option \<times> console" where
  "con_try_pop k = (case cooked k of [] \<Rightarrow> (None, k) | b # bs \<Rightarrow> (Some b, k\<lparr>cooked := bs\<rparr>))"

definition con_unget :: "byte \<Rightarrow> console \<Rightarrow> console" where
  "con_unget c k = k\<lparr>cooked := c # cooked k\<rparr>"

definition con_pending :: "console \<Rightarrow> nat" where
  "con_pending k = length (cooked k)"

definition con_register :: "tid \<Rightarrow> console \<Rightarrow> console" where
  "con_register t k = k\<lparr>reader := list_register t (reader k)\<rparr>"

section \<open>Reading\<close>

definition console_byte_poll :: "tid \<Rightarrow> bool \<Rightarrow> console \<Rightarrow> byte option poll \<times> console" where
  "console_byte_poll t kd k =
     (if kd then (Ready None, k)
      else case con_try_pop (con_register t k) of
             (Some b, k) \<Rightarrow> (Ready (Some b), k)
           | (None, k) \<Rightarrow> (Pending, k))"

text \<open>\<open>tw\<close> is \<open>translate_user_write\<close> of the calling process and \<open>mem\<close> memory by kernel address.\<close>

function console_read :: "tid \<Rightarrow> bool \<Rightarrow> (nat \<Rightarrow> nat option) \<Rightarrow> nat \<Rightarrow> nat \<Rightarrow> bool \<Rightarrow>
    nat \<Rightarrow> (nat \<Rightarrow> byte) \<Rightarrow> console \<Rightarrow> io \<times> (nat \<Rightarrow> byte) \<times> console" where
  "console_read t kd tw buf_va len nonblock n mem k =
     (if n < len then
        case (if nonblock then (case con_try_pop k of (r, k) \<Rightarrow> (case r of None \<Rightarrow> Pending | Some b \<Rightarrow> Ready (Some b), k))
              else console_byte_poll t kd k) of
          (Pending, k) \<Rightarrow> if nonblock then (Ret (if n = 0 then -1 else int n), mem, k) else (Blocked n, mem, k)
        | (Ready None, k) \<Rightarrow> (Ret (-1), mem, k)
        | (Ready (Some b), k) \<Rightarrow>
            if b = EOF_SENTINEL then (Ret (int n), mem, if n > 0 then con_unget b k else k)
            else (case tw (buf_va + n) of
                    None \<Rightarrow> (Ret (-1), mem, k)
                  | Some kva \<Rightarrow>
                      if b = 0x0a then (Ret (int (n + 1)), mem(kva := b), k)
                      else console_read t kd tw buf_va len nonblock (n + 1) (mem(kva := b)) k)
      else (Ret (int n), mem, k))"
  by pat_completeness auto
termination
  by (relation "measure (\<lambda>(t, kd, tw, va, len, nb, n, m, k). len - n)") auto

lemmas [simp del] = console_read.simps kill_line.simps

section \<open>What readers get of what was typed\<close>

text \<open>A line editor without bounds: the finished text and the line being typed.\<close>

definition line_step :: "byte \<Rightarrow> byte list \<times> byte list \<Rightarrow> byte list \<times> byte list" where
  "line_step c = (\<lambda>(txt, cur).
     if c = 0x15 then (txt, [])
     else if c = 0x08 \<or> c = 0x7f then (txt, butlast cur)
     else if c = 0x04 \<or> c = 0x0a then (txt @ cur @ [c], [])
     else if c = 0x0d then (txt @ cur @ [0x0a], [])
     else if con_text c then (txt, cur @ [c])
     else (txt, cur))"

definition typed :: "byte list \<Rightarrow> byte list \<times> byte list" where
  "typed cs = fold line_step cs ([], [])"

text \<open>A byte is dropped when it would need room and there is none.\<close>

definition con_fits :: "byte \<Rightarrow> console \<Rightarrow> bool" where
  "con_fits c k \<longleftrightarrow> (con_text c \<or> c \<in> {0x04, 0x0a, 0x0d} \<longrightarrow> length (cooked k) + length (edit k) < CON_CAP)"

lemma kill_line_eq: "kill_line k = k\<lparr>edit := [], cout := cout (kill_line k)\<rparr>"
proof (induction k rule: kill_line.induct)
  case (1 k)
  show ?case
  proof (cases "edit k = []")
    case True
    then have "kill_line k = k" by (subst kill_line.simps) simp
    then show ?thesis using True by (cases k) simp
  next
    case False
    let ?k = "rubout (k\<lparr>edit := butlast (edit k)\<rparr>)"
    have "kill_line k = kill_line ?k" using False by (subst kill_line.simps) simp
    with 1 [OF False] show ?thesis by (cases k) (simp add: rubout_def echo_def)
  qed
qed

lemma rubout_simps [simp]: "cooked (rubout k) = cooked k" "edit (rubout k) = edit k" "reader (rubout k) = reader k" "cqueue (rubout k) = cqueue k"
  by (simp_all add: rubout_def echo_def)

lemma kill_line_simps [simp]: "cooked (kill_line k) = cooked k" "edit (kill_line k) = []" "reader (kill_line k) = reader k" "cqueue (kill_line k) = cqueue k"
  by (subst kill_line_eq, simp)+

lemma con_wake_simps [simp]: "cooked (con_wake k) = cooked k" "edit (con_wake k) = edit k" "reader (con_wake k) = []" "cqueue (con_wake k) = cqueue k @ reader k"
  by (simp_all add: con_wake_def list_wake_all_def)

lemma con_push_refines:
  assumes "typed ts = (X, edit k)"
  shows "\<exists>z. typed (if con_fits c k then ts @ [c] else ts) = (X @ z, edit (con_push c k)) \<and> cooked (con_push c k) = cooked k @ z"
proof -
  have t: "typed (ts @ [c]) = line_step c (X, edit k)" using assms by (simp add: typed_def)
  have n: "\<not> con_text 0x0a" "\<not> con_text 0x0d" "\<not> con_text 0x04" "\<not> con_text 0x15" "\<not> con_text 0x08" "\<not> con_text 0x7f"
    by (simp_all add: con_text_def)
  show ?thesis
    using assms n by (auto simp: t line_step_def con_push_def con_push_locked_def con_char_def con_fits_def EOF_SENTINEL_def echo_def Let_def)
qed

lemma con_push_length:
  "length (cooked (con_push c k)) + length (edit (con_push c k)) \<le> max CON_CAP (length (cooked k) + length (edit k))"
  by (auto simp: con_push_def con_push_locked_def echo_def Let_def)

text \<open>Interrupts and any number of readers, the tasks \<open>A\<close>. Each takes one byte at a time from the queue
  (\<open>h\<close> maps a reader to the byte it has taken and not yet dealt with), then consumes it or, if it is an
  end-of-file mark and the read already has data, puts it back. \<open>ts\<close> are the bytes typed and not
  dropped, \<open>d\<close> the bytes taken and not put back, each with the reader that took it, in the order taken.\<close>

inductive con_run :: "tid set \<Rightarrow> console \<Rightarrow> byte list \<Rightarrow> (tid \<times> byte) list \<Rightarrow> (tid \<rightharpoonup> byte) \<Rightarrow> bool" for A :: "tid set" where
  start: "con_run A console_new [] [] Map.empty"
| push: "con_run A k ts d h \<Longrightarrow> con_run A (con_push c k) (if con_fits c k then ts @ [c] else ts) d h"
| pop: "con_run A k ts d h \<Longrightarrow> t \<in> A \<Longrightarrow> h t = None \<Longrightarrow> con_try_pop k = (Some b, k')
    \<Longrightarrow> con_run A k' ts (d @ [(t, b)]) (h(t \<mapsto> b))"
| consume: "con_run A k ts d h \<Longrightarrow> h t = Some b \<Longrightarrow> con_run A k ts d (h(t := None))"
| unget: "con_run A k ts (d1 @ (t, EOF_SENTINEL) # d2) h \<Longrightarrow> t \<notin> fst ` set d2 \<Longrightarrow> h t = Some EOF_SENTINEL
    \<Longrightarrow> con_run A (con_unget EOF_SENTINEL k) ts (d1 @ d2) (h(t := None))"
| wait: "con_run A k ts d h \<Longrightarrow> t \<in> A \<Longrightarrow> con_run A (con_register t k) ts d h"

text \<open>The text of a stream, without its end-of-file marks.\<close>

abbreviation text_of :: "byte list \<Rightarrow> byte list" where
  "text_of \<equiv> filter (\<lambda>b. b \<noteq> EOF_SENTINEL)"

lemma con_try_pop_Some: "con_try_pop k = (Some b, k') \<longleftrightarrow> cooked k \<noteq> [] \<and> b = hd (cooked k) \<and> k' = k\<lparr>cooked := tl (cooked k)\<rparr>"
  by (auto simp: con_try_pop_def split: list.splits)

text \<open>\<open>S\<close> is the stream as typed, \<open>D\<close> what was taken followed by what is queued: the same bytes, with the
  text in the same order; with a single reader the same stream.\<close>

definition same_stream :: "tid set \<Rightarrow> byte list \<Rightarrow> byte list \<Rightarrow> bool" where
  "same_stream A S D \<longleftrightarrow> mset S = mset D \<and> text_of S = text_of D \<and> (\<forall>t. A = {t} \<longrightarrow> S = D)"

lemma same_stream_append: "same_stream A S D \<Longrightarrow> same_stream A (S @ z) (D @ z)"
  by (simp add: same_stream_def)

lemma con_run_readers: "con_run A k ts d h \<Longrightarrow> fst ` set d \<subseteq> A \<and> dom h \<subseteq> A"
  by (induction rule: con_run.induct) (auto simp: subset_iff dom_def split: if_splits)

lemma con_run_stream:
  assumes "con_run A k ts d h"
  shows "\<exists>S. typed ts = (S, edit k) \<and> same_stream A S (map snd d @ cooked k)"
  using assms
proof induction
  case start
  then show ?case by (simp add: typed_def console_new_def same_stream_def)
next
  case (push k ts d h c)
  then obtain S where S: "typed ts = (S, edit k)" "same_stream A S (map snd d @ cooked k)" by blast
  from con_push_refines [OF S(1), of c] obtain z where
    "typed (if con_fits c k then ts @ [c] else ts) = (S @ z, edit (con_push c k))" "cooked (con_push c k) = cooked k @ z" by blast
  then show ?case using same_stream_append [OF S(2), of z] by simp
next
  case (pop k ts d h t b k')
  then show ?case by (cases "cooked k") (auto simp: con_try_pop_Some)
next
  case (unget k ts d1 t d2 h)
  then obtain S where S: "typed ts = (S, edit k)" "same_stream A S (map snd (d1 @ (t, EOF_SENTINEL) # d2) @ cooked k)" by blast
  have "d2 = []" if "A = {u}" for u
    using con_run_readers [OF unget.hyps(1)] unget.hyps(2) that by (cases d2) auto
  then have "same_stream A S (map snd (d1 @ d2) @ EOF_SENTINEL # cooked k)" using S(2) by (auto simp: same_stream_def)
  then show ?case using S(1) by (simp add: con_unget_def)
qed (simp_all add: con_register_def)

lemma con_run_bound:
  assumes "con_run A k ts d h" "finite A"
  shows "card (dom h) + (length (cooked k) + length (edit k)) \<le> CON_CAP + card A"
  using assms
proof induction
  case (push k ts d h c)
  have "card (dom h) \<le> card A" using con_run_readers [OF push.hyps] push.prems by (simp add: card_mono)
  then show ?case using con_push_length [of c k] push by (auto simp: max_def split: if_splits)
next
  case (pop k ts d h t b k')
  have "finite (dom h)" using con_run_readers [OF pop.hyps(1)] pop.prems by (auto intro: finite_subset)
  then have "card (dom (h(t \<mapsto> b))) \<le> Suc (card (dom h))" by (simp add: card_insert_if)
  then show ?case using pop unfolding fun_upd_def by (cases "cooked k") (auto simp: con_try_pop_Some)
next
  case (consume k ts d h t b)
  have "finite (dom h)" using con_run_readers [OF consume.hyps(1)] consume.prems by (auto intro: finite_subset)
  then have "card (dom h - {t}) \<le> card (dom h)" by (simp add: card_Diff1_le)
  then have "card (dom (h(t := None))) \<le> card (dom h)" by simp
  then show ?case using consume unfolding fun_upd_def by simp
next
  case (unget k ts d1 t d2 h)
  have "finite (dom h)" using con_run_readers [OF unget.hyps(1)] unget.prems by (auto intro: finite_subset)
  moreover have "t \<in> dom h" using unget.hyps(3) by auto
  ultimately have "card (dom h) = Suc (card (dom h - {t}))" by (rule card.remove)
  then have "card (dom h) = Suc (card (dom (h(t := None))))" by simp
  then show ?case using unget unfolding fun_upd_def by (simp add: con_unget_def)
qed (auto simp: console_new_def con_register_def)

text \<open>What a read that starts with \<open>n\<close> bytes in the buffer takes from the queue \<open>xs\<close>: its result, the bytes it
  stores and the queue it leaves.\<close>

definition line_end :: "byte \<Rightarrow> bool" where "line_end b \<longleftrightarrow> b = 0x0a \<or> b = EOF_SENTINEL"

definition read_spec :: "nat \<Rightarrow> bool \<Rightarrow> nat \<Rightarrow> byte list \<Rightarrow> io \<times> byte list \<times> byte list" where
  "read_spec len nb n xs =
     (let pre = takeWhile (\<lambda>b. \<not> line_end b) xs; m = n + length pre in
      if len \<le> m then (Ret (int len), take (len - n) xs, drop (len - n) xs)
      else case dropWhile (\<lambda>b. \<not> line_end b) xs of
        [] \<Rightarrow> (if nb then Ret (if m = 0 then -1 else int m) else Blocked m, pre, [])
      | b # r \<Rightarrow> if b = EOF_SENTINEL then (Ret (int m), pre, if m = 0 then r else b # r)
                 else (Ret (int (m + 1)), pre @ [b], r))"

lemma read_spec_Cons:
  assumes "\<not> line_end b" "n < len"
  shows "read_spec len nb n (b # xs) = (case read_spec len nb (n + 1) xs of (r, bs, q) \<Rightarrow> (r, b # bs, q))"
proof -
  have "len - n = Suc (len - (n + 1))" using assms(2) by simp
  then show ?thesis using assms by (cases "dropWhile (\<lambda>b. \<not> line_end b) xs") (simp_all add: read_spec_def Let_def del: dropWhile_eq_Nil_conv)
qed

lemma console_read_spec:
  assumes "\<forall>i < len. tw (va + i) = Some (ka i)" "n \<le> len"
  shows "\<exists>mem' k'. console_read t False tw va len nb n mem k = (fst (read_spec len nb n (cooked k)), mem', k') \<and>
    mem' = store_bytes ka n (fst (snd (read_spec len nb n (cooked k)))) mem \<and>
    cooked k' = snd (snd (read_spec len nb n (cooked k))) \<and> edit k' = edit k"
  using assms(2)
proof (induction "cooked k" arbitrary: k n mem)
  case Nil
  then show ?case
    by (subst console_read.simps)
      (auto simp: read_spec_def Let_def console_byte_poll_def con_try_pop_def con_register_def split: list.splits)
next
  case (Cons b xs)
  show ?case
  proof (cases "n = len")
    case True
    then show ?thesis by (subst console_read.simps) (simp add: read_spec_def Let_def)
  next
    case n: False
    then have lt: "n < len" using Cons.prems by simp
    define k1 where "k1 = (if nb then k else con_register t k)\<lparr>cooked := xs\<rparr>"
    have k1: "cooked k1 = xs" "edit k1 = edit k" by (simp_all add: k1_def con_register_def)
    have tk: "tw (va + n) = Some (ka n)" using assms(1) lt by blast
    have st: "console_read t False tw va len nb n mem k =
      (if b = EOF_SENTINEL then (Ret (int n), mem, if n > 0 then con_unget b k1 else k1)
       else if b = 0x0a then (Ret (int (n + 1)), mem(ka n := b), k1)
       else console_read t False tw va len nb (n + 1) (mem(ka n := b)) k1)"
      using lt tk Cons.hyps(2) [symmetric]
      by (subst console_read.simps) (simp add: console_byte_poll_def con_try_pop_def con_register_def k1_def)
    show ?thesis
    proof (cases "line_end b")
      case True
      then show ?thesis unfolding st using lt k1 Cons.hyps(2) [symmetric]
        by (auto simp: read_spec_def Let_def line_end_def con_unget_def EOF_SENTINEL_def)
    next
      case False
      then have ne: "b \<noteq> EOF_SENTINEL" "b \<noteq> 0x0a" by (auto simp: line_end_def)
      have "n + 1 \<le> len" using lt by simp
      from Cons.hyps(1) [OF k1(1) [symmetric] this, of "mem(ka n := b)"] show ?thesis
        unfolding st Cons.hyps(2) [symmetric] read_spec_Cons [OF False lt] using ne k1 by (auto split: prod.splits)
    qed
  qed
qed

section \<open>Interleaved readers\<close>

text \<open>Where a task is inside a read of the console: before the killed flag, the registration and the pop of
  \<open>ConsoleByte::poll\<close>, parked, or holding the byte it popped. Interrupt handlers that have released a
  line and not yet called \<open>wake_all\<close> are counted.\<close>

datatype cpc = COut | CKill | CReg | CPop | CParked | CGot byte

record csys = console +
  cpcs :: "tid \<Rightarrow> cpc"
  ckilled :: "tid \<Rightarrow> bool"
  waking :: nat

definition csys_new :: csys where
  "csys_new = \<lparr>cooked = [], edit = [], reader = [], cqueue = [], cout = [], cpcs = (\<lambda>_. COut), ckilled = (\<lambda>_. False), waking = 0\<rparr>"

abbreviation cgoto :: "tid \<Rightarrow> cpc \<Rightarrow> csys \<Rightarrow> csys" where
  "cgoto t c s \<equiv> s\<lparr>cpcs := (cpcs s)(t := c)\<rparr>"

definition set_cons :: "console \<Rightarrow> csys \<Rightarrow> csys" where
  "set_cons k s = s\<lparr>cooked := cooked k, edit := edit k, reader := reader k, cqueue := cqueue k, cout := cout k\<rparr>"

definition cons_of :: "csys \<Rightarrow> console" where
  "cons_of s = \<lparr>cooked = cooked s, edit = edit s, reader = reader s, cqueue = cqueue s, cout = cout s\<rparr>"

definition con_poll_step :: "tid \<Rightarrow> csys \<Rightarrow> csys" where
  "con_poll_step t s = (case cpcs s t of
     CKill \<Rightarrow> cgoto t (if ckilled s t then COut else CReg) s
   | CReg \<Rightarrow> cgoto t CPop (set_cons (con_register t (cons_of s)) s)
   | CPop \<Rightarrow> (case con_try_pop (cons_of s) of
        (None, _) \<Rightarrow> cgoto t CParked s
      | (Some b, k) \<Rightarrow> cgoto t (CGot b) (set_cons k s))
   | _ \<Rightarrow> s)"

text \<open>The two halves of \<open>push\<close>: under the lock, and the wake-up after it.\<close>

definition con_push_step :: "byte \<Rightarrow> csys \<Rightarrow> csys" where
  "con_push_step c s = (case con_push_locked (con_char c) (cons_of s) of
     (w, k) \<Rightarrow> (set_cons k s)\<lparr>waking := (if w then waking s + 1 else waking s)\<rparr>)"

definition con_wake_step :: "csys \<Rightarrow> csys" where
  "con_wake_step s = (set_cons (con_wake (cons_of s)) s)\<lparr>waking := waking s - 1\<rparr>"

text \<open>The flag tells whether an end-of-file mark has been put back.\<close>

inductive cstep :: "bool \<Rightarrow> csys \<Rightarrow> csys \<Rightarrow> bool" where
  start: "cpcs s t = COut \<or> (\<exists>b. cpcs s t = CGot b) \<Longrightarrow> cstep u s (cgoto t CKill s)"
| leave: "cpcs s t = CGot b \<Longrightarrow> cstep u s (cgoto t COut s)"
| unget: "cpcs s t = CGot EOF_SENTINEL \<Longrightarrow> cstep True s (cgoto t COut (set_cons (con_unget EOF_SENTINEL (cons_of s)) s))"
| poll: "cstep u s (con_poll_step t s)"
| push: "cstep u s (con_push_step c s)"
| wake: "0 < waking s \<Longrightarrow> cstep u s (con_wake_step s)"
| repoll: "cpcs s t = CParked \<Longrightarrow> t \<in> set (cqueue s) \<Longrightarrow> cstep u s (cgoto t CKill (s\<lparr>cqueue := remove1 t (cqueue s)\<rparr>))"
| kill: "cstep u s (s\<lparr>ckilled := (ckilled s)(t := True), cqueue := cqueue s @ [t]\<rparr>)"

inductive creach :: "bool \<Rightarrow> csys \<Rightarrow> bool" for u :: bool where
  init: "creach u csys_new"
| more: "creach u s \<Longrightarrow> cstep u s s' \<Longrightarrow> creach u s'"

definition cwaits :: "csys \<Rightarrow> bool" where
  "cwaits s \<longleftrightarrow> (\<forall>t. cpcs s t \<in> {CPop, CParked} \<longrightarrow> t \<in> set (reader s) \<union> set (cqueue s)) \<and>
     (\<forall>t. cpcs s t = CParked \<longrightarrow> t \<notin> set (cqueue s) \<longrightarrow> cooked s \<noteq> [] \<longrightarrow> 0 < waking s)"

lemma cons_simps [simp]:
  "cooked (cons_of s) = cooked s" "edit (cons_of s) = edit s" "reader (cons_of s) = reader s" "cqueue (cons_of s) = cqueue s"
  "cooked (set_cons k s) = cooked k" "edit (set_cons k s) = edit k" "reader (set_cons k s) = reader k" "cqueue (set_cons k s) = cqueue k"
  "cpcs (set_cons k s) = cpcs s" "waking (set_cons k s) = waking s" "ckilled (set_cons k s) = ckilled s"
  by (simp_all add: cons_of_def set_cons_def)

lemma push_locked_facts:
  assumes "con_push_locked c k = (w, k')"
  shows "reader k' = reader k" "cqueue k' = cqueue k" "\<not> w \<Longrightarrow> cooked k' = cooked k"
  using assms by (auto simp: con_push_locked_def echo_def split: if_splits)

lemma cwaits_poll:
  assumes "cwaits s"
  shows "cwaits (con_poll_step t s)"
proof (cases "cpcs s t")
  case CPop
  then show ?thesis using assms
    by (cases "cooked s") (auto simp: con_poll_step_def con_try_pop_def cwaits_def)
qed (use assms in \<open>auto simp: con_poll_step_def cwaits_def con_register_def list_register_def list_ex_iff\<close>)

lemma cwaits_step:
  assumes "cstep False s s'" "cwaits s"
  shows "cwaits s'"
  using assms
proof (induction "False" s s' rule: cstep.induct)
  case (push s c)
  obtain w k where "con_push_locked (con_char c) (cons_of s) = (w, k)" by fastforce
  then show ?case using push push_locked_facts [of "con_char c" "cons_of s" w k] by (auto simp: con_push_step_def cwaits_def)
next
  case (wake s)
  then show ?case by (auto simp: con_wake_step_def cwaits_def)
next
  case (poll s t)
  then show ?case by (rule cwaits_poll)
qed (auto simp: cwaits_def)

lemma cwaits_reach: "creach False s \<Longrightarrow> cwaits s"
  by (induction rule: creach.induct) (use cwaits_step in \<open>auto simp: cwaits_def csys_new_def\<close>)

section \<open>Properties\<close>

text \<open>C26. What any number of concurrent readers get of what is typed. Let \<open>S\<close> be the text that an unbounded
  line editor makes of the typed bytes that were not dropped: erased characters are gone, a carriage return
  is a newline, and \<open>^D\<close> is a mark in the stream. At any moment the bytes taken by the readers and the bytes
  queued are together the bytes of \<open>S\<close>: none vanishes untaken and none is taken twice; without the end-of-file
  marks they are the text of \<open>S\<close> in the order typed; and when only one task reads, they are exactly \<open>S\<close>,
  marks included. The edit buffer is the line in progress. The queue, the edit buffer and the bytes in
  the hands of the readers take at most \<open>CAP\<close> bytes and one more for each reader.\<close>

theorem console_delivers_lines:
  assumes "con_run A k ts d h" "finite A"
  shows "\<exists>S. typed ts = (S, edit k) \<and> mset S = mset (map snd d @ cooked k) \<and>
    text_of S = text_of (map snd d @ cooked k) \<and> (\<forall>t. A = {t} \<longrightarrow> S = map snd d @ cooked k) \<and>
    card (dom h) + length (cooked k) + length (edit k) \<le> CON_CAP + card A"
  using con_run_stream [OF assms(1)] con_run_bound [OF assms] by (auto simp: same_stream_def)

text \<open>Two readers and the input \<open>a ^D b\<close> newline: the first takes \<open>a\<close> and the mark, the second takes the line
  behind the mark, and then the first puts the mark back. The mark now stands behind a line that was typed
  after it.\<close>

abbreviation demo_keys :: "byte list" where "demo_keys \<equiv> [0x61, 0x04, 0x62, 0x0a]"

lemma con_run_push:
  assumes "con_run A k ts d h" "length (cooked k) + length (edit k) < 256"
  shows "con_run A (con_push c k) (ts @ [c]) d h"
  using con_run.push [OF assms(1), of c] assms(2) by (simp add: con_fits_def CON_CAP_def)

lemma demo_keys_run:
  "\<exists>k. con_run {1, 2} k demo_keys [] Map.empty \<and> cooked k = demo_keys \<and> edit k = []"
proof -
  note ev = con_push_def con_push_locked_def con_char_def con_text_def EOF_SENTINEL_def echo_def Let_def CON_CAP_def console_new_def
  define k1 where "k1 = con_push 0x61 console_new"
  define k2 where "k2 = con_push 0x04 k1"
  define k3 where "k3 = con_push 0x62 k2"
  have k1: "cooked k1 = []" "edit k1 = [0x61]" by (simp_all add: k1_def ev)
  have k2: "cooked k2 = [0x61, 0x04]" "edit k2 = []" by (simp_all add: k2_def k1 ev)
  have k3: "cooked k3 = [0x61, 0x04]" "edit k3 = [0x62]" by (simp_all add: k3_def k2 ev)
  have "con_run {1, 2} k1 [0x61] [] Map.empty"
    using con_run_push [OF con_run.start, of "{1, 2}" "0x61"] by (simp add: k1_def console_new_def)
  then have "con_run {1, 2} k2 [0x61, 0x04] [] Map.empty" using con_run_push [of "{1, 2}" k1 _ _ _ "0x04"] k1 by (fastforce simp: k2_def)
  then have "con_run {1, 2} k3 [0x61, 0x04, 0x62] [] Map.empty" using con_run_push [of "{1, 2}" k2 _ _ _ "0x62"] k2 by (fastforce simp: k3_def)
  then have "con_run {1, 2} (con_push 0x0a k3) demo_keys [] Map.empty" using con_run_push [of "{1, 2}" k3 _ _ _ "0x0a"] k3 by fastforce
  moreover have "cooked (con_push 0x0a k3) = demo_keys" "edit (con_push 0x0a k3) = []" by (simp_all add: k3 ev)
  ultimately show ?thesis by blast
qed

lemma con_run_take:
  assumes "con_run A k ts d h" "t \<in> A" "h t = None" "cooked k = b # bs"
  shows "con_run A (k\<lparr>cooked := bs\<rparr>) ts (d @ [(t, b)]) h"
  using con_run.consume [OF con_run.pop [OF assms(1-3)], of b "k\<lparr>cooked := bs\<rparr>" t b] assms(3,4)
  by (simp add: con_try_pop_Some fun_upd_idem)

theorem console_delivers_lines_witness:
  "\<exists>k S. con_run {1, 2} k demo_keys [(1, 0x61), (2, 0x62), (2, 0x0a)] Map.empty \<and> cooked k = [0x04] \<and>
     typed demo_keys = (S, []) \<and> mset S = mset [0x61, 0x62, 0x0a, 0x04] \<and> text_of S = [0x61, 0x62, 0x0a] \<and>
     S \<noteq> [0x61, 0x62, 0x0a, 0x04]"
proof -
  obtain k where k: "con_run {1, 2} k demo_keys [] Map.empty" "cooked k = demo_keys" "edit k = []" using demo_keys_run by blast
  have "con_run {1, 2} (k\<lparr>cooked := [0x04, 0x62, 0x0a]\<rparr>) demo_keys [(1, 0x61)] Map.empty"
    using con_run_take [OF k(1), of 1] k(2) by simp
  from con_run.pop [OF this, of 1]
  have "con_run {1, 2} (k\<lparr>cooked := [0x62, 0x0a]\<rparr>) demo_keys [(1, 0x61), (1, 0x04)] [1 \<mapsto> 0x04]"
    by (simp add: con_try_pop_Some)
  from con_run_take [OF this, of 2]
  have "con_run {1, 2} (k\<lparr>cooked := [0x0a]\<rparr>) demo_keys [(1, 0x61), (1, 0x04), (2, 0x62)] [1 \<mapsto> 0x04]" by simp
  from con_run_take [OF this, of 2]
  have "con_run {1, 2} (k\<lparr>cooked := []\<rparr>) demo_keys ([(1, 0x61)] @ (1, EOF_SENTINEL) # [(2, 0x62), (2, 0x0a)]) [1 \<mapsto> 0x04]"
    by (simp add: EOF_SENTINEL_def)
  from con_run.unget [OF this]
  have r: "con_run {1, 2} (k\<lparr>cooked := [0x04]\<rparr>) demo_keys [(1, 0x61), (2, 0x62), (2, 0x0a)] Map.empty"
    by (simp add: con_unget_def EOF_SENTINEL_def)
  have "fst (typed demo_keys) = demo_keys" by (simp add: typed_def line_step_def con_text_def)
  then show ?thesis using r console_delivers_lines [OF r] k(3) by (auto simp: EOF_SENTINEL_def intro!: exI [of _ "k\<lparr>cooked := [0x04]\<rparr>"])
qed

text \<open>C27. A console read takes exactly one line, or as much of it as the buffer holds: the bytes up to and
  including the newline are stored in order and the call returns their number; at an end-of-file mark it
  returns what it has, and the mark is consumed only by a read that has nothing else to return; a line not
  yet finished blocks the reader, or returns the bytes so far (-1 if none) in non-blocking mode. The mark
  is never stored, and no other byte of memory changes.\<close>

theorem console_read_takes_line:
  assumes "\<forall>i < len. tw (va + i) = Some (ka i)" "inj_on ka {0..<len}"
  shows "\<exists>res mem' k' bs. console_read t False tw va len nb 0 mem k = (res, mem', k') \<and>
    read_spec len nb 0 (cooked k) = (res, bs, cooked k') \<and> edit k' = edit k \<and> EOF_SENTINEL \<notin> set bs \<and> length bs \<le> len \<and>
    (\<forall>i < length bs. mem' (ka i) = bs ! i) \<and> (\<forall>a. a \<notin> ka ` {0..<length bs} \<longrightarrow> mem' a = mem a)"
proof -
  let ?pre = "takeWhile (\<lambda>b. \<not> line_end b) (cooked k)"
  obtain res bs q where s: "read_spec len nb 0 (cooked k) = (res, bs, q)" by (rule prod_cases3)
  obtain mem' k' where r: "console_read t False tw va len nb 0 mem k = (res, mem', k')" "mem' = store_bytes ka 0 bs mem" "cooked k' = q" "edit k' = edit k"
    using console_read_spec [OF assms(1), of 0 t nb mem k] s by auto
  have p: "EOF_SENTINEL \<notin> set ?pre" by (auto dest: set_takeWhileD simp: line_end_def)
  have bs: "EOF_SENTINEL \<notin> set bs \<and> length bs \<le> len"
  proof (cases "len \<le> length ?pre")
    case True
    then have "bs = take len (cooked k)" using s by (simp add: read_spec_def Let_def)
    moreover have "take len (cooked k) = take len ?pre" using True by (metis takeWhile_eq_take take_take min_absorb1)
    ultimately show ?thesis using p by (auto dest: in_set_takeD)
  next
    case False
    then have "bs = ?pre \<or> (\<exists>b r. dropWhile (\<lambda>b. \<not> line_end b) (cooked k) = b # r \<and> b \<noteq> EOF_SENTINEL \<and> bs = ?pre @ [b])"
      using s by (auto simp: read_spec_def Let_def split: list.splits if_splits simp del: dropWhile_eq_Nil_conv)
    then show ?thesis using p False by auto
  qed
  have "store_bytes ka 0 bs mem (ka i) = bs ! i" if "i < length bs" for i
    using store_bytes_nth [of ka 0 bs i mem] that inj_on_subset [OF assms(2), of "{0..<length bs}"] bs by auto
  moreover have "store_bytes ka 0 bs mem a = mem a" if "a \<notin> ka ` {0..<length bs}" for a
    by (rule store_bytes_other) (use that in auto)
  ultimately show ?thesis using r s bs by blast
qed

text \<open>The console after \<open>a b BS c CR\<close> has been typed.\<close>

definition demo_typed :: console where
  "demo_typed = fold con_push [0x61, 0x62, 0x08, 0x63, 0x0d] console_new"

lemma demo_typed_eval: "cooked demo_typed = [0x61, 0x63, 0x0a]" "edit demo_typed = []"
  by (simp_all add: demo_typed_def console_new_def con_push_def con_push_locked_def con_char_def con_text_def EOF_SENTINEL_def
      rubout_def echo_def con_wake_def list_wake_all_def CON_CAP_def Let_def)

theorem console_read_takes_line_witness:
  "\<exists>mem' k'. console_read 1 False Some 100 10 False 0 (\<lambda>_. 0) demo_typed = (Ret 3, mem', k') \<and> mem' 101 = 0x63 \<and> cooked k' = []"
proof -
  have i: "inj_on (\<lambda>i. 100 + i) {0..<10 :: nat}" by (simp add: inj_on_def)
  have s: "read_spec 10 False 0 (cooked demo_typed) = (Ret 3, [0x61, 0x63, 0x0a], [])"
    by (simp add: demo_typed_eval read_spec_def line_end_def EOF_SENTINEL_def Let_def)
  have "\<forall>i < (10 :: nat). Some (100 + i) = Some (100 + i)" by simp
  from console_read_takes_line [OF this i, of 1 False "\<lambda>_. 0" demo_typed] s obtain mem' k' where
    "console_read 1 False Some 100 10 False 0 (\<lambda>_. 0) demo_typed = (Ret 3, mem', k')" "cooked k' = []"
    "\<forall>i < 3. mem' (100 + i) = [0x61, 0x63, 0x0a] ! i" by (auto simp: numeral_3_eq_3)
  then show ?thesis by (auto dest: spec [of _ 1])
qed

text \<open>No console reader misses input: as long as no end-of-file mark has been put back, a reader that is
  parked and that nobody has woken is registered, and the queue is empty or an interrupt handler is
  about to wake all readers.\<close>

lemma console_no_lost_wakeup:
  assumes "creach False s" "cpcs s t = CParked" "t \<notin> set (cqueue s)"
  shows "t \<in> set (reader s) \<and> (cooked s = [] \<or> 0 < waking s)"
  using cwaits_reach [OF assms(1)] assms(2,3) by (auto simp: cwaits_def)

text \<open>The states of a run with two readers and the input \<open>a ^D\<close>.\<close>

definition two_readers :: "byte list \<Rightarrow> byte list \<Rightarrow> tid list \<Rightarrow> cpc \<Rightarrow> cpc \<Rightarrow> nat \<Rightarrow> csys" where
  "two_readers ck ed rd p1 p2 w = \<lparr>cooked = ck, edit = ed, reader = rd, cqueue = [], cout = [0x61], cpcs = (\<lambda>_. COut)(1 := p1, 2 := p2),
     ckilled = (\<lambda>_. False), waking = w\<rparr>"

lemma two_readers_steps:
  "cstep True csys_new (two_readers [] [0x61] [] COut COut 0)"
  "cstep True (two_readers [] [0x61] [] COut COut 0) (two_readers [0x61, 4] [] [] COut COut 1)"
  "cstep True (two_readers ck [] [] COut COut 1) (two_readers ck [] [] COut COut 0)"
  "cstep True (two_readers ck [] rd COut p2 0) (two_readers ck [] rd CKill p2 0)"
  "cstep True (two_readers ck [] rd CKill p2 0) (two_readers ck [] rd CReg p2 0)"
  "cstep True (two_readers ck [] rd CReg p2 0) (two_readers ck [] (list_register 1 rd) CPop p2 0)"
  "cstep True (two_readers (x # ck) [] rd CPop p2 0) (two_readers ck [] rd (CGot x) p2 0)"
  "cstep True (two_readers ck [] rd p1 COut 0) (two_readers ck [] rd p1 CKill 0)"
  "cstep True (two_readers ck [] rd p1 CKill 0) (two_readers ck [] rd p1 CReg 0)"
  "cstep True (two_readers ck [] rd p1 CReg 0) (two_readers ck [] (list_register 2 rd) p1 CPop 0)"
  "cstep True (two_readers [] [] rd p1 CPop 0) (two_readers [] [] rd p1 CParked 0)"
  "cstep True (two_readers ck [] rd (CGot 4) p2 0) (two_readers (4 # ck) [] rd COut p2 0)"
  "cstep True (two_readers ck [] rd (CGot b) p2 0) (two_readers ck [] rd CKill p2 0)"
  using cstep.push [of True csys_new "0x61"] cstep.push [of True "two_readers [] [0x61] [] COut COut 0" "4"]
    cstep.wake [of "two_readers ck [] [] COut COut 1" True] cstep.start [of "two_readers ck [] rd COut p2 0" 1 True]
    cstep.poll [of True "two_readers ck [] rd CKill p2 0" 1] cstep.poll [of True "two_readers ck [] rd CReg p2 0" 1]
    cstep.poll [of True "two_readers (x # ck) [] rd CPop p2 0" 1] cstep.start [of "two_readers ck [] rd p1 COut 0" 2 True]
    cstep.poll [of True "two_readers ck [] rd p1 CKill 0" 2] cstep.poll [of True "two_readers ck [] rd p1 CReg 0" 2]
    cstep.poll [of True "two_readers [] [] rd p1 CPop 0" 2] cstep.unget [of "two_readers ck [] rd (CGot 4) p2 0" 1]
    cstep.start [of "two_readers ck [] rd (CGot b) p2 0" 1 True]
  by (simp_all add: two_readers_def csys_new_def con_push_step_def con_push_locked_def con_char_def con_text_def EOF_SENTINEL_def CON_CAP_def echo_def
      con_wake_step_def con_wake_def list_wake_all_def con_poll_step_def con_register_def con_try_pop_def con_unget_def cons_of_def set_cons_def
      fun_upd_twist [of 1 2] fun_upd_idem)

text \<open>C29. Putting the end-of-file mark back wakes nobody: two readers and the input \<open>a ^D\<close> can reach a state in
  which a reader is parked and not woken, no handler is about to wake it, and the mark that should make
  its read return sits in the queue.\<close>

theorem eof_mark_can_strand_reader:
  "\<exists>s. creach True s \<and> cpcs s 2 = CParked \<and> cqueue s = [] \<and> waking s = 0 \<and> cooked s = [EOF_SENTINEL]"
proof -
  note S = two_readers_steps
  note M = creach.more [where u = True]
  have "creach True (two_readers [0x61, 4] [] [] COut COut 0)"
    by (rule M [OF M [OF M [OF creach.init S(1)] S(2)] S(3)])
  from M [OF M [OF M [OF M [OF this S(4)] S(5)] S(6)] S(7)]
  have "creach True (two_readers [4] [] [1] (CGot 0x61) COut 0)" by (simp add: list_register_def)
  from M [OF M [OF M [OF M [OF this S(13)] S(5)] S(6)] S(7)]
  have "creach True (two_readers [] [] [1] (CGot 4) COut 0)" by (simp add: list_register_def)
  from M [OF M [OF M [OF M [OF M [OF this S(8)] S(9)] S(10)] S(11)] S(12)]
  have "creach True (two_readers [4] [] [1, 2] COut CParked 0)" by (simp add: list_register_def)
  then show ?thesis by (auto simp: two_readers_def EOF_SENTINEL_def)
qed

end
