(* ===== verification/Signal.thy ===== *)
theory Signal
  imports Fork Console
begin

text \<open>
  Signals, alarms and timers: \<open>sys_kill\<close>, \<open>sys_sigaction\<close>, \<open>sys_sigprocmask\<close>, \<open>sys_sigreturn\<close>, \<open>sys_alarm\<close>, \<open>sys_pause\<close>
  and \<open>sys_sleep\<close> of \<open>syscall.rs\<close>, the delivery on the way back to user mode in \<open>usertrap.rs\<close>, and the
  sorted queues of \<open>time.rs\<close>. The trap frame is the one of the RISC-V build, by byte offset.
\<close>

section \<open>State\<close>

definition SIGKILL :: int where "SIGKILL = 9"
definition SIGALRM :: int where "SIGALRM = 14"
definition SIGSTOP :: int where "SIGSTOP = 19"

definition sig_default_kills :: "int \<Rightarrow> bool" where
  "sig_default_kills sig \<longleftrightarrow> sig \<in> {1, 2, 3, 4, 6, SIGKILL, 10, 11, 12, 13, SIGALRM, 15}"

definition SIG_DFL :: nat where "SIG_DFL = 0"
definition SIG_IGN :: nat where "SIG_IGN = 1"

record sig_action =
  sa_handler :: nat
  sa_restorer :: nat
  sa_mask :: "32 word"

definition default_action :: sig_action where
  "default_action = \<lparr>sa_handler = SIG_DFL, sa_restorer = 0, sa_mask = 0\<rparr>"

definition SIG_BLOCK :: int where "SIG_BLOCK = 0"
definition SIG_UNBLOCK :: int where "SIG_UNBLOCK = 1"
definition SIG_SETMASK :: int where "SIG_SETMASK = 2"

type_synonym trapframe = "nat \<Rightarrow> 64 word"

definition TF_KSATP :: nat where "TF_KSATP = 0"
definition TF_KSP :: nat where "TF_KSP = 8"
definition TF_KTRAP :: nat where "TF_KTRAP = 16"
definition TF_EPC :: nat where "TF_EPC = 24"
definition TF_KHART :: nat where "TF_KHART = 32"
definition TF_RA :: nat where "TF_RA = 40"

text \<open>The part of \<open>Proc\<close> that signals use.\<close>

record sproc =
  pkilled :: bool
  sig_pending :: "32 word"
  sig_blocked :: "32 word"
  sig_actions :: "sig_action list"
  sig_saved_frame :: "trapframe option"
  sig_saved_blocked :: "32 word"
  tframe :: trapframe
  alarm_deadline :: nat
  alarm_generation :: "32 word"
  wait_waker :: "tid option"
  task_id :: tid

definition sproc_new :: "trapframe \<Rightarrow> tid \<Rightarrow> sproc" where
  "sproc_new tf t = \<lparr>pkilled = False, sig_pending = 0, sig_blocked = 0, sig_actions = replicate 32 default_action,
     sig_saved_frame = None, sig_saved_blocked = 0, tframe = tf, alarm_deadline = 0, alarm_generation = 0,
     wait_waker = None, task_id = t\<rparr>"

text \<open>All live processes by number, the queues of \<open>time.rs\<close>, the console, the tasks handed to
  \<open>executor::wake\<close>, and the next process number.\<close>

record ksig =
  sprocs :: "nat \<Rightarrow> sproc option"
  alarms :: "(nat \<times> nat \<times> 32 word) list"
  timers :: "(nat \<times> tid) list"
  kcon :: console
  kqueue :: "tid list"
  knext :: nat

definition set_sproc :: "nat \<Rightarrow> sproc \<Rightarrow> ksig \<Rightarrow> ksig" where
  "set_sproc pid p k = k\<lparr>sprocs := (sprocs k)(pid \<mapsto> p)\<rparr>"

definition sig_bit :: "nat \<Rightarrow> 32 word" where
  "sig_bit n = push_bit n 1"

section \<open>Sending\<close>

text \<open>\<open>wait_waker.wake()\<close> and \<open>executor::wake\<close> of the target, with the console readers woken in between when
  \<open>con\<close> holds.\<close>

definition sig_notify :: "bool \<Rightarrow> nat \<Rightarrow> sproc \<Rightarrow> ksig \<Rightarrow> ksig" where
  "sig_notify con pid p k =
     (let (w, ts) = cell_wake (wait_waker p);
          k = set_sproc pid (p\<lparr>wait_waker := w\<rparr>) k
      in k\<lparr>kcon := (if con then con_wake (kcon k) else kcon k), kqueue := kqueue k @ ts @ [task_id p]\<rparr>)"

definition sys_kill :: "int \<Rightarrow> int \<Rightarrow> ksig \<Rightarrow> int \<times> ksig" where
  "sys_kill pid sig k =
     (if pid \<le> 0 then (-1, k)
      else if sig < 0 \<or> sig > 31 then (-1, k)
      else case sprocs k (nat pid) of
        None \<Rightarrow> (-1, k)
      | Some p \<Rightarrow>
          if sig = 0 then (0, k)
          else if sig = SIGKILL then (0, sig_notify True (nat pid) (p\<lparr>pkilled := True\<rparr>) k)
          else if sig = SIGSTOP then (0, k)
          else let h = sa_handler (sig_actions p ! nat sig) in
            if h = SIG_DFL then
              (0, if sig_default_kills sig then sig_notify True (nat pid) (p\<lparr>pkilled := True\<rparr>) k else k)
            else if h = SIG_IGN then (0, k)
            else (0, sig_notify True (nat pid) (p\<lparr>sig_pending := sig_pending p OR sig_bit (nat sig)\<rparr>) k))"

section \<open>Handlers and masks\<close>

definition sys_sigaction :: "int \<Rightarrow> nat \<Rightarrow> nat \<Rightarrow> 32 word \<Rightarrow> sproc \<Rightarrow> int \<times> sproc" where
  "sys_sigaction signum handler restorer msk p =
     (if signum \<le> 0 \<or> signum \<ge> 32 then (-1, p)
      else if signum = SIGKILL \<or> signum = SIGSTOP then (-1, p)
      else (int (sa_handler (sig_actions p ! nat signum)),
            p\<lparr>sig_actions := (sig_actions p)[nat signum := \<lparr>sa_handler = handler, sa_restorer = restorer, sa_mask = msk\<rparr>]\<rparr>))"

text \<open>Copying out the four bytes of the old mask; \<open>tw\<close> is \<open>translate_user_write\<close>.\<close>

fun put_bytes :: "(nat \<Rightarrow> nat option) \<Rightarrow> nat \<Rightarrow> byte list \<Rightarrow> (nat \<Rightarrow> byte) \<Rightarrow> bool \<times> (nat \<Rightarrow> byte)" where
  "put_bytes tw va [] mem = (True, mem)"
| "put_bytes tw va (b # bs) mem = (case tw va of None \<Rightarrow> (False, mem) | Some kva \<Rightarrow> put_bytes tw (va + 1) bs (mem(kva := b)))"

definition sys_sigprocmask :: "(nat \<Rightarrow> nat option) \<Rightarrow> int \<Rightarrow> 32 word \<Rightarrow> nat \<Rightarrow> (nat \<Rightarrow> byte) \<Rightarrow> sproc \<Rightarrow> int \<times> (nat \<Rightarrow> byte) \<times> sproc" where
  "sys_sigprocmask tw how set0 oldset_va mem p =
     (let st = set0 AND NOT (sig_bit (nat SIGKILL) OR sig_bit (nat SIGSTOP)); prev = sig_blocked p in
      case (if how = SIG_BLOCK then Some (prev OR st)
            else if how = SIG_UNBLOCK then Some (prev AND NOT st)
            else if how = SIG_SETMASK then Some st else None) of
        None \<Rightarrow> (-1, mem, p)
      | Some new \<Rightarrow>
          (let p = p\<lparr>sig_blocked := new\<rparr> in
           if oldset_va \<noteq> 0 then
             (case put_bytes tw oldset_va (le_bytes 4 (unat prev)) mem of
                (False, mem) \<Rightarrow> (-1, mem, p) | (True, mem) \<Rightarrow> (0, mem, p))
           else (0, mem, p)))"

section \<open>Delivery and return\<close>

definition lowest_bit :: "32 word \<Rightarrow> nat" where
  "lowest_bit w = length (takeWhile (\<lambda>i. \<not> bit w i) [0..<32])"

definition maybe_deliver_signal :: "sproc \<Rightarrow> sproc" where
  "maybe_deliver_signal p =
     (if sig_saved_frame p \<noteq> None then p
      else let runnable = sig_pending p AND NOT (sig_blocked p) in
        if runnable = 0 then p
        else let sig = lowest_bit runnable; action = sig_actions p ! sig in
          if sa_handler action = SIG_DFL \<or> sa_handler action = SIG_IGN
          then p\<lparr>sig_pending := sig_pending p AND NOT (sig_bit sig)\<rparr>
          else if sa_restorer action = 0 then p
          else p\<lparr>sig_pending := sig_pending p AND NOT (sig_bit sig),
                 sig_saved_frame := Some (tframe p),
                 sig_blocked := sig_blocked p OR sa_mask action OR sig_bit sig,
                 sig_saved_blocked := sig_blocked p,
                 tframe := (tframe p)(TF_A0 := of_nat sig, TF_EPC := of_nat (sa_handler action), TF_RA := of_nat (sa_restorer action))\<rparr>)"

text \<open>The way back to user mode on hart \<open>hartid\<close>; \<open>ksatp\<close>, \<open>ksp\<close> and \<open>ktrap\<close> are the kernel's page table, the top
  of the hart's stack and the entry point of the trap handler.\<close>

definition return_to_user :: "64 word \<Rightarrow> 64 word \<Rightarrow> 64 word \<Rightarrow> 64 word \<Rightarrow> sproc \<Rightarrow> sproc" where
  "return_to_user ksatp ksp ktrap hartid p0 =
     (let p = maybe_deliver_signal p0
      in p\<lparr>tframe := (tframe p)(TF_KSATP := ksatp, TF_KSP := ksp, TF_KTRAP := ktrap, TF_KHART := hartid)\<rparr>)"

definition sys_sigreturn :: "sproc \<Rightarrow> int \<times> sproc" where
  "sys_sigreturn p = (case sig_saved_frame p of
     None \<Rightarrow> (-1, p)
   | Some tf \<Rightarrow> (sint (tf TF_A0), p\<lparr>sig_saved_frame := None, tframe := tf, sig_blocked := sig_saved_blocked p\<rparr>))"

text \<open>\<open>proc_main\<close> stores the result of a system call in the first argument register.\<close>

definition set_result :: "int \<Rightarrow> sproc \<Rightarrow> sproc" where
  "set_result r p = p\<lparr>tframe := (tframe p)(TF_A0 := of_int r)\<rparr>"

text \<open>What a child inherits and what \<open>exec\<close> resets.\<close>

definition fork_signals :: "trapframe \<Rightarrow> tid \<Rightarrow> sproc \<Rightarrow> sproc" where
  "fork_signals tf t parent = (sproc_new tf t)\<lparr>sig_blocked := sig_blocked parent, sig_actions := sig_actions parent\<rparr>"

text \<open>The child gets the next process identifier; the counter is an \<open>AtomicU32\<close> and wraps.\<close>

definition fork_proc :: "trapframe \<Rightarrow> tid \<Rightarrow> sproc \<Rightarrow> ksig \<Rightarrow> nat \<times> ksig" where
  "fork_proc tf t parent k = (knext k, (set_sproc (knext k) (fork_signals tf t parent) k)\<lparr>knext := (knext k + 1) mod 2 ^ 32\<rparr>)"

definition exec_signals :: "sproc \<Rightarrow> sproc" where
  "exec_signals p = p\<lparr>sig_actions := replicate 32 default_action, sig_saved_frame := None\<rparr>"

section \<open>Timers and alarms\<close>

definition TIMER_INTERVAL :: nat where "TIMER_INTERVAL = 1000000"

text \<open>\<open>partition_point\<close> and \<open>insert\<close>.\<close>

definition insert_deadline :: "nat \<times> 'a \<Rightarrow> (nat \<times> 'a) list \<Rightarrow> (nat \<times> 'a) list" where
  "insert_deadline e l = takeWhile (\<lambda>x. fst x \<le> fst e) l @ [e] @ dropWhile (\<lambda>x. fst x \<le> fst e) l"

definition add_timer :: "nat \<Rightarrow> tid \<Rightarrow> ksig \<Rightarrow> ksig" where
  "add_timer deadline w k = k\<lparr>timers := insert_deadline (deadline, w) (timers k)\<rparr>"

definition add_alarm :: "nat \<Rightarrow> nat \<Rightarrow> 32 word \<Rightarrow> ksig \<Rightarrow> ksig" where
  "add_alarm deadline pid gen k = k\<lparr>alarms := insert_deadline (deadline, pid, gen) (alarms k)\<rparr>"

definition sys_alarm :: "nat \<Rightarrow> nat \<Rightarrow> nat \<Rightarrow> ksig \<Rightarrow> int \<times> ksig" where
  "sys_alarm now pid seconds k = (case sprocs k pid of
     None \<Rightarrow> (0, k)
   | Some p \<Rightarrow>
       (let prev_remaining = (if alarm_deadline p > now then int ((alarm_deadline p - now) div TIMER_INTERVAL) else 0);
            new_gen = alarm_generation p + 1;
            p = p\<lparr>alarm_generation := new_gen\<rparr>
        in (prev_remaining,
            if seconds = 0 then set_sproc pid (p\<lparr>alarm_deadline := 0\<rparr>) k
            else let deadline = now + seconds * TIMER_INTERVAL
                 in add_alarm deadline pid new_gen (set_sproc pid (p\<lparr>alarm_deadline := deadline\<rparr>) k))))"

definition fire_alarm :: "nat \<times> nat \<times> 32 word \<Rightarrow> ksig \<Rightarrow> ksig" where
  "fire_alarm = (\<lambda>(d, pid, gen) k. case sprocs k pid of
     None \<Rightarrow> k
   | Some p \<Rightarrow>
       if alarm_generation p \<noteq> gen then k
       else let h = sa_handler (sig_actions p ! nat SIGALRM);
                p = (if h = SIG_DFL then p\<lparr>pkilled := True\<rparr>
                     else if h = SIG_IGN then p
                     else p\<lparr>sig_pending := sig_pending p OR sig_bit (nat SIGALRM)\<rparr>)
            in sig_notify False pid p k)"

definition drain_expired_alarms :: "nat \<Rightarrow> ksig \<Rightarrow> ksig" where
  "drain_expired_alarms now k =
     fold fire_alarm (takeWhile (\<lambda>e. fst e \<le> now) (alarms k)) (k\<lparr>alarms := dropWhile (\<lambda>e. fst e \<le> now) (alarms k)\<rparr>)"

definition drain_expired :: "nat \<Rightarrow> ksig \<Rightarrow> ksig" where
  "drain_expired now k = drain_expired_alarms now
     (k\<lparr>timers := dropWhile (\<lambda>e. fst e \<le> now) (timers k),
        kqueue := kqueue k @ map snd (takeWhile (\<lambda>e. fst e \<le> now) (timers k))\<rparr>)"

text \<open>One poll of \<open>Sleep\<close> and of \<open>Pause\<close>.\<close>

definition sleep_poll :: "nat \<Rightarrow> nat \<Rightarrow> tid \<Rightarrow> bool \<Rightarrow> ksig \<Rightarrow> bool \<times> ksig" where
  "sleep_poll deadline now t kd k =
     (if kd then (True, k) else if now \<ge> deadline then (True, k) else (False, add_timer deadline t k))"

definition pause_poll :: "tid \<Rightarrow> sproc \<Rightarrow> bool \<times> sproc" where
  "pause_poll t p =
     (if pkilled p then (True, p)
      else let p = p\<lparr>wait_waker := cell_register t (wait_waker p)\<rparr>
           in (sig_pending p AND NOT (sig_blocked p) \<noteq> 0, p))"

section \<open>Runs\<close>

text \<open>Any interleaving of the operations above by all processes. Only processes that satisfy \<open>F\<close> return from a
  handler, execute a new image or go away. The counters of processes and, for each process, of
  its calls of \<open>alarm\<close> are 32 bits wide and wrap. The runs here end before they do: fewer than \<open>2 ^ 32 - 1\<close>
  processes are created and a process calls \<open>alarm\<close> at most \<open>2 ^ 32 - 1\<close> times. (At the next call the
  generation is 0 again in a build without overflow checks, and an alarm that was set \<open>2 ^ 32\<close> calls before
  would count as current; with overflow checks the addition in \<open>sys_alarm\<close> panics.)\<close>

inductive sig_step :: "(nat \<Rightarrow> bool) \<Rightarrow> ksig \<Rightarrow> ksig \<Rightarrow> bool" for F :: "nat \<Rightarrow> bool" where
  kill: "sig_step F k (snd (sys_kill pid sig k))"
| act: "sprocs k pid = Some p \<Longrightarrow> sig_step F k (set_sproc pid (snd (sys_sigaction n h r m p)) k)"
| mask: "sprocs k pid = Some p \<Longrightarrow> sig_step F k (set_sproc pid (snd (snd (sys_sigprocmask tw how st va mem p))) k)"
| user: "sprocs k pid = Some p \<Longrightarrow> sig_step F k (set_sproc pid (p\<lparr>tframe := tf\<rparr>) k)"
| ret: "sprocs k pid = Some p \<Longrightarrow> sig_step F k (set_sproc pid (return_to_user a b c d p) k)"
| alarm: "sprocs k pid = Some p \<Longrightarrow> alarm_generation p \<noteq> - 1 \<Longrightarrow> sig_step F k (snd (sys_alarm now pid secs k))"
| drain: "sig_step F k (drain_expired now k)"
| sleep: "sig_step F k (snd (sleep_poll dl now t kd k))"
| pause: "sprocs k pid = Some p \<Longrightarrow> sig_step F k (set_sproc pid (snd (pause_poll t p)) k)"
| fork: "sprocs k pid = Some p \<Longrightarrow> knext k < 2 ^ 32 - 1 \<Longrightarrow> sig_step F k (snd (fork_proc tf t p k))"
| sigreturn: "sprocs k pid = Some p \<Longrightarrow> F pid \<Longrightarrow> sig_step F k (set_sproc pid (snd (sys_sigreturn p)) k)"
| exec: "sprocs k pid = Some p \<Longrightarrow> F pid \<Longrightarrow> sig_step F k (set_sproc pid (exec_signals p) k)"
| gone: "F pid \<Longrightarrow> sig_step F k (k\<lparr>sprocs := (sprocs k)(pid := None)\<rparr>)"

definition boot :: "trapframe \<Rightarrow> tid \<Rightarrow> ksig" where
  "boot tf t = \<lparr>sprocs = [1 \<mapsto> sproc_new tf t], alarms = [], timers = [], kcon = console_new, kqueue = [], knext = 2\<rparr>"

definition sig_reach :: "ksig \<Rightarrow> bool" where
  "sig_reach k \<longleftrightarrow> (\<exists>tf t. (sig_step (\<lambda>_. True))\<^sup>*\<^sup>* (boot tf t) k)"

lemma sig_reach_induct [consumes 1, case_names boot step]:
  assumes "sig_reach k" "\<And>tf t. P (boot tf t)" "\<And>k k'. P k \<Longrightarrow> sig_step (\<lambda>_. True) k k' \<Longrightarrow> P k'"
  shows "P k"
proof -
  obtain tf t where "(sig_step (\<lambda>_. True))\<^sup>*\<^sup>* (boot tf t) k" using assms(1) by (auto simp: sig_reach_def)
  then show ?thesis by (induction rule: rtranclp_induct) (use assms in auto)
qed

text \<open>How the parts of a step act on one process.\<close>

lemma set_sproc_simps [simp]:
  "sprocs (set_sproc q p k) = (sprocs k)(q \<mapsto> p)" "alarms (set_sproc q p k) = alarms k" "timers (set_sproc q p k) = timers k"
  "knext (set_sproc q p k) = knext k"
  by (simp_all add: set_sproc_def)

lemma sig_notify_simps [simp]:
  "sprocs (sig_notify c q p k) = (sprocs k)(q \<mapsto> p\<lparr>wait_waker := fst (cell_wake (wait_waker p))\<rparr>)"
  "alarms (sig_notify c q p k) = alarms k" "timers (sig_notify c q p k) = timers k" "knext (sig_notify c q p k) = knext k"
  by (simp_all add: sig_notify_def Let_def split_beta)

text \<open>Two states of a process that differ at most in being killed, in pending signals and in wakers.\<close>

definition same_sig :: "sproc \<Rightarrow> sproc \<Rightarrow> bool" where
  "same_sig p q \<longleftrightarrow> sig_blocked q = sig_blocked p \<and> sig_actions q = sig_actions p \<and> sig_saved_frame q = sig_saved_frame p \<and>
     sig_saved_blocked q = sig_saved_blocked p \<and> tframe q = tframe p \<and> alarm_deadline q = alarm_deadline p \<and>
     alarm_generation q = alarm_generation p"

lemma kill_same:
  assumes "sprocs k q = Some p"
  shows "\<exists>p'. sprocs (snd (sys_kill pid sig k)) q = Some p' \<and> same_sig p p'"
  using assms by (auto simp: sys_kill_def same_sig_def Let_def split: option.splits)

lemma fire_same:
  assumes "sprocs k q = Some p"
  shows "\<exists>p'. sprocs (fire_alarm e k) q = Some p' \<and> same_sig p p'"
  using assms by (auto simp: fire_alarm_def same_sig_def Let_def split: option.splits prod.splits)

lemma fires_same:
  assumes "sprocs k q = Some p"
  shows "\<exists>p'. sprocs (fold fire_alarm es k) q = Some p' \<and> same_sig p p'"
  using assms
proof (induction es arbitrary: k p)
  case (Cons e es)
  obtain p1 where p1: "sprocs (fire_alarm e k) q = Some p1" "same_sig p p1" using fire_same [OF Cons.prems] by blast
  from Cons.IH [OF p1(1)] p1(2) show ?case by (auto simp: same_sig_def)
qed (auto simp: same_sig_def)

lemma fires_none: "sprocs k q = None \<Longrightarrow> sprocs (fold fire_alarm es k) q = None"
proof (induction es arbitrary: k)
  case (Cons e es)
  have "sprocs (fire_alarm e k) q = None" using Cons.prems by (auto simp: fire_alarm_def Let_def split: prod.splits option.splits)
  from Cons.IH [OF this] show ?case by simp
qed simp

lemma drain_same:
  assumes "sprocs k q = Some p"
  shows "\<exists>p'. sprocs (drain_expired now k) q = Some p' \<and> same_sig p p'"
  using fires_same [of "_\<lparr>alarms := _\<rparr>" q p] assms by (simp add: drain_expired_def drain_expired_alarms_def)

lemma fires_queues:
  "alarms (fold fire_alarm es k) = alarms k \<and> timers (fold fire_alarm es k) = timers k \<and> knext (fold fire_alarm es k) = knext k"
proof (induction es arbitrary: k)
  case (Cons e es)
  have "alarms (fire_alarm e k) = alarms k \<and> timers (fire_alarm e k) = timers k \<and> knext (fire_alarm e k) = knext k"
    by (auto simp: fire_alarm_def Let_def split: prod.splits option.splits)
  then show ?case using Cons.IH [of "fire_alarm e k"] by simp
qed simp

section \<open>Delivery and return are inverse\<close>

lemma deliver_saved: "sig_saved_frame p \<noteq> None \<Longrightarrow> maybe_deliver_signal p = p"
  by (simp add: maybe_deliver_signal_def)

text \<open>While a handler runs, nothing but its return touches what was saved for it.\<close>

definition holds_saved :: "trapframe \<Rightarrow> 32 word \<Rightarrow> sproc \<Rightarrow> bool" where
  "holds_saved tf b p \<longleftrightarrow> sig_saved_frame p = Some tf \<and> sig_saved_blocked p = b"

lemma holds_saved_step:
  assumes "sig_step F k k'" "\<not> F q" "sprocs k q = Some p" "holds_saved tf b p" "q < knext k"
  shows "\<exists>p'. sprocs k' q = Some p' \<and> holds_saved tf b p' \<and> q < knext k'"
  using assms
proof induction
  case (kill k pid sig)
  then show ?case using kill_same [of k q p pid sig] by (auto simp: holds_saved_def same_sig_def sys_kill_def Let_def split: option.splits)
next
  case (act k pid p0 n h r m)
  then show ?case by (auto simp: sys_sigaction_def holds_saved_def)
next
  case (mask k pid p0 tw how st va mem)
  then show ?case by (auto simp: sys_sigprocmask_def holds_saved_def Let_def split: prod.splits bool.splits)
next
  case (ret k pid p0 a b c d)
  then show ?case by (auto simp: return_to_user_def holds_saved_def Let_def deliver_saved)
next
  case (alarm k pid p0 now secs)
  then show ?case by (auto simp: sys_alarm_def add_alarm_def holds_saved_def Let_def)
next
  case (drain k now)
  obtain p' where "sprocs (drain_expired now k) q = Some p'" "same_sig p p'" using drain_same [OF drain(2)] by blast
  then show ?case using drain by (auto simp: holds_saved_def same_sig_def drain_expired_def drain_expired_alarms_def fires_queues)
next
  case (sleep k dl now t kd)
  then show ?case by (auto simp: sleep_poll_def add_timer_def)
next
  case (pause k pid p0 t)
  then show ?case by (auto simp: pause_poll_def holds_saved_def Let_def)
next
  case (fork k pid p0 tf t)
  then show ?case by (auto simp: fork_proc_def holds_saved_def)
qed (auto simp: holds_saved_def)

lemma holds_saved_run:
  assumes "(sig_step F)\<^sup>*\<^sup>* k k'" "\<not> F q" "sprocs k q = Some p" "holds_saved tf b p" "q < knext k"
  shows "\<exists>p'. sprocs k' q = Some p' \<and> holds_saved tf b p' \<and> q < knext k'"
  using assms(1)
proof (induction rule: rtranclp_induct)
  case base
  then show ?case using assms by blast
next
  case (step k1 k2)
  then obtain p1 where "sprocs k1 q = Some p1" "holds_saved tf b p1" "q < knext k1" by blast
  from holds_saved_step [OF step(2) assms(2) this] show ?case .
qed

section \<open>Handlers, masks and pending bits\<close>

lemma bit_sig_bit [simp]: "bit (sig_bit n) m \<longleftrightarrow> m = n \<and> n < 32"
  unfolding sig_bit_def bit_push_bit_iff bit_1_iff by auto

lemma lowest_bit_spec:
  assumes "w \<noteq> 0"
  shows "bit w (lowest_bit w) \<and> lowest_bit w < 32 \<and> (\<forall>j < lowest_bit w. \<not> bit w j)"
proof -
  obtain n where n: "bit w n" using assms by (auto simp: bit_eq_iff)
  then have n32: "n < 32" using bit_imp_le_length [of w n] by simp
  let ?t = "takeWhile (\<lambda>i. \<not> bit w i) [0..<32]"
  have lt: "length ?t < 32"
  proof (rule ccontr)
    assume "\<not> length ?t < 32"
    then have "length ?t = length [0..<32]" using length_takeWhile_le [of "\<lambda>i. \<not> bit w i" "[0..<32]"] by simp
    then have "?t = [0..<32]" by (metis takeWhile_eq_take take_all le_refl)
    then have "\<not> bit w n" using n32 set_takeWhileD [of n "\<lambda>i. \<not> bit w i" "[0..<32]"] by auto
    then show False using n by simp
  qed
  then have "\<not> \<not> bit w ([0..<32] ! length ?t)" using nth_length_takeWhile [of "\<lambda>i. \<not> bit w i" "[0..<32]"] by simp
  moreover have "\<not> bit w j" if "j < length ?t" for j
  proof -
    have "?t ! j = [0..<32] ! j" using that by (rule takeWhile_nth)
    moreover have "\<not> bit w (?t ! j)" using nth_mem [OF that] by (auto dest: set_takeWhileD)
    ultimately show ?thesis using that lt by simp
  qed
  ultimately show ?thesis using lt by (simp add: lowest_bit_def)
qed

definition sig_ok :: "sproc \<Rightarrow> bool" where
  "sig_ok p \<longleftrightarrow> length (sig_actions p) = 32 \<and> sig_actions p ! 9 = default_action \<and> sig_actions p ! 19 = default_action \<and>
     (\<forall>n. bit (sig_pending p) n \<longrightarrow> n \<notin> {0, 9, 19})"

definition all_sig_ok :: "ksig \<Rightarrow> bool" where
  "all_sig_ok k \<longleftrightarrow> (\<forall>q p. sprocs k q = Some p \<longrightarrow> sig_ok p)"

lemma all_sig_ok_set: "all_sig_ok k \<Longrightarrow> sig_ok p \<Longrightarrow> all_sig_ok (set_sproc q p k)"
  by (auto simp: all_sig_ok_def split: if_splits)

lemma sig_ok_notify: "all_sig_ok k \<Longrightarrow> sig_ok p \<Longrightarrow> all_sig_ok (sig_notify c q p k)"
  by (auto simp: all_sig_ok_def sig_ok_def split: if_splits)

lemma sig_ok_kill:
  assumes "all_sig_ok k"
  shows "all_sig_ok (snd (sys_kill pid sig k))"
proof (cases "sprocs k (nat pid)")
  case None
  then show ?thesis using assms by (simp add: sys_kill_def)
next
  case (Some p)
  have p: "sig_ok p" using assms Some by (auto simp: all_sig_ok_def)
  have "sig_ok (p\<lparr>sig_pending := sig_pending p OR sig_bit (nat sig)\<rparr>)" if "0 < sig" "sig \<noteq> SIGKILL" "sig \<noteq> SIGSTOP"
    using p that by (auto simp: sig_ok_def bit_or_iff SIGKILL_def SIGSTOP_def)
  moreover have "sig_ok (p\<lparr>pkilled := True\<rparr>)" using p by (simp add: sig_ok_def)
  ultimately show ?thesis using assms Some by (auto simp: sys_kill_def Let_def intro!: sig_ok_notify)
qed

lemma sig_ok_fires: "all_sig_ok k \<Longrightarrow> all_sig_ok (fold fire_alarm es k)"
proof (induction es arbitrary: k)
  case (Cons e es)
  have "all_sig_ok (fire_alarm e k)"
  proof -
    obtain d q g where e: "e = (d, q, g)" by (rule prod_cases3)
    show ?thesis
    proof (cases "sprocs k q")
      case (Some p)
      then have "sig_ok p" using Cons.prems by (auto simp: all_sig_ok_def)
      then have "sig_ok (p\<lparr>pkilled := True\<rparr>)" "sig_ok (p\<lparr>sig_pending := sig_pending p OR sig_bit (nat SIGALRM)\<rparr>)" "sig_ok p"
        by (auto simp: sig_ok_def bit_or_iff SIGALRM_def)
      then show ?thesis using Some Cons.prems by (auto simp: e fire_alarm_def Let_def intro!: sig_ok_notify)
    qed (use Cons.prems in \<open>simp add: e fire_alarm_def\<close>)
  qed
  from Cons.IH [OF this] show ?case by simp
qed simp

lemma sig_ok_deliver:
  assumes "sig_ok p"
  shows "sig_ok (maybe_deliver_signal p)"
  using assms by (auto simp: maybe_deliver_signal_def sig_ok_def Let_def bit_and_iff)

lemma sig_ok_action:
  assumes "sig_ok p"
  shows "sig_ok (snd (sys_sigaction n h r m p))"
proof -
  have "nat n \<noteq> 9 \<and> nat n \<noteq> 19" if "0 < n" "n \<noteq> SIGKILL" "n \<noteq> SIGSTOP" using that by (auto simp: SIGKILL_def SIGSTOP_def)
  then show ?thesis using assms by (auto simp: sys_sigaction_def sig_ok_def)
qed

lemma all_sig_ok_step:
  assumes "sig_step F k k'" "all_sig_ok k"
  shows "all_sig_ok k'"
  using assms
proof induction
  case (kill k pid sig)
  then show ?case by (rule sig_ok_kill)
next
  case (drain k now)
  then have "all_sig_ok (k\<lparr>timers := x, kqueue := y, alarms := z\<rparr>)" for x y z by (simp add: all_sig_ok_def)
  then show ?case unfolding drain_expired_def drain_expired_alarms_def by (intro sig_ok_fires) simp
next
  case (act k pid p n h r m)
  then show ?case by (intro all_sig_ok_set sig_ok_action) (auto simp: all_sig_ok_def)
next
  case (ret k pid p a b c d)
  then have "sig_ok (maybe_deliver_signal p)" by (intro sig_ok_deliver) (auto simp: all_sig_ok_def)
  then show ?case by (intro all_sig_ok_set ret.prems) (simp add: return_to_user_def Let_def sig_ok_def)
next
  case (fork k pid p tf t)
  then show ?case by (auto simp: fork_proc_def fork_signals_def sproc_new_def all_sig_ok_def sig_ok_def split: if_splits)
next
  case (exec k pid p)
  then show ?case by (auto simp: exec_signals_def all_sig_ok_def sig_ok_def split: if_splits)
next
  case (mask k pid p tw how st va mem)
  then have "sig_ok p" by (auto simp: all_sig_ok_def)
  then have "sig_ok (snd (snd (sys_sigprocmask tw how st va mem p)))"
    by (auto simp: sys_sigprocmask_def sig_ok_def Let_def split: prod.splits bool.splits)
  then show ?case by (intro all_sig_ok_set mask.prems)
next
  case (alarm k pid p now secs)
  then have "sig_ok p" by (auto simp: all_sig_ok_def)
  then show ?case using alarm by (auto simp: sys_alarm_def add_alarm_def Let_def sig_ok_def all_sig_ok_def split: if_splits)
next
  case (sleep k dl now t kd)
  then show ?case by (simp add: sleep_poll_def add_timer_def all_sig_ok_def)
next
  case (pause k pid p t)
  then have "sig_ok p" by (auto simp: all_sig_ok_def)
  then have "sig_ok (snd (pause_poll t p))" by (simp add: pause_poll_def sig_ok_def Let_def)
  then show ?case by (intro all_sig_ok_set pause.prems)
next
  case (sigreturn k pid p)
  then have "sig_ok p" by (auto simp: all_sig_ok_def)
  then have "sig_ok (snd (sys_sigreturn p))" by (simp add: sys_sigreturn_def sig_ok_def split: option.splits)
  then show ?case by (intro all_sig_ok_set sigreturn.prems)
next
  case (user k pid p tf)
  then have "sig_ok (p\<lparr>tframe := tf\<rparr>)" by (auto simp: all_sig_ok_def sig_ok_def)
  then show ?case by (intro all_sig_ok_set user.prems)
qed (auto simp: all_sig_ok_def split: if_splits)

lemma all_sig_ok_reach: "sig_reach k \<Longrightarrow> all_sig_ok k"
proof (induction rule: sig_reach_induct)
  case (boot tf t)
  then show ?case by (simp add: boot_def sproc_new_def all_sig_ok_def sig_ok_def)
qed (rule all_sig_ok_step)

section \<open>Alarms\<close>

lemma insert_deadline_set [simp]: "set (insert_deadline e l) = insert e (set l)"
proof -
  have "set (takeWhile (\<lambda>x. fst x \<le> fst e) l) \<union> set (dropWhile (\<lambda>x. fst x \<le> fst e) l) = set l"
    by (metis set_append takeWhile_dropWhile_id)
  then show ?thesis by (auto simp: insert_deadline_def)
qed

lemma insert_deadline_sorted:
  assumes "sorted (map fst l)"
  shows "sorted (map fst (insert_deadline e l))"
  using assms
proof (induction l)
  case (Cons x l)
  then show ?case by (cases "fst x \<le> fst e") (auto simp: insert_deadline_def dest: set_takeWhileD set_dropWhileD)
qed (simp add: insert_deadline_def)

lemma due_is_filter:
  "sorted (map fst l) \<Longrightarrow> set (takeWhile (\<lambda>e. fst e \<le> now) l) = {e \<in> set l. fst e \<le> (now :: nat)}"
  "sorted (map fst l) \<Longrightarrow> set (dropWhile (\<lambda>e. fst e \<le> now) l) = {e \<in> set l. now < fst e}"
  by (induction l) auto

text \<open>The entry of the last \<open>alarm\<close> call of a process.\<close>

definition armed :: "ksig \<Rightarrow> nat \<Rightarrow> sproc \<Rightarrow> bool" where
  "armed k pid p \<longleftrightarrow> (alarm_deadline p, pid, alarm_generation p) \<in> set (alarms k)"

definition alarm_inv :: "ksig \<Rightarrow> bool" where
  "alarm_inv k \<longleftrightarrow> sorted (map fst (alarms k)) \<and> (\<forall>q p. sprocs k q = Some p \<longrightarrow> q < knext k) \<and> (\<forall>d q g. (d, q, g) \<in> set (alarms k) \<longrightarrow> q < knext k) \<and>
     (\<forall>d q g p. (d, q, g) \<in> set (alarms k) \<longrightarrow> sprocs k q = Some p \<longrightarrow>
        g \<le> alarm_generation p \<and> (g = alarm_generation p \<longrightarrow> d = alarm_deadline p))"

lemma alarm_invD:
  assumes "alarm_inv k"
  shows "sorted (map fst (alarms k))" "\<And>q p. sprocs k q = Some p \<Longrightarrow> q < knext k"
    "\<And>d q g. (d, q, g) \<in> set (alarms k) \<Longrightarrow> q < knext k"
    "\<And>d q g p. (d, q, g) \<in> set (alarms k) \<Longrightarrow> sprocs k q = Some p \<Longrightarrow> g \<le> alarm_generation p"
    "\<And>d q p. (d, q, alarm_generation p) \<in> set (alarms k) \<Longrightarrow> sprocs k q = Some p \<Longrightarrow> d = alarm_deadline p"
  using assms unfolding alarm_inv_def by blast+

text \<open>Steps that leave the queue and the alarm fields alone.\<close>

definition same_alarm :: "ksig \<Rightarrow> ksig \<Rightarrow> bool" where
  "same_alarm k k' \<longleftrightarrow> knext k' = knext k \<and> set (alarms k') \<subseteq> set (alarms k) \<and> sorted (map fst (alarms k')) \<and>
     (\<forall>q p'. sprocs k' q = Some p' \<longrightarrow> (\<exists>p. sprocs k q = Some p \<and> alarm_deadline p' = alarm_deadline p \<and> alarm_generation p' = alarm_generation p))"

lemma same_alarm_inv:
  assumes "alarm_inv k" "same_alarm k k'"
  shows "alarm_inv k'"
  unfolding alarm_inv_def
proof (intro conjI allI impI)
  note I = alarm_invD [OF assms(1)]
  note S = assms(2) [unfolded same_alarm_def]
  show "sorted (map fst (alarms k'))" using S by blast
  show "q < knext k'" if "sprocs k' q = Some p" for q p using S that I(2) by fastforce
  show "q < knext k'" if "(d, q, g) \<in> set (alarms k')" for d q g
  proof -
    have "(d, q, g) \<in> set (alarms k)" using S that by blast
    then show ?thesis using I(3) S by simp
  qed
  fix d q g p' assume e: "(d, q, g) \<in> set (alarms k')" "sprocs k' q = Some p'"
  then obtain p where p: "sprocs k q = Some p" "alarm_deadline p' = alarm_deadline p" "alarm_generation p' = alarm_generation p" using S by blast
  have m: "(d, q, g) \<in> set (alarms k)" using e(1) S by blast
  show "g \<le> alarm_generation p'" using I(4) [OF m p(1)] p(3) by simp
  show "d = alarm_deadline p'" if "g = alarm_generation p'" using I(5) [of d q p] m p that by simp
qed

lemma same_alarm_set:
  assumes "alarm_inv k" "sprocs k q = Some p" "alarm_deadline p' = alarm_deadline p" "alarm_generation p' = alarm_generation p"
  shows "same_alarm k (set_sproc q p' k)"
  using assms alarm_invD(1) [OF assms(1)] by (auto simp: same_alarm_def)

lemma same_alarm_kill:
  assumes "alarm_inv k"
  shows "same_alarm k (snd (sys_kill pid sig k))"
  using alarm_invD(1) [OF assms] by (auto simp: same_alarm_def sys_kill_def Let_def split: option.splits if_splits)

lemma same_alarm_drain:
  assumes "alarm_inv k"
  shows "same_alarm k (drain_expired now k)"
proof -
  let ?D = "drain_expired now k"
  note I = alarm_invD [OF assms]
  have a: "alarms ?D = dropWhile (\<lambda>e. fst e \<le> now) (alarms k)" "knext ?D = knext k"
    by (simp_all add: drain_expired_def drain_expired_alarms_def fires_queues)
  have "\<exists>p. sprocs k q = Some p \<and> alarm_deadline p' = alarm_deadline p \<and> alarm_generation p' = alarm_generation p"
    if s: "sprocs ?D q = Some p'" for q p'
  proof (cases "sprocs k q")
    case None
    then have "sprocs ?D q = None" unfolding drain_expired_def drain_expired_alarms_def by (intro fires_none) simp
    then show ?thesis using s by simp
  next
    case (Some p)
    then show ?thesis using drain_same [OF Some, of now] s by (auto simp: same_sig_def)
  qed
  moreover have "sorted (map fst (alarms ?D))" using sorted_dropWhile [OF I(1), of "\<lambda>d. d \<le> now"] by (simp add: a dropWhile_map comp_def)
  ultimately show ?thesis using a by (auto simp: same_alarm_def dest: set_dropWhileD)
qed

lemma word_less_Suc: "w \<noteq> - 1 \<Longrightarrow> (w :: 32 word) < w + 1"
proof -
  assume "w \<noteq> - 1"
  then have "1 + w \<noteq> 0" by (metis add_eq_0_iff)
  from unatSuc [OF this] show "w < w + 1" by (simp add: word_less_nat_alt add.commute)
qed

lemma alarm_inv_alarm:
  assumes inv: "alarm_inv k" and p: "sprocs k pid = Some p" and g: "alarm_generation p \<noteq> - 1"
  shows "alarm_inv (snd (sys_alarm now pid secs k))"
proof -
  let ?k = "snd (sys_alarm now pid secs k)" and ?dl = "if secs = 0 then 0 else now + secs * TIMER_INTERVAL"
  let ?p = "p\<lparr>alarm_generation := alarm_generation p + 1, alarm_deadline := ?dl\<rparr>"
  note I = alarm_invD [OF inv]
  have s: "sprocs ?k = (sprocs k)(pid \<mapsto> ?p)" "knext ?k = knext k" by (auto simp: sys_alarm_def add_alarm_def p Let_def)
  have al: "alarms ?k = (if secs = 0 then alarms k else insert_deadline (?dl, pid, alarm_generation p + 1) (alarms k))"
    by (auto simp: sys_alarm_def add_alarm_def p Let_def)
  have old: "g' < alarm_generation p + 1" if "(d, pid, g') \<in> set (alarms k)" for d g'
    using I(4) [OF that p] word_less_Suc [OF g] by simp
  have new: "(d, q, g') \<in> set (alarms k) \<or> (q = pid \<and> d = ?dl \<and> g' = alarm_generation p + 1)" if "(d, q, g') \<in> set (alarms ?k)" for d q g'
    using that by (auto simp: al split: if_splits)
  show ?thesis
    unfolding alarm_inv_def
  proof (intro conjI allI impI)
    show "sorted (map fst (alarms ?k))" using I(1) insert_deadline_sorted [OF I(1)] by (simp add: al)
    show "q < knext ?k" if "sprocs ?k q = Some p'" for q p' using that I(2) p by (auto simp: s split: if_splits)
    show "q < knext ?k" if "(d, q, g') \<in> set (alarms ?k)" for d q g' using new [OF that] I(3) I(2) [OF p] by (auto simp: s)
    fix d q g' p' assume e: "(d, q, g') \<in> set (alarms ?k)" "sprocs ?k q = Some p'"
    show "g' \<le> alarm_generation p'" using new [OF e(1)] e(2) old [of d g'] I(4) by (auto simp: s split: if_splits)
    show "d = alarm_deadline p'" if "g' = alarm_generation p'" 
      using new [OF e(1)] e(2) old [of d g'] I(5) that by (auto simp: s split: if_splits)
  qed
qed

lemma alarm_inv_step:
  assumes "sig_step F k k'" "alarm_inv k"
  shows "alarm_inv k'"
  using assms
proof induction
  case (kill k pid sig)
  then show ?case using same_alarm_inv same_alarm_kill by blast
next
  case (drain k now)
  then show ?case using same_alarm_inv same_alarm_drain by blast
next
  case (alarm k pid p now secs)
  then show ?case by (intro alarm_inv_alarm)
next
  case (act k pid p n h r m)
  show ?case by (rule same_alarm_inv [OF act.prems same_alarm_set [OF act.prems act.hyps]]) (auto simp: sys_sigaction_def)
next
  case (mask k pid p tw how st va mem)
  show ?case by (rule same_alarm_inv [OF mask.prems same_alarm_set [OF mask.prems mask.hyps]])
    (auto simp: sys_sigprocmask_def Let_def split: prod.splits bool.splits)
next
  case (user k pid p tf)
  show ?case by (rule same_alarm_inv [OF user.prems same_alarm_set [OF user.prems user.hyps]]) auto
next
  case (ret k pid p a b c d)
  show ?case by (rule same_alarm_inv [OF ret.prems same_alarm_set [OF ret.prems ret.hyps]])
    (auto simp: return_to_user_def maybe_deliver_signal_def Let_def)
next
  case (sleep k dl now t kd)
  then show ?case by (simp add: sleep_poll_def add_timer_def alarm_inv_def)
next
  case (pause k pid p t)
  show ?case by (rule same_alarm_inv [OF pause.prems same_alarm_set [OF pause.prems pause.hyps]]) (auto simp: pause_poll_def Let_def)
next
  case (fork k pid p tf t)
  note I = alarm_invD [OF fork.prems]
  have f: "sprocs (snd (fork_proc tf t p k)) = (sprocs k)(knext k \<mapsto> fork_signals tf t p)" "alarms (snd (fork_proc tf t p k)) = alarms k"
    "knext (snd (fork_proc tf t p k)) = Suc (knext k)" using fork.hyps(2) by (simp_all add: fork_proc_def)
  show ?case
    unfolding alarm_inv_def f
  proof (intro conjI allI impI)
    show "sorted (map fst (alarms k))" by (rule I(1))
    show "q < Suc (knext k)" if "((sprocs k)(knext k \<mapsto> fork_signals tf t p)) q = Some p'" for q p'
      using that I(2) [of q p'] by (auto split: if_splits)
    show "q < Suc (knext k)" if "(d, q, g) \<in> set (alarms k)" for d q g using I(3) [OF that] by simp
    fix d q g p' assume e: "(d, q, g) \<in> set (alarms k)" "((sprocs k)(knext k \<mapsto> fork_signals tf t p)) q = Some p'"
    then have q: "sprocs k q = Some p'" using I(3) [OF e(1)] by (simp split: if_splits)
    show "g \<le> alarm_generation p'" by (rule I(4) [OF e(1) q])
    show "d = alarm_deadline p'" if "g = alarm_generation p'" using I(5) [OF e(1) [unfolded that] q] .
  qed
next
  case (sigreturn k pid p)
  show ?case by (rule same_alarm_inv [OF sigreturn.prems same_alarm_set [OF sigreturn.prems sigreturn.hyps(1)]])
    (auto simp: sys_sigreturn_def split: option.splits)
next
  case (exec k pid p)
  show ?case by (rule same_alarm_inv [OF exec.prems same_alarm_set [OF exec.prems exec.hyps(1)]]) (auto simp: exec_signals_def)
next
  case (gone pid k)
  show ?case by (rule same_alarm_inv [OF gone.prems]) (use alarm_invD(1) [OF gone.prems] in \<open>auto simp: same_alarm_def split: if_splits\<close>)
qed

lemma alarm_inv_reach: "sig_reach k \<Longrightarrow> alarm_inv k"
proof (induction rule: sig_reach_induct)
  case (boot tf t)
  then show ?case by (simp add: boot_def alarm_inv_def)
qed (rule alarm_inv_step)

text \<open>What an alarm does to the process it is for.\<close>

definition raised :: "sproc \<Rightarrow> bool \<times> 32 word" where
  "raised p =
     (let h = sa_handler (sig_actions p ! nat SIGALRM) in
      if h = SIG_DFL then (True, sig_pending p) else if h = SIG_IGN then (pkilled p, sig_pending p)
      else (pkilled p, sig_pending p OR sig_bit (nat SIGALRM)))"

lemma fire_effect:
  assumes "sprocs k q = Some p"
  shows "\<exists>p'. sprocs (fire_alarm (d, r, g) k) q = Some p' \<and> same_sig p p' \<and>
    (pkilled p', sig_pending p') = (if r = q \<and> g = alarm_generation p then raised p else (pkilled p, sig_pending p))"
  using assms by (auto simp: fire_alarm_def same_sig_def raised_def Let_def split: option.splits)

lemma raised_idem: "same_sig p p' \<Longrightarrow> (pkilled p', sig_pending p') = raised p \<Longrightarrow> raised p' = raised p"
  by (auto simp: raised_def same_sig_def Let_def or.assoc split: if_splits)

lemma fires_effect:
  assumes "sprocs k q = Some p"
  shows "\<exists>p'. sprocs (fold fire_alarm es k) q = Some p' \<and> same_sig p p' \<and>
    (pkilled p', sig_pending p') = (if \<exists>d. (d, q, alarm_generation p) \<in> set es then raised p else (pkilled p, sig_pending p))"
  using assms
proof (induction es arbitrary: k p)
  case (Cons e es)
  obtain d r g where e: "e = (d, r, g)" by (rule prod_cases3)
  obtain p1 where p1: "sprocs (fire_alarm e k) q = Some p1" "same_sig p p1"
    "(pkilled p1, sig_pending p1) = (if r = q \<and> g = alarm_generation p then raised p else (pkilled p, sig_pending p))"
    using fire_effect [OF Cons.prems, of d r g] e by blast
  have g: "alarm_generation p1 = alarm_generation p" using p1(2) by (simp add: same_sig_def)
  obtain p2 where p2: "sprocs (fold fire_alarm es (fire_alarm e k)) q = Some p2" "same_sig p1 p2"
    "(pkilled p2, sig_pending p2) = (if \<exists>d. (d, q, alarm_generation p) \<in> set es then raised p1 else (pkilled p1, sig_pending p1))"
    using Cons.IH [OF p1(1)] g by auto
  have same: "same_sig p p2" using p1(2) p2(2) by (simp add: same_sig_def)
  have "raised p1 = raised p"
  proof (cases "r = q \<and> g = alarm_generation p")
    case True
    then show ?thesis using raised_idem [OF p1(2)] p1(3) by simp
  next
    case False
    then show ?thesis using p1(2,3) by (auto simp: raised_def same_sig_def Let_def)
  qed
  then have "(pkilled p2, sig_pending p2) = (if \<exists>d. (d, q, alarm_generation p) \<in> set (e # es) then raised p else (pkilled p, sig_pending p))"
    using p1(3) p2(3) e by auto
  then show ?case using p2(1) same by auto
qed (auto simp: same_sig_def)

section \<open>Properties\<close>

text \<open>C20. Delivering a signal and returning from its handler leaves no trace: whatever the handler and all other
  processes do in between (run user code, change masks and handlers, send further signals, set alarms,
  fork, be preempted), \<open>sigreturn\<close> gives the interrupted process back exactly the registers and the blocked
  mask it had, and the store of its result changes nothing.\<close>

theorem handler_roundtrip:
  assumes p: "sprocs k pid = Some p" "pid < knext k" "sig_saved_frame p = None" and d: "sig_saved_frame (maybe_deliver_signal p) \<noteq> None"
    and run: "(sig_step (\<lambda>q. q \<noteq> pid))\<^sup>*\<^sup>* (set_sproc pid (maybe_deliver_signal p) k) k'"
  shows "\<exists>p' r p''. sprocs k' pid = Some p' \<and> sys_sigreturn p' = (r, p'') \<and> tframe (set_result r p'') = tframe p \<and>
    sig_blocked p'' = sig_blocked p \<and> sig_saved_frame p'' = None"
proof -
  have "holds_saved (tframe p) (sig_blocked p) (maybe_deliver_signal p)"
    using p(3) d by (auto simp: maybe_deliver_signal_def holds_saved_def Let_def split: if_splits)
  then obtain p' where "sprocs k' pid = Some p'" "holds_saved (tframe p) (sig_blocked p) p'"
    using holds_saved_run [OF run, of pid "maybe_deliver_signal p"] p(2) by auto
  then show ?thesis by (auto simp: holds_saved_def sys_sigreturn_def set_result_def)
qed

text \<open>C25. A signal is delivered only when it should be: when the return to user mode diverts to a handler, the
  signal is the lowest one pending and not blocked, it is neither \<open>SIGKILL\<close> nor \<open>SIGSTOP\<close>, the process enters
  the installed handler with the signal number as argument and the restorer as return address, the signal is
  no longer pending, every other pending bit is kept, and the handler runs with the signal and its mask blocked.\<close>

theorem delivery_is_right:
  assumes "sig_reach k" "sprocs k pid = Some p" "sig_saved_frame p = None" "sig_saved_frame (maybe_deliver_signal p) \<noteq> None"
  shows "\<exists>s < 32. let a = sig_actions p ! s; q = maybe_deliver_signal p in
    s \<notin> {0, 9, 19} \<and> bit (sig_pending p) s \<and> \<not> bit (sig_blocked p) s \<and> (\<forall>j < s. bit (sig_pending p) j \<longrightarrow> bit (sig_blocked p) j) \<and>
    sa_handler a \<notin> {SIG_DFL, SIG_IGN} \<and> sa_restorer a \<noteq> 0 \<and>
    tframe q TF_EPC = of_nat (sa_handler a) \<and> tframe q TF_A0 = of_nat s \<and> tframe q TF_RA = of_nat (sa_restorer a) \<and>
    (\<forall>n. bit (sig_pending q) n \<longleftrightarrow> bit (sig_pending p) n \<and> n \<noteq> s) \<and>
    (\<forall>n. bit (sig_blocked q) n \<longleftrightarrow> bit (sig_blocked p) n \<or> bit (sa_mask a) n \<or> n = s)"
proof -
  let ?r = "sig_pending p AND NOT (sig_blocked p)"
  let ?s = "lowest_bit ?r"
  have ok: "sig_ok p" using all_sig_ok_reach [OF assms(1)] assms(2) by (auto simp: all_sig_ok_def)
  have ne: "?r \<noteq> 0" using assms(3,4) by (auto simp: maybe_deliver_signal_def)
  note L = lowest_bit_spec [OF ne]
  have b: "bit (sig_pending p) ?s" "\<not> bit (sig_blocked p) ?s" "?s < 32"
    "j < ?s \<Longrightarrow> bit (sig_pending p) j \<Longrightarrow> bit (sig_blocked p) j" for j
    using L by (auto simp: bit_and_iff bit_not_iff dest: bit_imp_le_length)
  have "?s \<notin> {0, 9, 19}" using ok b(1) by (auto simp: sig_ok_def)
  moreover have h: "sa_handler (sig_actions p ! ?s) \<notin> {SIG_DFL, SIG_IGN}" "sa_restorer (sig_actions p ! ?s) \<noteq> 0"
    using assms(3,4) by (auto simp: maybe_deliver_signal_def Let_def split: if_splits)
  ultimately show ?thesis
    using b assms(3) ne h
    by (intro exI [of _ ?s]) (auto simp: maybe_deliver_signal_def Let_def TF_EPC_def TF_A0_def TF_RA_def bit_and_iff bit_or_iff bit_not_iff
        dest: bit_imp_le_length)
qed

text \<open>C24. \<open>SIGKILL\<close> cannot be caught, ignored or held back: in every reachable state \<open>SIGKILL\<close> and \<open>SIGSTOP\<close> have their
  default action and are never pending, and sending \<open>SIGKILL\<close> to a live process marks it killed, whatever its
  masks and handlers, and puts its task on the run queue.\<close>

theorem sigkill_always_kills:
  assumes "sig_reach k" "sprocs k pid = Some p" "0 < pid"
  shows "sig_actions p ! 9 = default_action \<and> sig_actions p ! 19 = default_action \<and> \<not> bit (sig_pending p) 9 \<and> \<not> bit (sig_pending p) 19 \<and>
    (\<exists>k' p'. sys_kill (int pid) SIGKILL k = (0, k') \<and> sprocs k' pid = Some p' \<and> pkilled p' \<and> task_id p \<in> set (kqueue k'))"
proof -
  have ok: "sig_ok p" using all_sig_ok_reach [OF assms(1)] assms(2) by (auto simp: all_sig_ok_def)
  then have "\<not> bit (sig_pending p) 9" "\<not> bit (sig_pending p) 19" by (auto simp: sig_ok_def)
  then show ?thesis using ok assms(2,3)
    by (simp add: sig_ok_def sys_kill_def SIGKILL_def sig_notify_def Let_def split_beta)
qed

text \<open>C23. An alarm fires exactly when it is due: in every reachable state the timer interrupt raises \<open>SIGALRM\<close> for a
  process (or kills it, if the action is the default one) if and only if the entry of its last \<open>alarm\<close> call is
  still queued and its deadline has passed; entries of superseded or cancelled calls have no effect, and
  the entry stays queued if and only if it is not due yet.\<close>

theorem alarm_fires_exactly:
  assumes "sig_reach k" "sprocs k pid = Some p"
  shows "\<exists>p'. sprocs (drain_expired now k) pid = Some p' \<and>
    (pkilled p', sig_pending p') = (if armed k pid p \<and> alarm_deadline p \<le> now then raised p else (pkilled p, sig_pending p)) \<and>
    (armed (drain_expired now k) pid p' \<longleftrightarrow> armed k pid p \<and> now < alarm_deadline p)"
proof -
  have inv: "alarm_inv k" by (rule alarm_inv_reach [OF assms(1)])
  note I = alarm_invD [OF inv]
  let ?due = "takeWhile (\<lambda>e. fst e \<le> now) (alarms k)"
  let ?k = "k\<lparr>timers := dropWhile (\<lambda>e. fst e \<le> now) (timers k), kqueue := kqueue k @ map snd (takeWhile (\<lambda>e. fst e \<le> now) (timers k)),
      alarms := dropWhile (\<lambda>e. fst e \<le> now) (alarms k)\<rparr>"
  have d: "drain_expired now k = fold fire_alarm ?due ?k" by (simp add: drain_expired_def drain_expired_alarms_def)
  have al: "alarms (drain_expired now k) = dropWhile (\<lambda>e. fst e \<le> now) (alarms k)" by (simp add: d fires_queues)
  obtain p' where p': "sprocs (drain_expired now k) pid = Some p'" "same_sig p p'"
    "(pkilled p', sig_pending p') = (if \<exists>d. (d, pid, alarm_generation p) \<in> set ?due then raised p else (pkilled p, sig_pending p))"
    using fires_effect [of ?k pid p ?due] assms(2) by (auto simp: d)
  have "(\<exists>d. (d, pid, alarm_generation p) \<in> set ?due) \<longleftrightarrow> armed k pid p \<and> alarm_deadline p \<le> now"
    using I(5) [OF _ assms(2)] by (auto simp: due_is_filter [OF I(1)] armed_def)
  moreover have "armed (drain_expired now k) pid p' \<longleftrightarrow> armed k pid p \<and> now < alarm_deadline p"
    using p'(2) by (auto simp: armed_def al due_is_filter [OF I(1)] same_sig_def)
  ultimately show ?thesis using p' by auto
qed

text \<open>The alarm queue after a call of \<open>alarm\<close>.\<close>

lemma alarm_arms:
  assumes "alarm_inv k" "sprocs k pid = Some p" "alarm_generation p \<noteq> - 1"
  shows "\<exists>p'. sprocs (snd (sys_alarm now pid secs k)) pid = Some p' \<and> (armed (snd (sys_alarm now pid secs k)) pid p' \<longleftrightarrow> secs \<noteq> 0) \<and>
    (secs \<noteq> 0 \<longrightarrow> alarm_deadline p' = now + secs * TIMER_INTERVAL)"
proof -
  have "(d, pid, alarm_generation p + 1) \<notin> set (alarms k)" for d
    using alarm_invD(4) [OF assms(1) _ assms(2)] word_less_Suc [OF assms(3)] by (meson leD)
  then show ?thesis using assms(2) by (auto simp: sys_alarm_def add_alarm_def armed_def Let_def)
qed

section \<open>Witnesses\<close>

text \<open>Process 1 has a handler for \<open>SIGALRM\<close>; the signal is pending in \<open>demo_pending\<close>, an alarm is set in \<open>demo_alarm\<close>.\<close>

definition demo_handler :: ksig where
  "demo_handler = set_sproc 1 (snd (sys_sigaction 14 4096 8192 0 (sproc_new (\<lambda>_. 7) 5))) (boot (\<lambda>_. 7) 5)"

definition demo_pending :: ksig where "demo_pending = snd (sys_kill 1 14 demo_handler)"
definition demo_alarm :: ksig where "demo_alarm = snd (sys_alarm 100 1 5 demo_handler)"

lemma demo_steps: "(sig_step (\<lambda>_. True)) (boot (\<lambda>_. 7) 5) demo_handler" "(sig_step (\<lambda>_. True)) demo_handler demo_pending"
  "(sig_step (\<lambda>_. True)) demo_handler demo_alarm"
proof -
  show "(sig_step (\<lambda>_. True)) (boot (\<lambda>_. 7) 5) demo_handler"
    unfolding demo_handler_def by (rule sig_step.act) (simp add: boot_def)
  show "(sig_step (\<lambda>_. True)) demo_handler demo_pending" unfolding demo_pending_def by (rule sig_step.kill)
  show "(sig_step (\<lambda>_. True)) demo_handler demo_alarm"
    unfolding demo_alarm_def by (rule sig_step.alarm [of _ _ "snd (sys_sigaction 14 4096 8192 0 (sproc_new (\<lambda>_. 7) 5))"])
      (simp_all add: demo_handler_def sys_sigaction_def sproc_new_def)
qed

lemma demo_reach: "sig_reach demo_pending" "sig_reach demo_alarm"
proof -
  have h: "(sig_step (\<lambda>_. True))\<^sup>*\<^sup>* (boot (\<lambda>_. 7) 5) demo_handler" using demo_steps(1) by (rule r_into_rtranclp)
  show "sig_reach demo_pending" unfolding sig_reach_def using rtranclp.rtrancl_into_rtrancl [OF h demo_steps(2)] by blast
  show "sig_reach demo_alarm" unfolding sig_reach_def using rtranclp.rtrancl_into_rtrancl [OF h demo_steps(3)] by blast
qed

definition demo_proc :: sproc where
  "demo_proc = (sproc_new (\<lambda>_. 7) 5)\<lparr>sig_actions := (replicate 32 default_action)[14 := \<lparr>sa_handler = 4096, sa_restorer = 8192, sa_mask = 0\<rparr>]\<rparr>"

lemma demo_procs:
  "sprocs demo_handler 1 = Some demo_proc"
  "sprocs demo_pending 1 = Some (demo_proc\<lparr>sig_pending := 0x4000\<rparr>)"
  "sprocs demo_alarm 1 = Some (demo_proc\<lparr>alarm_generation := 1, alarm_deadline := 5000100\<rparr>)"
  "alarms demo_alarm = [(5000100, 1, 1)]" "knext demo_pending = 2"
proof -
  show h: "sprocs demo_handler 1 = Some demo_proc"
    by (simp add: demo_handler_def sys_sigaction_def demo_proc_def sproc_new_def SIGKILL_def SIGSTOP_def)
  have "nth (sig_actions demo_proc) 14 = \<lparr>sa_handler = 4096, sa_restorer = 8192, sa_mask = 0\<rparr>" by (simp add: demo_proc_def)
  then show "sprocs demo_pending 1 = Some (demo_proc\<lparr>sig_pending := 0x4000\<rparr>)"
    using h by (simp add: demo_pending_def sys_kill_def SIGKILL_def SIGSTOP_def SIG_DFL_def SIG_IGN_def sig_bit_def cell_wake_def)
      (simp add: demo_proc_def sproc_new_def)
  show "sprocs demo_alarm 1 = Some (demo_proc\<lparr>alarm_generation := 1, alarm_deadline := 5000100\<rparr>)"
    using h by (simp add: demo_alarm_def sys_alarm_def add_alarm_def TIMER_INTERVAL_def Let_def) (simp add: demo_proc_def sproc_new_def)
  show "alarms demo_alarm = [(5000100, 1, 1)]"
    using h by (simp add: demo_alarm_def sys_alarm_def add_alarm_def insert_deadline_def TIMER_INTERVAL_def Let_def)
      (simp add: demo_handler_def boot_def demo_proc_def sproc_new_def)
  show "knext demo_pending = 2" using h by (simp add: demo_pending_def sys_kill_def demo_handler_def boot_def SIGKILL_def SIGSTOP_def Let_def)
qed

lemma demo_lowest: "lowest_bit 0x4000 = 14"
  by (simp add: lowest_bit_def upt_rec)

lemma demo_delivers:
  "sig_saved_frame (maybe_deliver_signal (demo_proc\<lparr>sig_pending := 0x4000\<rparr>)) = Some (\<lambda>_. 7)" "sig_saved_frame demo_proc = None"
  by (simp_all add: maybe_deliver_signal_def demo_proc_def sproc_new_def demo_lowest SIG_DFL_def SIG_IGN_def Let_def)

theorem handler_roundtrip_witness:
  "\<exists>(k' :: ksig) p' r p''. sprocs k' 1 = Some p' \<and> tframe p' = (\<lambda>_. 0) \<and> sys_sigreturn p' = (r, p'') \<and> tframe (set_result r p'') = (\<lambda>_. 7)"
proof -
  let ?p = "demo_proc\<lparr>sig_pending := 0x4000\<rparr>"
  let ?k = "set_sproc 1 (maybe_deliver_signal ?p) demo_pending"
  let ?k' = "set_sproc 1 ((maybe_deliver_signal ?p)\<lparr>tframe := \<lambda>_. 0\<rparr>) ?k"
  have "sig_step (\<lambda>q. q \<noteq> 1) ?k ?k'" by (rule sig_step.user) simp
  then have "(sig_step (\<lambda>q. q \<noteq> 1))\<^sup>*\<^sup>* ?k ?k'" by (rule r_into_rtranclp)
  moreover have "sig_saved_frame ?p = None" "tframe ?p = (\<lambda>_. 7)" by (simp_all add: demo_proc_def sproc_new_def)
  ultimately obtain p' r p'' where w: "sprocs ?k' 1 = Some p'" "sys_sigreturn p' = (r, p'')" "tframe (set_result r p'') = (\<lambda>_. 7)"
    using handler_roundtrip [OF demo_procs(2), of ?k'] demo_delivers(1) demo_procs(5) by auto
  moreover have "tframe p' = (\<lambda>_. 0)" using w(1) by auto
  ultimately show ?thesis by blast
qed

theorem delivery_is_right_witness: "\<exists>s < 32. bit (0x4000 :: 32 word) s \<and> tframe (maybe_deliver_signal (demo_proc\<lparr>sig_pending := 0x4000\<rparr>)) TF_A0 = of_nat s"
  using delivery_is_right [OF demo_reach(1) demo_procs(2)] demo_delivers by (auto simp: Let_def)

theorem sigkill_always_kills_witness: "\<exists>k' p'. sys_kill 1 SIGKILL demo_pending = (0, k') \<and> sprocs k' 1 = Some p' \<and> pkilled p'"
  using sigkill_always_kills [OF demo_reach(1) demo_procs(2)] by auto

theorem alarm_fires_exactly_witness:
  "\<exists>p'. sprocs (drain_expired 6000000 demo_alarm) 1 = Some p' \<and> sig_pending p' = 0x4000 \<and>
    (\<exists>q. sprocs (drain_expired 1000 demo_alarm) 1 = Some q \<and> sig_pending q = 0)"
proof -
  let ?p = "demo_proc\<lparr>alarm_generation := 1, alarm_deadline := 5000100\<rparr>"
  have a: "armed demo_alarm 1 ?p" by (simp add: armed_def demo_procs(4))
  have r: "raised ?p = (False, 0x4000)"
    by (simp add: raised_def demo_proc_def sproc_new_def SIGALRM_def SIG_DFL_def SIG_IGN_def sig_bit_def)
  have z: "sig_pending ?p = 0" "pkilled ?p = False" by (simp_all add: demo_proc_def sproc_new_def)
  show ?thesis
    using alarm_fires_exactly [OF demo_reach(2) demo_procs(3), of 6000000] alarm_fires_exactly [OF demo_reach(2) demo_procs(3), of 1000] a r z
    by auto
qed

end
