(* ===== verification/Life.thy ===== *)
theory Life
  imports Pipe
begin

text \<open>
  The life of processes: the parent and children links made by \<open>sys_fork\<close>, \<open>sys_exit_inner\<close> with the adoption of
  orphans by init, and \<open>sys_waitpid\<close> with its future \<open>WaitFor\<close>. Exits and waits of all processes are
  interleaved at every lock and every atomic access. The address space and the descriptors that these calls
  release are in the theories on memory and on descriptors.
\<close>

section \<open>State\<close>

record lproc =
  lparent :: "nat option"
  lchildren :: "nat list"
  lzombie :: bool
  lexit_code :: int
  lkilled :: bool
  lwaker :: bool

definition lproc_new :: lproc where
  "lproc_new = \<lparr>lparent = None, lchildren = [], lzombie = False, lexit_code = 0, lkilled = False, lwaker = False\<rparr>"

datatype wait_outcome = Reaped nat int | NoChildren | WouldBlock | Killed

text \<open>Where a process is: in its own code, in one of the steps of \<open>sys_exit_inner\<close>, or in a poll of \<open>WaitFor\<close> with
  a filter and a flag for \<open>WNOHANG\<close>.\<close>

datatype lpc = LRun
  | XTake int | XParents int nat "nat list" "nat list" | XSplice int nat "nat list" | XWakeInit int nat
  | XZombie int | XParent | XWake "nat option" | XDone
  | WStart "nat option" bool | WReg "nat option" bool | WScan "nat option" bool | WParked "nat option" bool | WOut wait_outcome

text \<open>\<open>lqueue\<close> holds the processes whose task has been handed to \<open>executor::wake\<close>, \<open>lreaped\<close> the results of the waits
  so far.\<close>

record life =
  lprocs :: "nat \<Rightarrow> lproc"
  lalive :: "nat \<Rightarrow> bool"
  lpcs :: "nat \<Rightarrow> lpc"
  lqueue :: "nat \<Rightarrow> bool"
  linit :: "nat option"
  lnext :: nat
  lreaped :: "(nat \<times> int) list"

abbreviation lgoto :: "nat \<Rightarrow> lpc \<Rightarrow> life \<Rightarrow> life" where
  "lgoto p c s \<equiv> s\<lparr>lpcs := (lpcs s)(p := c)\<rparr>"

abbreviation lset :: "nat \<Rightarrow> lproc \<Rightarrow> life \<Rightarrow> life" where
  "lset p r s \<equiv> s\<lparr>lprocs := (lprocs s)(p := r)\<rparr>"

text \<open>\<open>wait_waker.wake()\<close> of a process.\<close>

definition wake_waiter :: "nat \<Rightarrow> life \<Rightarrow> life" where
  "wake_waiter p s =
     (if lalive s p \<and> lwaker (lprocs s p)
      then (lset p ((lprocs s p)\<lparr>lwaker := False\<rparr>) s)\<lparr>lqueue := (lqueue s)(p := True)\<rparr> else s)"

section \<open>Fork and exit\<close>

text \<open>The counter is an \<open>AtomicU32\<close>: \<open>fetch_add\<close> wraps.\<close>

definition next_pid :: "life \<Rightarrow> nat \<times> life" where
  "next_pid s = (lnext s, s\<lparr>lnext := (lnext s + 1) mod 2 ^ 32\<rparr>)"

definition sys_fork :: "nat \<Rightarrow> life \<Rightarrow> nat \<times> life" where
  "sys_fork parent s =
     (let (c, s) = next_pid s;
          s = (lset c (lproc_new\<lparr>lparent := Some parent\<rparr>) s)\<lparr>lalive := (lalive s)(c := True)\<rparr>;
          s = lset parent ((lprocs s parent)\<lparr>lchildren := lchildren (lprocs s parent) @ [c]\<rparr>) s
      in (c, s))"

definition exit_step :: "nat \<Rightarrow> life \<Rightarrow> life" where
  "exit_step p s = (case lpcs s p of
     XTake code \<Rightarrow>
       (let kids = lchildren (lprocs s p);
            s = lset p ((lprocs s p)\<lparr>lchildren := []\<rparr>) s
        in if kids = [] then lgoto p (XZombie code) s
           else case linit s of
             None \<Rightarrow> lgoto p (XZombie code) s
           | Some i \<Rightarrow> if i = p then lgoto p (XZombie code) s else lgoto p (XParents code i kids kids) s)
   | XParents code i kids todo \<Rightarrow> (case todo of
        [] \<Rightarrow> lgoto p (XSplice code i kids) s
      | k # ks \<Rightarrow> lgoto p (XParents code i kids ks) (lset k ((lprocs s k)\<lparr>lparent := Some i\<rparr>) s))
   | XSplice code i kids \<Rightarrow>
       lgoto p (XWakeInit code i) (lset i ((lprocs s i)\<lparr>lchildren := lchildren (lprocs s i) @ kids\<rparr>) s)
   | XWakeInit code i \<Rightarrow> lgoto p (XZombie code) (wake_waiter i s)
   | XZombie code \<Rightarrow> lgoto p XParent (lset p ((lprocs s p)\<lparr>lexit_code := code, lzombie := True\<rparr>) s)
   | XParent \<Rightarrow> lgoto p (XWake (lparent (lprocs s p))) s
   | XWake t \<Rightarrow> lgoto p XDone (case t of None \<Rightarrow> s | Some q \<Rightarrow> wake_waiter q s)
   | _ \<Rightarrow> s)"

section \<open>Wait\<close>

definition pid_match :: "nat option \<Rightarrow> nat \<Rightarrow> bool" where
  "pid_match f c \<longleftrightarrow> (case f of None \<Rightarrow> True | Some p \<Rightarrow> c = p)"

text \<open>The scan runs under the lock of the list of children. It is one step here, while the source reads the flag of
  one child after the other: a child that becomes a zombie after its flag was read counts as one that
  becomes a zombie after the scan, and its later wake-up reaches the parent, which registered before the scan.\<close>

definition wait_scan :: "nat option \<Rightarrow> bool \<Rightarrow> (nat \<Rightarrow> lproc) \<Rightarrow> nat list \<Rightarrow> wait_outcome poll \<times> nat list" where
  "wait_scan f nonblock procs children =
     (if children = [] then (Ready NoChildren, children)
      else case List.find (\<lambda>c. pid_match f c \<and> lzombie (procs c)) children of
        Some c \<Rightarrow> (Ready (Reaped c (lexit_code (procs c))), remove1 c children)
      | None \<Rightarrow>
          if f \<noteq> None \<and> \<not> list_ex (pid_match f) children then (Ready NoChildren, children)
          else if nonblock then (Ready WouldBlock, children)
          else (Pending, children))"

definition wait_step :: "nat \<Rightarrow> life \<Rightarrow> life" where
  "wait_step p s = (case lpcs s p of
     WStart f nb \<Rightarrow> lgoto p (if lkilled (lprocs s p) then WOut Killed else WReg f nb) s
   | WReg f nb \<Rightarrow> lgoto p (WScan f nb) (lset p ((lprocs s p)\<lparr>lwaker := True\<rparr>) s)
   | WScan f nb \<Rightarrow> (case wait_scan f nb (lprocs s) (lchildren (lprocs s p)) of
        (Pending, _) \<Rightarrow> lgoto p (WParked f nb) s
      | (Ready r, cs) \<Rightarrow>
          (lgoto p (WOut r) (lset p ((lprocs s p)\<lparr>lchildren := cs\<rparr>) s))
            \<lparr>lreaped := (case r of Reaped c code \<Rightarrow> lreaped s @ [(c, code)] | _ \<Rightarrow> lreaped s)\<rparr>)
   | _ \<Rightarrow> s)"

definition WNOHANG :: int where "WNOHANG = 1"

text \<open>\<open>sys_waitpid\<close> up to its await, and the value it returns afterwards; \<open>ok\<close> says whether the status pointer is 0 or
  writable.\<close>

definition sys_waitpid :: "int \<Rightarrow> int \<Rightarrow> bool \<Rightarrow> lpc + int" where
  "sys_waitpid pid options ok =
     (if \<not> ok then Inr (-1)
      else Inl (WStart (if pid > 0 then Some (nat pid) else None) (options AND WNOHANG \<noteq> 0)))"

definition sys_wait :: "bool \<Rightarrow> lpc + int" where
  "sys_wait ok = sys_waitpid (-1) 0 ok"

definition wait_result :: "wait_outcome \<Rightarrow> int" where
  "wait_result r = (case r of Reaped c _ \<Rightarrow> int c | NoChildren \<Rightarrow> -1 | WouldBlock \<Rightarrow> 0 | Killed \<Rightarrow> -1)"

section \<open>All processes\<close>

text \<open>Runs in which init does not exit (when it does, its children keep no parent that could wait for them) and in
  which fewer than \<open>2 ^ 32 - 1\<close> processes have been created, so that the counter has not wrapped. A process that is
  done and that nobody holds is dropped.\<close>

definition in_transit :: "lpc \<Rightarrow> nat list" where
  "in_transit c = (case c of XParents _ _ kids _ \<Rightarrow> kids | XSplice _ _ kids \<Rightarrow> kids | _ \<Rightarrow> [])"

definition held_by :: "life \<Rightarrow> nat \<Rightarrow> nat list" where
  "held_by s p = lchildren (lprocs s p) @ in_transit (lpcs s p)"

inductive lstep :: "life \<Rightarrow> life \<Rightarrow> bool" where
  fork: "lalive s p \<Longrightarrow> lpcs s p = LRun \<Longrightarrow> lnext s < 2 ^ 32 - 1 \<Longrightarrow> lstep s (snd (sys_fork p s))"
| exit: "lalive s p \<Longrightarrow> lpcs s p = LRun \<Longrightarrow> linit s \<noteq> Some p \<Longrightarrow> lstep s (lgoto p (XTake code) s)"
| wait: "lalive s p \<Longrightarrow> lpcs s p = LRun \<Longrightarrow> sys_waitpid pid opts ok = Inl c \<Longrightarrow> lstep s (lgoto p c s)"
| exiting: "lstep s (exit_step p s)"
| waiting: "lstep s (wait_step p s)"
| returned: "lpcs s p = WOut r \<Longrightarrow> lstep s (lgoto p LRun s)"
| repoll: "lpcs s p = WParked f nb \<Longrightarrow> lqueue s p \<Longrightarrow> lstep s ((lgoto p (WStart f nb) s)\<lparr>lqueue := (lqueue s)(p := False)\<rparr>)"
| kill: "lalive s p \<Longrightarrow> lstep s ((lset p ((lprocs s p)\<lparr>lkilled := True, lwaker := False\<rparr>) s)\<lparr>lqueue := (lqueue s)(p := True)\<rparr>)"
| wake: "lstep s (s\<lparr>lqueue := (lqueue s)(p := True)\<rparr>)"
| drop: "lpcs s c = XDone \<Longrightarrow> (\<forall>p. c \<notin> set (held_by s p)) \<Longrightarrow> lstep s (s\<lparr>lalive := (lalive s)(c := False)\<rparr>)"

definition life_boot :: life where
  "life_boot = \<lparr>lprocs = (\<lambda>_. lproc_new), lalive = (\<lambda>p. p = 1), lpcs = (\<lambda>_. LRun), lqueue = (\<lambda>_. False), linit = Some 1,
     lnext = 2, lreaped = []\<rparr>"

inductive lreach :: "life \<Rightarrow> bool" where
  boot: "lreach life_boot"
| more: "lreach s \<Longrightarrow> lstep s s' \<Longrightarrow> lreach s'"

section \<open>The tree of processes\<close>

fun gone :: "lpc \<Rightarrow> bool" where
  "gone XParent = True" | "gone (XWake t) = True" | "gone XDone = True" | "gone _ = False"

fun leaving :: "lpc \<Rightarrow> bool" where
  "leaving (XParents code i kids todo) = True" | "leaving (XSplice code i kids) = True" | "leaving (XWakeInit code i) = True"
| "leaving (XZombie code) = True" | "leaving c = gone c"

fun exits :: "lpc \<Rightarrow> bool" where
  "exits (XTake code) = True" | "exits c = leaving c"

text \<open>What holds of the links, and what holds of a process by the place it is at.\<close>

definition forest :: "life \<Rightarrow> bool" where
  "forest s \<longleftrightarrow> (\<forall>p. distinct (held_by s p)) \<and> (\<forall>p q c. c \<in> set (held_by s p) \<longrightarrow> c \<in> set (held_by s q) \<longrightarrow> p = q) \<and>
     (\<forall>p c. c \<in> set (lchildren (lprocs s p)) \<longrightarrow> lparent (lprocs s c) = Some p) \<and>
     (\<forall>p c. c \<in> set (held_by s p) \<longrightarrow> lalive s c \<and> lalive s p \<and> linit s \<noteq> Some c \<and> c \<notin> fst ` set (lreaped s)) \<and>
     (\<forall>c. lalive s c \<longrightarrow> linit s \<noteq> Some c \<longrightarrow> (\<exists>p. c \<in> set (held_by s p)) \<or> c \<in> fst ` set (lreaped s)) \<and>
     distinct (map fst (lreaped s)) \<and> (\<forall>(c, code) \<in> set (lreaped s). lzombie (lprocs s c) \<and> lexit_code (lprocs s c) = code)"

definition pc_ok :: "life \<Rightarrow> nat \<Rightarrow> bool" where
  "pc_ok s p \<longleftrightarrow> (leaving (lpcs s p) \<longrightarrow> lchildren (lprocs s p) = []) \<and>
     (case lpcs s p of
        XParents code i kids todo \<Rightarrow> linit s = Some i \<and> set todo \<subseteq> set kids \<and> distinct todo \<and>
          (\<forall>c \<in> set todo. lparent (lprocs s c) = Some p) \<and> (\<forall>c \<in> set kids - set todo. lparent (lprocs s c) = Some i)
      | XSplice code i kids \<Rightarrow> linit s = Some i \<and> (\<forall>c \<in> set kids. lparent (lprocs s c) = Some i)
      | XWakeInit code i \<Rightarrow> linit s = Some i
      | _ \<Rightarrow> True) \<and>
     (lzombie (lprocs s p) \<longleftrightarrow> gone (lpcs s p)) \<and> (\<not> lalive s p \<longrightarrow> lpcs s p \<in> {LRun, XDone}) \<and>
     (lnext s \<le> p \<longrightarrow> \<not> lalive s p \<and> lpcs s p = LRun) \<and> (linit s = Some p \<longrightarrow> lalive s p \<and> \<not> exits (lpcs s p))"

definition tree_ok :: "life \<Rightarrow> bool" where
  "tree_ok s \<longleftrightarrow> forest s \<and> (\<forall>p. pc_ok s p) \<and> (\<exists>i. linit s = Some i)"

lemma exits_leaving: "leaving c \<Longrightarrow> exits c" "gone c \<Longrightarrow> leaving c"
  by (cases c; simp)+

text \<open>A step of \<open>p\<close> that leaves links and lists alone.\<close>

lemma links_frame:
  assumes ok: "tree_ok s"
    and l: "\<And>q. lchildren (lprocs s' q) = lchildren (lprocs s q)" "\<And>q. lparent (lprocs s' q) = lparent (lprocs s q)"
    and pc: "\<And>q. q \<noteq> p \<Longrightarrow> lpcs s' q = lpcs s q" and tr: "in_transit (lpcs s' p) = in_transit (lpcs s p)"
    and f: "lalive s' = lalive s" "linit s' = linit s" "lnext s' = lnext s" "lreaped s' = lreaped s"
    and z: "\<And>q. q \<noteq> p \<Longrightarrow> lzombie (lprocs s' q) = lzombie (lprocs s q)"
    and e: "\<And>q. lzombie (lprocs s q) \<Longrightarrow> lexit_code (lprocs s' q) = lexit_code (lprocs s q) \<and> lzombie (lprocs s' q)"
    and me: "pc_ok s' p"
  shows "tree_ok s'"
proof -
  have h: "held_by s' q = held_by s q" for q using l(1) [of q] pc [of q] tr by (cases "q = p") (auto simp: held_by_def)
  have "forest s'"
    using ok e unfolding tree_ok_def forest_def h l f by fastforce
  moreover have "pc_ok s' q" for q
  proof (cases "q = p")
    case False
    have "pc_ok s q" using ok by (simp add: tree_ok_def)
    then show ?thesis unfolding pc_ok_def l f pc [OF False] z [OF False] .
  qed (simp add: me)
  ultimately show ?thesis using ok f by (simp add: tree_ok_def)
qed

lemma tree_okD:
  assumes "tree_ok s"
  shows "\<And>p. distinct (held_by s p)" "\<And>p q c. c \<in> set (held_by s p) \<Longrightarrow> c \<in> set (held_by s q) \<Longrightarrow> p = q"
    "\<And>p c. c \<in> set (lchildren (lprocs s p)) \<Longrightarrow> lparent (lprocs s c) = Some p"
    "\<And>p c. c \<in> set (held_by s p) \<Longrightarrow> lalive s c \<and> lalive s p \<and> linit s \<noteq> Some c \<and> c \<notin> fst ` set (lreaped s)"
    "\<And>c. lalive s c \<Longrightarrow> linit s \<noteq> Some c \<Longrightarrow> (\<exists>p. c \<in> set (held_by s p)) \<or> c \<in> fst ` set (lreaped s)"
    "distinct (map fst (lreaped s))" "\<And>c code. (c, code) \<in> set (lreaped s) \<Longrightarrow> lzombie (lprocs s c) \<and> lexit_code (lprocs s c) = code"
    "\<And>p. pc_ok s p" "\<exists>i. linit s = Some i"
proof -
  have f: "forest s" "\<forall>p. pc_ok s p" "\<exists>i. linit s = Some i" using assms by (simp_all add: tree_ok_def)
  note F = f(1) [unfolded forest_def]
  show "distinct (held_by s p)" for p using F by blast
  show "p = q" if "c \<in> set (held_by s p)" "c \<in> set (held_by s q)" for p q c using F that by blast
  show "lparent (lprocs s c) = Some p" if "c \<in> set (lchildren (lprocs s p))" for p c using F that by blast
  show "lalive s c \<and> lalive s p \<and> linit s \<noteq> Some c \<and> c \<notin> fst ` set (lreaped s)" if "c \<in> set (held_by s p)" for p c using F that by blast
  show "(\<exists>p. c \<in> set (held_by s p)) \<or> c \<in> fst ` set (lreaped s)" if "lalive s c" "linit s \<noteq> Some c" for c using F that by blast
  show "distinct (map fst (lreaped s))" using F by blast
  show "lzombie (lprocs s c) \<and> lexit_code (lprocs s c) = code" if "(c, code) \<in> set (lreaped s)" for c code using F that by auto
  show "pc_ok s p" for p using f(2) by blast
  show "\<exists>i. linit s = Some i" by (rule f(3))
qed

lemma tree_boot: "tree_ok life_boot"
  by (auto simp: tree_ok_def forest_def pc_ok_def life_boot_def held_by_def in_transit_def lproc_new_def)

lemma wake_waiter_simps [simp]:
  "lchildren (lprocs (wake_waiter q s) r) = lchildren (lprocs s r)" "lparent (lprocs (wake_waiter q s) r) = lparent (lprocs s r)"
  "lzombie (lprocs (wake_waiter q s) r) = lzombie (lprocs s r)" "lexit_code (lprocs (wake_waiter q s) r) = lexit_code (lprocs s r)"
  "lkilled (lprocs (wake_waiter q s) r) = lkilled (lprocs s r)"
  "lalive (wake_waiter q s) = lalive s" "lpcs (wake_waiter q s) = lpcs s" "linit (wake_waiter q s) = linit s" "lnext (wake_waiter q s) = lnext s"
  "lreaped (wake_waiter q s) = lreaped s"
  by (auto simp: wake_waiter_def)

text \<open>Moving on without touching the links, for the process that moves.\<close>

lemma tree_move:
  assumes ok: "tree_ok s" and c: "in_transit c = in_transit (lpcs s p)" "leaving c \<Longrightarrow> lchildren (lprocs s p) = []"
    "gone c \<longleftrightarrow> gone (lpcs s p)" "exits c \<Longrightarrow> linit s \<noteq> Some p" "c \<in> {LRun, XDone} \<or> lalive s p" "lpcs s p = LRun \<Longrightarrow> lalive s p"
    "\<And>code i kids todo. c = XParents code i kids todo \<Longrightarrow> False"
    "\<And>code i kids. c = XSplice code i kids \<Longrightarrow> linit s = Some i \<and> (\<forall>c \<in> set kids. lparent (lprocs s c) = Some i)"
    "\<And>code i. c = XWakeInit code i \<Longrightarrow> linit s = Some i"
  shows "tree_ok (lgoto p c s)"
proof (rule links_frame [OF ok, of _ p])
  have p: "pc_ok s p" by (rule tree_okD(8) [OF ok])
  show "pc_ok (lgoto p c s) p"
    using p c unfolding pc_ok_def by (cases c) auto
qed (use c in auto)

lemma tree_exit_step:
  assumes ok: "tree_ok s"
  shows "tree_ok (exit_step p s)"
proof (cases "lpcs s p")
  case (XTake code)
  note T = tree_okD [OF ok]
  let ?k = "lchildren (lprocs s p)"
  have p: "linit s \<noteq> Some p" "lalive s p" "\<not> lzombie (lprocs s p)" "\<not> lnext s \<le> p" using T(8) [of p] XTake by (auto simp: pc_ok_def)
  obtain i where i: "linit s = Some i" "i \<noteq> p" using T(9) p(1) by auto
  show ?thesis
  proof (cases "?k = []")
    case True
    then show ?thesis
      by (intro links_frame [OF ok, of _ p]) (use XTake p in \<open>auto simp: exit_step_def Let_def in_transit_def pc_ok_def\<close>)
  next
    case False
    let ?s = "lgoto p (XParents code i ?k ?k) (lset p ((lprocs s p)\<lparr>lchildren := []\<rparr>) s)"
    have e: "exit_step p s = ?s" using False i by (simp add: exit_step_def XTake Let_def)
    have h: "held_by ?s q = held_by s q" for q by (cases "q = p") (simp_all add: held_by_def in_transit_def XTake)
    have "forest ?s"
      unfolding forest_def h using T(1-7) by auto
    moreover have "distinct ?k" using T(1) [of p] by (simp add: held_by_def)
    then have "pc_ok ?s q" for q
      using T(8) [of q] T(3) [of _ p] i p by (cases "q = p") (auto simp: pc_ok_def split: lpc.splits)
    ultimately show ?thesis using i unfolding e by (simp add: tree_ok_def)
  qed
next
  case (XParents code i kids todo)
  note T = tree_okD [OF ok]
  have p: "linit s = Some i" "set todo \<subseteq> set kids" "\<forall>c \<in> set kids - set todo. lparent (lprocs s c) = Some i" "lchildren (lprocs s p) = []"
    "lalive s p" "\<not> lzombie (lprocs s p)" "linit s \<noteq> Some p" "\<not> lnext s \<le> p" "distinct todo" "\<forall>c \<in> set todo. lparent (lprocs s c) = Some p"
    using T(8) [of p] XParents by (auto simp: pc_ok_def)
  show ?thesis
  proof (cases todo)
    case Nil
    have "tree_ok (lgoto p (XSplice code i kids) s)" by (rule tree_move [OF ok]) (use XParents p Nil in \<open>auto simp: in_transit_def\<close>)
    then show ?thesis by (simp add: exit_step_def XParents Nil)
  next
    case (Cons k ks)
    let ?s = "lgoto p (XParents code i kids ks) (lset k ((lprocs s k)\<lparr>lparent := Some i\<rparr>) s)"
    have h: "held_by ?s q = held_by s q" for q by (cases "q = p") (simp_all add: held_by_def in_transit_def XParents)
    have k: "k \<in> set (held_by s p)" using p(2) Cons by (simp add: held_by_def in_transit_def XParents)
    have nk: "k \<notin> set (held_by s q)" if "q \<noteq> p" for q using T(2) [OF k] that by blast
    have "forest ?s"
      unfolding forest_def h
    proof (intro conjI allI impI)
      fix q c assume "c \<in> set (lchildren (lprocs ?s q))"
      then have c: "c \<in> set (lchildren (lprocs s q))" by (auto split: if_splits)
      then have "q \<noteq> p" using p(4) by auto
      then have "c \<noteq> k" using nk [of q] c by (auto simp: held_by_def)
      then show "lparent (lprocs ?s c) = Some q" using T(3) [OF c] by simp
    qed (use T(1,2,4-7) in \<open>auto split: if_splits\<close>)
    moreover have "pc_ok ?s q" for q
    proof (cases "q = p")
      case True
      then show ?thesis using p Cons unfolding pc_ok_def by auto
    next
      case False
      have "k \<notin> set (in_transit (lpcs s q))" using nk [OF False] by (simp add: held_by_def)
      then show ?thesis using T(8) [of q] False by (auto simp: pc_ok_def in_transit_def split: lpc.splits)
    qed
    ultimately show ?thesis using p(1) by (simp add: exit_step_def XParents Cons tree_ok_def)
  qed
next
  case (XSplice code i kids)
  note T = tree_okD [OF ok]
  have p: "linit s = Some i" "\<forall>c \<in> set kids. lparent (lprocs s c) = Some i" "lchildren (lprocs s p) = []"
    "lalive s p" "\<not> lzombie (lprocs s p)" "i \<noteq> p" "\<not> lnext s \<le> p"
    using T(8) [of p] XSplice by (auto simp: pc_ok_def)
  have i: "lalive s i" "\<not> exits (lpcs s i)" using T(8) [of i] p(1) by (auto simp: pc_ok_def)
  have ti: "in_transit (lpcs s i) = []" using i(2) by (cases "lpcs s i") (auto simp: in_transit_def)
  let ?s = "lgoto p (XWakeInit code i) (lset i ((lprocs s i)\<lparr>lchildren := lchildren (lprocs s i) @ kids\<rparr>) s)"
  have hp: "held_by s p = kids" "held_by ?s p = []" using p by (simp_all add: held_by_def in_transit_def XSplice)
  have hi: "held_by s i = lchildren (lprocs s i)" "held_by ?s i = lchildren (lprocs s i) @ kids" using ti p(6) by (simp_all add: held_by_def)
  have h: "held_by ?s q = held_by s q" if "q \<noteq> p" "q \<noteq> i" for q using that by (simp add: held_by_def)
  have sub: "\<exists>r. c \<in> set (held_by s r) \<and> (if r = p then i else r) = q" if "c \<in> set (held_by ?s q)" for c q
  proof (cases "q = i")
    case True
    then show ?thesis using that hi hp p(6) by auto
  next
    case False
    then show ?thesis using that hp h [of q] by (cases "q = p") auto
  qed
  have ex: "\<exists>q. c \<in> set (held_by ?s q)" if c: "c \<in> set (held_by s r)" for c r
  proof (cases "r = p \<or> r = i")
    case True
    then have "c \<in> set (held_by ?s i)" using c hi hp by auto
    then show ?thesis by (rule exI)
  next
    case False
    then have "c \<in> set (held_by ?s r)" using c h [of r] by simp
    then show ?thesis by (rule exI)
  qed
  have "forest ?s"
    unfolding forest_def
  proof (intro conjI allI impI)
    show "distinct (held_by ?s q)" for q
    proof (cases "q = i")
      case True
      have "set (held_by s i) \<inter> set (held_by s p) = {}" using T(2) p(6) by blast
      then show ?thesis using T(1) [of i] T(1) [of p] True hi hp by auto
    next
      case False
      then show ?thesis using T(1) [of q] hp h [of q] by (cases "q = p") auto
    qed
    show "q = r" if "c \<in> set (held_by ?s q)" "c \<in> set (held_by ?s r)" for q r c
      using sub [OF that(1)] sub [OF that(2)] T(2) by metis
    show "lparent (lprocs ?s c) = Some q" if "c \<in> set (lchildren (lprocs ?s q))" for q c
      using that T(3) [of c q] p(2) by (cases "q = i") (auto split: if_splits)
    fix c q assume c: "c \<in> set (held_by ?s q)"
    obtain r where r: "c \<in> set (held_by s r)" "(if r = p then i else r) = q" using sub [OF c] by blast
    show "lalive ?s c" "linit ?s \<noteq> Some c" "c \<notin> fst ` set (lreaped ?s)" using T(4) [OF r(1)] by auto
    show "lalive ?s q" using T(4) [OF r(1)] r(2) i(1) by (auto split: if_splits)
  next
    fix c assume "lalive ?s c" "linit ?s \<noteq> Some c"
    then have "(\<exists>p. c \<in> set (held_by s p)) \<or> c \<in> fst ` set (lreaped s)" using T(5) [of c] by simp
    then show "(\<exists>q. c \<in> set (held_by ?s q)) \<or> c \<in> fst ` set (lreaped ?s)" using ex by auto
  qed (use T(6,7) in auto)
  moreover have "pc_ok ?s q" for q
    using T(8) [of q] p i exits_leaving by (cases "q = p"; cases "q = i") (auto simp: pc_ok_def split: lpc.splits)
  ultimately show ?thesis using p(1) by (simp add: exit_step_def XSplice tree_ok_def)
next
  case (XWakeInit code i)
  have p: "pc_ok s p" by (rule tree_okD(8) [OF ok])
  show ?thesis
    by (rule links_frame [OF ok, of _ p]) (use p XWakeInit in \<open>auto simp: exit_step_def in_transit_def pc_ok_def\<close>)
next
  case (XZombie code)
  have p: "pc_ok s p" by (rule tree_okD(8) [OF ok])
  show ?thesis
    by (rule links_frame [OF ok, of _ p]) (use p XZombie in \<open>auto simp: exit_step_def in_transit_def pc_ok_def\<close>)
next
  case XParent
  have p: "pc_ok s p" by (rule tree_okD(8) [OF ok])
  show ?thesis
    by (rule links_frame [OF ok, of _ p]) (use p XParent in \<open>auto simp: exit_step_def in_transit_def pc_ok_def\<close>)
next
  case (XWake t)
  have p: "pc_ok s p" by (rule tree_okD(8) [OF ok])
  show ?thesis
    by (rule links_frame [OF ok, of _ p]) (use p XWake in \<open>auto simp: exit_step_def in_transit_def pc_ok_def split: option.splits\<close>)
qed (use ok in \<open>simp_all add: exit_step_def\<close>)

lemma tree_fork:
  assumes ok: "tree_ok s" and p: "lalive s p" "lpcs s p = LRun" "lnext s < 2 ^ 32 - 1"
  shows "tree_ok (snd (sys_fork p s))"
proof -
  note T = tree_okD [OF ok]
  let ?c = "lnext s" and ?s = "snd (sys_fork p s)"
  have c: "\<not> lalive s ?c" "lpcs s ?c = LRun" "\<not> lzombie (lprocs s ?c)" using T(8) [of ?c] by (auto simp: pc_ok_def)
  have pc: "p \<noteq> ?c" using p(1) c(1) by auto
  have un: "?c \<notin> set (held_by s q)" for q using T(4) [of ?c q] c(1) by auto
  have none: "held_by s ?c = []" using T(4) [of _ ?c] c(1) by (cases "held_by s ?c") auto
  have nr: "?c \<notin> fst ` set (lreaped s)" using T(7) c(3) by fastforce
  have nr2: "(?c, b) \<notin> set (lreaped s)" for b using nr by force
  have S: "lprocs ?s = (lprocs s)(?c := lproc_new\<lparr>lparent := Some p\<rparr>, p := (lprocs s p)\<lparr>lchildren := lchildren (lprocs s p) @ [?c]\<rparr>)"
    "lalive ?s = (lalive s)(?c := True)" "lpcs ?s = lpcs s" "linit ?s = linit s" "lnext ?s = Suc (lnext s)" "lreaped ?s = lreaped s"
    using pc p(3) by (simp_all add: sys_fork_def next_pid_def Let_def)
  have h: "held_by ?s q = (if q = p then held_by s p @ [?c] else held_by s q)" for q
    using none pc p(2) c(2) by (auto simp: held_by_def S in_transit_def lproc_new_def)
  have "forest ?s"
    unfolding forest_def
  proof (intro conjI allI impI)
    show "distinct (held_by ?s q)" for q using T(1) [of q] un [of p] by (auto simp: h)
    show "q = r" if "d \<in> set (held_by ?s q)" "d \<in> set (held_by ?s r)" for q r d
      using that T(2) [of d q r] un [of q] un [of r] by (auto simp: h split: if_splits)
    show "lparent (lprocs ?s d) = Some q" if "d \<in> set (lchildren (lprocs ?s q))" for q d
    proof (cases "d = ?c")
      case True
      have "?c \<notin> set (lchildren (lprocs s q))" using un [of q] by (simp add: held_by_def)
      then have "q = p" using that True by (auto simp: S lproc_new_def split: if_splits)
      then show ?thesis using True pc by (simp add: S)
    next
      case False
      then have "d \<in> set (lchildren (lprocs s q))" using that by (auto simp: S lproc_new_def split: if_splits)
      then show ?thesis using T(3) False pc by (auto simp: S)
    qed
    fix q d assume d: "d \<in> set (held_by ?s q)"
    then have "d = ?c \<and> q = p \<or> d \<in> set (held_by s q)" by (auto simp: h split: if_splits)
    moreover have "linit s \<noteq> Some ?c" using T(8) [of ?c] by (auto simp: pc_ok_def)
    ultimately show "lalive ?s d" "lalive ?s q" "linit ?s \<noteq> Some d" "d \<notin> fst ` set (lreaped ?s)"
      using T(4) [of d q] p(1) nr nr2 by (auto simp: S)
  next
    fix d assume d: "lalive ?s d" "linit ?s \<noteq> Some d"
    show "(\<exists>q. d \<in> set (held_by ?s q)) \<or> d \<in> fst ` set (lreaped ?s)"
    proof (cases "d = ?c")
      case True
      then have "d \<in> set (held_by ?s p)" by (simp add: h)
      then show ?thesis by blast
    next
      case False
      then have "(\<exists>q. d \<in> set (held_by s q)) \<or> d \<in> fst ` set (lreaped s)" using T(5) [of d] d by (simp add: S)
      moreover have "d \<in> set (held_by ?s q)" if "d \<in> set (held_by s q)" for q using that by (auto simp: h)
      ultimately show ?thesis by (auto simp: S)
    qed
  next
    show "distinct (map fst (lreaped ?s))" using T(6) by (simp add: S)
    show "\<forall>(d, code) \<in> set (lreaped ?s). lzombie (lprocs ?s d) \<and> lexit_code (lprocs ?s d) = code"
      using T(7) nr2 by (auto simp: S)
  qed
  moreover have "pc_ok ?s q" for q
  proof -
    have nt: "?c \<notin> set (in_transit (lpcs s q))" using un [of q] by (simp add: held_by_def)
    show ?thesis
      using T(8) [of q] pc p c nt by (cases "q = p"; cases "q = ?c")
        (auto simp: pc_ok_def S lproc_new_def in_transit_def split: lpc.splits)
  qed
  ultimately show ?thesis using T(9) by (simp add: tree_ok_def S)
qed

lemma wait_scan_cases:
  obtains (park) "wait_scan f nb procs cs = (Pending, cs)" "\<forall>c \<in> set cs. pid_match f c \<longrightarrow> \<not> lzombie (procs c)"
      "\<exists>c \<in> set cs. pid_match f c" "\<not> nb"
  | (out) r where "wait_scan f nb procs cs = (Ready r, cs)" "r = NoChildren \<or> r = WouldBlock"
  | (reap) c where "wait_scan f nb procs cs = (Ready (Reaped c (lexit_code (procs c))), remove1 c cs)" "c \<in> set cs" "lzombie (procs c)" "pid_match f c"
proof (cases "List.find (\<lambda>c. pid_match f c \<and> lzombie (procs c)) cs")
  case None
  have n: "\<forall>c \<in> set cs. pid_match f c \<longrightarrow> \<not> lzombie (procs c)" using None by (auto simp: find_None_iff)
  show thesis
  proof (cases "cs = [] \<or> (f \<noteq> None \<and> \<not> list_ex (pid_match f) cs) \<or> nb")
    case True
    then have "\<exists>r. wait_scan f nb procs cs = (Ready r, cs) \<and> (r = NoChildren \<or> r = WouldBlock)"
      using None by (auto simp: wait_scan_def)
    then show thesis using out by blast
  next
    case False
    then have "\<exists>c \<in> set cs. pid_match f c" by (cases cs) (auto simp: list_ex_iff pid_match_def split: option.splits)
    then show thesis using park n None False by (simp add: wait_scan_def)
  qed
next
  case (Some c)
  then have "c \<in> set cs" "lzombie (procs c)" "pid_match f c" by (auto simp: find_Some_iff)
  moreover have "cs \<noteq> []" using Some by auto
  ultimately show thesis using reap [of c] Some by (simp add: wait_scan_def)
qed

lemma tree_wait_step:
  assumes ok: "tree_ok s"
  shows "tree_ok (wait_step p s)"
proof (cases "lpcs s p")
  case (WScan f nb)
  note T = tree_okD [OF ok]
  let ?cs = "lchildren (lprocs s p)"
  have p: "lalive s p" "\<not> lzombie (lprocs s p)" "\<not> lnext s \<le> p" using T(8) [of p] WScan by (auto simp: pc_ok_def)
  show ?thesis
  proof (cases rule: wait_scan_cases [of f nb "lprocs s" ?cs])
    case park
    have "tree_ok (lgoto p (WParked f nb) s)" by (rule tree_move [OF ok]) (use WScan p in \<open>auto simp: in_transit_def\<close>)
    then show ?thesis using park by (simp add: wait_step_def WScan)
  next
    case (out r)
    show ?thesis
      by (rule links_frame [OF ok, of _ p])
        (use out WScan p T(8) [of p] in \<open>auto simp: wait_step_def in_transit_def pc_ok_def split: wait_outcome.splits\<close>)
  next
    case (reap c)
    let ?s = "wait_step p s"
    have S: "lprocs ?s = (lprocs s)(p := (lprocs s p)\<lparr>lchildren := remove1 c ?cs\<rparr>)" "lalive ?s = lalive s"
      "lpcs ?s = (lpcs s)(p := WOut (Reaped c (lexit_code (lprocs s c))))" "linit ?s = linit s" "lnext ?s = lnext s"
      "lreaped ?s = lreaped s @ [(c, lexit_code (lprocs s c))]"
      using reap by (simp_all add: wait_step_def WScan)
    have ch: "c \<in> set (held_by s p)" using reap(2) by (simp add: held_by_def)
    have hp: "held_by s p = ?cs" "held_by ?s p = remove1 c ?cs" using WScan by (simp_all add: held_by_def S in_transit_def)
    have dc: "distinct ?cs" using T(1) [of p] hp by simp
    have h: "set (held_by ?s q) = set (held_by s q) - {c}" for q
    proof (cases "q = p")
      case True
      then show ?thesis using hp dc by (simp add: set_remove1_eq)
    next
      case False
      then have "held_by ?s q = held_by s q" by (simp add: held_by_def S)
      moreover have "c \<notin> set (held_by s q)" using T(2) [OF ch] False by blast
      ultimately show ?thesis by auto
    qed
    have "forest ?s"
      unfolding forest_def
    proof (intro conjI allI impI)
      show "distinct (held_by ?s q)" for q
      proof (cases "q = p")
        case False
        then have "held_by ?s q = held_by s q" by (simp add: held_by_def S)
        then show ?thesis using T(1) [of q] by simp
      qed (use hp dc in simp)
      show "q = r" if "d \<in> set (held_by ?s q)" "d \<in> set (held_by ?s r)" for q r d using that T(2) [of d q r] by (simp add: h)
      show "lparent (lprocs ?s d) = Some q" if "d \<in> set (lchildren (lprocs ?s q))" for q d
      proof -
        have "d \<in> set (lchildren (lprocs s q))" using that using set_remove1_subset [of c ?cs] by (auto simp: S split: if_splits)
        then show ?thesis using T(3) by (auto simp: S)
      qed
      show "lalive ?s d" "lalive ?s q" "linit ?s \<noteq> Some d" "d \<notin> fst ` set (lreaped ?s)" if "d \<in> set (held_by ?s q)" for q d
        using that T(4) [of d q] by (auto simp: h S)
      show "(\<exists>q. d \<in> set (held_by ?s q)) \<or> d \<in> fst ` set (lreaped ?s)" if "lalive ?s d" "linit ?s \<noteq> Some d" for d
        using T(5) [of d] that by (auto simp: h S)
      show "distinct (map fst (lreaped ?s))" using T(6) T(4) [OF ch] by (auto simp: S)
      show "\<forall>(d, code) \<in> set (lreaped ?s). lzombie (lprocs ?s d) \<and> lexit_code (lprocs ?s d) = code"
        using T(7) reap(3) by (auto simp: S)
    qed
    moreover have "pc_ok ?s q" for q
      using T(8) [of q] p WScan by (cases "q = p") (auto simp: pc_ok_def S split: lpc.splits)
    ultimately show ?thesis using T(9) by (simp add: tree_ok_def S)
  qed
next
  case (WStart f nb)
  have p: "pc_ok s p" by (rule tree_okD(8) [OF ok])
  have "tree_ok (lgoto p (if lkilled (lprocs s p) then WOut Killed else WReg f nb) s)"
    by (rule tree_move [OF ok]) (use p WStart in \<open>auto simp: in_transit_def pc_ok_def split: if_splits\<close>)
  then show ?thesis by (simp add: wait_step_def WStart)
next
  case (WReg f nb)
  have p: "pc_ok s p" by (rule tree_okD(8) [OF ok])
  show ?thesis
    by (rule links_frame [OF ok, of _ p]) (use p WReg in \<open>auto simp: wait_step_def in_transit_def pc_ok_def\<close>)
qed (use ok in \<open>simp_all add: wait_step_def\<close>)

lemma tree_drop:
  assumes ok: "tree_ok s" and c: "lpcs s c = XDone" "\<forall>p. c \<notin> set (held_by s p)"
  shows "tree_ok (s\<lparr>lalive := (lalive s)(c := False)\<rparr>)"
proof -
  note T = tree_okD [OF ok]
  let ?s = "s\<lparr>lalive := (lalive s)(c := False)\<rparr>"
  have h: "held_by ?s q = held_by s q" for q by (simp add: held_by_def)
  have "lchildren (lprocs s c) = []" using T(8) [of c] c(1) by (simp add: pc_ok_def)
  then have none: "held_by s c = []" using c(1) by (simp add: held_by_def in_transit_def)
  have "forest ?s"
    unfolding forest_def h
  proof (intro conjI allI impI)
    fix q d assume d: "d \<in> set (held_by s q)"
    then have "d \<noteq> c" "q \<noteq> c" using c(2) none by auto
    then show "lalive ?s d" "lalive ?s q" "linit ?s \<noteq> Some d" "d \<notin> fst ` set (lreaped ?s)" using T(4) [OF d] by auto
  next
    show "(\<exists>q. d \<in> set (held_by s q)) \<or> d \<in> fst ` set (lreaped ?s)" if "lalive ?s d" "linit ?s \<noteq> Some d" for d
      using T(5) [of d] that by (auto split: if_splits)
  qed (use T(1,2,3,6,7) in auto)
  moreover have "pc_ok ?s q" for q
    using T(8) [of q] c(1) by (cases "q = c") (auto simp: pc_ok_def split: lpc.splits)
  ultimately show ?thesis using T(9) by (simp add: tree_ok_def)
qed

lemma tree_step:
  assumes "lstep s s'" "tree_ok s"
  shows "tree_ok s'"
  using assms
proof induction
  case (fork s p)
  then show ?case by (intro tree_fork)
next
  case (exit s p code)
  show ?case by (rule tree_move [OF exit.prems]) (use exit.hyps in \<open>auto simp: in_transit_def\<close>)
next
  case (wait s p pid opts ok c)
  then have "\<exists>f nb. c = WStart f nb" by (auto simp: sys_waitpid_def split: if_splits)
  then show ?case by (intro tree_move [OF wait.prems]) (use wait.hyps in \<open>auto simp: in_transit_def\<close>)
next
  case (exiting s p)
  then show ?case by (rule tree_exit_step)
next
  case (waiting s p)
  then show ?case by (rule tree_wait_step)
next
  case (returned s p r)
  show ?case by (rule tree_move [OF returned.prems]) (use returned.hyps in \<open>auto simp: in_transit_def\<close>)
next
  case (repoll s p f nb)
  have "pc_ok s p" by (rule tree_okD(8) [OF repoll.prems])
  then show ?case by (intro links_frame [OF repoll.prems, of _ p]) (use repoll.hyps in \<open>auto simp: in_transit_def pc_ok_def\<close>)
next
  case (kill s p)
  have "pc_ok s p" by (rule tree_okD(8) [OF kill.prems])
  then show ?case by (intro links_frame [OF kill.prems, of _ p]) (auto simp: pc_ok_def split: lpc.splits)
next
  case (wake s p)
  have "pc_ok s p" by (rule tree_okD(8) [OF wake.prems])
  then show ?case by (intro links_frame [OF wake.prems, of _ p]) (auto simp: pc_ok_def split: lpc.splits)
next
  case (drop s c)
  then show ?case by (intro tree_drop)
qed

lemma tree_reach: "lreach s \<Longrightarrow> tree_ok s"
  by (induction rule: lreach.induct) (auto intro: tree_boot tree_step)

section \<open>Waiting parents\<close>

text \<open>Process \<open>u\<close> is about to wake \<open>p\<close>.\<close>

definition about_to_wake :: "life \<Rightarrow> nat \<Rightarrow> nat \<Rightarrow> bool" where
  "about_to_wake s u p \<longleftrightarrow> lpcs s u = XWake (Some p) \<or> (lpcs s u = XParent \<and> lparent (lprocs s u) = Some p) \<or>
     (\<exists>code. lpcs s u = XWakeInit code p)"

definition wait_ok :: "life \<Rightarrow> nat \<Rightarrow> bool" where
  "wait_ok s p \<longleftrightarrow> (\<forall>f nb. lpcs s p = WScan f nb \<or> lpcs s p = WParked f nb \<longrightarrow> lwaker (lprocs s p) \<or> lqueue s p) \<and>
     (\<forall>f nb c. lpcs s p = WParked f nb \<longrightarrow> \<not> lqueue s p \<longrightarrow> c \<in> set (lchildren (lprocs s p)) \<longrightarrow> pid_match f c \<longrightarrow> lzombie (lprocs s c) \<longrightarrow>
        (\<exists>u. about_to_wake s u p))"

lemma wait_okI:
  assumes "\<And>f nb. lpcs s p = WScan f nb \<or> lpcs s p = WParked f nb \<Longrightarrow> lwaker (lprocs s p) \<or> lqueue s p"
    and "\<And>f nb c. lpcs s p = WParked f nb \<Longrightarrow> \<not> lqueue s p \<Longrightarrow> c \<in> set (lchildren (lprocs s p)) \<Longrightarrow> pid_match f c \<Longrightarrow>
      lzombie (lprocs s c) \<Longrightarrow> \<exists>u. about_to_wake s u p"
  shows "wait_ok s p"
  using assms by (auto simp: wait_ok_def)

lemma wait_okD:
  assumes "wait_ok s p"
  shows "\<And>f nb. lpcs s p = WScan f nb \<or> lpcs s p = WParked f nb \<Longrightarrow> lwaker (lprocs s p) \<or> lqueue s p"
    and "\<And>f nb c. lpcs s p = WParked f nb \<Longrightarrow> \<not> lqueue s p \<Longrightarrow> c \<in> set (lchildren (lprocs s p)) \<Longrightarrow> pid_match f c \<Longrightarrow>
      lzombie (lprocs s c) \<Longrightarrow> \<exists>u. about_to_wake s u p"
  using assms by (auto simp: wait_ok_def)

lemma wait_frame:
  assumes ok: "wait_ok s p" and pc: "lpcs s' p = lpcs s p" and q: "lqueue s p \<Longrightarrow> lqueue s' p"
    and w: "lwaker (lprocs s p) \<Longrightarrow> lwaker (lprocs s' p) \<or> lqueue s' p"
    and ch: "\<And>c. c \<in> set (lchildren (lprocs s' p)) \<Longrightarrow> lzombie (lprocs s' c) \<Longrightarrow>
      c \<in> set (lchildren (lprocs s p)) \<and> lzombie (lprocs s c) \<or> (\<exists>u. about_to_wake s' u p)"
    and ab: "\<And>u f nb. about_to_wake s u p \<Longrightarrow> lpcs s p = WParked f nb \<Longrightarrow> \<not> lqueue s p \<Longrightarrow> (\<exists>v. about_to_wake s' v p) \<or> lqueue s' p"
  shows "wait_ok s' p"
proof (rule wait_okI)
  show "lwaker (lprocs s' p) \<or> lqueue s' p" if "lpcs s' p = WScan f nb \<or> lpcs s' p = WParked f nb" for f nb
    using wait_okD(1) [OF ok, of f nb] that pc q w by auto
  show "\<exists>u. about_to_wake s' u p"
    if c: "lpcs s' p = WParked f nb" "\<not> lqueue s' p" "c \<in> set (lchildren (lprocs s' p))" "pid_match f c" "lzombie (lprocs s' c)" for f nb c
  proof (cases "c \<in> set (lchildren (lprocs s p)) \<and> lzombie (lprocs s c)")
    case True
    have nq: "\<not> lqueue s p" using c(2) q by blast
    then obtain u where "about_to_wake s u p" using wait_okD(2) [OF ok, of f nb c] True c pc by auto
    then show ?thesis using ab [of u f nb] c(1,2) pc nq by auto
  qed (use ch c in blast)
qed

lemma wait_keep:
  assumes "wait_ok s p" "lpcs s' p = lpcs s p" "lqueue s p \<Longrightarrow> lqueue s' p" "lwaker (lprocs s p) \<Longrightarrow> lwaker (lprocs s' p) \<or> lqueue s' p"
    and "\<And>c. c \<in> set (lchildren (lprocs s' p)) \<Longrightarrow> lzombie (lprocs s' c) \<Longrightarrow> c \<in> set (lchildren (lprocs s p)) \<and> lzombie (lprocs s c)"
    and "\<And>u. about_to_wake s u p \<Longrightarrow> about_to_wake s' u p"
  shows "wait_ok s' p"
  by (rule wait_frame [OF assms(1)]) (use assms in blast)+

lemma wait_trivial: "(\<And>f nb. lpcs s p \<noteq> WScan f nb \<and> lpcs s p \<noteq> WParked f nb) \<Longrightarrow> wait_ok s p"
  by (simp add: wait_ok_def)

text \<open>A parked process that is woken gets onto the queue.\<close>

lemma wake_waiter_queues:
  assumes "tree_ok s" "wait_ok s p" "lpcs s p = WParked f nb"
  shows "lqueue (wake_waiter p s) p"
proof -
  have "lalive s p" using tree_okD(8) [OF assms(1), of p] assms(3) by (auto simp: pc_ok_def)
  then show ?thesis using wait_okD(1) [OF assms(2), of f nb] assms(3) by (auto simp: wake_waiter_def)
qed

lemma wake_keeps:
  "lqueue s p \<Longrightarrow> lqueue (wake_waiter q s) p" "lwaker (lprocs s p) \<Longrightarrow> lwaker (lprocs (wake_waiter q s) p) \<or> lqueue (wake_waiter q s) p"
  by (auto simp: wake_waiter_def)

lemma wait_exit_step:
  assumes t: "tree_ok s" and ok: "wait_ok s p"
  shows "wait_ok (exit_step u s) p"
proof (cases "u = p")
  case True
  show ?thesis
  proof (cases "exits (lpcs s p)")
    case e: True
    show ?thesis
      by (rule wait_trivial) (use True e in \<open>cases "lpcs s p"; auto simp: exit_step_def Let_def split: option.splits list.splits\<close>)
  next
    case False
    then have "exit_step u s = s" using True by (cases "lpcs s p") (auto simp: exit_step_def)
    then show ?thesis using ok by simp
  qed
next
  case False
  note T = tree_okD [OF t]
  have pu: "p \<noteq> u" using False by simp
  show ?thesis
  proof (cases "lpcs s u")
    case (XTake code)
    show ?thesis
      by (rule wait_keep [OF ok]) (use XTake pu in \<open>auto simp: exit_step_def Let_def about_to_wake_def split: option.splits if_splits\<close>)
  next
    case (XParents code i kids todo)
    show ?thesis
    proof (cases todo)
      case Nil
      show ?thesis
        by (rule wait_keep [OF ok]) (use XParents Nil pu in \<open>auto simp: exit_step_def about_to_wake_def\<close>)
    next
      case (Cons k ks)
      have k: "lparent (lprocs s k) = Some u" using T(8) [of u] XParents Cons by (simp add: pc_ok_def)
      show ?thesis
      proof (rule wait_frame [OF ok])
        fix v f nb assume v: "about_to_wake s v p" "lpcs s p = WParked f nb"
        have "about_to_wake (exit_step u s) v p"
          using v(1) k pu XParents Cons by (auto simp: exit_step_def about_to_wake_def)
        then show "(\<exists>v. about_to_wake (exit_step u s) v p) \<or> lqueue (exit_step u s) p" by blast
      qed (use XParents Cons pu in \<open>auto simp: exit_step_def split: if_splits\<close>)
    qed
  next
    case (XSplice code i kids)
    have new: "about_to_wake (exit_step u s) u i" by (simp add: exit_step_def XSplice about_to_wake_def)
    show ?thesis
    proof (rule wait_frame [OF ok])
      show "c \<in> set (lchildren (lprocs s p)) \<and> lzombie (lprocs s c) \<or> (\<exists>v. about_to_wake (exit_step u s) v p)"
        if "c \<in> set (lchildren (lprocs (exit_step u s) p))" "lzombie (lprocs (exit_step u s) c)" for c
      proof (cases "p = i")
        case False
        then show ?thesis using that pu by (auto simp: exit_step_def XSplice split: if_splits)
      qed (use new in blast)
      fix v f nb assume v: "about_to_wake s v p"
      have "about_to_wake (exit_step u s) v p" using v pu by (auto simp: exit_step_def XSplice about_to_wake_def)
      then show "(\<exists>v. about_to_wake (exit_step u s) v p) \<or> lqueue (exit_step u s) p" by blast
    qed (use XSplice pu in \<open>auto simp: exit_step_def split: if_splits\<close>)
  next
    case (XWakeInit code i)
    have e: "exit_step u s = lgoto u (XZombie code) (wake_waiter i s)" by (simp add: exit_step_def XWakeInit)
    show ?thesis
    proof (rule wait_frame [OF ok])
      fix v f nb assume v: "about_to_wake s v p" "lpcs s p = WParked f nb"
      show "(\<exists>v. about_to_wake (exit_step u s) v p) \<or> lqueue (exit_step u s) p"
      proof (cases "v = u")
        case True
        then have "p = i" using v(1) XWakeInit by (auto simp: about_to_wake_def)
        then show ?thesis using wake_waiter_queues [OF t ok v(2)] by (simp add: e)
      next
        case False
        then have "about_to_wake (exit_step u s) v p" using v(1) by (auto simp: e about_to_wake_def)
        then show ?thesis by blast
      qed
    qed (use pu wake_keeps in \<open>auto simp: e\<close>)
  next
    case (XZombie code)
    have e: "exit_step u s = lgoto u XParent (lset u ((lprocs s u)\<lparr>lexit_code := code, lzombie := True\<rparr>) s)" by (simp add: exit_step_def XZombie)
    show ?thesis
    proof (rule wait_frame [OF ok])
      show "c \<in> set (lchildren (lprocs s p)) \<and> lzombie (lprocs s c) \<or> (\<exists>v. about_to_wake (exit_step u s) v p)"
        if c: "c \<in> set (lchildren (lprocs (exit_step u s) p))" "lzombie (lprocs (exit_step u s) c)" for c
      proof (cases "c = u")
        case True
        have "u \<in> set (lchildren (lprocs s p))" using c(1) True pu by (simp add: e)
        then have "about_to_wake (exit_step u s) u p" using T(3) [of u p] by (simp add: e about_to_wake_def)
        then show ?thesis by blast
      qed (use c pu in \<open>simp add: e\<close>)
      fix v f nb assume v: "about_to_wake s v p"
      then have "v \<noteq> u" using XZombie by (auto simp: about_to_wake_def)
      then have "about_to_wake (exit_step u s) v p" using v by (auto simp: e about_to_wake_def)
      then show "(\<exists>v. about_to_wake (exit_step u s) v p) \<or> lqueue (exit_step u s) p" by blast
    qed (use pu in \<open>auto simp: e\<close>)
  next
    case XParent
    have e: "exit_step u s = lgoto u (XWake (lparent (lprocs s u))) s" by (simp add: exit_step_def XParent)
    show ?thesis
    proof (rule wait_frame [OF ok])
      fix v f nb assume v: "about_to_wake s v p"
      have "about_to_wake (exit_step u s) v p" using v XParent by (cases "v = u") (auto simp: e about_to_wake_def)
      then show "(\<exists>v. about_to_wake (exit_step u s) v p) \<or> lqueue (exit_step u s) p" by blast
    qed (use pu in \<open>auto simp: e\<close>)
  next
    case (XWake tg)
    show ?thesis
    proof (cases tg)
      case None
      show ?thesis
        by (rule wait_keep [OF ok]) (use XWake None pu in \<open>auto simp: exit_step_def about_to_wake_def\<close>)
    next
      case (Some i)
      have e: "exit_step u s = lgoto u XDone (wake_waiter i s)" by (simp add: exit_step_def XWake Some)
      show ?thesis
      proof (rule wait_frame [OF ok])
        fix v f nb assume v: "about_to_wake s v p" "lpcs s p = WParked f nb"
        show "(\<exists>v. about_to_wake (exit_step u s) v p) \<or> lqueue (exit_step u s) p"
        proof (cases "v = u")
          case True
          then have "p = i" using v(1) XWake Some by (auto simp: about_to_wake_def)
          then show ?thesis using wake_waiter_queues [OF t ok v(2)] by (simp add: e)
        next
          case False
          then have "about_to_wake (exit_step u s) v p" using v(1) by (auto simp: e about_to_wake_def)
          then show ?thesis by blast
        qed
      qed (use pu wake_keeps in \<open>auto simp: e\<close>)
    qed
  qed (use ok in \<open>simp_all add: exit_step_def\<close>)
qed

lemma wait_wait_step:
  assumes ok: "wait_ok s p"
  shows "wait_ok (wait_step u s) p"
proof (cases "u = p")
  case True
  show ?thesis
  proof (cases "lpcs s p")
    case (WScan f nb)
    show ?thesis
    proof (cases rule: wait_scan_cases [of f nb "lprocs s" "lchildren (lprocs s p)"])
      case park
      then have "wait_step u s = lgoto p (WParked f nb) s" using True by (simp add: wait_step_def WScan)
      then show ?thesis using wait_okD(1) [OF ok, of f nb] WScan park(2) by (auto intro!: wait_okI)
    qed (use True WScan in \<open>auto intro!: wait_trivial simp: wait_step_def\<close>)
  next
    case (WReg f nb)
    then show ?thesis using True by (intro wait_okI) (auto simp: wait_step_def)
  qed (use True ok in \<open>auto intro!: wait_trivial simp: wait_step_def\<close>)
next
  case False
  have kids: "c \<in> set (lchildren (lprocs s p)) \<and> lzombie (lprocs s c)"
    if "c \<in> set (lchildren (lprocs (wait_step u s) p))" "lzombie (lprocs (wait_step u s) c)" for c
    using that False by (auto simp: wait_step_def split: lpc.splits prod.splits poll.splits if_splits)
  have ab: "about_to_wake (wait_step u s) v p" if "about_to_wake s v p" for v
    using that by (cases "v = u") (auto simp: about_to_wake_def wait_step_def split: lpc.splits prod.splits poll.splits)
  show ?thesis
    by (rule wait_keep [OF ok _ _ _ kids ab])
      (use False in \<open>auto simp: wait_step_def split: lpc.splits prod.splits poll.splits\<close>)
qed

lemma wait_goto:
  assumes ok: "wait_ok s p" and c: "\<And>f nb. c \<noteq> WScan f nb \<and> c \<noteq> WParked f nb" and nq: "\<not> about_to_wake s q p"
    and s: "lpcs s' = (lpcs s)(q := c)" "lprocs s' = lprocs s" "\<And>r. r \<noteq> q \<Longrightarrow> lqueue s' r = lqueue s r"
  shows "wait_ok s' p"
proof (cases "p = q")
  case True
  then show ?thesis by (intro wait_trivial) (simp add: s c)
next
  case False
  have ab: "about_to_wake s' v p" if "about_to_wake s v p" for v
    using that nq by (cases "v = q") (auto simp: about_to_wake_def s)
  show ?thesis by (rule wait_keep [OF ok _ _ _ _ ab]) (use False s in auto)
qed

lemma wait_step_all:
  assumes "lstep s s'" "tree_ok s" "\<And>p. wait_ok s p"
  shows "wait_ok s' p"
  using assms
proof induction
  case (fork s q)
  let ?c = "lnext s"
  have c: "lpcs s ?c = LRun" "\<not> lalive s ?c" using tree_okD(8) [OF fork(4), of ?c] by (auto simp: pc_ok_def)
  have qc: "q \<noteq> ?c" using fork(1) c(2) by auto
  have S: "lprocs (snd (sys_fork q s)) = (lprocs s)(?c := lproc_new\<lparr>lparent := Some q\<rparr>, q := (lprocs s q)\<lparr>lchildren := lchildren (lprocs s q) @ [?c]\<rparr>)"
    "lpcs (snd (sys_fork q s)) = lpcs s" "lqueue (snd (sys_fork q s)) = lqueue s"
    using qc by (simp_all add: sys_fork_def next_pid_def Let_def)
  show ?case
  proof (cases "p = ?c")
    case True
    then show ?thesis by (intro wait_trivial) (simp add: S c)
  next
    case False
    show ?thesis
    proof (rule wait_keep [OF fork(5)])
      show "about_to_wake (snd (sys_fork q s)) v p" if "about_to_wake s v p" for v
        using that c by (auto simp: about_to_wake_def S)
    qed (use False qc in \<open>auto simp: S lproc_new_def split: if_splits\<close>)
  qed
next
  case (exit s q code)
  show ?case by (rule wait_goto [OF exit(5), where q = q and c = "XTake code"]) (use exit in \<open>auto simp: about_to_wake_def\<close>)
next
  case (wait s q pid opts ok c)
  then have "\<exists>f nb. c = WStart f nb" by (auto simp: sys_waitpid_def split: if_splits)
  then show ?case by (intro wait_goto [OF wait(5), where q = q and c = c]) (use wait in \<open>auto simp: about_to_wake_def\<close>)
next
  case (exiting s u)
  then show ?case by (intro wait_exit_step)
next
  case (waiting s u)
  then show ?case by (intro wait_wait_step)
next
  case (returned s q r)
  show ?case by (rule wait_goto [OF returned(3), where q = q and c = LRun]) (use returned in \<open>auto simp: about_to_wake_def\<close>)
next
  case (repoll s q f nb)
  show ?case by (rule wait_goto [OF repoll(4), where q = q and c = "WStart f nb"]) (use repoll in \<open>auto simp: about_to_wake_def\<close>)
next
  case (kill s q)
  show ?case by (rule wait_keep [OF kill(3) [of p]]) (auto simp: about_to_wake_def split: if_splits)
next
  case (wake s q)
  show ?case by (rule wait_keep [OF wake(2) [of p]]) (auto simp: about_to_wake_def)
next
  case (drop s c)
  show ?case by (rule wait_keep [OF drop(4) [of p]]) (auto simp: about_to_wake_def)
qed

lemma wait_reach: "lreach s \<Longrightarrow> wait_ok s p"
proof (induction arbitrary: p rule: lreach.induct)
  case boot
  then show ?case by (simp add: wait_ok_def life_boot_def)
next
  case (more s s')
  then show ?case using wait_step_all [OF more(2) tree_reach [OF more(1)]] by blast
qed

section \<open>Properties\<close>

text \<open>C21. Every process has a parent to reap it: under any interleaving of forks, exits and waits of all
  processes, a live process other than init that has not been reaped is held by exactly one other live
  process, once: it is in the children of a process that has not begun to give them away, which is the parent
  it points to, or it is on its way from an exiting parent to init.\<close>

theorem processes_form_tree:
  assumes "lreach s" "lalive s c" "linit s \<noteq> Some c" "c \<notin> fst ` set (lreaped s)"
  shows "\<exists>p. (\<forall>q. c \<in> set (held_by s q) \<longleftrightarrow> q = p) \<and> lalive s p \<and> distinct (held_by s p) \<and>
    (c \<in> set (lchildren (lprocs s p)) \<and> lparent (lprocs s c) = Some p \<and> \<not> leaving (lpcs s p) \<or> c \<in> set (in_transit (lpcs s p)))"
proof -
  note T = tree_okD [OF tree_reach [OF assms(1)]]
  obtain p where p: "c \<in> set (held_by s p)" using T(5) [OF assms(2,3)] assms(4) by blast
  then have "\<forall>q. c \<in> set (held_by s q) \<longleftrightarrow> q = p" using T(2) by blast
  moreover have "c \<in> set (lchildren (lprocs s p)) \<and> lparent (lprocs s c) = Some p \<and> \<not> leaving (lpcs s p) \<or> c \<in> set (in_transit (lpcs s p))"
  proof (cases "c \<in> set (lchildren (lprocs s p))")
    case True
    then have "\<not> leaving (lpcs s p)" using T(8) [of p] by (auto simp: pc_ok_def)
    then show ?thesis using True T(3) by blast
  qed (use p in \<open>simp add: held_by_def\<close>)
  ultimately show ?thesis using T(1,4) p by blast
qed

text \<open>C22. No parent sleeps through the exit of a child: a process parked in \<open>waitpid\<close> that nobody has woken has its waker
  registered, and if a child it waits for is a zombie, some process is about to wake it. This covers the race
  in which a child exits while its parent exits and the child is handed to init.\<close>

theorem no_exit_missed:
  assumes "lreach s" "lpcs s p = WParked f nb" "\<not> lqueue s p"
  shows "lwaker (lprocs s p) \<and> (\<forall>c \<in> set (lchildren (lprocs s p)). pid_match f c \<and> lzombie (lprocs s c) \<longrightarrow> (\<exists>u. about_to_wake s u p))"
  using wait_okD [OF wait_reach [OF assms(1), of p]] assms(2,3) by blast

text \<open>C28. An exit status is handed out exactly as it was left, and once: no process is reaped twice, and every status
  returned by a wait is the exit code of a process that has exited.\<close>

theorem reaped_once:
  assumes "lreach s"
  shows "distinct (map fst (lreaped s)) \<and> (\<forall>(c, code) \<in> set (lreaped s). gone (lpcs s c) \<and> lexit_code (lprocs s c) = code)"
proof -
  note T = tree_okD [OF tree_reach [OF assms]]
  have "gone (lpcs s c)" if "lzombie (lprocs s c)" for c using T(8) [of c] that by (simp add: pc_ok_def)
  then show ?thesis using T(6,7) by auto
qed

text \<open>Init forks a child, which exits with status 3 and is reaped.\<close>

definition demo_forked :: life where "demo_forked = snd (sys_fork 1 life_boot)"
definition demo_parked :: life where
  "demo_parked = wait_step 1 (wait_step 1 (wait_step 1 (lgoto 1 (WStart None False) demo_forked)))"
definition demo_reaped :: life where
  "demo_reaped = wait_step 1 (wait_step 1 (wait_step 1 (lgoto 1 (WStart None False)
     (exit_step 2 (exit_step 2 (lgoto 2 (XTake 3) demo_forked))))))"

lemma demo_life: "lreach demo_forked" "lreach demo_parked" "lreach demo_reaped"
proof -
  have w: "lreach (wait_step p s)" if "lreach s" for p s using that lstep.waiting by (rule lreach.more)
  have x: "lreach (exit_step p s)" if "lreach s" for p s using that lstep.exiting by (rule lreach.more)
  have s: "sys_waitpid (-1) 0 True = Inl (WStart None False)" by (simp add: sys_waitpid_def WNOHANG_def)
  show f: "lreach demo_forked"
    unfolding demo_forked_def by (rule lreach.more [OF lreach.boot lstep.fork]) (simp_all add: life_boot_def)
  have "lreach (lgoto 1 (WStart None False) demo_forked)"
    by (rule lreach.more [OF f lstep.wait [OF _ _ s]]) (simp_all add: demo_forked_def sys_fork_def next_pid_def life_boot_def)
  then show "lreach demo_parked" unfolding demo_parked_def by (intro w)
  have "lreach (lgoto 2 (XTake 3) demo_forked)"
    by (rule lreach.more [OF f lstep.exit]) (simp_all add: demo_forked_def sys_fork_def next_pid_def life_boot_def)
  then have "lreach (exit_step 2 (exit_step 2 (lgoto 2 (XTake 3) demo_forked)))" by (intro x)
  then have "lreach (lgoto 1 (WStart None False) (exit_step 2 (exit_step 2 (lgoto 2 (XTake 3) demo_forked))))"
    by (rule lreach.more [OF _ lstep.wait [OF _ _ s]])
      (simp_all add: demo_forked_def sys_fork_def next_pid_def life_boot_def exit_step_def lproc_new_def Let_def)
  then show "lreach demo_reaped" unfolding demo_reaped_def by (intro w)
qed

lemmas demo_life_defs = demo_forked_def demo_parked_def demo_reaped_def sys_fork_def next_pid_def life_boot_def exit_step_def wait_step_def
  wait_scan_def lproc_new_def pid_match_def Let_def

theorem processes_form_tree_witness: "\<exists>p. (\<forall>q. 2 \<in> set (held_by demo_forked q) \<longleftrightarrow> q = p) \<and> lalive demo_forked p"
proof -
  have "lalive demo_forked 2" "linit demo_forked \<noteq> Some 2" "2 \<notin> fst ` set (lreaped demo_forked)" by (simp_all add: demo_life_defs)
  from processes_form_tree [OF demo_life(1) this] show ?thesis by blast
qed

theorem no_exit_missed_witness: "lpcs demo_parked 1 = WParked None False \<and> lwaker (lprocs demo_parked 1)"
  using no_exit_missed [OF demo_life(2), of 1 None False] by (simp add: demo_life_defs)

theorem reaped_once_witness: "lreaped demo_reaped = [(2, 3)] \<and> lexit_code (lprocs demo_reaped 2) = 3"
  using reaped_once [OF demo_life(3)] by (simp add: demo_life_defs)

end
