(* ===== verification/Spec2Isabelle.thy ===== *)
theory Spec2Isabelle
  imports Path Truncate Arm64 Heap Signal Life
begin

text \<open>
  A verification library for the kernel of this repository: an xv6-style, multi-hart, async Unix
  kernel in Rust for RISC-V (Sv39) and aarch64.

  \<^bold>\<open>How the program is modelled.\<close> Every operation of the source is a function on explicit state, in the
  order and with the early returns of the code. A kernel panic (failed \<open>assert!\<close>, \<open>expect\<close>, index out
  of range) is \<open>None\<close> of an option; an error return of the source is a value. Bytes are \<open>8 word\<close>, page-table
  entries, registers and signal masks are words of their width; block numbers, addresses and sizes are
  naturals, with the wrap-around written out where the code can reach it. Where the code runs
  concurrently (spin locks, the executor, the log, the buffer cache, pipes, console, process exit and
  wait), each access to shared state is one step of an inductive relation, every task has a program
  counter, and the theorems quantify over all interleavings.

  \<^bold>\<open>Shared theory.\<close> \<open>Prelude\<close> has slices, little-endian integers and first-match search, with the simp
  collections the other theories use.

  \<^bold>\<open>The file system\<close>, bottom up. The state \<open>fs\<close> of \<open>Bitmap\<close> is the block contents as the buffer cache shows
  them, the superblock and the log.
  \<^item> \<open>Layout\<close> (\<open>xv6-fs-layout/src/lib.rs\<close>): constants, superblock, dinodes, directory entries and their byte
    encodings, with round trips.
  \<^item> \<open>Bio\<close> (\<open>driver/bio.rs\<close>): the buffer cache. Under any interleaving of hits, misses, evictions and flushes it
    is a block store (locale \<open>block_store\<close>), so the layers above may use plain block contents.
  \<^item> \<open>Log\<close> (\<open>fs/log.rs\<close>): admission, absorption, commit and recovery. A crash after any number of block writes
    of a commit, and of any number of interrupted recoveries, leaves all of a transaction or none of it;
    the log is full only when every admitted operation has used its whole reservation, and exactly then
    \<open>log_write\<close> panics, even for a block that is already logged.
  \<^item> \<open>Bitmap\<close> (\<open>fs/bmap.rs\<close>, \<open>fs/superblock.rs\<close>): \<open>balloc\<close> and \<open>bfree\<close>.
  \<^item> \<open>Inode\<close> (\<open>fs/inode.rs\<close>): the definitions for reading, writing, truncating and allocating inodes.
    \<open>Itree\<close> describes a file's blocks by the places that can hold a block number, and the file as bytes
    (\<open>fbyte\<close>); \<open>Iwrite\<close> and \<open>Ifile\<close> prove \<open>readi\<close>, \<open>writei\<close> and \<open>ialloc\<close> against it for a whole volume (\<open>fs_inv\<close>:
    trees well formed, allocated, and disjoint between files). \<open>Itrunc\<close> and \<open>Truncate\<close> do the same for
    \<open>itrunc_to\<close> and \<open>itrunc\<close>, including that a truncation of any size fits its log reservation.
  \<^item> \<open>Dir\<close> (\<open>fs/dir.rs\<close>): lookup, linking, unlinking; a directory is a finite map from names to inodes (locale
    \<open>name_map\<close>).
  \<^item> \<open>Path\<close> (\<open>fs/path.rs\<close>): \<open>namex\<close> on byte strings, with symlink splicing, against resolution component by
    component.

  \<^bold>\<open>Memory.\<close>
  \<^item> \<open>Kalloc\<close> (\<open>kalloc.rs\<close>): the frame allocator with its list threaded through physical memory (locale
    \<open>frame_pool\<close>); frames are conserved.
  \<^item> \<open>Radix\<close>: page-table trees in physical memory for an entry format (locales \<open>radix\<close>, \<open>table_drop\<close>); \<open>Sv39\<close>
    (\<open>hal-riscv64/src/pagetable.rs\<close>) and \<open>Arm64\<close> (\<open>hal-aarch64/src/pagetable.rs\<close>) are its two instances: mapping is
    exact, address spaces are isolated, the destructor returns every frame once.
  \<^item> \<open>Uvm\<close> (\<open>user_vm.rs\<close>, \<open>proc.rs\<close>, \<open>syscall.rs\<close>): demand paging, pointer translation, page faults, \<open>sbrk\<close>, \<open>brk\<close>, \<open>mmap\<close>,
    \<open>munmap\<close> on the RISC-V tables; \<open>Fork\<close> (\<open>Proc::fork_from\<close>): the child gets its own copy.
  \<^item> \<open>Heap\<close> (\<open>heap.rs\<close>): the kernel heap on the words of its arena, against a list of segments.

  \<^bold>\<open>Concurrency and processes.\<close>
  \<^item> \<open>Cpu\<close> (\<open>cpu.rs\<close>, \<open>sync.rs\<close>): interrupt nesting and the spin lock. \<open>Executor\<close> (\<open>executor.rs\<close>): task slots, queues and
    the run loop around an opaque future. \<open>Wait\<close> (\<open>wait.rs\<close>): parked wakers.
  \<^item> \<open>Pipe\<close> (\<open>file.rs\<close>, \<open>syscall.rs\<close>): first in, first out, and no lost wake-up of a reader; a writer's can be
    lost. \<open>Fdtab\<close>: open files, descriptor tables of all processes and the references that calls in progress keep.
  \<^item> \<open>Console\<close> (\<open>console_in.rs\<close>, \<open>console_read\<close>): the line discipline and any number of readers against an
    unbounded line editor.
  \<^item> \<open>Signal\<close> (\<open>usertrap.rs\<close>, \<open>time.rs\<close>, \<open>syscall.rs\<close>): sending, masks, handlers, return, alarms and the timer queues.
  \<^item> \<open>Life\<close> (\<open>syscall.rs\<close>): \<open>fork\<close>, \<open>exit\<close> and \<open>waitpid\<close> interleaved at every lock.

  \<^bold>\<open>Bounds and termination.\<close> Recursive definitions have termination proofs by measures, except the two
  list walks of \<open>Heap\<close>, which chase pointers in memory and are \<open>partial_function (option)\<close>; that they return
  in every reachable state is a theorem. No definition uses fuel: the symlink limit of \<open>namex\<close> is the
  source's \<open>MAX_SYMLINK_HOPS\<close>. The truncation theorems are for volumes of at most four bitmap blocks (16384 blocks;
  \<open>mkfs\<close> makes 2048), which is what a reservation of ten blocks leaves beside the pointer, data and inode
  blocks of one truncation. The runs of \<open>Signal\<close> and \<open>Life\<close> end before the 32-bit counters of processes and of alarm
  generations wrap, and init does not exit in them; those of \<open>Log\<close> keep to \<open>MAXOPBLOCKS\<close> slots per operation.

  \<^bold>\<open>Not modelled.\<close> Device drivers (\<open>virtio_blk.rs\<close>, \<open>virtio_net.rs\<close>, \<open>virtio_input.rs\<close>, \<open>ramfb.rs\<close>), UARTs, interrupt
  controllers, CSR accesses, boot and trap assembly: memory-mapped I/O and machine state outside the
  language. \<open>net.rs\<close> and the socket calls: they drive the third-party TCP/IP stack \<open>smoltcp\<close>. \<open>build.rs\<close>
  and \<open>mkfs\<close>: host tools. ELF loading and \<open>execve\<close>, \<open>poll\<close> and the pathname system calls above \<open>Dir\<close> and \<open>Path\<close>
  (open, unlink, rename and their relatives) are listed in the manifest as not modelled. Device errors,
  which the kernel answers with a panic, and the caching of inodes by \<open>iget\<close> are left out of the
  file-system model: an operation locks an inode by reading it from its block.
\<close>

end
